(* ===== verification/Helix_Prelude.thy ===== *)
theory Helix_Prelude
  imports Main "HOL-Library.Word"
begin

unbundle bit_operations_syntax

text \<open>
  Shared vocabulary of the HelixOS development: the integer types of
  \<open>src/include/helix/types.h\<close>, the Linux error numbers of \<open>src/include/helix/errno.h\<close>,
  the alignment helpers, and the generic facts on lists, words and folds the component
  theories use.

  Conventions. A value whose bit pattern matters (a page table entry, a flag word, a
  checksum, a sequence number, a byte of a buffer) is a word of the C width. An address,
  a size or an index is a \<open>nat\<close> below \<open>2 ^ 64\<close>, and the wrap-around of C's unsigned
  arithmetic is written out with \<open>wrap64\<close> wherever an operation can reach it. A C string
  is the \<open>string\<close> of the characters before its terminating NUL. Output of \<open>kprintf\<close> is
  logging and is left out of every component.
\<close>

section \<open>Machine integers\<close>

type_synonym u8 = "8 word"
type_synonym u16 = "16 word"
type_synonym u32 = "32 word"
type_synonym u64 = "64 word"

type_synonym bytes = "u8 list"

definition wrap64 :: "nat \<Rightarrow> nat" where
  "wrap64 n = n mod 18446744073709551616"

abbreviation (input) PAGE_SIZE :: nat where
  "PAGE_SIZE \<equiv> 4096"

abbreviation (input) LARGE_PAGE_SIZE :: nat where
  "LARGE_PAGE_SIZE \<equiv> 2097152"

definition align_up_u64 :: "u64 \<Rightarrow> u64 \<Rightarrow> u64" where
  "align_up_u64 x a = (x + a - 1) AND NOT (a - 1)"

definition align_down_u64 :: "u64 \<Rightarrow> u64 \<Rightarrow> u64" where
  "align_down_u64 x a = x AND NOT (a - 1)"

text \<open>The same helpers on the \<open>nat\<close> view of a \<open>u64\<close>.\<close>

definition align_up :: "nat \<Rightarrow> nat \<Rightarrow> nat" where
  "align_up x a = unat (align_up_u64 (of_nat x) (of_nat a))"

definition align_down :: "nat \<Rightarrow> nat \<Rightarrow> nat" where
  "align_down x a = unat (align_down_u64 (of_nat x) (of_nat a))"

text \<open>\<open>x--\<close> and \<open>x++\<close> on a \<open>u64\<close> counter.\<close>

definition dec64 :: "nat \<Rightarrow> nat" where
  "dec64 n = wrap64 (n + 18446744073709551615)"

definition inc64 :: "nat \<Rightarrow> nat" where
  "inc64 n = wrap64 (n + 1)"

section \<open>Error numbers\<close>

abbreviation (input) EPERM :: int where "EPERM \<equiv> 1"
abbreviation (input) ENOENT :: int where "ENOENT \<equiv> 2"
abbreviation (input) ESRCH :: int where "ESRCH \<equiv> 3"
abbreviation (input) EIO :: int where "EIO \<equiv> 5"
abbreviation (input) ENOEXEC :: int where "ENOEXEC \<equiv> 8"
abbreviation (input) EBADF :: int where "EBADF \<equiv> 9"
abbreviation (input) ECHILD :: int where "ECHILD \<equiv> 10"
abbreviation (input) EAGAIN :: int where "EAGAIN \<equiv> 11"
abbreviation (input) ENOMEM :: int where "ENOMEM \<equiv> 12"
abbreviation (input) EFAULT :: int where "EFAULT \<equiv> 14"
abbreviation (input) EINVAL :: int where "EINVAL \<equiv> 22"
abbreviation (input) ENOSYS :: int where "ENOSYS \<equiv> 38"
abbreviation (input) EADDRINUSE :: int where "EADDRINUSE \<equiv> 98"

section \<open>Characters\<close>

abbreviation (input) NUL :: char where "NUL \<equiv> CHR 0x00"
abbreviation (input) SLASH :: char where "SLASH \<equiv> CHR 0x2F"
abbreviation (input) DOT :: char where "DOT \<equiv> CHR 0x2E"

text \<open>A string has no NUL before its end.\<close>

definition c_str :: "string \<Rightarrow> bool" where
  "c_str s \<longleftrightarrow> NUL \<notin> set s"

named_theorems helix_simps \<open>functional facts the component proofs rewrite with\<close>
named_theorems helix_inv \<open>invariant preservation facts\<close>

section \<open>Counters\<close>

lemma wrap64_less [simp]: "wrap64 n < 18446744073709551616"
  by (simp add: wrap64_def)

lemma wrap64_id [simp]: "n < 18446744073709551616 \<Longrightarrow> wrap64 n = n"
  by (simp add: wrap64_def)

lemma wrap64_le: "wrap64 n \<le> n"
  by (simp add: wrap64_def)

lemma dec64_pos [simp]: "0 < n \<Longrightarrow> n \<le> 18446744073709551616 \<Longrightarrow> dec64 n = n - 1"
  by (cases n) (auto simp: dec64_def wrap64_def mod_simps)

lemma inc64_less [simp]: "n < 18446744073709551615 \<Longrightarrow> inc64 n = Suc n"
  by (simp add: inc64_def wrap64_def)

section \<open>Alignment\<close>

lemma unat_u64_less: "unat x < 18446744073709551616" for x :: u64
  using unsigned_less [of x, where 'a = nat] by simp

lemma unat_and_not_mask:
  "unat (x AND NOT (2 ^ k - 1)) = unat x div 2 ^ k * 2 ^ k" for x :: u64
proof -
  have "x AND NOT (mask k) = push_bit k (drop_bit k x)"
    by (rule bit_word_eqI) (auto simp: bit_simps)
  then have "unat (x AND NOT (mask k)) = unat (push_bit k (drop_bit k x))"
    by simp
  also have "\<dots> = unat x div 2 ^ k * 2 ^ k"
  proof -
    have "unat x div 2 ^ k * 2 ^ k < 2 ^ 64"
      using le_less_trans [OF div_times_less_eq_dividend unat_u64_less] by simp
    moreover have "unat (push_bit k (drop_bit k x)) = take_bit 64 (push_bit k (drop_bit k (unat x)))"
      by (simp only: unsigned_push_bit_eq unsigned_drop_bit_eq len_num1 len_bit0)
        (simp add: take_bit_push_bit drop_bit_take_bit)
    ultimately show ?thesis
      by (simp only: push_bit_eq_mult drop_bit_eq_div take_bit_eq_mod mod_less)
  qed
  finally show ?thesis by (simp add: mask_eq_exp_minus_1)
qed

lemma align_up_pow2:
  "align_up x (2 ^ k) = wrap64 (x + (2 ^ k - 1)) div 2 ^ k * 2 ^ k"
proof -
  have "(of_nat (2 ^ k - 1) :: u64) = 2 ^ k - 1"
    by (simp only: of_nat_diff one_le_power one_le_numeral of_nat_power of_nat_numeral of_nat_1)
  then have "of_nat x + of_nat (2 ^ k) - 1 = (of_nat (x + (2 ^ k - 1)) :: u64)"
    by (simp only: of_nat_add of_nat_power of_nat_numeral) (simp add: algebra_simps)
  then show ?thesis
    unfolding align_up_def align_up_u64_def
    by (simp add: unat_and_not_mask unat_of_nat wrap64_def)
qed

lemma align_down_pow2:
  "align_down x (2 ^ k) = wrap64 x div 2 ^ k * 2 ^ k"
  unfolding align_down_def align_down_u64_def
  by (simp add: unat_and_not_mask unat_of_nat wrap64_def)

lemmas align_up_16 = align_up_pow2 [of _ 4, simplified]
lemmas align_up_page = align_up_pow2 [of _ 12, simplified]
lemmas align_up_large = align_up_pow2 [of _ 21, simplified]
lemmas align_down_page = align_down_pow2 [of _ 12, simplified]

lemma align_up_dvd: "2 ^ k dvd align_up x (2 ^ k)"
  by (simp add: align_up_pow2)

lemma align_up_ge: "x + (2 ^ k - 1) < 2 ^ 64 \<Longrightarrow> x \<le> align_up x (2 ^ k)"
proof -
  assume a: "x + (2 ^ k - 1) < 2 ^ 64"
  define y where "y = x + (2 ^ k - 1)"
  have "y div 2 ^ k * 2 ^ k + y mod 2 ^ k = y" by (simp add: div_mult_mod_eq)
  moreover have "y mod 2 ^ k < 2 ^ k" by simp
  ultimately have "x \<le> y div 2 ^ k * 2 ^ k"
    unfolding y_def by linarith
  with a show ?thesis by (simp add: align_up_pow2 y_def wrap64_def)
qed

end
