(* ===== verification/LibK.thy ===== *)
theory LibK
  imports Helix_Prelude
begin

text \<open>
  The freestanding C library, \<open>src/libk/string.c\<close> and \<open>src/libk/kprintf.c\<close>.

  The memory functions work on a byte store \<open>nat \<Rightarrow> u8\<close>, byte by byte in the order of the
  source, because the result of a copy between overlapping ranges depends on that order.
  \<open>strlen\<close> walks the store until it meets a NUL byte, which it may never do: it is a
  partial function, and its theorem shows that it returns on a terminated string.
  \<open>strcmp\<close> and \<open>strncmp\<close> are on the characters of a string, with NUL read at its end.

  \<open>kvprintf\<close> returns the characters it sends to the serial port. Its variadic arguments
  are a list: integers as the 64-bit slot they are passed in, strings with NULL as
  \<open>None\<close>. Reading an argument that is not there, or of the other kind, is undefined in C
  and gives \<open>None\<close>.
\<close>

section \<open>Memory\<close>

type_synonym store = "nat \<Rightarrow> u8"

fun memcpy :: "nat \<Rightarrow> nat \<Rightarrow> nat \<Rightarrow> store \<Rightarrow> store" where
  "memcpy d s 0 m = m"
| "memcpy d s (Suc n) m = memcpy (d + 1) (s + 1) n (m(d := m s))"

fun copy_down :: "nat \<Rightarrow> nat \<Rightarrow> nat \<Rightarrow> store \<Rightarrow> store" where
  "copy_down d s 0 m = m"
| "copy_down d s (Suc n) m = copy_down (d - 1) (s - 1) n (m(d - 1 := m (s - 1)))"

definition memmove :: "nat \<Rightarrow> nat \<Rightarrow> nat \<Rightarrow> store \<Rightarrow> store" where
  "memmove d s n m =
     (if d = s \<or> n = 0 then m
      else if d < s then memcpy d s n m
      else copy_down (d + n) (s + n) n m)"

fun memset :: "nat \<Rightarrow> int \<Rightarrow> nat \<Rightarrow> store \<Rightarrow> store" where
  "memset d c 0 m = m"
| "memset d c (Suc n) m = memset (d + 1) c n (m(d := word_of_int c))"

fun memcmp :: "nat \<Rightarrow> nat \<Rightarrow> nat \<Rightarrow> store \<Rightarrow> int" where
  "memcmp a b 0 m = 0"
| "memcmp a b (Suc n) m = (if m a \<noteq> m b then uint (m a) - uint (m b) else memcmp (a + 1) (b + 1) n m)"

section \<open>Strings\<close>

partial_function (option) strlen_from :: "store \<Rightarrow> nat \<Rightarrow> nat \<Rightarrow> nat option" where
  "strlen_from m s n = (if m (s + n) = 0 then Some n else strlen_from m s (n + 1))"

definition strlen :: "store \<Rightarrow> nat \<Rightarrow> nat option" where
  "strlen m s = strlen_from m s 0"

text \<open>The character a pointer into a string shows, NUL at the end.\<close>

definition cur :: "string \<Rightarrow> char" where
  "cur s = (case s of [] \<Rightarrow> NUL | c # _ \<Rightarrow> c)"

lemma cur_simps [simp]: "cur [] = NUL" "cur (c # s) = c"
  by (simp_all add: cur_def)

abbreviation char_int :: "char \<Rightarrow> int" where
  "char_int c \<equiv> of_char c"

fun strcmp :: "string \<Rightarrow> string \<Rightarrow> int" where
  "strcmp (a # as) bs = (if bs \<noteq> [] \<and> a = hd bs then strcmp as (tl bs) else char_int a - char_int (cur bs))"
| "strcmp [] bs = char_int NUL - char_int (cur bs)"

fun strncmp :: "string \<Rightarrow> string \<Rightarrow> nat \<Rightarrow> int" where
  "strncmp as bs 0 = 0"
| "strncmp (a # as) bs (Suc n) =
     (if bs \<noteq> [] \<and> a = hd bs then strncmp as (tl bs) n else char_int a - char_int (cur bs))"
| "strncmp [] bs (Suc n) = char_int NUL - char_int (cur bs)"

section \<open>Formatted output\<close>

definition digits :: string where
  "digits = ''0123456789abcdef''"

text \<open>The digit loop: the buffer is filled from the least significant digit.\<close>

fun digit_loop :: "nat \<Rightarrow> nat \<Rightarrow> string" where
  "digit_loop val b = (if val = 0 \<or> b < 2 then [] else digits ! (val mod b) # digit_loop (val div b) b)"

declare digit_loop.simps [simp del]

definition put_buf :: "u64 \<Rightarrow> nat \<Rightarrow> nat \<Rightarrow> char \<Rightarrow> string" where
  "put_buf val base width pad =
     (let b = (if base < 2 \<or> base > 16 then 10 else base);
          buf = (if val = 0 then ''0'' else digit_loop (unat val) b)
      in buf @ replicate (width - length buf) pad)"

definition put_unsigned :: "u64 \<Rightarrow> nat \<Rightarrow> nat \<Rightarrow> char \<Rightarrow> string" where
  "put_unsigned val base width pad = rev (put_buf val base width pad)"

definition put_signed :: "u64 \<Rightarrow> string" where
  "put_signed val =
     (if sint val < 0 then CHR ''-'' # put_unsigned (word_of_int (- (sint val + 1)) + 1) 10 0 CHR '' ''
      else put_unsigned val 10 0 CHR '' '')"

datatype vararg = VNum u64 | VStr "string option"

fun va_num :: "vararg list \<Rightarrow> (u64 \<times> vararg list) option" where
  "va_num (VNum n # ap) = Some (n, ap)"
| "va_num _ = None"

fun va_str :: "vararg list \<Rightarrow> (string option \<times> vararg list) option" where
  "va_str (VStr s # ap) = Some (s, ap)"
| "va_str _ = None"

text \<open>An \<open>int\<close> or \<open>unsigned\<close> argument is the low half of its slot.\<close>

definition as_int :: "u64 \<Rightarrow> u64" where
  "as_int n = signed (ucast n :: u32)"

definition as_unsigned :: "u64 \<Rightarrow> u64" where
  "as_unsigned n = ucast (ucast n :: u32)"

text \<open>The \<open>l\<close> modifiers, and the output of one conversion.\<close>

definition skip_l :: "string \<Rightarrow> nat \<times> string" where
  "skip_l fmt = (length (takeWhile (\<lambda>c. c = CHR ''l'') fmt), dropWhile (\<lambda>c. c = CHR ''l'') fmt)"

definition conv :: "char \<Rightarrow> nat \<Rightarrow> vararg list \<Rightarrow> (string \<times> vararg list) option" where
  "conv c long_count ap =
     (if c = CHR ''%'' then Some (''%'', ap)
      else if c = CHR ''c'' then
        (case va_num ap of Some (n, ap') \<Rightarrow> Some ([char_of (unat (ucast n :: u8))], ap') | None \<Rightarrow> None)
      else if c = CHR ''s'' then
        (case va_str ap of Some (s, ap') \<Rightarrow> Some (case s of Some t \<Rightarrow> t | None \<Rightarrow> ''(null)'', ap') | None \<Rightarrow> None)
      else if c = CHR ''d'' \<or> c = CHR ''i'' then
        (case va_num ap of
           Some (n, ap') \<Rightarrow> Some (put_signed (if long_count \<ge> 1 then n else as_int n), ap')
         | None \<Rightarrow> None)
      else if c = CHR ''u'' then
        (case va_num ap of
           Some (n, ap') \<Rightarrow> Some (put_unsigned (if long_count \<ge> 1 then n else as_unsigned n) 10 0 CHR '' '', ap')
         | None \<Rightarrow> None)
      else if c = CHR ''x'' then
        (case va_num ap of
           Some (n, ap') \<Rightarrow> Some (put_unsigned (if long_count \<ge> 1 then n else as_unsigned n) 16 0 CHR '' '', ap')
         | None \<Rightarrow> None)
      else if c = CHR ''p'' then
        (case va_num ap of Some (n, ap') \<Rightarrow> Some (''0x'' @ put_unsigned n 16 0 CHR '' '', ap') | None \<Rightarrow> None)
      else Some (if c = NUL then ''%'' else [CHR ''%'', c], ap))"

lemma skip_l_shorter: "length (snd (skip_l fmt)) \<le> length fmt"
  by (simp add: skip_l_def length_dropWhile_le)

function (sequential) kvprintf :: "string \<Rightarrow> vararg list \<Rightarrow> string option" where
  "kvprintf [] ap = Some []"
| "kvprintf (c # fmt) ap =
     (if c \<noteq> CHR ''%'' then map_option (Cons c) (kvprintf fmt ap)
      else let (long_count, rest) = skip_l fmt
           in case conv (cur rest) long_count ap of
                None \<Rightarrow> None
              | Some (out, ap') \<Rightarrow>
                  if rest = [] then Some out else map_option ((@) out) (kvprintf (tl rest) ap'))"
  by pat_completeness auto
termination
proof (relation "measure (length \<circ> fst)")
  fix c fmt and ap :: "vararg list" and x long_count rest y out ap'
  assume "x = skip_l fmt" "(long_count, rest) = x"
  then have "length rest \<le> length fmt" using skip_l_shorter [of fmt] by (metis snd_conv)
  then show "((tl rest, ap'), c # fmt, ap) \<in> measure (length \<circ> fst)" by simp
qed auto

section \<open>Copying\<close>

text \<open>The content of a range after all its bytes have been copied at once.\<close>

definition copied :: "nat \<Rightarrow> nat \<Rightarrow> nat \<Rightarrow> store \<Rightarrow> store" where
  "copied d s n m = (\<lambda>a. if d \<le> a \<and> a < d + n then m (s + (a - d)) else m a)"

lemma copied_zero [simp]: "copied d s 0 m = m"
  by (rule ext) (auto simp: copied_def)

lemma memcpy_forward:
  "d \<le> s \<or> s + n \<le> d \<Longrightarrow> memcpy d s n m = copied d s n m"
proof (induction n arbitrary: d s m)
  case 0
  show ?case by simp
next
  case (Suc n)
  have "d + 1 \<le> s + 1 \<or> s + 1 + n \<le> d + 1" using Suc.prems by auto
  then have "memcpy d s (Suc n) m = copied (d + 1) (s + 1) n (m(d := m s))"
    by (simp only: memcpy.simps Suc.IH)
  moreover have "copied (d + 1) (s + 1) n (m(d := m s)) a = copied d s (Suc n) m a" for a
  proof (cases "d + 1 \<le> a \<and> a < d + 1 + n")
    case True
    then have "s + 1 + (a - (d + 1)) = s + (a - d)" "s + (a - d) \<noteq> d" using Suc.prems by auto
    with True show ?thesis by (simp add: copied_def)
  qed (auto simp: copied_def)
  ultimately show ?case by (simp add: fun_eq_iff)
qed

lemma copy_down_backward:
  "s \<le> d \<Longrightarrow> copy_down (d + n) (s + n) n m = copied d s n m"
proof (induction n arbitrary: m)
  case (Suc n)
  have "copy_down (d + Suc n) (s + Suc n) (Suc n) m = copied d s n (m(d + n := m (s + n)))"
    by (simp only: copy_down.simps add_Suc_right diff_Suc_1 Suc.IH [OF Suc.prems])
  moreover have "copied d s n (m(d + n := m (s + n))) a = copied d s (Suc n) m a" for a
  proof (cases "d \<le> a \<and> a < d + n")
    case True
    then have "s + (a - d) \<noteq> d + n" using Suc.prems by linarith
    with True show ?thesis by (simp add: copied_def)
  next
    case False
    then show ?thesis by (cases "a = d + n") (auto simp: copied_def)
  qed
  ultimately show ?case by (simp add: fun_eq_iff)
qed simp

lemma memset_range: "memset d c n m = (\<lambda>a. if d \<le> a \<and> a < d + n then word_of_int c else m a)"
  by (induction n arbitrary: d m) (auto simp: fun_eq_iff)

lemma memcmp_zero: "memcmp a b n m = 0 \<longleftrightarrow> (\<forall>i<n. m (a + i) = m (b + i))"
proof (induction n arbitrary: a b)
  case (Suc n)
  then show ?case by (auto simp: less_Suc_eq_0_disj dest: unsigned_word_eqI)
qed simp

section \<open>Comparing and measuring\<close>

lemma of_char_eq_0: "char_int c = 0 \<longleftrightarrow> c = NUL"
  using of_char_eq_iff [of c NUL, where 'a = int] by simp

lemma strcmp_zero_iff: "c_str a \<Longrightarrow> c_str b \<Longrightarrow> strcmp a b = 0 \<longleftrightarrow> a = b"
proof (induction a arbitrary: b)
  case Nil
  then show ?case by (cases b) (auto simp: c_str_def of_char_eq_0)
next
  case (Cons c a)
  then show ?case
    by (cases b) (auto simp: c_str_def of_char_eq_0)
qed

lemma strlen_from_terminated:
  assumes "m (s + (n + k)) = 0" "\<forall>i<k. m (s + (n + i)) \<noteq> 0"
  shows "strlen_from m s n = Some (n + k)"
  using assms
proof (induction k arbitrary: n)
  case 0
  then show ?case by (subst strlen_from.simps) simp
next
  case (Suc k)
  have "m (s + n) \<noteq> 0" using Suc.prems(2) by (metis add.right_neutral zero_less_Suc)
  moreover have "strlen_from m s (n + 1) = Some (n + 1 + k)"
  proof (rule Suc.IH)
    show "m (s + (n + 1 + k)) = 0" using Suc.prems(1) by simp
    show "\<forall>i<k. m (s + (n + 1 + i)) \<noteq> 0"
    proof (intro allI impI)
      fix i assume "i < k"
      then show "m (s + (n + 1 + i)) \<noteq> 0" using Suc.prems(2) [rule_format, of "Suc i"] by simp
    qed
  qed
  ultimately show ?case by (subst strlen_from.simps) simp
qed

section \<open>Numbers in print\<close>

definition digit_val :: "char \<Rightarrow> nat" where
  "digit_val c = (if c \<in> set (take 10 digits) then of_char c - 48 else of_char c - 87)"

definition parse_num :: "nat \<Rightarrow> string \<Rightarrow> nat" where
  "parse_num b s = foldl (\<lambda>n c. n * b + digit_val c) 0 s"

lemma digit_val_nth: "d < 16 \<Longrightarrow> digit_val (digits ! d) = d"
proof -
  assume "d < 16"
  then have "d \<in> set [0..<16]" by simp
  moreover have "\<forall>d \<in> set [0..<16]. digit_val (digits ! d) = d"
    by (simp add: upt_conv_Cons digit_val_def digits_def)
  ultimately show ?thesis by blast
qed

lemma parse_num_snoc: "parse_num b (s @ [c]) = parse_num b s * b + digit_val c"
  by (simp add: parse_num_def)

lemma parse_digit_loop: "2 \<le> b \<Longrightarrow> b \<le> 16 \<Longrightarrow> parse_num b (rev (digit_loop v b)) = v"
proof (induction v b rule: digit_loop.induct)
  case (1 v b)
  show ?case
  proof (cases "v = 0")
    case True
    then show ?thesis by (subst digit_loop.simps) (simp add: parse_num_def)
  next
    case False
    have "v mod b < b" using "1.prems" by simp
    then have "v mod b < 16" using "1.prems" by linarith
    then show ?thesis using 1 False
      by (subst digit_loop.simps) (simp add: parse_num_snoc digit_val_nth)
  qed
qed

lemma digit_loop_length: "2 \<le> b \<Longrightarrow> v < b ^ k \<Longrightarrow> length (digit_loop v b) \<le> k"
proof (induction k arbitrary: v)
  case 0
  then show ?case by (subst digit_loop.simps) simp
next
  case (Suc k)
  have "v div b < b ^ k" using Suc.prems by (simp add: less_mult_imp_div_less mult.commute)
  then have "length (digit_loop (v div b) b) \<le> k" by (rule Suc.IH [OF Suc.prems(1)])
  then show ?case by (subst digit_loop.simps) simp
qed

lemma digit_loop_ne: "0 < v \<Longrightarrow> 2 \<le> b \<Longrightarrow> digit_loop v b \<noteq> []"
  by (subst digit_loop.simps) simp

lemma put_unsigned_parse:
  assumes "2 \<le> b" "b \<le> 16"
  shows "parse_num b (put_unsigned v b 0 pad) = unat v"
proof (cases "v = 0")
  case True
  then show ?thesis using assms digit_val_nth [of 0]
    by (simp add: put_unsigned_def put_buf_def parse_num_def digits_def)
next
  case False
  then show ?thesis using assms parse_digit_loop [OF assms]
    by (simp add: put_unsigned_def put_buf_def)
qed

definition parse_signed :: "string \<Rightarrow> int" where
  "parse_signed s = (if cur s = CHR ''-'' then - int (parse_num 10 (tl s)) else int (parse_num 10 s))"

lemma digit_loop_longer: "2 \<le> b \<Longrightarrow> b ^ k \<le> v \<Longrightarrow> k < length (digit_loop v b)"
proof (induction k arbitrary: v)
  case 0
  then show ?case using digit_loop_ne [of v b] by simp
next
  case (Suc k)
  have "b ^ k \<le> v div b" using Suc.prems by (simp add: less_eq_div_iff_mult_less_eq mult.commute)
  then have "k < length (digit_loop (v div b) b)" by (rule Suc.IH [OF Suc.prems(1)])
  moreover have "0 < v" using Suc.prems by (metis gr0I le_zero_eq not_numeral_le_zero power_eq_0_iff)
  ultimately show ?case using Suc.prems(1) by (subst digit_loop.simps) simp
qed

lemma set_digit_loop: "2 \<le> b \<Longrightarrow> b \<le> 16 \<Longrightarrow> set (digit_loop v b) \<subseteq> set digits"
proof (induction v b rule: digit_loop.induct)
  case (1 v b)
  have "v mod b < b" using "1.prems" by simp
  moreover have "length digits = 16" by (simp add: digits_def)
  ultimately have "v mod b < length digits" using "1.prems" by linarith
  then show ?case using 1 by (subst digit_loop.simps) auto
qed

lemma put_unsigned_head: "cur (put_unsigned v 10 0 pad) \<noteq> CHR ''-''"
proof -
  have "set (put_unsigned v 10 0 pad) \<subseteq> set digits"
    using set_digit_loop [of 10 "unat v"] by (auto simp: put_unsigned_def put_buf_def digits_def)
  moreover have "CHR ''-'' \<notin> set digits" by (simp add: digits_def)
  ultimately show ?thesis by (cases "put_unsigned v 10 0 pad") auto
qed

lemma uint_nonneg: "0 \<le> sint v \<Longrightarrow> uint v = sint v" for v :: u64
proof -
  assume "0 \<le> sint v"
  moreover have "sint v < 2 ^ 63" using sint_lt [of v] by simp
  moreover have "uint (word_of_int (sint v) :: u64) = sint v mod 2 ^ 64"
    by (simp only: uint_word_of_int) simp
  then have "uint v = sint v mod 2 ^ 64" by (simp only: of_int_sint scast_id)
  ultimately show ?thesis by simp
qed

lemma int_unat_of_int: "int (unat (word_of_int k :: u64)) = k mod 18446744073709551616"
  by (simp add: uint_word_of_int)

lemma neg_magnitude:
  fixes v :: u64
  assumes "sint v < 0"
  shows "int (unat (word_of_int (- (sint v + 1)) + 1 :: u64)) = - sint v"
proof -
  have "- (2 ^ 63) \<le> sint v" using sint_ge [of v] by simp
  then have "(- sint v) mod 18446744073709551616 = - sint v" using assms by simp
  moreover have "word_of_int (- (sint v + 1)) + 1 = (word_of_int (- sint v) :: u64)" by simp
  ultimately show ?thesis using int_unat_of_int [of "- sint v"] by (simp only:)
qed

text \<open>Doubling every \<open>%\<close> protects a text from interpretation.\<close>

definition escape :: "string \<Rightarrow> string" where
  "escape s = concat (map (\<lambda>c. if c = CHR ''%'' then ''%%'' else [c]) s)"

section \<open>Correctness of the library\<close>

text \<open>
  C36. \<open>memmove\<close> copies as if through a buffer whatever the overlap of source and target:
  afterwards the target holds what the source held before, and nothing else has changed.
\<close>

theorem memmove_copies: "memmove d s n m = copied d s n m"
proof -
  consider "d = s" | "d < s" | "s < d" by linarith
  then show ?thesis
  proof cases
    case 1
    have "copied s s n m = m" by (rule ext) (simp add: copied_def)
    with 1 show ?thesis by (simp add: memmove_def)
  next
    case 2
    then show ?thesis using memcpy_forward [of d s n m] by (auto simp: memmove_def)
  next
    case 3
    then show ?thesis using copy_down_backward [of s d n m] by (auto simp: memmove_def)
  qed
qed

text \<open>
  Printed numbers read back: the digits of \<open>put_unsigned\<close> in any supported base denote
  the value, and \<open>put_signed\<close> prints every 64-bit signed value, the most negative one
  included, as the decimal numeral that denotes it.
\<close>

theorem printed_numbers_read_back:
  "parse_signed (put_signed v) = sint v \<and> (2 \<le> b \<longrightarrow> b \<le> 16 \<longrightarrow> parse_num b (put_unsigned u b 0 pad) = unat u)"
proof (intro conjI impI)
  show "parse_signed (put_signed v) = sint v"
  proof (cases "sint v < 0")
    case True
    then show ?thesis using neg_magnitude [OF True]
      by (simp add: put_signed_def parse_signed_def put_unsigned_parse)
  next
    case False
    then show ?thesis using put_unsigned_head uint_nonneg [of v]
      by (simp add: put_signed_def parse_signed_def put_unsigned_parse)
  qed
qed (rule put_unsigned_parse)

theorem printed_numbers_read_back_witness:
  "parse_num 16 (put_unsigned 255 16 0 CHR '' '') = 255"
  using printed_numbers_read_back [of 0 16 255 "CHR '' ''"] by simp

text \<open>
  The 32-byte buffer of \<open>put_unsigned\<close> is large enough for every 64-bit value in base
  4 and above with a width of at most 32, which covers all calls of \<open>kvprintf\<close>; in base 2,
  which the range check also admits, the largest value needs more than 32 bytes.
\<close>

theorem put_unsigned_buffer:
  "(4 \<le> b \<and> b \<le> 16 \<and> width \<le> 32 \<longrightarrow> length (put_buf v b width pad) \<le> 32)
   \<and> 32 < length (put_buf 0xFFFFFFFFFFFFFFFF 2 0 pad)"
proof (intro conjI impI)
  assume a: "4 \<le> b \<and> b \<le> 16 \<and> width \<le> 32"
  have "unat v < 4 ^ 32" using unat_u64_less [of v] by simp
  also have "(4::nat) ^ 32 \<le> b ^ 32" using a by (intro power_mono) auto
  finally have "length (digit_loop (unat v) b) \<le> 32" using a by (intro digit_loop_length) auto
  then show "length (put_buf v b width pad) \<le> 32" using a by (auto simp: put_buf_def Let_def)
next
  have "unat (0xFFFFFFFFFFFFFFFF :: u64) = 18446744073709551615" by simp
  then have "63 < length (digit_loop (unat (0xFFFFFFFFFFFFFFFF :: u64)) 2)" by (intro digit_loop_longer) simp_all
  then show "32 < length (put_buf 0xFFFFFFFFFFFFFFFF 2 0 pad)" by (simp add: put_buf_def)
qed

theorem put_unsigned_buffer_witness: "length (put_buf 1234 10 8 CHR '' '') \<le> 32"
  using put_unsigned_buffer [of 10 8 1234 "CHR '' ''"] by simp

text \<open>
  \<open>kvprintf\<close> prints a text with every \<open>%\<close> doubled as the text itself and consumes no
  argument.
\<close>

theorem kvprintf_escape: "kvprintf (escape s) ap = Some s"
proof (induction s)
  case (Cons c s)
  then show ?case
    by (cases "c = CHR ''%''") (simp_all add: escape_def skip_l_def conv_def)
qed (simp add: escape_def)

text \<open>
  \<open>strcmp\<close> returns 0 exactly on equal strings and \<open>strlen\<close> returns on every
  terminated string, with its length.
\<close>

theorem strcmp_strlen_correct:
  "(c_str a \<longrightarrow> c_str b \<longrightarrow> (strcmp a b = 0 \<longleftrightarrow> a = b))
   \<and> (m (p + n) = 0 \<and> (\<forall>i<n. m (p + i) \<noteq> 0) \<longrightarrow> strlen m p = Some n)"
  using strcmp_zero_iff strlen_from_terminated [of m p 0 n] by (auto simp: strlen_def)

theorem strcmp_strlen_correct_witness:
  "strcmp ''tmp'' ''tm'' \<noteq> 0 \<and> strlen ((\<lambda>_. 0)(7 := 1, 8 := 2)) 7 = Some 2"
  using strcmp_strlen_correct [of "''tmp''" "''tm''" "(\<lambda>_. 0)(7 := 1, 8 := 2)" 7 2]
  by (simp add: c_str_def less_2_cases_iff)

end
