(* ===== verification/Pmm.thy ===== *)
theory Pmm
  imports Helix_Prelude
begin

text \<open>
  The physical page allocator, \<open>src/kernel/mm/pmm.c\<close>: a bitmap with one bit per 4 KiB
  page (1 = used), a reference count byte per page, and the counters. The static
  variables of the file are the fields of the record \<open>pmm\<close>; the two arrays are held with
  their contents, since the pages they occupy are reserved by \<open>pmm_init\<close>.
\<close>

section \<open>Data\<close>

record mmap_entry =
  e_type :: u32
  e_phys_start :: nat
  e_npages :: nat

record boot_info =
  bi_self :: nat
  bi_mmap_ptr :: nat
  bi_mmap :: "mmap_entry list"
  bi_phys_ceiling :: nat
  bi_image_base :: nat
  bi_image_size :: nat

record pmm =
  g_bitmap_phys :: nat
  g_bitmap :: bytes
  g_refs :: bytes
  g_total_pages :: nat
  g_free_pages :: nat
  g_ceiling :: nat

abbreviation EFI_ConventionalMemory :: u32 where
  "EFI_ConventionalMemory \<equiv> 7"

section \<open>Operations\<close>

definition bm_test :: "pmm \<Rightarrow> nat \<Rightarrow> bool" where
  "bm_test s page = (drop_bit (page mod 8) (g_bitmap s ! (page div 8)) AND 1 \<noteq> 0)"

definition bm_set :: "nat \<Rightarrow> pmm \<Rightarrow> pmm" where
  "bm_set page s = s\<lparr>g_bitmap := (g_bitmap s)
     [page div 8 := (g_bitmap s ! (page div 8)) OR push_bit (page mod 8) 1]\<rparr>"

definition bm_clear :: "nat \<Rightarrow> pmm \<Rightarrow> pmm" where
  "bm_clear page s = s\<lparr>g_bitmap := (g_bitmap s)
     [page div 8 := (g_bitmap s ! (page div 8)) AND NOT (push_bit (page mod 8) 1)]\<rparr>"

definition is_free_type :: "u32 \<Rightarrow> bool" where
  "is_free_type type = (type = EFI_ConventionalMemory)"

text \<open>The body of the loop of \<open>reserve_range\<close> for one page.\<close>

definition reserve_one :: "nat \<Rightarrow> pmm \<Rightarrow> pmm" where
  "reserve_one p s =
     (if \<not> bm_test s p
      then let s1 = bm_set p s
           in if g_free_pages s1 \<noteq> 0 then s1\<lparr>g_free_pages := g_free_pages s1 - 1\<rparr> else s1
      else s)"

definition reserve_range :: "nat \<Rightarrow> nat \<Rightarrow> pmm \<Rightarrow> pmm" where
  "reserve_range phys_start phys_end s =
     (let p0 = phys_start div PAGE_SIZE;
          p1 = wrap64 (phys_end + PAGE_SIZE - 1) div PAGE_SIZE;
          p1 = (if p1 > g_total_pages s then g_total_pages s else p1)
      in fold reserve_one [p0..<p1] s)"

definition pmm_reserve :: "nat \<Rightarrow> nat \<Rightarrow> pmm \<Rightarrow> pmm" where
  "pmm_reserve phys_start phys_end s =
     (if g_bitmap_phys s = 0 \<or> phys_end \<le> phys_start then s
      else reserve_range phys_start phys_end s)"

text \<open>\<open>pmm_init\<close>: the placement of the bitmap, then the marking of free memory.\<close>

definition region_end :: "mmap_entry \<Rightarrow> nat" where
  "region_end e = wrap64 (e_phys_start e + e_npages e * PAGE_SIZE)"

fun place_bitmap :: "mmap_entry list \<Rightarrow> nat \<Rightarrow> nat" where
  "place_bitmap [] bitmap_pages = 0"
| "place_bitmap (e # es) bitmap_pages =
     (if e_type e \<noteq> EFI_ConventionalMemory then place_bitmap es bitmap_pages
      else let start0 = e_phys_start e;
               end = region_end e;
               start1 = (if start0 < 0x100000 then 0x100000 else start0);
               start = align_up start1 PAGE_SIZE
           in if end > start \<and> end - start \<ge> bitmap_pages * PAGE_SIZE then start
              else place_bitmap es bitmap_pages)"

definition mark_free_one :: "nat \<Rightarrow> pmm \<Rightarrow> pmm" where
  "mark_free_one p s =
     (if bm_test s p then (bm_clear p s)\<lparr>g_free_pages := inc64 (g_free_pages s)\<rparr> else s)"

definition mark_region :: "mmap_entry \<Rightarrow> pmm \<Rightarrow> pmm" where
  "mark_region e s =
     (if \<not> is_free_type (e_type e) then s
      else let p0 = e_phys_start e div PAGE_SIZE;
               p1 = wrap64 (region_end e + PAGE_SIZE - 1) div PAGE_SIZE;
               p1 = (if p1 > g_total_pages s then g_total_pages s else p1)
           in fold mark_free_one [p0..<p1] s)"

abbreviation sizeof_mmap_entry :: nat where "sizeof_mmap_entry \<equiv> 40"
abbreviation sizeof_boot_info :: nat where "sizeof_boot_info \<equiv> 80"

definition init_ceiling :: "boot_info \<Rightarrow> nat" where
  "init_ceiling info =
     (let c = align_up (bi_phys_ceiling info) PAGE_SIZE
      in if c < 16 * 1024 * 1024 then 16 * 1024 * 1024 else c)"

definition pmm_init :: "boot_info option \<Rightarrow> pmm option" where
  "pmm_init infop =
     (case infop of None \<Rightarrow> None
      | Some info \<Rightarrow>
          if bi_mmap_ptr info = 0 \<or> length (bi_mmap info) = 0 then None
          else let ceiling = init_ceiling info;
                   total = ceiling div PAGE_SIZE;
                   bitmap_bytes = (total + 7) div 8;
                   refs_bytes = total;
                   bitmap_pages = (align_up bitmap_bytes PAGE_SIZE + align_up refs_bytes PAGE_SIZE
                                   + PAGE_SIZE - 1) div PAGE_SIZE;
                   bitmap_phys = place_bitmap (bi_mmap info) bitmap_pages
               in if bitmap_phys = 0 then None
                  else let s0 = \<lparr>g_bitmap_phys = bitmap_phys,
                                 g_bitmap = replicate bitmap_bytes 0xFF,
                                 g_refs = replicate refs_bytes 0,
                                 g_total_pages = total, g_free_pages = 0, g_ceiling = ceiling\<rparr>;
                           s1 = fold mark_region (bi_mmap info) s0;
                           s2 = reserve_range 0 0x100000 s1;
                           s3 = reserve_range bitmap_phys (bitmap_phys + bitmap_pages * PAGE_SIZE) s2;
                           s4 = (if bi_image_base info \<noteq> 0 \<and> bi_image_size info \<noteq> 0
                                 then reserve_range (bi_image_base info)
                                        (wrap64 (bi_image_base info + bi_image_size info)) s3
                                 else s3);
                           s5 = reserve_range (bi_mmap_ptr info)
                                  (wrap64 (bi_mmap_ptr info + length (bi_mmap info) * sizeof_mmap_entry)) s4
                       in Some (reserve_range (bi_self info)
                                  (wrap64 (bi_self info + sizeof_boot_info)) s5))"

text \<open>Allocation returns the physical address, 0 when nothing is free.\<close>

definition take_page :: "nat \<Rightarrow> pmm \<Rightarrow> pmm" where
  "take_page p s =
     (let s1 = bm_set p s
      in s1\<lparr>g_free_pages := dec64 (g_free_pages s1), g_refs := (g_refs s1)[p := 1]\<rparr>)"

definition pmm_alloc_page :: "pmm \<Rightarrow> nat \<times> pmm" where
  "pmm_alloc_page s =
     (case List.find (\<lambda>p. \<not> bm_test s p) [0..<g_total_pages s] of
        Some p \<Rightarrow> (wrap64 (p * PAGE_SIZE), take_page p s)
      | None \<Rightarrow> (0, s))"

definition pmm_free_page :: "nat \<Rightarrow> pmm \<Rightarrow> pmm" where
  "pmm_free_page phys s =
     (let p = phys div PAGE_SIZE
      in if p \<ge> g_total_pages s then s
         else if \<not> bm_test s p then s
         else (bm_clear p s)\<lparr>g_free_pages := inc64 (g_free_pages s)\<rparr>)"

text \<open>
  The scan of \<open>pmm_alloc_pages\<close>. \<open>run_blocked\<close> is its inner loop: the first used page of
  the candidate run, if any; the outer loop then skips past it.
\<close>

definition run_blocked :: "pmm \<Rightarrow> nat \<Rightarrow> nat \<Rightarrow> nat option" where
  "run_blocked s p n = List.find (\<lambda>i. bm_test s (p + i)) [0..<n]"

function alloc_scan :: "pmm \<Rightarrow> nat \<Rightarrow> nat \<Rightarrow> nat option" where
  "alloc_scan s n p =
     (if p + n \<le> g_total_pages s \<and> 0 < n
      then case run_blocked s p n of
             Some i \<Rightarrow> alloc_scan s n (p + i + 1)
           | None \<Rightarrow> Some p
      else None)"
  by pat_completeness auto
termination
  by (relation "measure (\<lambda>(s, n, p). g_total_pages s - p)") auto

definition pmm_alloc_pages :: "nat \<Rightarrow> pmm \<Rightarrow> nat \<times> pmm" where
  "pmm_alloc_pages n s =
     (if n = 0 then (0, s)
      else if n = 1 then pmm_alloc_page s
      else case alloc_scan s n 0 of
             Some p \<Rightarrow> (wrap64 (p * PAGE_SIZE), fold take_page [p..<p + n] s)
           | None \<Rightarrow> (0, s))"

definition pmm_free_pages :: "nat \<Rightarrow> nat \<Rightarrow> pmm \<Rightarrow> pmm" where
  "pmm_free_pages phys n s =
     fold (\<lambda>i. pmm_free_page (wrap64 (phys + i * PAGE_SIZE))) [0..<n] s"

definition pmm_total_pages :: "pmm \<Rightarrow> nat" where
  "pmm_total_pages s = g_total_pages s"

definition pmm_free_pages_count :: "pmm \<Rightarrow> nat" where
  "pmm_free_pages_count s = g_free_pages s"

definition pmm_phys_ceiling :: "pmm \<Rightarrow> nat" where
  "pmm_phys_ceiling s = g_ceiling s"

definition pmm_page_own :: "nat \<Rightarrow> pmm \<Rightarrow> pmm" where
  "pmm_page_own phys s =
     (let p = phys div PAGE_SIZE
      in if p < g_total_pages s then s\<lparr>g_refs := (g_refs s)[p := 1]\<rparr> else s)"

definition pmm_page_share :: "nat \<Rightarrow> pmm \<Rightarrow> pmm" where
  "pmm_page_share phys s =
     (let p = phys div PAGE_SIZE
      in if p < g_total_pages s \<and> g_refs s ! p < 0xFF
         then s\<lparr>g_refs := (g_refs s)[p := g_refs s ! p + 1]\<rparr> else s)"

definition pmm_page_deref :: "nat \<Rightarrow> pmm \<Rightarrow> pmm" where
  "pmm_page_deref phys s =
     (let p = phys div PAGE_SIZE
      in if p \<ge> g_total_pages s then s
         else if g_refs s ! p = 0 then s
         else let s1 = s\<lparr>g_refs := (g_refs s)[p := g_refs s ! p - 1]\<rparr>
              in if g_refs s1 ! p = 0 then pmm_free_page phys s1 else s1)"

definition pmm_page_refcount :: "nat \<Rightarrow> pmm \<Rightarrow> nat" where
  "pmm_page_refcount phys s =
     (let p = phys div PAGE_SIZE
      in if p < g_total_pages s then unat (g_refs s ! p) else 0)"

section \<open>Well-formedness\<close>

definition free_set :: "pmm \<Rightarrow> nat set" where
  "free_set s = {p. p < g_total_pages s \<and> \<not> bm_test s p}"

text \<open>
  The arrays cover the managed pages and the counter counts the clear bits; \<open>2 ^ 52\<close>
  pages is all a 64-bit address space holds.
\<close>

definition pmm_wf :: "pmm \<Rightarrow> bool" where
  "pmm_wf s \<longleftrightarrow> length (g_bitmap s) = (g_total_pages s + 7) div 8
     \<and> length (g_refs s) = g_total_pages s
     \<and> g_total_pages s \<le> 4503599627370496
     \<and> g_free_pages s = card (free_set s)"

text \<open>Page 0 is never handed out, so the result 0 of an allocation means failure.\<close>

definition page0_used :: "pmm \<Rightarrow> bool" where
  "page0_used s \<longleftrightarrow> 0 < g_total_pages s \<and> bm_test s 0"

section \<open>Bitmap facts\<close>

lemma bm_test_bit: "bm_test s p = bit (g_bitmap s ! (p div 8)) (p mod 8)"
  unfolding bm_test_def by (simp add: and_one_eq bit_iff_odd_drop_bit mod_2_eq_odd)

lemma bm_set_sel [simp]:
  "g_total_pages (bm_set p s) = g_total_pages s" "g_refs (bm_set p s) = g_refs s"
  "g_free_pages (bm_set p s) = g_free_pages s" "length (g_bitmap (bm_set p s)) = length (g_bitmap s)"
  "g_bitmap_phys (bm_set p s) = g_bitmap_phys s" "g_ceiling (bm_set p s) = g_ceiling s"
  by (simp_all add: bm_set_def)

lemma bm_clear_sel [simp]:
  "g_total_pages (bm_clear p s) = g_total_pages s" "g_refs (bm_clear p s) = g_refs s"
  "g_free_pages (bm_clear p s) = g_free_pages s" "length (g_bitmap (bm_clear p s)) = length (g_bitmap s)"
  "g_bitmap_phys (bm_clear p s) = g_bitmap_phys s" "g_ceiling (bm_clear p s) = g_ceiling s"
  by (simp_all add: bm_clear_def)

lemma bm_test_cong [simp]:
  "bm_test (s\<lparr>g_free_pages := n\<rparr>) = bm_test s" "bm_test (s\<lparr>g_refs := r\<rparr>) = bm_test s"
  by (simp_all add: bm_test_def fun_eq_iff)

lemma same_bit: "(p div 8 = q div 8 \<and> p mod 8 = q mod 8) = (p = q)" for p q :: nat
  by (metis div_mult_mod_eq)

lemma bm_test_set:
  assumes "p div 8 < length (g_bitmap s)"
  shows "bm_test (bm_set p s) q = (q = p \<or> bm_test s q)"
proof (cases "p div 8 = q div 8")
  case True
  then have "(p mod 8 = q mod 8) = (p = q)" using same_bit by blast
  moreover have "q mod 8 < 8" by simp
  ultimately show ?thesis
    using True assms by (auto simp: bm_test_bit bm_set_def bit_simps)
next
  case False
  then show ?thesis by (auto simp: bm_test_bit bm_set_def)
qed

lemma bm_test_clear:
  assumes "p div 8 < length (g_bitmap s)"
  shows "bm_test (bm_clear p s) q = (q \<noteq> p \<and> bm_test s q)"
proof (cases "p div 8 = q div 8")
  case True
  then have "(p mod 8 = q mod 8) = (p = q)" using same_bit by blast
  moreover have "q mod 8 < 8" by simp
  ultimately show ?thesis
    using True assms by (auto simp: bm_test_bit bm_clear_def bit_simps)
next
  case False
  then show ?thesis by (auto simp: bm_test_bit bm_clear_def)
qed

lemma page_in_bitmap: "p < t \<Longrightarrow> p div 8 < (t + 7) div 8" for p t :: nat
  by arith

lemma free_set_cong [simp]:
  "free_set (s\<lparr>g_free_pages := n\<rparr>) = free_set s" "free_set (s\<lparr>g_refs := r\<rparr>) = free_set s"
  by (simp_all add: free_set_def)

lemma finite_free_set [simp]: "finite (free_set s)"
  by (simp add: free_set_def)

lemma card_free_set: "card (free_set s) \<le> g_total_pages s"
proof -
  have "free_set s \<subseteq> {..<g_total_pages s}" by (auto simp: free_set_def)
  from card_mono [OF _ this] show ?thesis by simp
qed

lemma free_set_bm_set:
  assumes "pmm_wf s" "p < g_total_pages s"
  shows "free_set (bm_set p s) = free_set s - {p}"
  using assms by (auto simp: free_set_def pmm_wf_def bm_test_set page_in_bitmap)

lemma free_set_bm_clear:
  assumes "pmm_wf s" "p < g_total_pages s"
  shows "free_set (bm_clear p s) = insert p (free_set s)"
  using assms by (auto simp: free_set_def pmm_wf_def bm_test_clear page_in_bitmap)

lemma page0_used_iff: "page0_used s = (0 < g_total_pages s \<and> 0 \<notin> free_set s)"
  by (auto simp: page0_used_def free_set_def)

section \<open>Every operation keeps the counters and the bitmap in step\<close>

lemma pmm_wf_free_bound: "pmm_wf s \<Longrightarrow> g_free_pages s \<le> 4503599627370496"
  using card_free_set [of s] by (auto simp: pmm_wf_def)

lemma free_set_bm_test: "p < g_total_pages s \<Longrightarrow> (p \<in> free_set s) = (\<not> bm_test s p)"
  by (simp add: free_set_def)

lemma pmm_wf_take:
  assumes "pmm_wf s" "p \<in> free_set s"
  shows "pmm_wf (take_page p s)" "free_set (take_page p s) = free_set s - {p}"
    "g_refs (take_page p s) = (g_refs s)[p := 1]"
    "g_total_pages (take_page p s) = g_total_pages s"
proof -
  from assms have p: "p < g_total_pages s" by (simp add: free_set_def)
  have pos: "0 < g_free_pages s"
    using assms by (auto simp: pmm_wf_def card_gt_0_iff)
  show fs: "free_set (take_page p s) = free_set s - {p}"
    using assms(1) p by (simp add: take_page_def free_set_bm_set)
  show "pmm_wf (take_page p s)"
    using assms p pos pmm_wf_free_bound [OF assms(1)] fs
    by (simp add: pmm_wf_def) (simp add: take_page_def free_set_bm_set card_Diff_singleton_if)
qed (simp_all add: take_page_def)

lemma pmm_wf_mark_free:
  assumes "pmm_wf s" "p < g_total_pages s"
  shows "pmm_wf (mark_free_one p s)" "free_set (mark_free_one p s) = insert p (free_set s)"
proof -
  show fs: "free_set (mark_free_one p s) = insert p (free_set s)"
    using assms by (auto simp: mark_free_one_def free_set_bm_clear free_set_bm_test)
  show "pmm_wf (mark_free_one p s)"
    using assms pmm_wf_free_bound [OF assms(1)] fs
    by (auto simp: pmm_wf_def mark_free_one_def free_set_bm_test card_insert_if)
qed

lemma pmm_wf_reserve_one:
  assumes "pmm_wf s" "p < g_total_pages s"
  shows "pmm_wf (reserve_one p s)" "free_set (reserve_one p s) = free_set s - {p}"
proof -
  show fs: "free_set (reserve_one p s) = free_set s - {p}"
    using assms by (auto simp: reserve_one_def Let_def free_set_bm_set free_set_bm_test)
  show "pmm_wf (reserve_one p s)"
  proof (cases "bm_test s p")
    case True
    with assms show ?thesis by (simp add: reserve_one_def)
  next
    case False
    then have "p \<in> free_set s" using assms(2) by (simp add: free_set_def)
    then have "0 < g_free_pages s" using assms(1) by (auto simp: pmm_wf_def card_gt_0_iff)
    with False assms fs show ?thesis
      by (simp add: pmm_wf_def reserve_one_def free_set_bm_set card_Diff_singleton_if \<open>p \<in> free_set s\<close>)
  qed
qed

lemma reserve_one_sel [simp]:
  "g_total_pages (reserve_one p s) = g_total_pages s" "g_refs (reserve_one p s) = g_refs s"
  "g_bitmap_phys (reserve_one p s) = g_bitmap_phys s"
  by (simp_all add: reserve_one_def Let_def)

lemma mark_free_one_sel [simp]:
  "g_total_pages (mark_free_one p s) = g_total_pages s" "g_refs (mark_free_one p s) = g_refs s"
  by (simp_all add: mark_free_one_def)

lemma reserve_fold:
  assumes "pmm_wf s" "\<And>p. p \<in> set ps \<Longrightarrow> p < g_total_pages s"
  shows "pmm_wf (fold reserve_one ps s) \<and> free_set (fold reserve_one ps s) = free_set s - set ps
     \<and> g_total_pages (fold reserve_one ps s) = g_total_pages s
     \<and> g_refs (fold reserve_one ps s) = g_refs s"
  using assms
  by (induction ps arbitrary: s) (auto simp: pmm_wf_reserve_one)

lemma mark_free_fold:
  assumes "pmm_wf s" "\<And>p. p \<in> set ps \<Longrightarrow> p < g_total_pages s"
  shows "pmm_wf (fold mark_free_one ps s) \<and> free_set (fold mark_free_one ps s) = free_set s \<union> set ps
     \<and> g_total_pages (fold mark_free_one ps s) = g_total_pages s
     \<and> g_refs (fold mark_free_one ps s) = g_refs s"
  using assms
  by (induction ps arbitrary: s) (auto simp: pmm_wf_mark_free)

text \<open>The pages a byte range touches.\<close>

definition page_range :: "nat \<Rightarrow> nat \<Rightarrow> nat set" where
  "page_range a b = {a div PAGE_SIZE..<wrap64 (b + PAGE_SIZE - 1) div PAGE_SIZE}"

lemma reserve_range_spec:
  assumes "pmm_wf s"
  shows "pmm_wf (reserve_range a b s) \<and> free_set (reserve_range a b s) = free_set s - page_range a b
     \<and> g_total_pages (reserve_range a b s) = g_total_pages s
     \<and> g_refs (reserve_range a b s) = g_refs s"
proof -
  define p1 where "p1 = min (wrap64 (b + PAGE_SIZE - 1) div PAGE_SIZE) (g_total_pages s)"
  have eq: "reserve_range a b s = fold reserve_one [a div PAGE_SIZE..<p1] s"
    by (simp add: reserve_range_def Let_def p1_def min_def)
  have "free_set s - {a div PAGE_SIZE..<p1} = free_set s - page_range a b"
    by (auto simp: page_range_def free_set_def p1_def)
  with reserve_fold [OF assms, of "[a div PAGE_SIZE..<p1]"] show ?thesis
    by (auto simp: eq p1_def)
qed

lemma reserve_range_wf [helix_inv]: "pmm_wf s \<Longrightarrow> pmm_wf (reserve_range a b s)"
  and free_set_reserve_range: "pmm_wf s \<Longrightarrow> free_set (reserve_range a b s) = free_set s - page_range a b"
  and total_reserve_range: "pmm_wf s \<Longrightarrow> g_total_pages (reserve_range a b s) = g_total_pages s"
  and refs_reserve_range: "pmm_wf s \<Longrightarrow> g_refs (reserve_range a b s) = g_refs s"
  using reserve_range_spec by blast+

section \<open>Allocation and release\<close>

lemma find_free_None: "(List.find (\<lambda>p. \<not> bm_test s p) [0..<g_total_pages s] = None) = (free_set s = {})"
  by (auto simp: find_None_iff free_set_def)

lemma find_free_Some:
  assumes "List.find (\<lambda>p. \<not> bm_test s p) [0..<g_total_pages s] = Some p"
  shows "p \<in> free_set s" "p = Min (free_set s)"
proof -
  from assms obtain i where i: "i < g_total_pages s" "\<not> bm_test s p" "p = i"
      "\<forall>j<i. bm_test s j"
    by (auto simp: find_Some_iff)
  then show p: "p \<in> free_set s" by (simp add: free_set_def)
  have "\<And>q. q \<in> free_set s \<Longrightarrow> p \<le> q"
    using i by (metis (mono_tags, lifting) free_set_def linorder_not_le mem_Collect_eq)
  with p show "p = Min (free_set s)"
    by (intro Min_eqI [symmetric]) auto
qed

lemma page_addr_no_wrap: "p \<le> 4503599627370495 \<Longrightarrow> wrap64 (p * PAGE_SIZE) = p * PAGE_SIZE"
  by simp

lemma alloc_page_full: "free_set s = {} \<Longrightarrow> pmm_alloc_page s = (0, s)"
  by (simp add: pmm_alloc_page_def find_free_None [THEN iffD2])

lemma alloc_page_some:
  assumes "pmm_wf s" "free_set s \<noteq> {}"
  shows "pmm_alloc_page s = (Min (free_set s) * PAGE_SIZE, take_page (Min (free_set s)) s)"
proof -
  from assms(2) find_free_None obtain p
    where p: "List.find (\<lambda>p. \<not> bm_test s p) [0..<g_total_pages s] = Some p" by blast
  from find_free_Some [OF p] have "p \<in> free_set s" and m: "p = Min (free_set s)" by simp_all
  then have "p \<le> 4503599627370495" using assms(1) by (simp add: free_set_def pmm_wf_def)
  with p m show ?thesis by (simp add: pmm_alloc_page_def)
qed

lemma free_page_cases:
  assumes "pmm_wf s"
  shows "pmm_wf (pmm_free_page phys s)"
    "free_set (pmm_free_page phys s)
       = free_set s \<union> ({phys div PAGE_SIZE} \<inter> {..<g_total_pages s})"
    "g_refs (pmm_free_page phys s) = g_refs s"
    "g_total_pages (pmm_free_page phys s) = g_total_pages s"
proof -
  have eq: "pmm_free_page phys s =
      (if phys div PAGE_SIZE < g_total_pages s then mark_free_one (phys div PAGE_SIZE) s else s)"
    by (simp add: pmm_free_page_def mark_free_one_def Let_def)
  show "pmm_wf (pmm_free_page phys s)"
    using assms by (simp add: eq pmm_wf_mark_free)
  show "free_set (pmm_free_page phys s)
       = free_set s \<union> ({phys div PAGE_SIZE} \<inter> {..<g_total_pages s})"
    using assms by (auto simp: eq pmm_wf_mark_free)
qed (simp_all add: pmm_free_page_def Let_def)

text \<open>A run of \<open>n\<close> free pages starting at page \<open>p\<close>.\<close>

definition free_run :: "pmm \<Rightarrow> nat \<Rightarrow> nat \<Rightarrow> bool" where
  "free_run s n p \<longleftrightarrow> p + n \<le> g_total_pages s \<and> (\<forall>i<n. \<not> bm_test s (p + i))"

declare alloc_scan.simps [simp del]

lemma run_blocked_None: "run_blocked s p n = None \<longleftrightarrow> (\<forall>i<n. \<not> bm_test s (p + i))"
  by (auto simp: run_blocked_def find_None_iff)

lemma run_blocked_Some: "run_blocked s p n = Some i \<Longrightarrow> i < n \<and> bm_test s (p + i)"
  by (auto simp: run_blocked_def find_Some_iff)

text \<open>
  Skipping past the blocking page loses no candidate: a run that starts between the
  failed candidate and the blocking page contains that page.
\<close>

lemma blocked_skip:
  assumes "run_blocked s p n = Some i" "p \<le> r" "r \<le> p + i"
  shows "\<not> free_run s n r"
proof -
  from run_blocked_Some [OF assms(1)] have "i < n" "bm_test s (p + i)" by simp_all
  then have "p + i - r < n" "bm_test s (r + (p + i - r))" using assms by auto
  then show ?thesis unfolding free_run_def by blast
qed

lemma alloc_scan_first:
  assumes "0 < n"
  shows "(case alloc_scan s n p of
            Some q \<Rightarrow> p \<le> q \<and> free_run s n q \<and> (\<forall>r. p \<le> r \<and> r < q \<longrightarrow> \<not> free_run s n r)
          | None \<Rightarrow> (\<forall>r. p \<le> r \<longrightarrow> \<not> free_run s n r))"
  using assms
proof (induction s n p rule: alloc_scan.induct)
  case (1 s n p)
  show ?case
  proof (cases "p + n \<le> g_total_pages s")
    case False
    then show ?thesis by (subst alloc_scan.simps) (auto simp: free_run_def)
  next
    case fits: True
    show ?thesis
    proof (cases "run_blocked s p n")
      case None
      then have "free_run s n p" using fits by (simp add: free_run_def run_blocked_None)
      with None fits "1.prems" show ?thesis
        by (subst alloc_scan.simps) auto
    next
      case (Some i)
      have IH: "(case alloc_scan s n (p + i + 1) of
            Some q \<Rightarrow> p + i + 1 \<le> q \<and> free_run s n q \<and> (\<forall>r. p + i + 1 \<le> r \<and> r < q \<longrightarrow> \<not> free_run s n r)
          | None \<Rightarrow> (\<forall>r. p + i + 1 \<le> r \<longrightarrow> \<not> free_run s n r))"
        using "1.IH" fits "1.prems" Some by blast
      have step: "alloc_scan s n p = alloc_scan s n (p + i + 1)"
        using fits "1.prems" Some by (subst alloc_scan.simps) simp
      have skip: "\<not> free_run s n r" if "p \<le> r" "r \<le> p + i" for r
        using blocked_skip [OF Some that] .
      show ?thesis
        unfolding step using IH skip
        by (cases "alloc_scan s n (p + i + 1)")
          (auto, (metis Suc_eq_plus1 not_less_eq_eq)+)
    qed
  qed
qed

lemma take_run:
  assumes "pmm_wf s" "set ps \<subseteq> free_set s" "distinct ps"
  shows "pmm_wf (fold take_page ps s) \<and> free_set (fold take_page ps s) = free_set s - set ps
    \<and> g_total_pages (fold take_page ps s) = g_total_pages s
    \<and> g_refs (fold take_page ps s) = fold (\<lambda>p r. r[p := 1]) ps (g_refs s)"
  using assms
proof (induction ps arbitrary: s)
  case Nil
  then show ?case by simp
next
  case (Cons p ps)
  then have p: "p \<in> free_set s" by simp
  have "set ps \<subseteq> free_set (take_page p s)"
    using Cons.prems by (auto simp: pmm_wf_take [OF Cons.prems(1) p])
  with Cons.IH [of "take_page p s"] Cons.prems(3) pmm_wf_take [OF Cons.prems(1) p]
  show ?case by auto
qed

lemma free_run_pages: "free_run s n p \<Longrightarrow> set [p..<p + n] \<subseteq> free_set s"
proof
  fix q assume r: "free_run s n p" and q: "q \<in> set [p..<p + n]"
  then have "q < g_total_pages s" by (auto simp: free_run_def)
  moreover have "q = p + (q - p)" "q - p < n" using q by auto
  then have "\<not> bm_test s q" using r unfolding free_run_def by metis
  ultimately show "q \<in> free_set s" by (simp add: free_set_def)
qed

lemma free_run_1_iff: "free_run s (Suc 0) p = (p \<in> free_set s)"
  by (auto simp: free_run_def free_set_def)

lemma free_run_1: "(\<exists>p. free_run s (Suc 0) p) = (free_set s \<noteq> {})"
  by (auto simp: free_run_1_iff)

lemma free_run_1_least: "free_set s \<noteq> {} \<Longrightarrow> (LEAST p. free_run s (Suc 0) p) = Min (free_set s)"
  unfolding free_run_1_iff by (rule Least_equality) auto

lemma alloc_scan_least:
  assumes "0 < n"
  shows "alloc_scan s n 0 = (if \<exists>p. free_run s n p then Some (LEAST p. free_run s n p) else None)"
proof (cases "alloc_scan s n 0")
  case None
  with alloc_scan_first [where s = s and p = 0, OF assms] show ?thesis by auto
next
  case (Some q)
  with alloc_scan_first [where s = s and p = 0, OF assms]
  have q: "free_run s n q" "\<forall>r<q. \<not> free_run s n r" by auto
  then have "(LEAST p. free_run s n p) = q"
    by (intro Least_equality) (auto intro: leI)
  with Some q show ?thesis by auto
qed

lemma refs_fold_nth:
  "p < length r \<Longrightarrow> fold (\<lambda>p r. r[p := 1]) ps r ! p = (if p \<in> set ps then 1 else r ! p)"
  by (induction ps arbitrary: r) (auto simp: nth_list_update)

lemma alloc_pages_cases:
  assumes "pmm_wf s" "0 < n"
  shows "\<exists>p. free_run s n p \<Longrightarrow>
      pmm_alloc_pages n s = ((LEAST p. free_run s n p) * PAGE_SIZE,
        fold take_page [(LEAST p. free_run s n p)..<(LEAST p. free_run s n p) + n] s)"
    and "\<nexists>p. free_run s n p \<Longrightarrow> pmm_alloc_pages n s = (0, s)"
proof -
  assume ex: "\<exists>p. free_run s n p"
  define q where "q = (LEAST p. free_run s n p)"
  from ex have "free_run s n q" unfolding q_def by (rule LeastI_ex)
  then have "q \<le> 4503599627370495" using assms by (simp add: free_run_def pmm_wf_def)
  moreover have "n = Suc 0 \<Longrightarrow> free_set s \<noteq> {} \<and> q = Min (free_set s)"
    using ex free_run_1 free_run_1_least by (auto simp: q_def)
  ultimately show "pmm_alloc_pages n s = (q * PAGE_SIZE, fold take_page [q..<q + n] s)"
    using assms ex by (auto simp: pmm_alloc_pages_def alloc_page_some alloc_scan_least q_def [symmetric])
next
  assume none: "\<nexists>p. free_run s n p"
  then have "n = Suc 0 \<Longrightarrow> free_set s = {}" by (auto simp: free_run_1_iff)
  with none assms(2) show "pmm_alloc_pages n s = (0, s)"
    by (auto simp: pmm_alloc_pages_def alloc_page_full alloc_scan_least)
qed

section \<open>Correctness of the page allocator\<close>

text \<open>
  C1. First-fit contiguous allocation. For every well-formed state whose page 0 is in
  use, \<open>pmm_alloc_pages n\<close> with \<open>n > 0\<close> fails (returns 0 and changes nothing) exactly
  when no \<open>n\<close> consecutive free pages exist; otherwise it returns the address of the
  lowest such run, which is not 0, marks exactly those pages used with reference count
  1, and keeps the allocator well-formed. The jump past a blocking page loses no run.
\<close>

theorem pmm_alloc_pages_first_fit:
  assumes "pmm_wf s" "page0_used s" "0 < n" "pmm_alloc_pages n s = (a, s')"
  shows "(a = 0 \<longleftrightarrow> (\<nexists>p. free_run s n p)) \<and> (a = 0 \<longrightarrow> s' = s)
    \<and> (a \<noteq> 0 \<longrightarrow> a = (LEAST p. free_run s n p) * PAGE_SIZE
         \<and> free_run s n (a div PAGE_SIZE)
         \<and> free_set s' = free_set s - {a div PAGE_SIZE..<a div PAGE_SIZE + n}
         \<and> (\<forall>q<g_total_pages s. g_refs s' ! q =
              (if q \<in> {a div PAGE_SIZE..<a div PAGE_SIZE + n} then 1 else g_refs s ! q)))
    \<and> pmm_wf s' \<and> page0_used s'"
proof (cases "\<exists>p. free_run s n p")
  case False
  with alloc_pages_cases(2) [OF assms(1,3)] assms show ?thesis by auto
next
  case True
  define q where "q = (LEAST p. free_run s n p)"
  have run: "free_run s n q" unfolding q_def using True by (rule LeastI_ex)
  from alloc_pages_cases(1) [OF assms(1,3) True] assms(4)
  have a: "a = q * PAGE_SIZE" and s': "s' = fold take_page [q..<q + n] s"
    by (simp_all add: q_def)
  have tr: "pmm_wf s' \<and> free_set s' = free_set s - {q..<q + n} \<and> g_total_pages s' = g_total_pages s
      \<and> g_refs s' = fold (\<lambda>p r. r[p := 1]) [q..<q + n] (g_refs s)"
    using take_run [OF assms(1) free_run_pages [OF run] distinct_upt] by (simp add: s')
  have "q \<in> free_set s" using free_run_pages [OF run] assms(3) by auto
  then have q0: "q \<noteq> 0"
    using assms(2) page0_used_iff by metis
  have "page0_used s'"
    using tr assms(2) by (simp add: page0_used_iff)
  have refs: "\<forall>r<g_total_pages s. g_refs s' ! r = (if r \<in> {q..<q + n} then 1 else g_refs s ! r)"
    using tr assms(1) by (simp add: refs_fold_nth pmm_wf_def)
  have nz: "a \<noteq> 0" and dv: "a div PAGE_SIZE = q" using q0 by (simp_all add: a)
  have fs: "free_set s' = free_set s - {q..<q + n}" and wf': "pmm_wf s'" using tr by simp_all
  have "a = 0 \<longleftrightarrow> (\<nexists>p. free_run s n p)" using nz True by simp
  moreover have "a = (LEAST p. free_run s n p) * PAGE_SIZE" using a q_def by simp
  ultimately show ?thesis
    unfolding dv using nz run refs fs wf' \<open>page0_used s'\<close> by simp
qed

lemma page_deref_cases:
  assumes "pmm_wf s" "p < g_total_pages s" "phys div PAGE_SIZE = p"
  shows "pmm_wf (pmm_page_deref phys s)
    \<and> free_set (pmm_page_deref phys s) = (if g_refs s ! p = 1 then insert p (free_set s) else free_set s)
    \<and> g_total_pages (pmm_page_deref phys s) = g_total_pages s
    \<and> g_refs (pmm_page_deref phys s) = (g_refs s)[p := g_refs s ! p - (if g_refs s ! p = 0 then 0 else 1)]"
proof -
  define s1 where "s1 = s\<lparr>g_refs := (g_refs s)[p := g_refs s ! p - 1]\<rparr>"
  have wf1: "pmm_wf s1" using assms by (simp add: s1_def pmm_wf_def)
  have nth1: "g_refs s1 ! p = g_refs s ! p - 1" using assms by (simp add: s1_def pmm_wf_def)
  have minus: "(g_refs s ! p - 1 = 0) = (g_refs s ! p = 1)" by auto
  have "pmm_page_deref phys s =
      (if g_refs s ! p = 0 then s else if g_refs s ! p = 1 then pmm_free_page phys s1 else s1)"
    using assms nth1 minus by (simp add: pmm_page_deref_def Let_def s1_def)
  moreover have "free_set s1 = free_set s" "g_refs s1 = (g_refs s)[p := g_refs s ! p - 1]"
      "g_total_pages s1 = g_total_pages s"
    by (simp_all add: s1_def)
  moreover have "(g_refs s)[p := g_refs s ! p - 0] = g_refs s" by simp
  ultimately show ?thesis
    using assms free_page_cases [OF wf1, of phys] wf1
    by (cases "g_refs s ! p = 0"; cases "g_refs s ! p = 1") simp_all
qed

text \<open>
  C3. Single page release and reference counts. Dropping the last reference of a page
  frees exactly that page; dropping one of several references, or a reference to a
  reserved page (count 0), leaves every bitmap bit alone; the counters stay in step.
\<close>

theorem pmm_page_deref_spec:
  assumes "pmm_wf s" "p < g_total_pages s" "phys div PAGE_SIZE = p"
  shows "pmm_wf (pmm_page_deref phys s)
    \<and> free_set (pmm_page_deref phys s) = (if g_refs s ! p = 1 then insert p (free_set s) else free_set s)
    \<and> g_refs (pmm_page_deref phys s) = (g_refs s)[p := g_refs s ! p - (if g_refs s ! p = 0 then 0 else 1)]"
  using page_deref_cases [OF assms] by simp

section \<open>Initialisation\<close>

lemma mark_region_spec:
  assumes "pmm_wf s"
  shows "pmm_wf (mark_region e s) \<and> g_total_pages (mark_region e s) = g_total_pages s
    \<and> g_refs (mark_region e s) = g_refs s
    \<and> free_set (mark_region e s) = free_set s \<union>
        (if is_free_type (e_type e) then page_range (e_phys_start e) (region_end e) \<inter> {..<g_total_pages s} else {})"
proof (cases "is_free_type (e_type e)")
  case False
  with assms show ?thesis by (simp add: mark_region_def)
next
  case True
  define p1 where "p1 = min (wrap64 (region_end e + PAGE_SIZE - 1) div PAGE_SIZE) (g_total_pages s)"
  have eq: "mark_region e s = fold mark_free_one [e_phys_start e div PAGE_SIZE..<p1] s"
    using True by (simp add: mark_region_def Let_def p1_def min_def)
  have "set [e_phys_start e div PAGE_SIZE..<p1]
      = page_range (e_phys_start e) (region_end e) \<inter> {..<g_total_pages s}"
    by (auto simp: page_range_def p1_def)
  moreover have "\<And>p. p \<in> set [e_phys_start e div PAGE_SIZE..<p1] \<Longrightarrow> p < g_total_pages s"
    by (simp add: p1_def)
  ultimately show ?thesis
    using mark_free_fold [OF assms, of "[e_phys_start e div PAGE_SIZE..<p1]"] True by (simp add: eq)
qed

lemma mark_regions_spec:
  assumes "pmm_wf s"
  shows "pmm_wf (fold mark_region es s) \<and> g_total_pages (fold mark_region es s) = g_total_pages s
    \<and> g_refs (fold mark_region es s) = g_refs s
    \<and> free_set (fold mark_region es s) = free_set s \<union>
        (\<Union>e\<in>{e \<in> set es. is_free_type (e_type e)}. page_range (e_phys_start e) (region_end e)) \<inter> {..<g_total_pages s}"
  using assms
proof (induction es arbitrary: s)
  case Nil
  then show ?case by simp
next
  case (Cons e es)
  note m = mark_region_spec [OF Cons.prems, of e]
  from Cons.IH [of "mark_region e s"] m show ?case by auto
qed

text \<open>The all-used bitmap \<open>pmm_init\<close> starts from.\<close>

lemma all_used_wf:
  assumes "t \<le> 4503599627370496"
  shows "pmm_wf \<lparr>g_bitmap_phys = b, g_bitmap = replicate ((t + 7) div 8) 0xFF,
                 g_refs = replicate t 0, g_total_pages = t, g_free_pages = 0, g_ceiling = c\<rparr>"
    (is "pmm_wf ?s")
    and "free_set \<lparr>g_bitmap_phys = b, g_bitmap = replicate ((t + 7) div 8) 0xFF,
                 g_refs = replicate t 0, g_total_pages = t, g_free_pages = 0, g_ceiling = c\<rparr> = {}"
proof -
  have ff: "(0xFF :: u8) = mask 8" by (simp add: mask_numeral)
  have "bm_test ?s p" if "p < t" for p
    using page_in_bitmap [OF that] by (simp add: bm_test_bit ff bit_simps del: mask_numeral)
  then show fs: "free_set ?s = {}" by (auto simp: free_set_def)
  then show "pmm_wf ?s" using assms by (simp add: pmm_wf_def)
qed

lemma init_ceiling_bounds: "16777216 \<le> init_ceiling info" "init_ceiling info < 18446744073709551616"
  using unat_u64_less by (simp_all add: init_ceiling_def Let_def align_up_def)

text \<open>The pages of the conventional regions of the firmware memory map.\<close>

definition conventional_pages :: "boot_info \<Rightarrow> nat set" where
  "conventional_pages info = (\<Union>e\<in>{e \<in> set (bi_mmap info). is_free_type (e_type e)}.
     page_range (e_phys_start e) (region_end e))"

definition bitmap_span :: "pmm \<Rightarrow> nat set" where
  "bitmap_span s = page_range (g_bitmap_phys s) (g_bitmap_phys s +
     (align_up ((g_total_pages s + 7) div 8) PAGE_SIZE + align_up (g_total_pages s) PAGE_SIZE
        + PAGE_SIZE - 1) div PAGE_SIZE * PAGE_SIZE)"

lemma reserve_range_phys [simp]: "g_bitmap_phys (reserve_range a b s) = g_bitmap_phys s"
proof -
  have "g_bitmap_phys (fold reserve_one ps s) = g_bitmap_phys s" for ps
    by (induction ps arbitrary: s) auto
  then show ?thesis by (simp add: reserve_range_def Let_def)
qed

lemma mark_regions_phys [simp]: "g_bitmap_phys (fold mark_region es s) = g_bitmap_phys s"
proof (induction es arbitrary: s)
  case (Cons e es)
  have "g_bitmap_phys (fold mark_free_one ps s) = g_bitmap_phys s" for ps
    by (induction ps arbitrary: s) (auto simp: mark_free_one_def)
  with Cons show ?case by (simp add: mark_region_def Let_def)
qed simp

lemmas reserve_facts = reserve_range_wf free_set_reserve_range total_reserve_range refs_reserve_range

lemma pmm_init_free_set:
  assumes "pmm_init (Some info) = Some s"
  shows "pmm_wf s \<and> g_total_pages s = init_ceiling info div PAGE_SIZE
    \<and> g_refs s = replicate (g_total_pages s) 0
    \<and> free_set s = conventional_pages info \<inter> {..<g_total_pages s} - page_range 0 0x100000 - bitmap_span s
        - (if bi_image_base info \<noteq> 0 \<and> bi_image_size info \<noteq> 0
           then page_range (bi_image_base info) (wrap64 (bi_image_base info + bi_image_size info)) else {})
        - page_range (bi_mmap_ptr info) (wrap64 (bi_mmap_ptr info + length (bi_mmap info) * sizeof_mmap_entry))
        - page_range (bi_self info) (wrap64 (bi_self info + sizeof_boot_info))"
proof -
  define t where "t = init_ceiling info div PAGE_SIZE"
  define bp where "bp = (align_up ((t + 7) div 8) PAGE_SIZE + align_up t PAGE_SIZE + PAGE_SIZE - 1) div PAGE_SIZE"
  define b where "b = place_bitmap (bi_mmap info) bp"
  define s0 where "s0 = \<lparr>g_bitmap_phys = b, g_bitmap = replicate ((t + 7) div 8) 0xFF,
                 g_refs = replicate t 0, g_total_pages = t, g_free_pages = 0, g_ceiling = init_ceiling info\<rparr>"
  define s1 where "s1 = fold mark_region (bi_mmap info) s0"
  have t: "t \<le> 4503599627370496" using init_ceiling_bounds(2) [of info] by (simp add: t_def)
  have s0: "pmm_wf s0" "free_set s0 = {}" "g_total_pages s0 = t" "g_refs s0 = replicate t 0" "g_bitmap_phys s0 = b"
    using all_used_wf [OF t] by (simp_all add: s0_def)
  have s1: "pmm_wf s1" "g_total_pages s1 = t" "g_refs s1 = replicate t 0" "g_bitmap_phys s1 = b"
      "free_set s1 = conventional_pages info \<inter> {..<t}"
    using mark_regions_spec [OF s0(1), of "bi_mmap info"] s0 by (simp_all add: s1_def conventional_pages_def)
  define img where "img = (bi_image_base info \<noteq> 0 \<and> bi_image_size info \<noteq> 0)"
  define s3 where "s3 = reserve_range b (b + bp * PAGE_SIZE) (reserve_range 0 0x100000 s1)"
  define s4 where "s4 = (if img then reserve_range (bi_image_base info)
      (wrap64 (bi_image_base info + bi_image_size info)) s3 else s3)"
  have s: "s = reserve_range (bi_self info) (wrap64 (bi_self info + sizeof_boot_info))
        (reserve_range (bi_mmap_ptr info)
          (wrap64 (bi_mmap_ptr info + length (bi_mmap info) * sizeof_mmap_entry)) s4)"
  proof -
    have "pmm_init (Some info) = (if bi_mmap_ptr info = 0 \<or> length (bi_mmap info) = 0 then None
        else if b = 0 then None
        else Some (reserve_range (bi_self info) (wrap64 (bi_self info + sizeof_boot_info))
        (reserve_range (bi_mmap_ptr info)
          (wrap64 (bi_mmap_ptr info + length (bi_mmap info) * sizeof_mmap_entry)) s4)))"
      by (simp only: pmm_init_def option.case Let_def s4_def s3_def s1_def s0_def b_def bp_def t_def img_def)
    with assms show ?thesis by (metis option.distinct(1) option.inject)
  qed
  have s3: "pmm_wf s3 \<and> g_total_pages s3 = t \<and> g_refs s3 = replicate t 0 \<and> g_bitmap_phys s3 = b
      \<and> free_set s3 = conventional_pages info \<inter> {..<t} - page_range 0 0x100000 - page_range b (b + bp * PAGE_SIZE)"
    using s1 by (simp only: s3_def reserve_facts reserve_range_phys simp_thms)
  have s4: "pmm_wf s4 \<and> g_total_pages s4 = t \<and> g_refs s4 = replicate t 0 \<and> g_bitmap_phys s4 = b
      \<and> free_set s4 = free_set s3 - (if img then page_range (bi_image_base info)
            (wrap64 (bi_image_base info + bi_image_size info)) else {})"
    using s3 by (cases img) (simp_all only: s4_def reserve_facts reserve_range_phys simp_thms if_True if_False Diff_empty)
  have phys: "g_bitmap_phys s = b" and tot: "g_total_pages s = t"
    using s4 by (simp_all only: s reserve_facts reserve_range_phys)
  then have span: "bitmap_span s = page_range b (b + bp * PAGE_SIZE)"
    by (simp only: bitmap_span_def bp_def)
  show ?thesis
    unfolding span tot t_def [symmetric] img_def [symmetric]
    using s3 s4 by (simp only: s reserve_facts simp_thms)
qed

text \<open>
  C5. After a successful \<open>pmm_init\<close> the allocator is well-formed and its free pages are
  exactly the pages of the firmware's conventional regions below the ceiling, less the
  low megabyte, the pages that hold the bitmap and the reference counts, the kernel
  image, the memory map and the boot information block. Page 0 is in use and every
  reference count is 0.
\<close>

theorem pmm_init_spec:
  assumes "pmm_init (Some info) = Some s"
  shows "pmm_wf s \<and> page0_used s \<and> (\<forall>p<g_total_pages s. g_refs s ! p = 0)
    \<and> free_set s = conventional_pages info \<inter> {..<g_total_pages s} - page_range 0 0x100000 - bitmap_span s
        - (if bi_image_base info \<noteq> 0 \<and> bi_image_size info \<noteq> 0
           then page_range (bi_image_base info) (wrap64 (bi_image_base info + bi_image_size info)) else {})
        - page_range (bi_mmap_ptr info) (wrap64 (bi_mmap_ptr info + length (bi_mmap info) * sizeof_mmap_entry))
        - page_range (bi_self info) (wrap64 (bi_self info + sizeof_boot_info))"
proof -
  note f = pmm_init_free_set [OF assms]
  have "4096 \<le> g_total_pages s" using f init_ceiling_bounds(1) [of info] by simp
  moreover have "0 \<in> page_range 0 0x100000" by (simp add: page_range_def)
  ultimately have "page0_used s" using f by (simp add: page0_used_iff)
  with f show ?thesis by simp
qed

text \<open>A machine with 16 MiB of conventional memory above the first megabyte.\<close>

definition demo_info :: boot_info where
  "demo_info = \<lparr>bi_self = 0x9000, bi_mmap_ptr = 0x8000,
     bi_mmap = [\<lparr>e_type = 2, e_phys_start = 0, e_npages = 256\<rparr>,
                \<lparr>e_type = 7, e_phys_start = 0x100000, e_npages = 3840\<rparr>],
     bi_phys_ceiling = 0x1000000, bi_image_base = 0x200000, bi_image_size = 0x40000\<rparr>"

lemma demo_ceiling: "init_ceiling demo_info = 16777216"
  by (simp add: init_ceiling_def demo_info_def align_up_page)

lemma pmm_init_succeeds:
  assumes "bi_mmap_ptr info \<noteq> 0" "bi_mmap info \<noteq> []" "init_ceiling info div PAGE_SIZE = t"
    "place_bitmap (bi_mmap info) ((align_up ((t + 7) div 8) PAGE_SIZE + align_up t PAGE_SIZE
       + PAGE_SIZE - 1) div PAGE_SIZE) \<noteq> 0"
  shows "\<exists>s. pmm_init (Some info) = Some s"
  using assms unfolding pmm_init_def option.case Let_def by (simp only: length_0_conv if_False simp_thms option.inject)

lemma demo_init: "\<exists>s. pmm_init (Some demo_info) = Some s"
proof (rule pmm_init_succeeds)
  show "init_ceiling demo_info div PAGE_SIZE = 4096" by (simp add: demo_ceiling)
  show "place_bitmap (bi_mmap demo_info) ((align_up ((4096 + 7) div 8) PAGE_SIZE + align_up 4096 PAGE_SIZE
       + PAGE_SIZE - 1) div PAGE_SIZE) \<noteq> 0"
    by (simp add: align_up_page demo_info_def region_end_def)
qed (simp_all add: demo_info_def)

theorem pmm_init_spec_witness:
  "\<exists>s. pmm_init (Some demo_info) = Some s \<and> pmm_wf s \<and> page0_used s"
  using demo_init pmm_init_spec by blast

section \<open>A small allocator for the witnesses\<close>

text \<open>Sixteen pages; 0, 1, 3 and 8 to 15 in use.\<close>

definition demo_pmm :: pmm where
  "demo_pmm = \<lparr>g_bitmap_phys = 0x1000, g_bitmap = [0x0B, 0xFF], g_refs = (replicate 16 0)[3 := 1],
     g_total_pages = 16, g_free_pages = 5, g_ceiling = 0x10000\<rparr>"

lemma free_set_list: "free_set s = set (filter (\<lambda>p. \<not> bm_test s p) [0..<g_total_pages s])"
  by (auto simp: free_set_def)

lemma demo_free_list: "filter (\<lambda>p. \<not> bm_test demo_pmm p) [0..<g_total_pages demo_pmm] = [2, 4, 5, 6, 7]"
  by (simp add: demo_pmm_def upt_conv_Cons bm_test_def)

lemma demo_free: "free_set demo_pmm = {2, 4, 5, 6, 7}"
  unfolding free_set_list demo_free_list by simp

lemma demo_wf: "pmm_wf demo_pmm" "page0_used demo_pmm"
  unfolding pmm_wf_def  demo_free page0_used_def by (simp_all add: demo_pmm_def bm_test_def)

lemma demo_scan: "alloc_scan demo_pmm 2 0 = Some 4"
  by (simp add: alloc_scan.simps run_blocked_def demo_pmm_def upt_conv_Cons bm_test_def)

lemma demo_alloc: "fst (pmm_alloc_pages 2 demo_pmm) = 0x4000"
  by (simp add: pmm_alloc_pages_def demo_scan)

theorem pmm_alloc_pages_first_fit_witness:
  "\<exists>s'. pmm_alloc_pages 2 demo_pmm = (0x4000, s') \<and> pmm_wf s' \<and> free_set s' = {2, 6, 7}"
proof -
  obtain a s' where r: "pmm_alloc_pages 2 demo_pmm = (a, s')" by (rule prod.exhaust)
  have a: "a = 0x4000" using demo_alloc r by simp
  have "free_set s' = free_set demo_pmm - {4..<6} \<and> pmm_wf s'"
    using pmm_alloc_pages_first_fit [OF demo_wf _ r] by (simp add: a)
  moreover have "free_set demo_pmm - {4..<6} = {2, 6, 7}"
    by (simp add: demo_free insert_Diff_if)
  ultimately show ?thesis using r a by simp
qed

theorem pmm_page_deref_spec_witness:
  "pmm_wf (pmm_page_deref 0x3000 demo_pmm) \<and> free_set (pmm_page_deref 0x3000 demo_pmm) = {2, 3, 4, 5, 6, 7}"
proof -
  have "3 < g_total_pages demo_pmm" "g_refs demo_pmm ! 3 = 1" by (simp_all add: demo_pmm_def)
  then have "pmm_wf (pmm_page_deref 0x3000 demo_pmm)
      \<and> free_set (pmm_page_deref 0x3000 demo_pmm) = insert 3 {2, 4, 5, 6, 7}"
    using pmm_page_deref_spec [OF demo_wf(1), of 3 "0x3000"] by (simp add: demo_free)
  moreover have "insert 3 {2, 4, 5, 6, 7} = {2, 3, 4, 5, 6, 7 :: nat}" by auto
  ultimately show ?thesis by simp
qed

end
