(* ===== verification/KHeap.thy ===== *)
theory KHeap
  imports Pmm
begin

text \<open>
  The kernel heap, \<open>src/kernel/mm/heap.c\<close>: first fit over one pool with a singly linked
  free list kept inside the free blocks, full coalescing on release. The pool's memory is
  the map \<open>hmem\<close> from the address of an 8-byte cell to its value, so that the intrusive
  list is the one the code walks: a free block at \<open>a\<close> has its size in cell \<open>a\<close> and its
  \<open>next\<close> pointer in cell \<open>a + 8\<close>; a used block has its size in cell \<open>a\<close> and the payload
  the caller holds starts at \<open>a + 8\<close>.

  The loops over the free list carry fuel, one unit per node. The pool holds at most
  \<open>g_heap_size div 32\<close> blocks, so \<open>heap_fuel\<close> is never spent on a well-formed heap; the
  correctness theorems below are equations for the results and so include that fact.
\<close>

section \<open>Data\<close>

record heap =
  g_heap_base :: nat
  g_heap_size :: nat
  g_free :: nat
  hmem :: "nat \<Rightarrow> nat"

abbreviation (input) HEAP_PAGES :: nat where "HEAP_PAGES \<equiv> 2048"
abbreviation (input) MIN_BLOCK :: nat where "MIN_BLOCK \<equiv> 32"

definition node_size :: "heap \<Rightarrow> nat \<Rightarrow> nat" where
  "node_size h n = hmem h n"

definition node_next :: "heap \<Rightarrow> nat \<Rightarrow> nat" where
  "node_next h n = hmem h (n + 8)"

definition set_size :: "nat \<Rightarrow> nat \<Rightarrow> heap \<Rightarrow> heap" where
  "set_size n v h = h\<lparr>hmem := (hmem h)(n := v)\<rparr>"

definition set_next :: "nat \<Rightarrow> nat \<Rightarrow> heap \<Rightarrow> heap" where
  "set_next n v h = h\<lparr>hmem := (hmem h)(n + 8 := v)\<rparr>"

text \<open>A \<open>struct freenode **\<close>: the address of \<open>g_free\<close> or of a node's \<open>next\<close> field.\<close>

datatype slot = FreeHead | NextOf nat

fun slot_get :: "heap \<Rightarrow> slot \<Rightarrow> nat" where
  "slot_get h FreeHead = g_free h"
| "slot_get h (NextOf n) = node_next h n"

fun slot_put :: "slot \<Rightarrow> nat \<Rightarrow> heap \<Rightarrow> heap" where
  "slot_put FreeHead v h = h\<lparr>g_free := v\<rparr>"
| "slot_put (NextOf n) v h = set_next n v h"

definition heap_fuel :: "heap \<Rightarrow> nat" where
  "heap_fuel h = Suc (g_heap_size h div MIN_BLOCK)"

section \<open>Operations\<close>

definition heap_init :: "heap \<Rightarrow> pmm \<Rightarrow> int \<times> heap \<times> pmm" where
  "heap_init h s =
     (let (phys, s') = pmm_alloc_pages HEAP_PAGES s
      in if phys = 0 then (-1, h, s')
         else let size = HEAP_PAGES * PAGE_SIZE;
                  h1 = h\<lparr>g_heap_base := phys, g_heap_size := size,
                         hmem := (\<lambda>a. if phys \<le> a \<and> a < phys + size then 0 else hmem h a)\<rparr>;
                  h2 = h1\<lparr>g_free := phys\<rparr>;
                  h3 = set_size phys size h2
              in (0, set_next phys 0 h3, s'))"

definition split_node :: "nat \<Rightarrow> nat \<Rightarrow> heap \<Rightarrow> heap" where
  "split_node n need h =
     (if node_size h n \<ge> wrap64 (need + MIN_BLOCK)
      then let rest = n + need;
               h1 = set_size rest (node_size h n - need) h;
               h2 = set_next rest (node_next h1 n) h1;
               h3 = set_size n need h2
           in set_next n rest h3
      else h)"

text \<open>The body of the search loop once a block is large enough.\<close>

definition take_block :: "slot \<Rightarrow> nat \<Rightarrow> nat \<Rightarrow> heap \<Rightarrow> nat \<times> heap" where
  "take_block pp n need h =
     (let h1 = split_node n need h;
          h2 = slot_put pp (node_next h1 n) h1;
          h3 = set_size n (node_size h2 n) h2
      in (n + 8, h3))"

fun kmalloc_loop :: "nat \<Rightarrow> nat \<Rightarrow> slot \<Rightarrow> heap \<Rightarrow> nat \<times> heap" where
  "kmalloc_loop 0 need pp h = (0, h)"
| "kmalloc_loop (Suc fuel) need pp h =
     (let n = slot_get h pp
      in if n = 0 then (0, h)
         else if node_size h n \<ge> need then take_block pp n need h
         else kmalloc_loop fuel need (NextOf n) h)"

definition kmalloc_need :: "nat \<Rightarrow> nat" where
  "kmalloc_need sz =
     (let need = align_up (wrap64 (sz + 8)) 16
      in if need < MIN_BLOCK then MIN_BLOCK else need)"

definition kmalloc :: "nat \<Rightarrow> heap \<Rightarrow> nat \<times> heap" where
  "kmalloc sz h =
     (if sz = 0 then (0, h)
      else kmalloc_loop (heap_fuel h) (kmalloc_need sz) FreeHead h)"

text \<open>The two list walks of \<open>kfree\<close> and the unlinking loop.\<close>

fun find_node :: "nat \<Rightarrow> (nat \<Rightarrow> bool) \<Rightarrow> nat \<Rightarrow> heap \<Rightarrow> nat option" where
  "find_node 0 P fp h = None"
| "find_node (Suc fuel) P fp h =
     (if fp = 0 then None else if P fp then Some fp else find_node fuel P (node_next h fp) h)"

fun find_slot :: "nat \<Rightarrow> nat \<Rightarrow> slot \<Rightarrow> heap \<Rightarrow> slot" where
  "find_slot 0 fp pp h = pp"
| "find_slot (Suc fuel) fp pp h =
     (if slot_get h pp \<noteq> 0 \<and> slot_get h pp \<noteq> fp
      then find_slot fuel fp (NextOf (slot_get h pp)) h
      else pp)"

definition absorb_next :: "nat \<Rightarrow> heap \<Rightarrow> heap" where
  "absorb_next n h =
     (let next_phys = n + node_size h n
      in if next_phys < g_heap_base h + g_heap_size h
         then case find_node (heap_fuel h) (\<lambda>fp. fp = next_phys) (g_free h) h of
                Some fp \<Rightarrow>
                  let h1 = set_size n (node_size h n + node_size h fp) h;
                      pp = find_slot (heap_fuel h) fp FreeHead h1
                  in if slot_get h1 pp = fp then slot_put pp (node_next h1 fp) h1 else h1
              | None \<Rightarrow> h
         else h)"

definition push_free :: "nat \<Rightarrow> heap \<Rightarrow> heap" where
  "push_free n h = (set_next n (g_free h) h)\<lparr>g_free := n\<rparr>"

definition join_prev :: "nat \<Rightarrow> heap \<Rightarrow> heap" where
  "join_prev n h =
     (if n > g_heap_base h
      then case find_node (heap_fuel h) (\<lambda>fp. fp + node_size h fp = n) (g_free h) h of
             Some fp \<Rightarrow> set_size fp (node_size h fp + node_size h n) h
           | None \<Rightarrow> push_free n h
      else push_free n h)"

definition kfree :: "nat \<Rightarrow> heap \<Rightarrow> heap" where
  "kfree ptr h =
     (if ptr = 0 then h
      else let hdr = ptr - 8;
               sz = hmem h hdr
           in if sz < MIN_BLOCK \<or> hdr < g_heap_base h \<or> hdr + sz > g_heap_base h + g_heap_size h then h
              else let n = hdr;
                       h1 = set_next n 0 (set_size n sz h)
                   in join_prev n (absorb_next n h1))"

section \<open>List segments in memory\<close>

text \<open>\<open>lseg m p xs q\<close>: following \<open>next\<close> from \<open>p\<close> visits the nodes \<open>xs\<close> and reaches \<open>q\<close>.\<close>

fun lseg :: "(nat \<Rightarrow> nat) \<Rightarrow> nat \<Rightarrow> nat list \<Rightarrow> nat \<Rightarrow> bool" where
  "lseg m p [] q = (p = q)"
| "lseg m p (x # xs) q = (p = x \<and> x \<noteq> 0 \<and> lseg m (m (x + 8)) xs q)"

lemma lseg_append: "lseg m p (xs @ ys) q = (\<exists>r. lseg m p xs r \<and> lseg m r ys q)"
  by (induction xs arbitrary: p) auto

lemma lseg_cong:
  "(\<And>x. x \<in> set xs \<Longrightarrow> m (x + 8) = m' (x + 8)) \<Longrightarrow> lseg m p xs q = lseg m' p xs q"
  by (induction xs arbitrary: p) auto

lemma lseg_update_other:
  "(\<And>x. x \<in> set xs \<Longrightarrow> a \<noteq> x + 8) \<Longrightarrow> lseg (m(a := v)) p xs q = lseg m p xs q"
  by (rule lseg_cong) auto

definition slot_after :: "nat list \<Rightarrow> slot" where
  "slot_after us = (if us = [] then FreeHead else NextOf (last us))"

lemma slot_after_simps [simp]:
  "slot_after [] = FreeHead" "slot_after (us @ [x]) = NextOf x"
  by (simp_all add: slot_after_def)

text \<open>The content of the slot behind a segment that starts at \<open>g_free\<close>.\<close>

lemma slot_get_after:
  "lseg (hmem h) (g_free h) us q \<Longrightarrow> slot_get h (slot_after us) = q"
  by (cases us rule: rev_cases) (auto simp: lseg_append node_next_def)

lemma lseg_slot_put:
  assumes "lseg (hmem h) (g_free h) us q" "distinct us"
  shows "lseg (hmem (slot_put (slot_after us) v h)) (g_free (slot_put (slot_after us) v h)) us v"
proof (cases us rule: rev_cases)
  case Nil
  then show ?thesis by simp
next
  case (snoc vs x)
  with assms have "x \<notin> set vs" by simp
  then have "lseg ((hmem h)(x + 8 := v)) (g_free h) vs x"
    using assms snoc by (subst lseg_update_other) (auto simp: lseg_append)
  with assms snoc show ?thesis by (auto simp: set_next_def lseg_append)
qed

lemma slot_put_frame [simp]:
  "g_heap_base (slot_put pp v h) = g_heap_base h" "g_heap_size (slot_put pp v h) = g_heap_size h"
  by (cases pp; simp add: set_next_def)+

lemma set_sel [simp]:
  "g_heap_base (set_size n v h) = g_heap_base h" "g_heap_size (set_size n v h) = g_heap_size h"
  "g_free (set_size n v h) = g_free h" "hmem (set_size n v h) = (hmem h)(n := v)"
  "g_heap_base (set_next n v h) = g_heap_base h" "g_heap_size (set_next n v h) = g_heap_size h"
  "g_free (set_next n v h) = g_free h" "hmem (set_next n v h) = (hmem h)(n + 8 := v)"
  by (simp_all add: set_size_def set_next_def)

section \<open>The search loops as list functions\<close>

lemma kmalloc_loop_list:
  assumes "lseg (hmem h) (slot_get h (slot_after us)) xs 0" "length xs < fuel"
  shows "kmalloc_loop fuel need (slot_after us) h =
    (case dropWhile (\<lambda>x. node_size h x < need) xs of
       [] \<Rightarrow> (0, h)
     | x # ws \<Rightarrow> take_block (slot_after (us @ takeWhile (\<lambda>x. node_size h x < need) xs)) x need h)"
  using assms
proof (induction xs arbitrary: us fuel)
  case Nil
  then show ?case by (cases fuel) auto
next
  case (Cons x xs)
  then obtain k where k: "fuel = Suc k" by (cases fuel) auto
  have x: "slot_get h (slot_after us) = x" "x \<noteq> 0" using Cons.prems by auto
  have "kmalloc_loop k need (slot_after (us @ [x])) h =
    (case dropWhile (\<lambda>x. node_size h x < need) xs of
       [] \<Rightarrow> (0, h)
     | y # ws \<Rightarrow> take_block (slot_after ((us @ [x]) @ takeWhile (\<lambda>x. node_size h x < need) xs)) y need h)"
    using Cons.prems k by (intro Cons.IH) (auto simp: node_next_def)
  with x k show ?case by (auto simp: Let_def not_le simp del: dropWhile_eq_Nil_conv split: list.split)
qed

lemma find_node_list:
  assumes "lseg (hmem h) p xs 0" "length xs < fuel"
  shows "find_node fuel P p h = List.find P xs"
  using assms
proof (induction xs arbitrary: p fuel)
  case Nil
  then show ?case by (cases fuel) auto
next
  case (Cons x xs)
  then show ?case by (cases fuel) (auto simp: node_next_def)
qed

lemma find_slot_list:
  assumes "lseg (hmem h) (slot_get h (slot_after us)) (vs @ x # ws) 0" "x \<notin> set vs"
    "length vs < fuel"
  shows "find_slot fuel x (slot_after us) h = slot_after (us @ vs)"
  using assms
proof (induction vs arbitrary: us fuel)
  case Nil
  then show ?case by (cases fuel) auto
next
  case (Cons v vs)
  then obtain k where k: "fuel = Suc k" by (cases fuel) auto
  have "find_slot k x (slot_after (us @ [v])) h = slot_after ((us @ [v]) @ vs)"
    using Cons.prems k by (intro Cons.IH) (auto simp: node_next_def)
  with Cons.prems k show ?case by auto
qed

section \<open>Blocks tile the pool\<close>

text \<open>A block is its address, its size and whether it is free.\<close>

type_synonym block = "nat \<times> nat \<times> bool"

fun tiles :: "nat \<Rightarrow> block list \<Rightarrow> nat \<Rightarrow> bool" where
  "tiles a [] e = (a = e)"
| "tiles a ((x, sz, f) # bs) e = (x = a \<and> MIN_BLOCK \<le> sz \<and> 16 dvd sz \<and> tiles (a + sz) bs e)"

lemma tiles_append: "tiles a (bs @ cs) e = (\<exists>m. tiles a bs m \<and> tiles m cs e)"
  by (induction a bs e rule: tiles.induct) auto

lemma tiles_le: "tiles a bs e \<Longrightarrow> a + MIN_BLOCK * length bs \<le> e"
  by (induction a bs e rule: tiles.induct) auto

lemma tiles_bounds: "tiles a bs e \<Longrightarrow> (x, sz, f) \<in> set bs \<Longrightarrow> a \<le> x \<and> x + sz \<le> e \<and> MIN_BLOCK \<le> sz"
  by (induction a bs e rule: tiles.induct) (auto dest: tiles_le)

lemma tiles_aligned:
  "tiles a bs e \<Longrightarrow> 16 dvd a \<Longrightarrow> (x, sz, f) \<in> set bs \<Longrightarrow> 16 dvd x \<and> 16 dvd sz"
  by (induction a bs e rule: tiles.induct) auto

lemma tiles_split:
  assumes "tiles a (B1 @ (x, sz, f) # B2) e"
  shows "tiles a B1 x" "tiles (x + sz) B2 e" "MIN_BLOCK \<le> sz" "16 dvd sz"
  using assms by (auto simp: tiles_append)

lemma tiles_distinct: "tiles a bs e \<Longrightarrow> distinct (map fst bs)"
proof (induction a bs e rule: tiles.induct)
  case (2 a x sz f bs e)
  then show ?case by (auto dest: tiles_bounds)
qed simp

lemma tiles_unique:
  assumes "tiles a bs e" "(x, sz, f) \<in> set bs" "(x, sz', f') \<in> set bs"
  shows "sz' = sz \<and> f' = f"
  using tiles_distinct [OF assms(1)] assms(2,3)
  by (metis eq_key_imp_eq_value prod.inject)

text \<open>Blocks before and after a given block of a tiling do not reach into it.\<close>

lemma tiles_before: "tiles a B1 x \<Longrightarrow> (y, sy, g) \<in> set B1 \<Longrightarrow> y + sy \<le> x"
  using tiles_bounds by blast

lemma tiles_after: "tiles (x + sz) B2 e \<Longrightarrow> (y, sy, g) \<in> set B2 \<Longrightarrow> x + sz \<le> y"
  using tiles_bounds by blast

abbreviation is_free :: "block \<Rightarrow> bool" where
  "is_free b \<equiv> snd (snd b)"

definition coalesced :: "block list \<Rightarrow> bool" where
  "coalesced bs = successively (\<lambda>b c. \<not> (is_free b \<and> is_free c)) bs"

definition free_addrs :: "block list \<Rightarrow> nat set" where
  "free_addrs bs = {x. \<exists>sz. (x, sz, True) \<in> set bs}"

text \<open>
  The representation invariant: the free list visits \<open>xs\<close>, the blocks \<open>bs\<close> tile the
  pool with their sizes in their header cells, and the list holds exactly the free blocks.
  Between operations no two free blocks are adjacent.
\<close>

definition heap_ok :: "heap \<Rightarrow> nat list \<Rightarrow> block list \<Rightarrow> bool" where
  "heap_ok h xs bs \<longleftrightarrow>
     lseg (hmem h) (g_free h) xs 0 \<and> distinct xs \<and> set xs = free_addrs bs
     \<and> tiles (g_heap_base h) bs (g_heap_base h + g_heap_size h)
     \<and> (\<forall>(x, sz, f) \<in> set bs. hmem h x = sz)
     \<and> 0 < g_heap_base h \<and> 16 dvd g_heap_base h
     \<and> g_heap_base h + g_heap_size h < 18446744073709551552"

definition heap_rep :: "heap \<Rightarrow> nat list \<Rightarrow> block list \<Rightarrow> bool" where
  "heap_rep h xs bs \<longleftrightarrow> heap_ok h xs bs \<and> coalesced bs"

lemma free_addrs_simps [simp]:
  "free_addrs [] = {}" "free_addrs ((x, sz, True) # bs) = insert x (free_addrs bs)"
  "free_addrs ((x, sz, False) # bs) = free_addrs bs"
  "free_addrs (bs @ cs) = free_addrs bs \<union> free_addrs cs"
  by (auto simp: free_addrs_def)

lemma free_addrs_mem: "x \<in> free_addrs bs \<Longrightarrow> \<exists>sz. (x, sz, True) \<in> set bs"
  by (simp add: free_addrs_def)

lemma not_cell: "16 dvd y \<Longrightarrow> 16 dvd z \<Longrightarrow> y \<noteq> z + 8" for y z :: nat
  by presburger

lemma heap_okD:
  assumes "heap_ok h xs bs"
  shows "lseg (hmem h) (g_free h) xs 0" "distinct xs" "set xs = free_addrs bs"
    "tiles (g_heap_base h) bs (g_heap_base h + g_heap_size h)"
    "\<And>x sz f. (x, sz, f) \<in> set bs \<Longrightarrow> hmem h x = sz"
    "\<And>x sz f. (x, sz, f) \<in> set bs \<Longrightarrow> 16 dvd x \<and> 16 dvd sz \<and> MIN_BLOCK \<le> sz"
    "0 < g_heap_base h" "16 dvd g_heap_base h" "g_heap_base h + g_heap_size h < 18446744073709551552"
  using assms by (auto simp: heap_ok_def dest: tiles_aligned tiles_bounds)

lemma heap_okI:
  assumes "heap_ok h ys cs" "g_heap_base h' = g_heap_base h" "g_heap_size h' = g_heap_size h"
    "lseg (hmem h') (g_free h') xs 0" "distinct xs" "set xs = free_addrs bs"
    "tiles (g_heap_base h) bs (g_heap_base h + g_heap_size h)"
    "\<And>x sz f. (x, sz, f) \<in> set bs \<Longrightarrow> hmem h' x = sz"
  shows "heap_ok h' xs bs"
  using assms(2-8) heap_okD(7-9) [OF assms(1)] by (auto simp: heap_ok_def)

lemma heap_ok_node:
  assumes "heap_ok h xs bs" "x \<in> set xs"
  shows "16 dvd x" "\<exists>sz. (x, sz, True) \<in> set bs"
  using heap_okD(3,6) [OF assms(1)] assms(2) by (auto dest: free_addrs_mem)

lemma heap_ok_fuel:
  assumes "heap_ok h xs bs"
  shows "length xs < heap_fuel h"
proof -
  have "set xs \<subseteq> set (map fst bs)"
    using assms by (force dest: heap_okD(3) free_addrs_mem)
  then have "length xs \<le> length bs"
    using heap_okD(2) [OF assms] by (metis card_length card_mono distinct_card finite_set le_trans length_map)
  moreover have "MIN_BLOCK * length bs \<le> g_heap_size h"
    using tiles_le [OF heap_okD(4) [OF assms]] by simp
  then have "length bs \<le> g_heap_size h div MIN_BLOCK" by linarith
  ultimately show ?thesis by (simp add: heap_fuel_def)
qed

text \<open>Two blocks of a tiling are disjoint, so the cells of free nodes lie outside used blocks.\<close>

lemma tiles_disjoint:
  assumes "tiles a bs e" "(x, sx, f) \<in> set bs" "(y, sy, g) \<in> set bs" "x \<noteq> y"
  shows "x + sx \<le> y \<or> y + sy \<le> x"
proof -
  obtain B1 B2 where B: "bs = B1 @ (x, sx, f) # B2" using assms(2) by (auto dest: split_list)
  show ?thesis
    using assms tiles_split [OF assms(1) [unfolded B]] by (auto simp: B dest: tiles_before tiles_after)
qed

lemma free_cell_outside:
  assumes "heap_ok h xs bs" "x \<in> set xs" "(y, s, False) \<in> set bs" "y \<le> a" "a < y + s"
  shows "a \<noteq> x \<and> a \<noteq> x + 8"
proof -
  obtain sx where x: "(x, sx, True) \<in> set bs" using heap_ok_node [OF assms(1,2)] by auto
  have "x \<noteq> y" using tiles_unique [OF heap_okD(4) [OF assms(1)] x] assms(3) by blast
  then have "x + sx \<le> y \<or> y + s \<le> x"
    by (rule tiles_disjoint [OF heap_okD(4) [OF assms(1)] x assms(3)])
  with heap_okD(6) [OF assms(1) x] assms(4,5) show ?thesis by auto
qed

text \<open>Cells of used blocks, header and payload, keep their value.\<close>

definition keeps :: "block list \<Rightarrow> heap \<Rightarrow> heap \<Rightarrow> bool" where
  "keeps bs h h' \<longleftrightarrow>
     (\<forall>y s a. (y, s, False) \<in> set bs \<longrightarrow> y \<le> a \<longrightarrow> a < y + s \<longrightarrow> hmem h' a = hmem h a)"

lemma keeps_trans:
  "keeps bs h h' \<Longrightarrow> keeps bs' h' h'' \<Longrightarrow> (\<And>y s. (y, s, False) \<in> set bs'' \<Longrightarrow> (y, s, False) \<in> set bs \<and> (y, s, False) \<in> set bs')
    \<Longrightarrow> keeps bs'' h h''"
  unfolding keeps_def by metis

lemma slot_put_mem:
  "(\<And>y. y \<in> set us \<Longrightarrow> a \<noteq> y + 8) \<Longrightarrow> hmem (slot_put (slot_after us) v h) a = hmem h a"
  by (cases us rule: rev_cases) (auto simp: set_next_def)

section \<open>The primitive steps on a well-formed heap\<close>

text \<open>Unlinking a free node: its block becomes a used one.\<close>

lemma unlink_ok:
  assumes ok: "heap_ok h (us @ x # ws) (B1 @ (x, sz, True) # B2)"
    and h': "h' = slot_put (slot_after us) (node_next h x) h"
  shows "heap_ok h' (us @ ws) (B1 @ (x, sz, False) # B2)" "keeps (B1 @ (x, sz, True) # B2) h h'"
proof -
  note D = heap_okD [OF ok]
  have mem: "hmem h' a = hmem h a" if "\<And>y. y \<in> set us \<Longrightarrow> a \<noteq> y + 8" for a
    using that by (simp add: h' slot_put_mem)
  have l: "lseg (hmem h) (g_free h) us x" "lseg (hmem h) (hmem h (x + 8)) ws 0" "distinct us"
    using D(1,2) by (auto simp: lseg_append)
  have "lseg (hmem h') (g_free h') us (hmem h (x + 8))"
    unfolding h' node_next_def by (rule lseg_slot_put [OF l(1,3)])
  moreover have "lseg (hmem h') (hmem h (x + 8)) ws 0 = lseg (hmem h) (hmem h (x + 8)) ws 0"
    using D(2) by (intro lseg_cong mem) auto
  moreover have sz: "hmem h' y = s" if "(y, s, f) \<in> set (B1 @ (x, sz, True) # B2)" for y s f
    using D(5,6) [OF that] heap_ok_node(1) [OF ok] not_cell by (subst mem) auto
  moreover have "x \<notin> free_addrs B1" "x \<notin> free_addrs B2"
    using tiles_distinct [OF D(4)] by (force simp: free_addrs_def)+
  ultimately show "heap_ok h' (us @ ws) (B1 @ (x, sz, False) # B2)"
  proof (intro heap_okI [OF ok])
    show "set (us @ ws) = free_addrs (B1 @ (x, sz, False) # B2)"
      using D(2,3) \<open>x \<notin> free_addrs B1\<close> \<open>x \<notin> free_addrs B2\<close> by auto
    show "hmem h' y = s" if "(y, s, f) \<in> set (B1 @ (x, sz, False) # B2)" for y s f
      using that sz [of y s] by auto
  qed (use D(2,4) l in \<open>auto simp: h' lseg_append tiles_append\<close>)
  show "keeps (B1 @ (x, sz, True) # B2) h h'"
    unfolding keeps_def
  proof (intro allI impI)
    fix y s a assume "(y, s, False) \<in> set (B1 @ (x, sz, True) # B2)" "y \<le> a" "a < y + s"
    with free_cell_outside [OF ok] show "hmem h' a = hmem h a" by (intro mem) auto
  qed
qed

text \<open>Merging a block with the used block behind it, by adding up the sizes.\<close>

lemma merge_ok:
  assumes ok: "heap_ok h xs (B1 @ (n, s1, f) # (m, s2, False) # B2)"
  shows "heap_ok (set_size n (s1 + s2) h) xs (B1 @ (n, s1 + s2, f) # B2)"
    "keeps (B1 @ (m, s2, False) # B2) h (set_size n (s1 + s2) h)"
proof -
  note D = heap_okD [OF ok]
  have t: "tiles (g_heap_base h) B1 n" "m = n + s1" "tiles (n + s1 + s2) B2 (g_heap_base h + g_heap_size h)"
    using D(4) by (auto simp: tiles_append)
  have s: "16 dvd n" "16 dvd s1" "16 dvd s2" "MIN_BLOCK \<le> s1" "MIN_BLOCK \<le> s2"
    using D(6) [of n s1 f] D(6) [of m s2 False] by auto
  have "lseg ((hmem h)(n := s1 + s2)) (g_free h) xs 0"
    using D(1) heap_ok_node(1) [OF ok] not_cell [OF s(1)] by (subst lseg_update_other) auto
  moreover have other: "n \<noteq> y" if "(y, s, g) \<in> set B1 \<union> set B2" for y s g
    using that t s by (auto dest: tiles_before tiles_after tiles_bounds)
  moreover have "free_addrs (B1 @ (n, s1 + s2, f) # B2) = free_addrs (B1 @ (n, s1, f) # (m, s2, False) # B2)"
    by (cases f) auto
  ultimately show "heap_ok (set_size n (s1 + s2) h) xs (B1 @ (n, s1 + s2, f) # B2)"
  proof (intro heap_okI [OF ok])
    show "hmem (set_size n (s1 + s2) h) y = s" if "(y, s, g) \<in> set (B1 @ (n, s1 + s2, f) # B2)" for y s g
      using that D(5) [of y s g] other [of y s g] by (auto simp: set_size_def)
  qed (use D(2-4) t s in \<open>auto simp: set_size_def tiles_append add.assoc\<close>)
  have "\<not> (y \<le> n \<and> n < y + s)" if "(y, s, False) \<in> set (B1 @ (m, s2, False) # B2)" for y s
    using that t s by (auto dest: tiles_before tiles_after)
  then show "keeps (B1 @ (m, s2, False) # B2) h (set_size n (s1 + s2) h)"
    by (auto simp: keeps_def set_size_def)
qed

text \<open>Splitting a free block in two.\<close>

lemma split_ok:
  assumes ok: "heap_ok h (us @ x # ws) (B1 @ (x, sz, True) # B2)"
    and need: "need + MIN_BLOCK \<le> sz" "MIN_BLOCK \<le> need" "16 dvd need"
    and h': "h' = split_node x need h"
  shows "heap_ok h' (us @ x # (x + need) # ws) (B1 @ (x, need, True) # (x + need, sz - need, True) # B2)"
    "keeps (B1 @ (x, sz, True) # B2) h h'" "node_next h' x = x + need"
proof -
  define r where "r = x + need"
  note D = heap_okD [OF ok]
  have x: "16 dvd x" "16 dvd sz" "hmem h x = sz" "16 dvd r" using D(5,6) [of x sz True] need by (auto simp: r_def)
  have t: "tiles (g_heap_base h) B1 x" "tiles (x + sz) B2 (g_heap_base h + g_heap_size h)"
    using tiles_split [OF D(4)] by auto
  then have lim: "x + sz < 18446744073709551552" using D(9) tiles_le by fastforce
  have al: "r \<noteq> x + 8" "r \<noteq> x" "x + 8 \<noteq> r" using need by (auto simp: r_def)
  define m1 where "m1 = (hmem h)(r := sz - need, r + 8 := hmem h (x + 8), x := need, x + 8 := r)"
  have h'm: "h' = h\<lparr>hmem := m1\<rparr>"
    unfolding h' using need al lim
    by (simp add: split_node_def node_size_def node_next_def set_size_def set_next_def x m1_def r_def Let_def)
  have fresh: "y \<noteq> r" if "(y, s, f) \<in> set (B1 @ (x, sz, True) # B2)" for y s f
    using that t need by (auto simp: r_def dest: tiles_before tiles_after)
  have fresh_xs: "y \<noteq> r" if "y \<in> set (us @ x # ws)" for y
    using heap_ok_node(2) [OF ok that] fresh by blast
  have next_eq: "m1 (y + 8) = hmem h (y + 8)" if "y \<in> set (us @ ws)" for y
    using that fresh_xs [of y] x heap_ok_node(1) [OF ok, of y] not_cell [of r y] not_cell [of x y] D(2)
    by (auto simp: m1_def)
  have "lseg m1 (g_free h) us x" "lseg m1 (hmem h (x + 8)) ws 0"
    using D(1) next_eq by (auto simp: lseg_append cong: lseg_cong)
  then have seg: "lseg m1 (g_free h) (us @ x # r # ws) 0"
    using D(1) al need by (auto simp: lseg_append m1_def r_def)
  have sizes: "m1 y = s" if "(y, s, f) \<in> set (B1 @ B2)" for y s f
  proof -
    have "16 dvd y" "y \<noteq> r" "y \<noteq> x" "hmem h y = s"
      using that D(5,6) [of y s f] fresh [of y s f] t need by (auto dest: tiles_before tiles_after)
    then show ?thesis using not_cell [of y x] not_cell [of y r] x by (auto simp: m1_def)
  qed
  show "heap_ok h' (us @ x # (x + need) # ws) (B1 @ (x, need, True) # (x + need, sz - need, True) # B2)"
    unfolding r_def [symmetric]
  proof (intro heap_okI [OF ok])
    show "hmem h' y = s" if "(y, s, f) \<in> set (B1 @ (x, need, True) # (r, sz - need, True) # B2)" for y s f
      using that sizes [of y s f] al not_cell [OF x(1,4)] by (auto simp: h'm m1_def)
  qed (use D(2,3) t need x fresh_xs seg in \<open>auto simp: h'm tiles_append r_def\<close>)
  show "node_next h' x = x + need" by (simp add: h'm node_next_def m1_def r_def)
  show "keeps (B1 @ (x, sz, True) # B2) h h'"
    unfolding keeps_def
  proof (intro allI impI)
    fix y s a assume b: "(y, s, False) \<in> set (B1 @ (x, sz, True) # B2)" "y \<le> a" "a < y + s"
    have "a \<noteq> r \<and> a \<noteq> r + 8"
      using b t need by (auto simp: r_def dest: tiles_before tiles_after)
    with free_cell_outside [OF ok _ b, of x] show "hmem h' a = hmem h a" by (auto simp: h'm m1_def)
  qed
qed

text \<open>Pushing a used block on the free list.\<close>

lemma push_ok:
  assumes ok: "heap_ok h xs (B1 @ (n, sz, False) # B2)"
  shows "heap_ok (push_free n h) (n # xs) (B1 @ (n, sz, True) # B2)"
    "keeps (B1 @ B2) h (push_free n h)"
proof -
  note D = heap_okD [OF ok]
  have t: "tiles (g_heap_base h) B1 n" "tiles (n + sz) B2 (g_heap_base h + g_heap_size h)"
    using tiles_split [OF D(4)] by auto
  have n: "16 dvd n" "MIN_BLOCK \<le> sz" "0 < n"
    using D(6) [of n sz False] D(7) tiles_le [OF t(1)] by auto
  have "n \<notin> free_addrs (B1 @ B2)"
    using t n by (auto simp: free_addrs_def dest: tiles_before tiles_after tiles_bounds)
  then have new: "n \<notin> set xs" using D(3) by simp
  then have "lseg ((hmem h)(n + 8 := g_free h)) (g_free h) xs 0"
    using D(1) by (subst lseg_update_other) auto
  moreover have "hmem (push_free n h) y = s" if "(y, s, f) \<in> set (B1 @ (n, sz, True) # B2)" for y s f
    using that D(5,6) [of y s f] D(5) [of n sz False] n not_cell [of y n] by (auto simp: push_free_def set_next_def)
  ultimately show "heap_ok (push_free n h) (n # xs) (B1 @ (n, sz, True) # B2)"
    using D(2-4) new n by (intro heap_okI [OF ok]) (auto simp: push_free_def set_next_def tiles_append)
  show "keeps (B1 @ B2) h (push_free n h)"
    using t n by (auto simp: keeps_def push_free_def set_next_def dest: tiles_before tiles_after)
qed

text \<open>A caller's write into the payload of a used block leaves the heap well formed.\<close>

lemma payload_write_ok:
  assumes ok: "heap_ok h xs bs" and n: "(n, sz, False) \<in> set bs" and a: "n < a" "a < n + sz"
  shows "heap_ok (h\<lparr>hmem := (hmem h)(a := v)\<rparr>) xs bs"
proof -
  note D = heap_okD [OF ok]
  have "lseg ((hmem h)(a := v)) (g_free h) xs 0"
    using D(1) free_cell_outside [OF ok _ n _ a(2)] a(1) by (subst lseg_update_other) auto
  moreover have "a \<noteq> y" if "(y, s, f) \<in> set bs" for y s f
    using tiles_disjoint [OF D(4) n that] D(6) [OF that] a by auto
  ultimately show ?thesis using D by (intro heap_okI [OF ok]) auto
qed

section \<open>Allocation\<close>

lemma coalesced_simps [simp]:
  "coalesced []" "coalesced [b]"
  "coalesced (b # c # bs) \<longleftrightarrow> \<not> (is_free b \<and> is_free c) \<and> coalesced (c # bs)"
  by (simp_all add: coalesced_def)

lemma coalesced_append:
  "coalesced (bs @ c # cs) \<longleftrightarrow>
     coalesced bs \<and> coalesced (c # cs) \<and> (bs \<noteq> [] \<longrightarrow> \<not> (is_free (last bs) \<and> is_free c))"
  by (auto simp: coalesced_def successively_append_iff)

lemma coalesced_Cons:
  "coalesced (b # bs) \<longleftrightarrow> coalesced bs \<and> (bs \<noteq> [] \<longrightarrow> \<not> (is_free b \<and> is_free (hd bs)))"
  by (cases bs) auto

lemma set_size_triv [simp]: "set_size n (node_size h n) h = h"
  by (simp add: set_size_def node_size_def)

lemma kmalloc_need_props:
  assumes "sz < 18446744073709551552"
  shows "sz + 8 \<le> kmalloc_need sz" "MIN_BLOCK \<le> kmalloc_need sz" "16 dvd kmalloc_need sz"
  using assms by (auto simp: kmalloc_need_def Let_def align_up_16 intro: order_trans)

text \<open>The free list and the block list after a block has been taken for \<open>need\<close> bytes.\<close>

definition took :: "nat \<Rightarrow> nat list \<Rightarrow> nat \<Rightarrow> nat list \<Rightarrow> block list \<Rightarrow> nat \<Rightarrow> block list \<Rightarrow> nat list \<times> block list" where
  "took need us x ws B1 sz B2 =
     (if need + MIN_BLOCK \<le> sz
      then (us @ (x + need) # ws, B1 @ (x, need, False) # (x + need, sz - need, True) # B2)
      else (us @ ws, B1 @ (x, sz, False) # B2))"

lemma take_block_ok:
  assumes rep: "heap_rep h (us @ x # ws) (B1 @ (x, sz, True) # B2)"
    and need: "need \<le> sz" "MIN_BLOCK \<le> need" "16 dvd need"
    and h': "take_block (slot_after us) x need h = (p, h')"
    and tk: "took need us x ws B1 sz B2 = (xs', bs')"
  shows "p = x + 8 \<and> heap_rep h' xs' bs' \<and> keeps (B1 @ (x, sz, True) # B2) h h'"
proof -
  have ok: "heap_ok h (us @ x # ws) (B1 @ (x, sz, True) # B2)"
    and co: "coalesced (B1 @ (x, sz, True) # B2)" using rep by (auto simp: heap_rep_def)
  define h1 where "h1 = split_node x need h"
  have p: "p = x + 8" "h' = slot_put (slot_after us) (node_next h1 x) h1"
    using h' by (auto simp: take_block_def Let_def h1_def)
  show ?thesis
  proof (cases "need + MIN_BLOCK \<le> sz")
    case True
    note S = split_ok [OF ok True need(2,3) h1_def]
    note U = unlink_ok [OF S(1) p(2)]
    have "keeps (B1 @ (x, sz, True) # B2) h h'" by (rule keeps_trans [OF S(2) U(2)]) auto
    with p(1) U(1) co tk True show ?thesis
      by (auto simp: took_def heap_rep_def coalesced_append coalesced_Cons)
  next
    case False
    have "sz = node_size h x" using heap_okD(5) [OF ok, of x sz True] by (simp add: node_size_def)
    moreover have "need + MIN_BLOCK < 18446744073709551616"
      using tiles_bounds [OF heap_okD(4) [OF ok], of x sz True] heap_okD(9) [OF ok] need(1) by simp
    ultimately have "h1 = h" using False by (simp add: h1_def split_node_def)
    with p(2) have "h' = slot_put (slot_after us) (node_next h x) h" by simp
    note U = unlink_ok [OF ok this]
    with p(1) co tk False show ?thesis
      by (auto simp: took_def heap_rep_def coalesced_append coalesced_Cons)
  qed
qed

lemma kmalloc_rep:
  assumes rep: "heap_rep h xs bs" and sz: "0 < sz" "sz < 18446744073709551552"
  defines "need \<equiv> kmalloc_need sz"
  shows "\<forall>x \<in> set xs. hmem h x < need \<Longrightarrow> kmalloc sz h = (0, h)"
    and "\<lbrakk>xs = us @ x # ws; \<forall>y \<in> set us. hmem h y < need; need \<le> hmem h x;
          bs = B1 @ (x, bsz, True) # B2; took need us x ws B1 bsz B2 = (xs', bs')\<rbrakk>
         \<Longrightarrow> \<exists>h'. kmalloc sz h = (x + 8, h') \<and> heap_rep h' xs' bs' \<and> keeps bs h h'"
proof -
  have ok: "heap_ok h xs bs" using rep by (simp add: heap_rep_def)
  have loop: "kmalloc sz h = (case dropWhile (\<lambda>x. node_size h x < need) xs of [] \<Rightarrow> (0, h)
      | x # ws \<Rightarrow> take_block (slot_after (takeWhile (\<lambda>x. node_size h x < need) xs)) x need h)"
    using kmalloc_loop_list [of h "[]" xs "heap_fuel h" need, unfolded append_Nil] heap_okD(1) [OF ok] heap_ok_fuel [OF ok] sz
    by (simp add: kmalloc_def need_def)
  show "kmalloc sz h = (0, h)" if "\<forall>x \<in> set xs. hmem h x < need"
  proof -
    have "dropWhile (\<lambda>x. node_size h x < need) xs = []" using that by (simp add: node_size_def)
    then show ?thesis by (simp only: loop list.case)
  qed
  assume A: "xs = us @ x # ws" "\<forall>y \<in> set us. hmem h y < need" "need \<le> hmem h x"
    "bs = B1 @ (x, bsz, True) # B2" "took need us x ws B1 bsz B2 = (xs', bs')"
  have "dropWhile (\<lambda>x. node_size h x < need) xs = x # ws" "takeWhile (\<lambda>x. node_size h x < need) xs = us"
    using A(1-3) by (simp_all add: node_size_def)
  then have "kmalloc sz h = take_block (slot_after us) x need h" by (simp only: loop list.case)
  moreover obtain p h' where ph: "take_block (slot_after us) x need h = (p, h')" by (rule prod.exhaust)
  moreover have "need \<le> bsz" using A heap_okD(5) [OF ok, of x bsz True] by simp
  ultimately show "\<exists>h'. kmalloc sz h = (x + 8, h') \<and> heap_rep h' xs' bs' \<and> keeps bs h h'"
    using take_block_ok [OF rep [unfolded A(1,4)] _ _ _ ph A(5)] kmalloc_need_props [OF sz(2)] A(4)
    by (simp add: need_def)
qed

section \<open>Release\<close>

text \<open>The abstract effect: mark the block free, then join adjacent free blocks.\<close>

definition mark_free :: "nat \<Rightarrow> block list \<Rightarrow> block list" where
  "mark_free n bs = map (\<lambda>(x, sz, f). (x, sz, f \<or> x = n)) bs"

fun coalesce :: "block list \<Rightarrow> block list" where
  "coalesce ((x, s, True) # (y, t, True) # bs) = coalesce ((x, s + t, True) # bs)"
| "coalesce (b # bs) = b # coalesce bs"
| "coalesce [] = []"

lemma coalesce_used [simp]: "coalesce ((x, s, False) # bs) = (x, s, False) # coalesce bs"
  by simp

lemma coalesce_id: "coalesced bs \<Longrightarrow> coalesce bs = bs"
  by (induction bs rule: coalesce.induct) (auto simp: coalesced_Cons)

lemma coalesce_append:
  "coalesced bs \<Longrightarrow> bs = [] \<or> \<not> (is_free (last bs) \<and> is_free c) \<Longrightarrow> coalesce (bs @ c # cs) = bs @ coalesce (c # cs)"
proof (induction bs)
  case (Cons b bs)
  note IH = Cons.IH and prems = Cons.prems
  obtain x s f where b: "b = (x, s, f)" by (rule prod_cases3)
  show ?case
  proof (cases bs)
    case Nil
    obtain y t g where "c = (y, t, g)" by (rule prod_cases3)
    with Nil b prems show ?thesis by (cases f; cases g) auto
  next
    case (Cons d ds)
    obtain y t g where d: "d = (y, t, g)" by (rule prod_cases3)
    have "coalesce (bs @ c # cs) = bs @ coalesce (c # cs)"
      using IH prems Cons by (simp split: if_splits)
    with Cons b d prems show ?thesis by (cases f; cases g) auto
  qed
qed simp

lemma mark_free_split:
  assumes "tiles a (B1 @ (n, sz, False) # B2) e"
  shows "mark_free n (B1 @ (n, sz, False) # B2) = B1 @ (n, sz, True) # B2"
proof -
  have "n \<notin> fst ` set B1" "n \<notin> fst ` set B2" using tiles_distinct [OF assms] by auto
  then have "map (\<lambda>(x, sz, f). (x, sz, f \<or> x = n)) B1 = B1" "map (\<lambda>(x, sz, f). (x, sz, f \<or> x = n)) B2 = B2"
    by (force intro!: map_idI)+
  then show ?thesis by (simp add: mark_free_def)
qed

lemma set_size_slot_put:
  "\<forall>y \<in> set us. n \<noteq> y + 8 \<Longrightarrow>
    slot_put (slot_after us) v (set_size n w h) = set_size n w (slot_put (slot_after us) v h)"
  by (cases us rule: rev_cases) (auto simp: set_size_def set_next_def fun_upd_twist)

lemma absorb_next_free:
  assumes ok: "heap_ok h xs (B1 @ (n, sz, False) # (m, s, True) # B2)"
  shows "\<exists>ys. heap_ok (absorb_next n h) ys (B1 @ (n, sz + s, False) # B2)
           \<and> keeps (B1 @ B2) h (absorb_next n h)"
proof -
  note D = heap_okD [OF ok]
  have m: "m = n + sz" "m < g_heap_base h + g_heap_size h" "m \<in> set xs"
    using D(3,4) D(6) [of m s True] by (auto simp: tiles_append dest: tiles_le)
  have sz: "node_size h n = sz" "node_size h m = s" "16 dvd n"
    using D(5,6) [of n sz False] D(5) [of m s True] by (auto simp: node_size_def)
  obtain us ws where xs: "xs = us @ m # ws" "m \<notin> set us"
    using split_list_first [OF m(3)] by blast
  have us: "n \<noteq> y + 8" if "y \<in> set us" for y
    using heap_ok_node(1) [OF ok, of y] that xs(1) not_cell [OF sz(3)] by auto
  define h1 where "h1 = set_size n (sz + s) h"
  have l: "lseg (hmem h1) (g_free h1) (us @ m # ws) 0"
    unfolding h1_def set_size_def using D(1) xs(1) heap_ok_node(1) [OF ok] not_cell [OF sz(3)]
    by (simp, subst lseg_update_other) auto
  have fuel: "length us < heap_fuel h1"
    using heap_ok_fuel [OF ok] xs(1) by (simp add: h1_def set_size_def heap_fuel_def)
  have "find_node (heap_fuel h) (\<lambda>fp. fp = n + sz) (g_free h) h = Some m"
    using find_node_list [OF D(1) heap_ok_fuel [OF ok]] xs m(1)
    by (auto simp: find_Some_iff in_set_conv_nth nth_append intro!: exI [of _ "length us"])
  moreover have "find_slot (heap_fuel h1) m FreeHead h1 = slot_after us"
    using find_slot_list [of h1 "[]" us m ws] l xs(2) fuel by simp
  moreover have "slot_get h1 (slot_after us) = m" using l slot_get_after [of h1 us m] by (auto simp: lseg_append)
  moreover have "node_next h1 m = node_next h m"
    using not_cell [OF sz(3), of m] D(6) [of m s True] by (auto simp: h1_def set_size_def node_next_def)
  ultimately have "absorb_next n h = slot_put (slot_after us) (node_next h m) h1"
    using m sz fuel by (simp add: absorb_next_def h1_def Let_def) (simp add: heap_fuel_def set_size_def)
  then have eq: "absorb_next n h = set_size n (sz + s) (slot_put (slot_after us) (node_next h m) h)"
    using us by (auto simp: h1_def set_size_slot_put)
  have ok': "heap_ok h (us @ m # ws) ((B1 @ [(n, sz, False)]) @ (m, s, True) # B2)"
    using ok xs(1) by simp
  note U = unlink_ok [OF ok' refl]
  note M = merge_ok [of _ "us @ ws" B1 n sz False m s B2]
  show ?thesis
    unfolding eq using M(1) [OF U(1) [simplified]] keeps_trans [OF U(2) M(2) [OF U(1) [simplified]], of "B1 @ B2"]
    by auto
qed

lemma find_SomeD: "List.find P xs = Some x \<Longrightarrow> x \<in> set xs \<and> P x"
  by (auto simp: find_Some_iff)

lemma absorb_next_none:
  assumes ok: "heap_ok h xs (B1 @ (n, sz, False) # B2)" and "B2 = [] \<or> \<not> is_free (hd B2)"
  shows "absorb_next n h = h"
proof -
  note D = heap_okD [OF ok]
  have sz: "node_size h n = sz" using D(5) [of n sz False] by (simp add: node_size_def)
  have "n + sz \<notin> set xs" if "n + sz < g_heap_base h + g_heap_size h"
  proof -
    have t: "tiles (n + sz) B2 (g_heap_base h + g_heap_size h)" using tiles_split [OF D(4)] by simp
    with that have "B2 \<noteq> []" by auto
    then obtain s B where B2: "B2 = (n + sz, s, False) # B" using assms(2) t by (cases B2) auto
    then show ?thesis
      using D(3) tiles_unique [OF D(4), of "n + sz" s False] by (auto dest: free_addrs_mem)
  qed
  then show ?thesis
    using find_node_list [OF D(1) heap_ok_fuel [OF ok]] sz
    by (auto simp: absorb_next_def Let_def find_None_iff split: option.split dest: find_SomeD)
qed

lemma absorb_next_ok:
  assumes ok: "heap_ok h xs (B1 @ (n, sz, False) # B2)" and "coalesced B2"
  obtains ys sz' B where "heap_ok (absorb_next n h) ys (B1 @ (n, sz', False) # B)"
    "coalesced ((n, sz', True) # B)" "coalesce ((n, sz, True) # B2) = (n, sz', True) # B"
    "keeps (B1 @ B) h (absorb_next n h)" "set B \<subseteq> set B2" "\<And>b. b \<in> set B2 \<Longrightarrow> \<not> is_free b \<Longrightarrow> b \<in> set B"
proof (cases "B2 = [] \<or> \<not> is_free (hd B2)")
  case True
  then have c: "coalesced ((n, sz, True) # B2)" using assms(2) by (auto simp: coalesced_Cons)
  show ?thesis
    using that [of xs sz B2] ok absorb_next_none [OF ok True] c coalesce_id [OF c]
    by (auto simp: keeps_def)
next
  case False
  then obtain m s B where B2: "B2 = (m, s, True) # B" by (cases B2) auto
  then have c: "coalesced ((n, sz + s, True) # B)" using assms(2) by (auto simp: coalesced_Cons)
  obtain ys where "heap_ok (absorb_next n h) ys (B1 @ (n, sz + s, False) # B)" "keeps (B1 @ B) h (absorb_next n h)"
    using absorb_next_free [of h xs B1 n sz m s B] ok B2 by auto
  note this [intro]
  show ?thesis by (rule that [of ys "sz + s" B]) (use c coalesce_id [OF c] B2 in auto)
qed

text \<open>The free neighbour in front, found by its end address.\<close>

lemma prev_free:
  assumes ok: "heap_ok h xs bs" and bs: "bs = B0 @ (p, sp, True) # (n, sz, False) # B2"
  shows "List.find (\<lambda>fp. fp + node_size h fp = n) xs = Some p"
proof -
  note D = heap_okD [OF ok]
  have p: "p + sp = n" "p \<in> set xs" "node_size h p = sp"
    using D(3,4) D(5) [of p sp True] by (auto simp: bs tiles_append node_size_def)
  have only: "y = p" if y: "y \<in> set xs" "y + node_size h y = n" for y
  proof (rule ccontr)
    assume "y \<noteq> p"
    obtain sy where sy: "(y, sy, True) \<in> set bs" using heap_ok_node(2) [OF ok y(1)] by blast
    have "y + sy = n" using y(2) D(5) [OF sy] by (simp add: node_size_def)
    moreover have pb: "(p, sp, True) \<in> set bs" by (simp add: bs)
    ultimately show False
      using tiles_disjoint [OF D(4) sy pb \<open>y \<noteq> p\<close>] D(6) [OF sy] D(6) [OF pb] p(1) by linarith
  qed
  show ?thesis
  proof (cases "List.find (\<lambda>fp. fp + node_size h fp = n) xs")
    case None
    then have "p + node_size h p \<noteq> n" using p(2) by (auto simp: find_None_iff)
    then show ?thesis using p by simp
  next
    case (Some y)
    with find_SomeD [OF Some] only [of y] show ?thesis by simp
  qed
qed

lemma prev_used:
  assumes ok: "heap_ok h xs (B1 @ (n, sz, False) # B2)" and "B1 = [] \<or> \<not> is_free (last B1)"
  shows "List.find (\<lambda>fp. fp + node_size h fp = n) xs = None"
  unfolding find_None_iff
proof (rule notI, elim exE conjE)
  note D = heap_okD [OF ok]
  fix y assume y: "y \<in> set xs" "y + node_size h y = n"
  obtain sy where sy: "(y, sy, True) \<in> set (B1 @ (n, sz, False) # B2)" using heap_ok_node(2) [OF ok y(1)] by blast
  have e: "y + sy = n" "MIN_BLOCK \<le> sy" using y(2) D(5,6) [OF sy] by (auto simp: node_size_def)
  have t: "tiles (g_heap_base h) B1 n" "tiles (n + sz) B2 (g_heap_base h + g_heap_size h)"
    using tiles_split [OF D(4)] by auto
  have y1: "(y, sy, True) \<in> set B1" using sy e tiles_after [OF t(2)] by fastforce
  then obtain B0 q sq where B1: "B1 = B0 @ [(q, sq, False)]"
    using assms(2) by (cases B1 rule: rev_cases) auto
  then have "q + sq = n" "MIN_BLOCK \<le> sq" using t(1) by (auto simp: tiles_append)
  moreover have "(y, sy, True) \<in> set B0" using y1 B1 by auto
  then have "y + sy \<le> q" using B1 t(1) by (auto simp: tiles_append dest: tiles_before)
  ultimately show False using e by simp
qed

lemma coalesce_grow:
  "coalesce ((n, s, True) # bs) = (n, s', True) # B \<Longrightarrow> coalesce ((p, t + s, True) # bs) = (p, t + s', True) # B"
proof (induction bs arbitrary: s)
  case (Cons b bs)
  obtain y u f where "b = (y, u, f)" by (rule prod_cases3)
  with Cons show ?case by (cases f) (auto simp: add.assoc)
qed simp

lemma coalesce_used_set: "(x, s, False) \<in> set (coalesce bs) \<longleftrightarrow> (x, s, False) \<in> set bs"
  by (induction bs rule: coalesce.induct) auto

lemma coalesce_tail:
  assumes "coalesced B1" "coalesce ((n, s, True) # B2) = (n, s', True) # B" "coalesced ((n, s', True) # B)"
  shows "coalesce (B1 @ (n, s, True) # B2) = coalesce (B1 @ (n, s', True) # B)"
proof (cases "B1 = [] \<or> \<not> is_free (last B1)")
  case True
  then have "coalesce (B1 @ (n, t, True) # cs) = B1 @ coalesce ((n, t, True) # cs)" for t cs
    by (intro coalesce_append [OF assms(1)]) auto
  then show ?thesis using assms(2) coalesce_id [OF assms(3)] by simp
next
  case False
  then obtain B0 p sp where B1: "B1 = B0 @ [(p, sp, True)]" by (cases B1 rule: rev_cases) auto
  then have "coalesce (B0 @ (p, sp, True) # cs) = B0 @ coalesce ((p, sp, True) # cs)" for cs
    using assms(1) by (intro coalesce_append) (auto simp: coalesced_append)
  moreover have "coalesced ((p, sp + s', True) # B)" using assms(3) by (auto simp: coalesced_Cons)
  ultimately show ?thesis using coalesce_grow [OF assms(2)] coalesce_id by (simp add: B1)
qed

lemma join_prev_ok:
  assumes ok: "heap_ok h ys (B1 @ (n, sz, False) # B)" and co: "coalesced B1" "coalesced ((n, sz, True) # B)"
  shows "\<exists>zs. heap_rep (join_prev n h) zs (coalesce (B1 @ (n, sz, True) # B)) \<and> keeps (B1 @ B) h (join_prev n h)"
proof -
  note D = heap_okD [OF ok]
  have jp: "join_prev n h =
    (if n > g_heap_base h
     then case List.find (\<lambda>fp. fp + node_size h fp = n) ys of
            Some fp \<Rightarrow> set_size fp (node_size h fp + node_size h n) h
          | None \<Rightarrow> push_free n h
     else push_free n h)"
    using find_node_list [OF D(1) heap_ok_fuel [OF ok]] by (simp add: join_prev_def)
  show ?thesis
  proof (cases "B1 = [] \<or> \<not> is_free (last B1)")
    case True
    have "join_prev n h = push_free n h" using prev_used [OF ok True] by (simp add: jp)
    moreover have "coalesced (B1 @ (n, sz, True) # B)" using co True by (auto simp: coalesced_append)
    ultimately show ?thesis using push_ok [OF ok] coalesce_id by (auto simp: heap_rep_def)
  next
    case False
    then obtain B0 p sp where B1: "B1 = B0 @ [(p, sp, True)]" by (cases B1 rule: rev_cases) auto
    have ok2: "heap_ok h ys (B0 @ (p, sp, True) # (n, sz, False) # B)" using ok B1 by simp
    have "g_heap_base h < n" using heap_okD(4) [OF ok2] by (auto simp: tiles_append dest: tiles_le)
    then have k: "join_prev n h = set_size p (sp + sz) h"
      using prev_free [OF ok2 refl] heap_okD(5) [OF ok2, of p sp True] heap_okD(5) [OF ok2, of n sz False]
      by (simp add: jp node_size_def)
    have c: "coalesced ((p, sp + sz, True) # B)" "coalesced (B0 @ (p, sp + sz, True) # B)"
      using co by (auto simp: B1 coalesced_append coalesced_Cons)
    have "coalesce (B0 @ (p, sp, True) # cs) = B0 @ coalesce ((p, sp, True) # cs)" for cs
      using co(1) by (intro coalesce_append) (auto simp: B1 coalesced_append)
    then have "coalesce (B1 @ (n, sz, True) # B) = B0 @ (p, sp + sz, True) # B"
      using coalesce_id [OF c(1)] by (simp add: B1)
    moreover have "keeps (B1 @ B) h (set_size p (sp + sz) h)"
      using merge_ok(2) [OF ok2] by (auto simp: B1 keeps_def)
    ultimately show ?thesis using merge_ok(1) [OF ok2] c(2) by (auto simp: heap_rep_def k)
  qed
qed

lemma kfree_ok:
  assumes rep: "heap_rep h xs (B1 @ (n, sz, False) # B2)"
  shows "\<exists>ys. heap_rep (kfree (n + 8) h) ys (coalesce (B1 @ (n, sz, True) # B2))
    \<and> keeps (B1 @ B2) h (kfree (n + 8) h)"
proof -
  have ok: "heap_ok h xs (B1 @ (n, sz, False) # B2)" and co: "coalesced B1" "coalesced B2"
    using rep by (auto simp: heap_rep_def coalesced_append coalesced_Cons)
  note D = heap_okD [OF ok]
  have n: "hmem h n = sz" "MIN_BLOCK \<le> sz" "g_heap_base h \<le> n" "n + sz \<le> g_heap_base h + g_heap_size h"
    using D(5) [of n sz False] tiles_bounds [OF D(4), of n sz False] by auto
  define h1 where "h1 = set_next n 0 (set_size n sz h)"
  have h1: "h1 = h\<lparr>hmem := (hmem h)(n + 8 := 0)\<rparr>" by (simp add: h1_def set_next_def set_size_def n(1) [symmetric])
  have ok1: "heap_ok h1 xs (B1 @ (n, sz, False) # B2)"
    unfolding h1 by (rule payload_write_ok [OF ok, of n sz]) (use n in auto)
  have k1: "keeps (B1 @ B2) h h1"
    using tiles_split [OF D(4)] n by (auto simp: keeps_def h1 dest: tiles_before tiles_after)
  obtain ys sz' B where A: "heap_ok (absorb_next n h1) ys (B1 @ (n, sz', False) # B)"
    "coalesced ((n, sz', True) # B)" "coalesce ((n, sz, True) # B2) = (n, sz', True) # B"
    "keeps (B1 @ B) h1 (absorb_next n h1)" "\<And>b. b \<in> set B2 \<Longrightarrow> \<not> is_free b \<Longrightarrow> b \<in> set B"
    by (rule absorb_next_ok [OF ok1 co(2)]) blast
  have kf: "kfree (n + 8) h = join_prev n (absorb_next n h1)"
    using n by (simp add: kfree_def Let_def h1_def)
  obtain zs where Z: "heap_rep (kfree (n + 8) h) zs (coalesce (B1 @ (n, sz, True) # B2))"
    "keeps (B1 @ B) (absorb_next n h1) (kfree (n + 8) h)"
    using join_prev_ok [OF A(1) co(1) A(2)] coalesce_tail [OF co(1) A(3,2)] by (auto simp: kf)
  have u: "(y, s, False) \<in> set B" if "(y, s, False) \<in> set B2" for y s using A(5) [OF that] by simp
  have k2: "keeps (B1 @ B) h1 (kfree (n + 8) h)" by (rule keeps_trans [OF A(4) Z(2)]) auto
  have "keeps (B1 @ B2) h (kfree (n + 8) h)" by (rule keeps_trans [OF k1 k2]) (use u in auto)
  with Z(1) show ?thesis by blast
qed

section \<open>The allocator contract\<close>

text \<open>The representation of a heap is unique.\<close>

lemma lseg_unique: "lseg m p xs 0 \<Longrightarrow> lseg m p ys 0 \<Longrightarrow> xs = ys"
proof (induction xs arbitrary: p ys)
  case Nil
  then show ?case by (cases ys) auto
next
  case (Cons x xs)
  then show ?case by (cases ys) auto
qed

lemma tiles_layout_unique:
  assumes "tiles a bs e" "tiles a cs e" "\<forall>(x, sz, f) \<in> set bs. m x = sz" "\<forall>(x, sz, f) \<in> set cs. m x = sz"
    "free_addrs bs = F" "free_addrs cs = F"
  shows "bs = cs"
proof -
  have eq: "map (\<lambda>(x, s, f). (x, s)) bs = map (\<lambda>(x, s, f). (x, s)) cs"
    using assms(1-4)
  proof (induction a bs e arbitrary: cs rule: tiles.induct)
    case (1 a e)
    then show ?case by (cases cs) (auto dest: tiles_le)
  next
    case (2 a x sz f bs e)
    have "a < e" using 2(2) tiles_le by fastforce
    then obtain c cs' where cs: "cs = c # cs'" using 2(3) by (cases cs) auto
    obtain y t g where c: "c = (y, t, g)" by (rule prod_cases3)
    show ?case using 2(1) [of cs'] 2(2-5) by (auto simp: cs c)
  qed
  have rebuild: "bs' = map (\<lambda>(x, s). (x, s, x \<in> F)) (map (\<lambda>(x, s, f). (x, s)) bs')"
    if "tiles a bs' e" "free_addrs bs' = F" for bs'
  proof -
    have "f = (x \<in> F)" if "(x, s, f) \<in> set bs'" for x s f
      using tiles_unique [OF \<open>tiles a bs' e\<close> that] that \<open>free_addrs bs' = F\<close> by (cases f) (auto simp: free_addrs_def)
    then show ?thesis by (force simp: o_def intro!: map_idI [symmetric])
  qed
  show ?thesis using rebuild [OF assms(1,5)] rebuild [OF assms(2,6)] eq by metis
qed

lemma heap_rep_unique:
  assumes "heap_rep h xs bs" "heap_rep h ys cs"
  shows "ys = xs \<and> cs = bs"
proof -
  have "ys = xs" using assms lseg_unique by (auto simp: heap_rep_def heap_ok_def)
  moreover have "cs = bs"
    using assms \<open>ys = xs\<close> tiles_layout_unique [of "g_heap_base h" cs _ bs "hmem h" "set xs"]
    by (auto simp: heap_rep_def heap_ok_def)
  ultimately show ?thesis by simp
qed

definition heap_inv :: "heap \<Rightarrow> bool" where
  "heap_inv h \<longleftrightarrow> (\<exists>xs bs. heap_rep h xs bs)"

text \<open>The payloads in use: address and length.\<close>

definition live :: "heap \<Rightarrow> (nat \<times> nat) set" where
  "live h = {(p, l). \<exists>xs bs x s. heap_rep h xs bs \<and> (x, s, False) \<in> set bs \<and> p = x + 8 \<and> l = s - 8}"

lemma live_rep:
  "heap_rep h xs bs \<Longrightarrow> live h = {(p, l). \<exists>x s. (x, s, False) \<in> set bs \<and> p = x + 8 \<and> l = s - 8}"
  unfolding live_def using heap_rep_unique by blast

text \<open>
  What the rest of the kernel relies on: memory in use is disjoint, an allocation is fresh,
  a release removes one block, and the contents of the other blocks stay.
\<close>

locale allocator =
  fixes inv :: "'s \<Rightarrow> bool"
    and blocks :: "'s \<Rightarrow> (nat \<times> nat) set"
    and cell :: "'s \<Rightarrow> nat \<Rightarrow> nat"
    and alloc :: "nat \<Rightarrow> 's \<Rightarrow> nat \<times> 's"
    and release :: "nat \<Rightarrow> 's \<Rightarrow> 's"
    and limit :: nat
  assumes block_bounds: "inv s \<Longrightarrow> (p, n) \<in> blocks s \<Longrightarrow> 0 < p \<and> 0 < n"
    and blocks_disjoint: "inv s \<Longrightarrow> (p, n) \<in> blocks s \<Longrightarrow> (q, m) \<in> blocks s \<Longrightarrow> (p, n) \<noteq> (q, m)
      \<Longrightarrow> p + n \<le> q \<or> q + m \<le> p"
    and alloc_fail: "inv s \<Longrightarrow> n < limit \<Longrightarrow> alloc n s = (0, s') \<Longrightarrow> s' = s"
    and alloc_new: "inv s \<Longrightarrow> n < limit \<Longrightarrow> alloc n s = (p, s') \<Longrightarrow> p \<noteq> 0 \<Longrightarrow>
      inv s' \<and> (\<exists>m \<ge> n. (p, m) \<notin> blocks s \<and> blocks s' = insert (p, m) (blocks s))"
    and alloc_keeps: "inv s \<Longrightarrow> n < limit \<Longrightarrow> alloc n s = (p, s') \<Longrightarrow> (q, m) \<in> blocks s \<Longrightarrow>
      q \<le> a \<Longrightarrow> a < q + m \<Longrightarrow> cell s' a = cell s a"
    and release_old: "inv s \<Longrightarrow> (p, n) \<in> blocks s \<Longrightarrow> inv (release p s) \<and> blocks (release p s) = blocks s - {(p, n)}"
    and release_keeps: "inv s \<Longrightarrow> (p, n) \<in> blocks s \<Longrightarrow> (q, m) \<in> blocks s \<Longrightarrow> q \<noteq> p \<Longrightarrow>
      q \<le> a \<Longrightarrow> a < q + m \<Longrightarrow> cell (release p s) a = cell s a"
    and release_null: "release 0 s = s"
begin

lemma alloc_inv: "inv s \<Longrightarrow> n < limit \<Longrightarrow> alloc n s = (p, s') \<Longrightarrow> inv s'"
  using alloc_fail alloc_new by (cases "p = 0") blast+

text \<open>A fresh block does not overlap a block in use; in particular its address is new.\<close>

lemma alloc_fresh:
  assumes "inv s" "n < limit" "alloc n s = (p, s')" "p \<noteq> 0" "(q, m) \<in> blocks s"
  shows "p + n \<le> q \<or> q + m \<le> p" "q \<noteq> p"
proof -
  obtain k where k: "n \<le> k" "(p, k) \<notin> blocks s" "blocks s' = insert (p, k) (blocks s)" "inv s'"
    using alloc_new [OF assms(1-4)] by blast
  have "(p, k) \<noteq> (q, m)" using k(2) assms(5) by auto
  then have d: "p + k \<le> q \<or> q + m \<le> p"
    by (rule blocks_disjoint [OF k(4), rotated 2]) (simp_all add: k(3) assms(5))
  show "p + n \<le> q \<or> q + m \<le> p" using d k(1) by auto
  have "0 < k" "0 < m" using block_bounds [OF k(4), of p k] block_bounds [OF assms(1,5)] k(3) by auto
  then show "q \<noteq> p" using d by auto
qed

lemma alloc_blocks_mono:
  assumes "inv s" "n < limit" "alloc n s = (p, s')"
  shows "blocks s \<subseteq> blocks s'"
  using alloc_fail alloc_new assms by (cases "p = 0") blast+

lemma alloc_release:
  assumes "inv s" "n < limit" "alloc n s = (p, s')" "p \<noteq> 0"
  shows "inv (release p s') \<and> blocks (release p s') = blocks s"
proof -
  obtain k where k: "(p, k) \<notin> blocks s" "blocks s' = insert (p, k) (blocks s)" "inv s'"
    using alloc_new [OF assms] by blast
  with release_old [of s' p k] show ?thesis by simp
qed

end

lemma rep_live_split:
  assumes "heap_rep h xs bs" "(p, n) \<in> live h"
  obtains B1 x B2 where "bs = B1 @ (x, n + 8, False) # B2" "p = x + 8"
proof -
  obtain x s where x: "(x, s, False) \<in> set bs" "p = x + 8" "n = s - 8"
    using assms(2) by (auto simp: live_rep [OF assms(1)])
  moreover have "MIN_BLOCK \<le> s"
    using heap_okD(6) [of h xs bs x s False] assms(1) x(1) by (auto simp: heap_rep_def)
  ultimately show ?thesis using that split_list [OF x(1)] by auto
qed

lemma kmalloc_cases:
  assumes "heap_inv h" "sz < 18446744073709551552" "kmalloc sz h = (p, h')"
  obtains (fail) "p = 0" "h' = h"
  | (new) xs us x ws B1 bsz B2 xs' bs' where
      "heap_rep h xs (B1 @ (x, bsz, True) # B2)" "kmalloc_need sz \<le> bsz"
      "took (kmalloc_need sz) us x ws B1 bsz B2 = (xs', bs')" "p = x + 8"
      "heap_rep h' xs' bs'" "keeps (B1 @ (x, bsz, True) # B2) h h'"
proof (cases "sz = 0")
  case True
  then show ?thesis using assms(3) fail by (simp add: kmalloc_def)
next
  case False
  then have sz: "0 < sz" by simp
  obtain xs bs where rep: "heap_rep h xs bs" using assms(1) by (auto simp: heap_inv_def)
  show ?thesis
  proof (cases "\<exists>x \<in> set xs. kmalloc_need sz \<le> hmem h x")
    case False
    then show ?thesis using kmalloc_rep(1) [OF rep sz assms(2)] assms(3) fail by force
  next
    case True
    then obtain us x ws where xs: "xs = us @ x # ws" "kmalloc_need sz \<le> hmem h x"
      "\<forall>y \<in> set us. hmem h y < kmalloc_need sz"
      using split_list_first_prop [of xs "\<lambda>x. kmalloc_need sz \<le> hmem h x"] by (auto simp: not_le)
    have ok: "heap_ok h xs bs" using rep by (simp add: heap_rep_def)
    obtain bsz where b: "(x, bsz, True) \<in> set bs" using heap_ok_node(2) [OF ok, of x] xs(1) by auto
    then obtain B1 B2 where bs: "bs = B1 @ (x, bsz, True) # B2" by (auto dest: split_list)
    obtain xs' bs' where tk: "took (kmalloc_need sz) us x ws B1 bsz B2 = (xs', bs')" by (rule prod.exhaust)
    obtain h1 where h1: "kmalloc sz h = (x + 8, h1)" "heap_rep h1 xs' bs'" "keeps bs h h1"
      using kmalloc_rep(2) [OF rep sz assms(2) xs(1,3,2) bs tk] by auto
    show ?thesis
      by (rule new [OF rep [unfolded bs] _ tk]) (use h1 assms(3) heap_okD(5) [OF ok b] xs(2) bs in auto)
  qed
qed

lemma took_used:
  assumes "took need us x ws B1 bsz B2 = (xs', bs')" "need \<le> bsz"
  obtains s where "need \<le> s"
    "\<forall>y t. (y, t, False) \<in> set bs' \<longleftrightarrow> (y, t, False) \<in> set (B1 @ (x, bsz, True) # B2) \<or> (y = x \<and> t = s)"
proof (cases "need + MIN_BLOCK \<le> bsz")
  case True
  then show ?thesis using assms by (intro that [of need]) (auto simp: took_def)
next
  case False
  then show ?thesis using assms by (intro that [of bsz]) (auto simp: took_def)
qed

lemma live_bounds:
  assumes "heap_inv h" "(p, n) \<in> live h"
  shows "8 < p" "24 \<le> n"
proof -
  obtain xs bs where rep: "heap_rep h xs bs" using assms(1) by (auto simp: heap_inv_def)
  then have ok: "heap_ok h xs bs" by (simp add: heap_rep_def)
  obtain x s where x: "(x, s, False) \<in> set bs" "p = x + 8" "n = s - 8"
    using assms(2) by (auto simp: live_rep [OF rep])
  with tiles_bounds [OF heap_okD(4) [OF ok] x(1)] heap_okD(7) [OF ok] show "8 < p" "24 \<le> n" by auto
qed

lemma live_disjoint:
  assumes "heap_inv h" "(p, n) \<in> live h" "(q, m) \<in> live h" "(p, n) \<noteq> (q, m)"
  shows "p + n \<le> q \<or> q + m \<le> p"
proof -
  obtain xs bs where rep: "heap_rep h xs bs" using assms(1) by (auto simp: heap_inv_def)
  then have ok: "heap_ok h xs bs" by (simp add: heap_rep_def)
  obtain x s y t where b: "(x, s, False) \<in> set bs" "p = x + 8" "n = s - 8"
      "(y, t, False) \<in> set bs" "q = y + 8" "m = t - 8"
    using assms(2,3) unfolding live_rep [OF rep] by blast
  have "x \<noteq> y" using tiles_unique [OF heap_okD(4) [OF ok] b(1), of t False] b assms(4) by metis
  from tiles_disjoint [OF heap_okD(4) [OF ok] b(1,4) this] show ?thesis
    using heap_okD(6) [OF ok b(1)] heap_okD(6) [OF ok b(4)] b(2,3,5,6) by linarith
qed

lemma kmalloc_live:
  assumes "heap_inv h" "sz < 18446744073709551552" "kmalloc sz h = (p, h')" "p \<noteq> 0"
  shows "heap_inv h' \<and> (\<exists>m \<ge> sz. (p, m) \<notin> live h \<and> live h' = insert (p, m) (live h))"
  using assms(1-3)
proof (cases rule: kmalloc_cases)
  case fail
  with assms(4) show ?thesis by simp
next
  case (new xs us x ws B1 bsz B2 xs' bs')
  obtain s where s: "kmalloc_need sz \<le> s"
    "\<forall>y t. (y, t, False) \<in> set bs' \<longleftrightarrow> (y, t, False) \<in> set (B1 @ (x, bsz, True) # B2) \<or> (y = x \<and> t = s)"
    by (rule took_used [OF new(3,2)])
  have "live h' = insert (p, s - 8) (live h)"
    unfolding live_rep [OF new(5)] live_rep [OF new(1)] s(2) [rule_format] by (auto simp: new(4))
  moreover have "sz \<le> s - 8" using s(1) kmalloc_need_props(1) [OF assms(2)] by linarith
  moreover have ok: "heap_ok h xs (B1 @ (x, bsz, True) # B2)" using new(1) by (simp add: heap_rep_def)
  have "(x, t, False) \<notin> set (B1 @ (x, bsz, True) # B2)" for t
    using tiles_unique [OF heap_okD(4) [OF ok], of x bsz True t False] by auto
  then have "(p, s - 8) \<notin> live h" unfolding live_rep [OF new(1)] by (auto simp: new(4))
  ultimately show ?thesis using new(5) by (auto simp: heap_inv_def)
qed

lemma kmalloc_keeps:
  assumes "heap_inv h" "sz < 18446744073709551552" "kmalloc sz h = (p, h')"
    "(q, m) \<in> live h" "q \<le> a" "a < q + m"
  shows "hmem h' a = hmem h a"
  using assms(1-3)
proof (cases rule: kmalloc_cases)
  case (new xs us x ws B1 bsz B2 xs' bs')
  obtain y t where y: "(y, t, False) \<in> set (B1 @ (x, bsz, True) # B2)" "q = y + 8" "m = t - 8"
    using assms(4) unfolding live_rep [OF new(1)] by blast
  have "y \<le> a" "a < y + t" using assms(5,6) y(2,3) by auto
  with new(6) y(1) show ?thesis unfolding keeps_def by blast
qed simp

lemma kfree_live:
  assumes "heap_inv h" "(p, n) \<in> live h"
  shows "heap_inv (kfree p h) \<and> live (kfree p h) = live h - {(p, n)}"
    and "(q, m) \<in> live h \<Longrightarrow> q \<noteq> p \<Longrightarrow> q \<le> a \<Longrightarrow> a < q + m \<Longrightarrow> hmem (kfree p h) a = hmem h a"
proof -
  obtain xs bs where rep: "heap_rep h xs bs" using assms(1) by (auto simp: heap_inv_def)
  obtain B1 x B2 where bs: "bs = B1 @ (x, n + 8, False) # B2" "p = x + 8"
    by (rule rep_live_split [OF rep assms(2)])
  have t: "tiles (g_heap_base h) bs (g_heap_base h + g_heap_size h)"
    using rep heap_okD(4) by (auto simp: heap_rep_def)
  obtain ys where Y: "heap_rep (kfree p h) ys (coalesce (B1 @ (x, n + 8, True) # B2))"
    "keeps (B1 @ B2) h (kfree p h)"
    using kfree_ok [OF rep [unfolded bs(1)]] by (auto simp: bs(2))
  have other: "(x, s, f) \<notin> set B1" "(x, s, f) \<notin> set B2" for s f
    using tiles_distinct [OF t] by (force simp: bs(1))+
  have "live (kfree p h) = live h - {(p, n)}"
    unfolding live_rep [OF Y(1)] live_rep [OF rep] coalesce_used_set
    unfolding bs using other by auto
  with Y(1) show "heap_inv (kfree p h) \<and> live (kfree p h) = live h - {(p, n)}" by (auto simp: heap_inv_def)
  assume q: "(q, m) \<in> live h" "q \<noteq> p" "q \<le> a" "a < q + m"
  obtain y s where y: "(y, s, False) \<in> set bs" "q = y + 8" "m = s - 8"
    using q(1) unfolding live_rep [OF rep] by blast
  then have "(y, s, False) \<in> set (B1 @ B2)" using q(2) bs by auto
  moreover have "y \<le> a" "a < y + s" using q(3,4) y(2,3) by auto
  ultimately show "hmem (kfree p h) a = hmem h a" using Y(2) unfolding keeps_def by blast
qed

interpretation kh: allocator heap_inv live hmem kmalloc kfree 18446744073709551552
proof unfold_locales
  show "0 < p \<and> 0 < n" if "heap_inv s" "(p, n) \<in> live s" for s p n
    using live_bounds [OF that] by auto
  show "kfree 0 s = s" for s by (simp add: kfree_def)
  show "s' = s" if "heap_inv s" "n < 18446744073709551552" "kmalloc n s = (0, s')" for s n s'
    using that by (cases rule: kmalloc_cases) auto
qed (auto simp: live_disjoint kmalloc_live kmalloc_keeps kfree_live)

section \<open>Sequences of heap operations\<close>

text \<open>
  What the kernel does with the heap: allocate, release memory it holds, write into memory
  it holds.
\<close>

inductive heap_step :: "heap \<Rightarrow> heap \<Rightarrow> bool" where
  malloc: "n < 18446744073709551552 \<Longrightarrow> kmalloc n h = (p, h') \<Longrightarrow> heap_step h h'"
| free: "(p, n) \<in> live h \<Longrightarrow> heap_step h (kfree p h)"
| poke: "(p, n) \<in> live h \<Longrightarrow> p \<le> a \<Longrightarrow> a < p + n \<Longrightarrow> heap_step h (h\<lparr>hmem := (hmem h)(a := v)\<rparr>)"

inductive_cases heap_stepE: "heap_step h h'"

lemma write_inv:
  assumes "heap_inv h" "(p, n) \<in> live h" "p \<le> a" "a < p + n"
  shows "heap_inv (h\<lparr>hmem := (hmem h)(a := v)\<rparr>)"
proof -
  obtain xs bs where rep: "heap_rep h xs bs" using assms(1) by (auto simp: heap_inv_def)
  obtain x s where x: "(x, s, False) \<in> set bs" "p = x + 8" "n = s - 8"
    using assms(2) unfolding live_rep [OF rep] by blast
  have ok: "heap_ok h xs bs" and co: "coalesced bs" using rep by (auto simp: heap_rep_def)
  have "x < a" "a < x + s" using assms(3,4) x(2,3) by linarith+
  from payload_write_ok [OF ok x(1) this] co show ?thesis
    unfolding heap_inv_def heap_rep_def by blast
qed

lemma heap_step_inv: "heap_step h h' \<Longrightarrow> heap_inv h \<Longrightarrow> heap_inv h'"
  by (erule heap_stepE) (auto intro: kh.alloc_inv kh.release_old [THEN conjunct1] write_inv)

section \<open>Correctness of the heap\<close>

text \<open>
  C10. \<open>kmalloc\<close> is first fit in the order of the free list. When no free block has the
  rounded size, it returns NULL and changes nothing. Otherwise it takes the first free block
  on the list that is large enough: the block is cut when the rest is at least a minimal
  block and given whole when not, the payload starts 8 bytes behind its header, the heap
  stays well formed, and no cell of memory already in use changes.
\<close>

theorem kmalloc_first_fit:
  assumes "heap_rep h xs bs" "0 < sz" "sz < 18446744073709551552"
  shows "((\<forall>x \<in> set xs. hmem h x < kmalloc_need sz) \<longrightarrow> kmalloc sz h = (0, h)) \<and>
    (\<forall>us x ws B1 bsz B2 xs' bs'.
       xs = us @ x # ws \<and> (\<forall>y \<in> set us. hmem h y < kmalloc_need sz) \<and> kmalloc_need sz \<le> hmem h x \<and>
       bs = B1 @ (x, bsz, True) # B2 \<and> took (kmalloc_need sz) us x ws B1 bsz B2 = (xs', bs') \<longrightarrow>
       (\<exists>h'. kmalloc sz h = (x + 8, h') \<and> heap_rep h' xs' bs' \<and> keeps bs h h'))"
  using kmalloc_rep [OF assms] by blast

text \<open>
  C12. \<open>kfree\<close> of a block in use refines marking it free and joining adjacent free blocks:
  the block is merged with a free neighbour behind it and with a free neighbour in front
  of it, no other block moves, and no cell of the other blocks in use changes.
\<close>

theorem kfree_coalesces:
  assumes "heap_rep h xs bs" "(n, sz, False) \<in> set bs"
  shows "\<exists>ys. heap_rep (kfree (n + 8) h) ys (coalesce (mark_free n bs))
    \<and> keeps (filter (\<lambda>b. fst b \<noteq> n) bs) h (kfree (n + 8) h)"
proof -
  obtain B1 B2 where bs: "bs = B1 @ (n, sz, False) # B2" using assms(2) by (auto dest: split_list)
  have t: "tiles (g_heap_base h) bs (g_heap_base h + g_heap_size h)"
    using assms(1) heap_okD(4) by (auto simp: heap_rep_def)
  obtain ys where Y: "heap_rep (kfree (n + 8) h) ys (coalesce (B1 @ (n, sz, True) # B2))"
    "keeps (B1 @ B2) h (kfree (n + 8) h)"
    using kfree_ok [OF assms(1) [unfolded bs]] by blast
  have "keeps (filter (\<lambda>b. fst b \<noteq> n) bs) h (kfree (n + 8) h)"
    using Y(2) by (auto simp: keeps_def bs)
  with Y(1) mark_free_split [OF t [unfolded bs]] show ?thesis by (auto simp: bs)
qed

text \<open>
  C13. Releasing what was just allocated restores the layout of the pool: \<open>kmalloc\<close>
  followed by \<open>kfree\<close> gives back exactly the blocks there were, with nothing lost to
  fragmentation.
\<close>

theorem kmalloc_kfree_roundtrip:
  assumes "heap_rep h xs bs" "sz < 18446744073709551552" "kmalloc sz h = (p, h')" "p \<noteq> 0"
  shows "\<exists>ys. heap_rep (kfree p h') ys bs"
proof -
  have "heap_inv h" using assms(1) by (auto simp: heap_inv_def)
  then show ?thesis using assms(2,3)
  proof (cases rule: kmalloc_cases)
    case (new vs us x ws B1 bsz B2 xs' bs')
    have bs: "bs = B1 @ (x, bsz, True) # B2" using heap_rep_unique [OF assms(1) new(1)] by simp
    then have c: "coalesced (B1 @ (x, bsz, True) # B2)" using assms(1) by (simp add: heap_rep_def)
    show ?thesis
    proof (cases "kmalloc_need sz + MIN_BLOCK \<le> bsz")
      case True
      then have b': "bs' = B1 @ (x, kmalloc_need sz, False) # (x + kmalloc_need sz, bsz - kmalloc_need sz, True) # B2"
        using new(3) by (simp add: took_def)
      have "coalesce (B1 @ (x, kmalloc_need sz, True) # cs) = B1 @ coalesce ((x, kmalloc_need sz, True) # cs)" for cs
        using c by (intro coalesce_append) (auto simp: coalesced_append)
      then show ?thesis
        using kfree_ok [OF new(5) [unfolded b']] coalesce_id [of "(x, bsz, True) # B2"] c True bs new(4)
        by (auto simp: coalesced_append)
    next
      case False
      then have b': "bs' = B1 @ (x, bsz, False) # B2" using new(3) by (simp add: took_def)
      show ?thesis using kfree_ok [OF new(5) [unfolded b']] coalesce_id [OF c] bs new(4) by auto
    qed
  qed (use assms(4) in simp)
qed


text \<open>
  C16. \<open>heap_init\<close> on a well-formed page allocator: when no run of 2048 free pages exists it
  returns -1 and changes nothing; otherwise it takes the lowest such run and the heap is
  one free block of 8 MiB with nothing in use.
\<close>

theorem heap_init_spec:
  assumes "pmm_wf s" "page0_used s" "g_total_pages s < 4503599627370496" "heap_init h s = (r, h', s')"
  shows "if \<exists>p. free_run s HEAP_PAGES p
    then r = 0 \<and> pmm_wf s' \<and> live h' = {} \<and>
         heap_rep h' [(LEAST p. free_run s HEAP_PAGES p) * PAGE_SIZE]
           [((LEAST p. free_run s HEAP_PAGES p) * PAGE_SIZE, 0x800000, True)]
    else r = -1 \<and> h' = h \<and> s' = s"
proof (cases "\<exists>p. free_run s HEAP_PAGES p")
  case True
  define q where "q = (LEAST p. free_run s HEAP_PAGES p)"
  have q: "free_run s HEAP_PAGES q" using True unfolding q_def by (rule LeastI_ex)
  then have "\<not> bm_test s (q + 0)" unfolding free_run_def by (metis zero_less_numeral)
  then have "q \<noteq> 0" using assms(2) by (auto simp: page0_used_def intro: gr0I)
  have lim: "q * PAGE_SIZE + 0x800000 < 18446744073709551552" using q assms(3) by (simp add: free_run_def)
  have al: "pmm_alloc_pages HEAP_PAGES s = (q * PAGE_SIZE, fold take_page [q..<q + HEAP_PAGES] s)"
    using alloc_pages_cases(1) [OF assms(1) _ True] by (simp add: q_def)
  have s': "s' = fold take_page [q..<q + HEAP_PAGES] s" and r: "r = 0"
    and h': "hmem h' (q * PAGE_SIZE) = 0x800000" "hmem h' (q * PAGE_SIZE + 8) = 0" "g_free h' = q * PAGE_SIZE"
      "g_heap_base h' = q * PAGE_SIZE" "g_heap_size h' = 0x800000"
    using assms(4) \<open>q \<noteq> 0\<close> by (auto simp: heap_init_def al Let_def set_next_def set_size_def)
  have "heap_rep h' [q * PAGE_SIZE] [(q * PAGE_SIZE, 0x800000, True)]"
    using h' \<open>q \<noteq> 0\<close> lim by (simp add: heap_rep_def heap_ok_def)
  moreover from this have "live h' = {}" by (simp add: live_rep)
  moreover have "pmm_wf s'" unfolding s' using take_run [OF assms(1) free_run_pages [OF q] distinct_upt] by blast
  ultimately show ?thesis using True r by (simp add: q_def)
next
  case False
  then show ?thesis
    using assms(4) alloc_pages_cases(2) [OF assms(1) _ False] by (simp add: heap_init_def)
qed

section \<open>Witnesses\<close>

text \<open>A pool of 256 bytes: 64 in use, 32 free, 64 in use, 96 free; the list starts at the second free block.\<close>

definition demo_heap :: heap where
  "demo_heap = \<lparr>g_heap_base = 4096, g_heap_size = 256, g_free = 4256,
     hmem = (\<lambda>_. 0)(4096 := 64, 4160 := 32, 4192 := 64, 4256 := 96, 4264 := 4160)\<rparr>"

abbreviation demo_blocks :: "block list" where
  "demo_blocks \<equiv> [(4096, 64, False), (4160, 32, True), (4192, 64, False), (4256, 96, True)]"

lemma demo_heap_rep: "heap_rep demo_heap [4256, 4160] demo_blocks"
  by (auto simp: heap_rep_def heap_ok_def demo_heap_def free_addrs_def)

lemma demo_need: "kmalloc_need 20 = 32" "kmalloc_need 60 = 80"
  by (simp_all add: kmalloc_need_def Let_def align_up_16)

lemma demo_hmem: "hmem demo_heap 4256 = 96"
  by (simp add: demo_heap_def)

theorem kmalloc_first_fit_witness:
  "\<exists>h'. kmalloc 20 demo_heap = (4264, h') \<and> heap_rep h' [4288, 4160]
     [(4096, 64, False), (4160, 32, True), (4192, 64, False), (4256, 32, False), (4288, 64, True)]"
proof -
  note F = kmalloc_first_fit [OF demo_heap_rep, of 20, THEN conjunct2, rule_format,
      of "[]" 4256 "[4160]" "[(4096, 64, False), (4160, 32, True), (4192, 64, False)]" 96 "[]"]
  then show ?thesis by (simp add: demo_need demo_hmem took_def) blast
qed

theorem kfree_coalesces_witness:
  "\<exists>ys. heap_rep (kfree 4200 demo_heap) ys [(4096, 64, False), (4160, 192, True)]"
  using kfree_coalesces [OF demo_heap_rep, of 4192 64] by (auto simp: mark_free_def)

theorem kmalloc_kfree_roundtrip_witness:
  "\<exists>p h' ys. kmalloc 60 demo_heap = (p, h') \<and> p \<noteq> 0 \<and> heap_rep (kfree p h') ys demo_blocks"
proof -
  obtain h' where k: "kmalloc 60 demo_heap = (4264, h')"
    using kmalloc_rep(2) [OF demo_heap_rep, of 60 "[]" 4256 "[4160]"
        "[(4096, 64, False), (4160, 32, True), (4192, 64, False)]" 96 "[]"]
    by (simp add: demo_need demo_hmem took_def) blast
  with kmalloc_kfree_roundtrip [OF demo_heap_rep _ k] show ?thesis by auto
qed


text \<open>4096 pages of which only page 0 is in use.\<close>

definition big_pmm :: pmm where
  "big_pmm = \<lparr>g_bitmap_phys = 0, g_bitmap = 1 # replicate 511 0, g_refs = replicate 4096 0,
     g_total_pages = 4096, g_free_pages = 4095, g_ceiling = 0x1000000\<rparr>"

lemma big_bm_test:
  assumes "p < 4096"
  shows "bm_test big_pmm p \<longleftrightarrow> p = 0"
proof (cases "p < 8")
  case True
  then consider "p = 0" | "p = 1" | "p = 2" | "p = 3" | "p = 4" | "p = 5" | "p = 6" | "p = 7" by linarith
  then show ?thesis by cases (simp_all add: bm_test_def big_pmm_def)
next
  case False
  then obtain k where "p div 8 = Suc k" by (cases "p div 8") auto
  moreover from this have "k < 511" using assms by linarith
  ultimately show ?thesis using False by (simp add: bm_test_def big_pmm_def)
qed

lemma big_wf: "pmm_wf big_pmm" "page0_used big_pmm"
proof -
  have "free_set big_pmm = {1..<4096}"
    using big_bm_test by (auto simp: free_set_def big_pmm_def)
  then show "pmm_wf big_pmm" by (simp add: pmm_wf_def) (simp add: big_pmm_def)
  show "page0_used big_pmm" using big_bm_test [of 0] by (simp add: page0_used_def big_pmm_def)
qed

theorem heap_init_spec_witness:
  "\<exists>r h' s' p. heap_init demo_heap big_pmm = (r, h', s') \<and> r = 0 \<and> heap_rep h' [p] [(p, 0x800000, True)]"
proof -
  obtain r h' s' where r: "heap_init demo_heap big_pmm = (r, h', s')" by (rule prod_cases3)
  have "free_run big_pmm HEAP_PAGES 1" using big_bm_test by (simp add: free_run_def big_pmm_def)
  with heap_init_spec [OF big_wf _ r] r show ?thesis by (auto simp: big_pmm_def split: if_splits)
qed

end
