(* ===== verification/Kobj.thy ===== *)
theory Kobj
  imports KHeap
begin

text \<open>
  Objects the file layer keeps on the kernel heap: open files (\<open>struct vfs_file\<close> of
  \<open>src/include/helix/vfs.h\<close>), pipes (\<open>struct helix_pipe\<close> of \<open>src/include/helix/pipe.h\<close>),
  the private part of an open ramfs file (\<open>struct ramfs_file\<close> of \<open>src/kernel/fs/ramfs.c\<close>)
  and the data buffers of ramfs nodes. A pointer is the address \<open>kmalloc\<close> returned and 0 is
  NULL; each kind of object is a partial map from addresses. Looking up an address that
  holds no such object models a wild access: the operations return \<open>None\<close> for it, and the
  theorems show that it does not happen.

  The contents of fresh memory are whatever \<open>garbage\<close> says: the field is never
  constrained.

  The invariant \<open>kobj_ok\<close> ties the maps to the allocator: every object lies in a block in
  use that is large enough for it, and no block holds two objects. Its proofs use the
  allocator only through the facts of the interface \<open>allocator\<close>.
\<close>

section \<open>Data\<close>

text \<open>The operation tables a \<open>vfs_file\<close> can point to; a socket file has none.\<close>

datatype vfs_ops = ConsOps | RamfsOps | PipeOps | FatOps | NoOps

record vfs_file =
  f_ops :: vfs_ops
  fs_priv :: nat
  f_size :: nat
  f_pos :: nat
  is_console :: nat
  is_dir :: bool
  writable :: bool
  is_socket :: nat
  refcount :: int
  f_flags :: int

text \<open>A \<open>vfs_file\<close> cleared by \<open>memset\<close>.\<close>

definition zero_file :: vfs_file where
  "zero_file = \<lparr>f_ops = NoOps, fs_priv = 0, f_size = 0, f_pos = 0, is_console = 0, is_dir = False,
     writable = False, is_socket = 0, refcount = 0, f_flags = 0\<rparr>"

record helix_pipe =
  p_buf :: bytes
  p_head :: nat
  p_tail :: nat
  p_count :: nat
  read_end :: nat
  write_end :: nat

record ramfs_file =
  rf_node :: nat
  rf_pos :: nat

record kobj =
  kheap :: heap
  files :: "nat \<rightharpoonup> vfs_file"
  pipes :: "nat \<rightharpoonup> helix_pipe"
  rfiles :: "nat \<rightharpoonup> ramfs_file"
  bufs :: "nat \<rightharpoonup> bytes"
  garbage :: "nat \<Rightarrow> u8"

abbreviation (input) sizeof_vfs_file :: nat where "sizeof_vfs_file \<equiv> 56"
abbreviation (input) sizeof_helix_pipe :: nat where "sizeof_helix_pipe \<equiv> 4128"
abbreviation (input) sizeof_ramfs_file :: nat where "sizeof_ramfs_file \<equiv> 16"

section \<open>The invariant\<close>

definition holds :: "nat \<Rightarrow> nat \<Rightarrow> 'a kobj_scheme \<Rightarrow> bool" where
  "holds a n s \<longleftrightarrow> (\<exists>m \<ge> n. (a, m) \<in> live (kheap s))"

text \<open>The bytes the object at an address takes.\<close>

definition needs :: "'a kobj_scheme \<Rightarrow> nat \<Rightarrow> nat \<Rightarrow> bool" where
  "needs s a n \<longleftrightarrow>
     (a \<in> dom (files s) \<and> n = sizeof_vfs_file) \<or> (a \<in> dom (pipes s) \<and> n = sizeof_helix_pipe)
     \<or> (a \<in> dom (rfiles s) \<and> n = sizeof_ramfs_file) \<or> (\<exists>b. bufs s a = Some b \<and> n = length b)"

definition objects :: "'a kobj_scheme \<Rightarrow> nat set" where
  "objects s = dom (files s) \<union> dom (pipes s) \<union> dom (rfiles s) \<union> dom (bufs s)"

definition separate :: "'a kobj_scheme \<Rightarrow> bool" where
  "separate s \<longleftrightarrow>
     dom (files s) \<inter> dom (pipes s) = {} \<and> dom (files s) \<inter> dom (rfiles s) = {}
     \<and> dom (files s) \<inter> dom (bufs s) = {} \<and> dom (pipes s) \<inter> dom (rfiles s) = {}
     \<and> dom (pipes s) \<inter> dom (bufs s) = {} \<and> dom (rfiles s) \<inter> dom (bufs s) = {}"

definition kobj_ok :: "'a kobj_scheme \<Rightarrow> bool" where
  "kobj_ok s \<longleftrightarrow> heap_inv (kheap s) \<and> (\<forall>a n. needs s a n \<longrightarrow> holds a n s) \<and> separate s"

lemma kobj_ok_heap: "kobj_ok s \<Longrightarrow> heap_inv (kheap s)"
  by (simp add: kobj_ok_def)

lemma objects_needs: "a \<in> objects s \<longleftrightarrow> (\<exists>n. needs s a n)"
  by (auto simp: objects_def needs_def)

lemma kobj_ok_live:
  assumes "kobj_ok s" "a \<in> objects s"
  obtains n where "(a, n) \<in> live (kheap s)"
  using assms that by (auto simp: kobj_ok_def objects_needs holds_def)

lemma kobj_ok_nonzero: "kobj_ok s \<Longrightarrow> a \<in> objects s \<Longrightarrow> 0 < a"
  by (meson kobj_ok_heap kobj_ok_live kh.block_bounds)

text \<open>Allocation gives a fresh address and keeps the invariant.\<close>

lemma kmalloc_fresh:
  assumes "kobj_ok s" "n < 18446744073709551552" "kmalloc n (kheap s) = (p, h')" "p \<noteq> 0"
  shows "p \<notin> objects s"
proof
  assume "p \<in> objects s"
  then obtain m where "(p, m) \<in> live (kheap s)" using kobj_ok_live [OF assms(1)] by blast
  then show False using kh.alloc_fresh(2) [OF kobj_ok_heap [OF assms(1)] assms(2-4)] by blast
qed

lemma kmalloc_ok:
  assumes "kobj_ok s" "n < 18446744073709551552" "kmalloc n (kheap s) = (p, h')"
  shows "kobj_ok (s\<lparr>kheap := h'\<rparr>)" "p \<noteq> 0 \<Longrightarrow> holds p n (s\<lparr>kheap := h'\<rparr>)"
proof -
  note i = kobj_ok_heap [OF assms(1)]
  have "live (kheap s) \<subseteq> live h'" by (rule kh.alloc_blocks_mono [OF i assms(2,3)])
  then have h: "holds a k s \<Longrightarrow> holds a k (s\<lparr>kheap := h'\<rparr>)" for a k by (auto simp: holds_def)
  show "kobj_ok (s\<lparr>kheap := h'\<rparr>)"
    using assms(1) h kh.alloc_inv [OF i assms(2,3)] by (simp add: kobj_ok_def needs_def separate_def)
  show "p \<noteq> 0 \<Longrightarrow> holds p n (s\<lparr>kheap := h'\<rparr>)"
    using kh.alloc_new [OF i assms(2,3)] by (auto simp: holds_def)
qed

text \<open>Releasing an address that no longer holds an object keeps the invariant.\<close>

lemma kfree_keeps_ok:
  assumes "kobj_ok s" "(p, n) \<in> live (kheap s)" "p \<notin> objects s"
  shows "kobj_ok (s\<lparr>kheap := kfree p (kheap s)\<rparr>)"
proof -
  have r: "heap_inv (kfree p (kheap s))" "live (kfree p (kheap s)) = live (kheap s) - {(p, n)}"
    using kh.release_old [OF kobj_ok_heap [OF assms(1)] assms(2)] by auto
  have h: "holds a k s \<Longrightarrow> a \<noteq> p \<Longrightarrow> holds a k (s\<lparr>kheap := kfree p (kheap s)\<rparr>)" for a k
    by (auto simp: holds_def r(2))
  have "needs s a k \<Longrightarrow> a \<noteq> p" for a k using assms(3) by (auto simp: objects_needs)
  then have "\<forall>a k. needs s a k \<longrightarrow> holds a k (s\<lparr>kheap := kfree p (kheap s)\<rparr>)"
    using assms(1) h by (auto simp: kobj_ok_def)
  then show ?thesis using assms(1) r(1) by (simp add: kobj_ok_def needs_def separate_def)
qed

lemma kobj_okI:
  assumes "kobj_ok s" "kheap s' = kheap s" "separate s'" "\<And>a n. needs s' a n \<Longrightarrow> needs s a n \<or> holds a n s"
  shows "kobj_ok s'"
  using assms by (simp add: kobj_ok_def holds_def) blast

lemma kobj_ok_remove:
  assumes "kobj_ok s"
  shows "kobj_ok (s\<lparr>files := (files s)(p := None)\<rparr>)"
    "kobj_ok (s\<lparr>pipes := (pipes s)(p := None)\<rparr>)"
    "kobj_ok (s\<lparr>rfiles := (rfiles s)(p := None)\<rparr>)"
    "kobj_ok (s\<lparr>bufs := (bufs s)(p := None)\<rparr>)"
proof -
  have sep: "separate s" using assms(1) by (simp add: kobj_ok_def)
  show "kobj_ok (s\<lparr>files := (files s)(p := None)\<rparr>)"
    by (rule kobj_okI [OF assms(1)]) (use sep in \<open>auto simp: needs_def separate_def split: if_splits\<close>)
  show "kobj_ok (s\<lparr>pipes := (pipes s)(p := None)\<rparr>)"
    by (rule kobj_okI [OF assms(1)]) (use sep in \<open>auto simp: needs_def separate_def split: if_splits\<close>)
  show "kobj_ok (s\<lparr>rfiles := (rfiles s)(p := None)\<rparr>)"
    by (rule kobj_okI [OF assms(1)]) (use sep in \<open>auto simp: needs_def separate_def split: if_splits\<close>)
  show "kobj_ok (s\<lparr>bufs := (bufs s)(p := None)\<rparr>)"
    by (rule kobj_okI [OF assms(1)]) (use sep in \<open>auto simp: needs_def separate_def split: if_splits\<close>)
qed

lemma kobj_ok_add:
  assumes "kobj_ok s" "p \<notin> objects s"
  shows "holds p sizeof_vfs_file s \<Longrightarrow> kobj_ok (s\<lparr>files := (files s)(p \<mapsto> f)\<rparr>)"
    "holds p sizeof_helix_pipe s \<Longrightarrow> kobj_ok (s\<lparr>pipes := (pipes s)(p \<mapsto> pi)\<rparr>)"
    "holds p sizeof_ramfs_file s \<Longrightarrow> kobj_ok (s\<lparr>rfiles := (rfiles s)(p \<mapsto> r)\<rparr>)"
    "holds p (length b) s \<Longrightarrow> kobj_ok (s\<lparr>bufs := (bufs s)(p \<mapsto> b)\<rparr>)"
proof -
  have sep: "separate s" using assms(1) by (simp add: kobj_ok_def)
  show "kobj_ok (s\<lparr>files := (files s)(p \<mapsto> f)\<rparr>)" if "holds p sizeof_vfs_file s"
    by (rule kobj_okI [OF assms(1)]) (use that assms(2) sep in \<open>auto simp: needs_def separate_def objects_def split: if_splits\<close>)
  show "kobj_ok (s\<lparr>pipes := (pipes s)(p \<mapsto> pi)\<rparr>)" if "holds p sizeof_helix_pipe s"
    by (rule kobj_okI [OF assms(1)]) (use that assms(2) sep in \<open>auto simp: needs_def separate_def objects_def split: if_splits\<close>)
  show "kobj_ok (s\<lparr>rfiles := (rfiles s)(p \<mapsto> r)\<rparr>)" if "holds p sizeof_ramfs_file s"
    by (rule kobj_okI [OF assms(1)]) (use that assms(2) sep in \<open>auto simp: needs_def separate_def objects_def split: if_splits\<close>)
  show "kobj_ok (s\<lparr>bufs := (bufs s)(p \<mapsto> b)\<rparr>)" if "holds p (length b) s"
    by (rule kobj_okI [OF assms(1)]) (use that assms(2) sep in \<open>auto simp: needs_def separate_def objects_def split: if_splits\<close>)
qed

lemma kobj_ok_update:
  assumes "kobj_ok s"
  shows "p \<in> dom (files s) \<Longrightarrow> kobj_ok (s\<lparr>files := (files s)(p \<mapsto> f)\<rparr>)"
    "p \<in> dom (pipes s) \<Longrightarrow> kobj_ok (s\<lparr>pipes := (pipes s)(p \<mapsto> pi)\<rparr>)"
    "p \<in> dom (rfiles s) \<Longrightarrow> kobj_ok (s\<lparr>rfiles := (rfiles s)(p \<mapsto> r)\<rparr>)"
    "bufs s p = Some b \<Longrightarrow> length b' = length b \<Longrightarrow> kobj_ok (s\<lparr>bufs := (bufs s)(p \<mapsto> b')\<rparr>)"
proof -
  have sep: "separate s" using assms(1) by (simp add: kobj_ok_def)
  show "kobj_ok (s\<lparr>files := (files s)(p \<mapsto> f)\<rparr>)" if "p \<in> dom (files s)"
    by (rule kobj_okI [OF assms(1)]) (use that sep in \<open>auto simp: needs_def separate_def split: if_splits\<close>)
  show "kobj_ok (s\<lparr>pipes := (pipes s)(p \<mapsto> pi)\<rparr>)" if "p \<in> dom (pipes s)"
    by (rule kobj_okI [OF assms(1)]) (use that sep in \<open>auto simp: needs_def separate_def split: if_splits\<close>)
  show "kobj_ok (s\<lparr>rfiles := (rfiles s)(p \<mapsto> r)\<rparr>)" if "p \<in> dom (rfiles s)"
    by (rule kobj_okI [OF assms(1)]) (use that sep in \<open>auto simp: needs_def separate_def split: if_splits\<close>)
  show "kobj_ok (s\<lparr>bufs := (bufs s)(p \<mapsto> b')\<rparr>)" if "bufs s p = Some b" "length b' = length b"
    by (rule kobj_okI [OF assms(1)]) (use that sep in \<open>auto simp: needs_def separate_def split: if_splits\<close>)
qed

text \<open>Releasing an object: its entry goes, then its block.\<close>

definition free_file :: "nat \<Rightarrow> 'a kobj_scheme \<Rightarrow> 'a kobj_scheme" where
  "free_file p s = s\<lparr>files := (files s)(p := None), kheap := kfree p (kheap s)\<rparr>"

definition free_pipe :: "nat \<Rightarrow> 'a kobj_scheme \<Rightarrow> 'a kobj_scheme" where
  "free_pipe p s = s\<lparr>pipes := (pipes s)(p := None), kheap := kfree p (kheap s)\<rparr>"

definition free_rfile :: "nat \<Rightarrow> 'a kobj_scheme \<Rightarrow> 'a kobj_scheme" where
  "free_rfile p s = s\<lparr>rfiles := (rfiles s)(p := None), kheap := kfree p (kheap s)\<rparr>"

definition free_buf :: "nat \<Rightarrow> 'a kobj_scheme \<Rightarrow> 'a kobj_scheme" where
  "free_buf p s = s\<lparr>bufs := (bufs s)(p := None), kheap := kfree p (kheap s)\<rparr>"

lemma free_obj_ok:
  assumes "kobj_ok s"
  shows "p \<in> dom (files s) \<Longrightarrow> kobj_ok (free_file p s)"
    "p \<in> dom (pipes s) \<Longrightarrow> kobj_ok (free_pipe p s)"
    "p \<in> dom (rfiles s) \<Longrightarrow> kobj_ok (free_rfile p s)"
    "p \<in> dom (bufs s) \<Longrightarrow> kobj_ok (free_buf p s)"
proof -
  have sep: "separate s" using assms by (simp add: kobj_ok_def)
  have blk: "\<exists>n. (p, n) \<in> live (kheap s)" if "p \<in> objects s" using kobj_ok_live [OF assms that] by blast
  show "kobj_ok (free_file p s)" if p: "p \<in> dom (files s)"
  proof -
    obtain n where n: "(p, n) \<in> live (kheap s)" using blk p by (auto simp: objects_def)
    have "p \<notin> objects (s\<lparr>files := (files s)(p := None)\<rparr>)" using p sep by (auto simp: objects_def separate_def)
    with kfree_keeps_ok [OF kobj_ok_remove(1) [OF assms, of p], of p n] n show ?thesis by (simp add: free_file_def)
  qed
  show "kobj_ok (free_pipe p s)" if p: "p \<in> dom (pipes s)"
  proof -
    obtain n where n: "(p, n) \<in> live (kheap s)" using blk p by (auto simp: objects_def)
    have "p \<notin> objects (s\<lparr>pipes := (pipes s)(p := None)\<rparr>)" using p sep by (auto simp: objects_def separate_def)
    with kfree_keeps_ok [OF kobj_ok_remove(2) [OF assms, of p], of p n] n show ?thesis by (simp add: free_pipe_def)
  qed
  show "kobj_ok (free_rfile p s)" if p: "p \<in> dom (rfiles s)"
  proof -
    obtain n where n: "(p, n) \<in> live (kheap s)" using blk p by (auto simp: objects_def)
    have "p \<notin> objects (s\<lparr>rfiles := (rfiles s)(p := None)\<rparr>)" using p sep by (auto simp: objects_def separate_def)
    with kfree_keeps_ok [OF kobj_ok_remove(3) [OF assms, of p], of p n] n show ?thesis by (simp add: free_rfile_def)
  qed
  show "kobj_ok (free_buf p s)" if p: "p \<in> dom (bufs s)"
  proof -
    obtain n where n: "(p, n) \<in> live (kheap s)" using blk p by (auto simp: objects_def)
    have "p \<notin> objects (s\<lparr>bufs := (bufs s)(p := None)\<rparr>)" using p sep by (auto simp: objects_def separate_def)
    with kfree_keeps_ok [OF kobj_ok_remove(4) [OF assms, of p], of p n] n show ?thesis by (simp add: free_buf_def)
  qed
qed

end
