(* ===== verification/Ring.thy ===== *)
theory Ring
  imports Helix_Prelude
begin

text \<open>
  Circular buffers. The kernel has five of them: the pipe buffer, the keyboard and mouse
  rings, and the receive queues of UDP and TCP sockets. This theory holds what they share:
  the list of elements a ring of slots represents, how a write behind the last element and
  a read of the first one change that list, and the interface \<open>bounded_fifo\<close>, whose laws
  each ring discharges for its own code and whose consequences (order, no loss, no
  duplication) are proved here once.
\<close>

section \<open>The list a ring represents\<close>

definition ring_list :: "'a list \<Rightarrow> nat \<Rightarrow> nat \<Rightarrow> 'a list" where
  "ring_list buf t n = map (\<lambda>i. buf ! ((t + i) mod length buf)) [0..<n]"

lemma length_ring_list [simp]: "length (ring_list buf t n) = n"
  by (simp add: ring_list_def)

lemma ring_list_0 [simp]: "ring_list buf t 0 = []"
  by (simp add: ring_list_def)

lemma mod_add_neq:
  fixes t :: nat
  assumes "i < n" "n < L"
  shows "(t + i) mod L \<noteq> (t + n) mod L"
proof
  assume "(t + i) mod L = (t + n) mod L"
  then have "L dvd (t + n) - (t + i)" using assms by (metis mod_eq_dvd_iff_nat add_le_mono less_imp_le order_refl)
  then show False using assms by (auto dest: dvd_imp_le)
qed

lemma ring_list_put:
  assumes "n < length buf"
  shows "ring_list (buf[(t + n) mod length buf := x]) t (Suc n) = ring_list buf t n @ [x]"
proof -
  have "(t + n) mod length buf < length buf" using assms by (intro mod_less_divisor) linarith
  moreover have "(t + n) mod length buf \<noteq> (t + i) mod length buf" if "i < n" for i
    using mod_add_neq [OF that assms, of t] by (rule not_sym)
  ultimately show ?thesis by (auto simp: ring_list_def)
qed

lemma ring_list_get:
  assumes "t < length buf"
  shows "ring_list buf t (Suc n) = buf ! t # ring_list buf (Suc t mod length buf) n"
proof -
  have "ring_list buf t (Suc n) = buf ! t # map (\<lambda>i. buf ! ((t + Suc i) mod length buf)) [0..<n]"
    using assms by (simp add: ring_list_def upt_conv_Cons map_Suc_upt [symmetric] del: upt_Suc)
  moreover have "(t + Suc i) mod length buf = (Suc t mod length buf + i) mod length buf" for i
    by (simp add: mod_add_left_eq)
  ultimately show ?thesis by (simp add: ring_list_def)
qed

lemma ring_list_nth: "i < n \<Longrightarrow> ring_list buf t n ! i = buf ! ((t + i) mod length buf)"
  by (simp add: ring_list_def)

text \<open>
  A ring with one slot kept empty stores no count: the number of elements follows from the
  two indices.
\<close>

definition gap :: "nat \<Rightarrow> nat \<Rightarrow> nat \<Rightarrow> nat" where
  "gap L t h = (if t \<le> h then h - t else h + L - t)"

lemma gap_facts:
  assumes "t < L" "h < L"
  shows "gap L t h < L" "(t + gap L t h) mod L = h" "gap L t h = 0 \<longleftrightarrow> t = h"
    "Suc h mod L = t \<longleftrightarrow> gap L t h = L - 1"
  using assms by (auto simp: gap_def mod_Suc)

lemma gap_put: "t < L \<Longrightarrow> h < L \<Longrightarrow> Suc h mod L \<noteq> t \<Longrightarrow> gap L t (Suc h mod L) = Suc (gap L t h)"
  by (auto simp: gap_def mod_Suc)

lemma gap_get: "t < L \<Longrightarrow> h < L \<Longrightarrow> gap L t h = Suc n \<Longrightarrow> gap L (Suc t mod L) h = n"
  by (auto simp: gap_def mod_Suc split: if_splits)

text \<open>A ring that stores head, tail and count.\<close>

definition cring_ok :: "nat \<Rightarrow> 'a list \<Rightarrow> nat \<Rightarrow> nat \<Rightarrow> nat \<Rightarrow> bool" where
  "cring_ok L buf h t n \<longleftrightarrow> length buf = L \<and> h < L \<and> n \<le> L \<and> t = (h + n) mod L"

lemma cring_put:
  assumes "cring_ok L buf h t n" "n < L"
  shows "cring_ok L (buf[t := x]) h (Suc t mod L) (Suc n)"
    "ring_list (buf[t := x]) h (Suc n) = ring_list buf h n @ [x]"
  using assms ring_list_put [of n buf h x] by (auto simp: cring_ok_def mod_Suc_eq)

lemma cring_get:
  assumes "cring_ok L buf h t (Suc n)"
  shows "cring_ok L buf (Suc h mod L) t n"
    "ring_list buf h (Suc n) = buf ! h # ring_list buf (Suc h mod L) n"
  using assms ring_list_get [of h buf n] by (auto simp: cring_ok_def mod_simps)

lemma cring_empty: "0 < L \<Longrightarrow> cring_ok L (replicate L x) 0 0 0"
  by (simp add: cring_ok_def)

section \<open>Bounded queues\<close>

locale bounded_fifo =
  fixes cap :: nat
    and wf :: "'s \<Rightarrow> bool"
    and contents :: "'s \<Rightarrow> 'a list"
    and put :: "'a \<Rightarrow> 's \<Rightarrow> 's"
    and get :: "'s \<Rightarrow> ('a \<times> 's) option"
  assumes within: "wf s \<Longrightarrow> length (contents s) \<le> cap"
    and put_room: "wf s \<Longrightarrow> length (contents s) < cap \<Longrightarrow>
      wf (put x s) \<and> contents (put x s) = contents s @ [x]"
    and put_full: "wf s \<Longrightarrow> length (contents s) = cap \<Longrightarrow> put x s = s"
    and get_empty: "wf s \<Longrightarrow> contents s = [] \<Longrightarrow> get s = None"
    and get_first: "wf s \<Longrightarrow> contents s = x # xs \<Longrightarrow> \<exists>s'. get s = Some (x, s') \<and> wf s' \<and> contents s' = xs"
begin

lemma put_wf: "wf s \<Longrightarrow> wf (put x s)"
  using within put_room put_full by (metis le_neq_implies_less)

text \<open>Putting a list: as much as fits, in order.\<close>

fun put_all :: "'a list \<Rightarrow> 's \<Rightarrow> 's" where
  "put_all [] s = s"
| "put_all (x # xs) s = put_all xs (put x s)"

lemma put_all_full: "wf s \<Longrightarrow> length (contents s) = cap \<Longrightarrow> put_all xs s = s"
  by (induction xs) (simp_all add: put_full)

lemma put_all_contents:
  "wf s \<Longrightarrow> wf (put_all xs s) \<and> contents (put_all xs s) = contents s @ take (cap - length (contents s)) xs"
proof (induction xs arbitrary: s)
  case (Cons x xs)
  show ?case
  proof (cases "length (contents s) < cap")
    case True
    with Cons.prems have p: "wf (put x s)" "contents (put x s) = contents s @ [x]" using put_room by auto
    have "cap - length (contents s) = Suc (cap - Suc (length (contents s)))" using True by simp
    with Cons.IH [OF p(1)] p(2) show ?thesis by simp
  next
    case False
    with Cons.prems within have "length (contents s) = cap" by (metis le_neq_implies_less)
    with Cons.prems put_all_full put_full show ?thesis by simp
  qed
qed simp

text \<open>Getting up to \<open>n\<close> elements: the oldest ones, in order.\<close>

fun get_upto :: "nat \<Rightarrow> 's \<Rightarrow> 'a list \<times> 's" where
  "get_upto 0 s = ([], s)"
| "get_upto (Suc n) s =
     (case get s of None \<Rightarrow> ([], s) | Some (x, s') \<Rightarrow> (let (xs, s'') = get_upto n s' in (x # xs, s'')))"

lemma get_upto_contents:
  "wf s \<Longrightarrow> get_upto n s = (out, s') \<Longrightarrow>
    wf s' \<and> out = take n (contents s) \<and> contents s' = drop n (contents s)"
proof (induction n arbitrary: s out s')
  case (Suc n)
  show ?case
  proof (cases "contents s")
    case Nil
    then show ?thesis using Suc.prems get_empty by simp
  next
    case (Cons x xs)
    then obtain s1 where s1: "get s = Some (x, s1)" "wf s1" "contents s1 = xs"
      using Suc.prems(1) get_first by blast
    obtain ys s2 where "get_upto n s1 = (ys, s2)" by (rule prod.exhaust)
    with Suc.IH [OF s1(2) this] Suc.prems(2) s1 Cons show ?thesis by auto
  qed
qed auto

text \<open>
  Any interleaving of puts and gets: what has come out, followed by what is still inside,
  is what went in and was accepted, in order.
\<close>

fun run :: "'a option list \<Rightarrow> 's \<Rightarrow> 'a list \<times> 'a list \<times> 's" where
  "run [] s = ([], [], s)"
| "run (Some x # ops) s =
     (let (ins, outs, s') = run ops (put x s)
      in (if length (contents s) < cap then x # ins else ins, outs, s'))"
| "run (None # ops) s =
     (case get s of
        None \<Rightarrow> run ops s
      | Some (x, s1) \<Rightarrow> (let (ins, outs, s') = run ops s1 in (ins, x # outs, s')))"

lemma run_fifo:
  "wf s \<Longrightarrow> run ops s = (ins, outs, s') \<Longrightarrow> wf s' \<and> outs @ contents s' = contents s @ ins"
proof (induction ops s arbitrary: ins outs rule: run.induct)
  case (2 x ops s)
  obtain i1 o1 s1 where r: "run ops (put x s) = (i1, o1, s1)" by (rule prod_cases3)
  have IH: "wf s1 \<and> o1 @ contents s1 = contents (put x s) @ i1"
    using "2.IH" [OF put_wf [OF "2.prems"(1)]] r "2.prems"(2) by (auto simp: Let_def)
  show ?case
  proof (cases "length (contents s) < cap")
    case True
    with put_room [OF "2.prems"(1)] IH r "2.prems"(2) show ?thesis by auto
  next
    case False
    then have "put x s = s" using put_full within "2.prems"(1) by (metis le_neq_implies_less)
    with IH r "2.prems"(2) False show ?thesis by auto
  qed
next
  case (3 ops s)
  show ?case
  proof (cases "contents s")
    case Nil
    then show ?thesis using 3 get_empty by simp
  next
    case (Cons x xs)
    then obtain s1 where s1: "get s = Some (x, s1)" "wf s1" "contents s1 = xs"
      using "3.prems"(1) get_first by blast
    obtain i1 o1 s2 where r: "run ops s1 = (i1, o1, s2)" by (rule prod_cases3)
    have "wf s2 \<and> o1 @ contents s2 = xs @ i1" using "3.IH"(2) [OF s1(1) refl s1(2)] r s1(3) "3.prems"(2) s1(1) by auto
    with r s1(1) Cons "3.prems"(2) show ?thesis by auto
  qed
qed auto

end

end
