(* ===== verification/Pipe.thy ===== *)
theory Pipe
  imports Kobj Ring
begin

text \<open>
  Pipes, \<open>src/kernel/fs/pipe.c\<close>: a circular buffer of 4096 bytes shared by a reading and a
  writing end. The copy loops are recursive functions over the bytes still to move; their
  bodies \<open>pipe_get\<close> and \<open>pipe_put\<close> are shown to be a \<open>bounded_fifo\<close>, and the operations
  of the file interface are proved from its facts. The results carry the return value, the
  bytes moved (their number is what the code stores in \<open>out_n\<close>) and the new state.
\<close>

abbreviation (input) PIPE_BUF_SIZE :: nat where "PIPE_BUF_SIZE \<equiv> 4096"

section \<open>The buffer\<close>

text \<open>The bodies of the read and the write loop, with the loop's test on \<open>count\<close>.\<close>

definition pipe_get :: "helix_pipe \<Rightarrow> (u8 \<times> helix_pipe) option" where
  "pipe_get p =
     (if p_count p > 0
      then Some (p_buf p ! p_tail p,
             p\<lparr>p_tail := (p_tail p + 1) mod PIPE_BUF_SIZE, p_count := p_count p - 1\<rparr>)
      else None)"

definition pipe_put :: "u8 \<Rightarrow> helix_pipe \<Rightarrow> helix_pipe" where
  "pipe_put b p =
     (if p_count p < PIPE_BUF_SIZE
      then p\<lparr>p_buf := (p_buf p)[p_head p := b], p_head := (p_head p + 1) mod PIPE_BUF_SIZE,
             p_count := p_count p + 1\<rparr>
      else p)"

fun pipe_read_loop :: "nat \<Rightarrow> helix_pipe \<Rightarrow> bytes \<times> helix_pipe" where
  "pipe_read_loop 0 p = ([], p)"
| "pipe_read_loop (Suc len) p =
     (case pipe_get p of
        None \<Rightarrow> ([], p)
      | Some (b, p1) \<Rightarrow> (let (bs, p2) = pipe_read_loop len p1 in (b # bs, p2)))"

fun pipe_write_loop :: "bytes \<Rightarrow> helix_pipe \<Rightarrow> nat \<times> helix_pipe" where
  "pipe_write_loop [] p = (0, p)"
| "pipe_write_loop (b # bs) p =
     (if p_count p < PIPE_BUF_SIZE
      then (let (n, p') = pipe_write_loop bs (pipe_put b p) in (Suc n, p'))
      else (0, p))"

section \<open>File operations\<close>

definition pipe_open :: "string \<Rightarrow> int \<Rightarrow> 'a kobj_scheme \<Rightarrow> int \<times> 'a kobj_scheme" where
  "pipe_open path flags s = (-1, s)"

definition pipe_read :: "nat \<Rightarrow> nat \<Rightarrow> 'a kobj_scheme \<Rightarrow> (int \<times> bytes \<times> 'a kobj_scheme) option" where
  "pipe_read f len s =
     (case files s f of
        None \<Rightarrow> None
      | Some vf \<Rightarrow>
          if fs_priv vf = 0 then Some (-1, [], s)
          else case pipes s (fs_priv vf) of
                 None \<Rightarrow> None
               | Some p \<Rightarrow>
                   let (dst, p') = pipe_read_loop len p;
                       s' = s\<lparr>pipes := (pipes s)(fs_priv vf \<mapsto> p')\<rparr>
                   in if dst \<noteq> [] then Some (0, dst, s')
                      else if write_end p' = 0 then Some (0, [], s')
                      else case files s' (write_end p') of
                             None \<Rightarrow> None
                           | Some w \<Rightarrow> if refcount w > 0 then Some (- EAGAIN, [], s') else Some (0, [], s'))"

definition pipe_write :: "nat \<Rightarrow> bytes \<Rightarrow> 'a kobj_scheme \<Rightarrow> (int \<times> nat \<times> 'a kobj_scheme) option" where
  "pipe_write f src s =
     (case files s f of
        None \<Rightarrow> None
      | Some vf \<Rightarrow>
          if fs_priv vf = 0 then Some (-1, 0, s)
          else case pipes s (fs_priv vf) of
                 None \<Rightarrow> None
               | Some p \<Rightarrow>
                   if read_end p \<noteq> 0 \<and> files s (read_end p) = None then None
                   else if read_end p \<noteq> 0 \<and> refcount (the (files s (read_end p))) \<le> 0 then Some (0, 0, s)
                   else let (total, p') = pipe_write_loop src p;
                            s' = s\<lparr>pipes := (pipes s)(fs_priv vf \<mapsto> p')\<rparr>
                        in if total > 0 then Some (0, total, s') else Some (- EAGAIN, 0, s'))"

definition drop_end :: "nat \<Rightarrow> bool \<Rightarrow> helix_pipe \<Rightarrow> helix_pipe" where
  "drop_end f w p =
     (if w then if write_end p = f then p\<lparr>write_end := 0\<rparr> else p
      else if read_end p = f then p\<lparr>read_end := 0\<rparr> else p)"

definition pipe_close :: "nat \<Rightarrow> 'a kobj_scheme \<Rightarrow> (int \<times> 'a kobj_scheme) option" where
  "pipe_close f s =
     (case files s f of
        None \<Rightarrow> None
      | Some vf \<Rightarrow>
          if fs_priv vf = 0 then Some (-1, s)
          else case pipes s (fs_priv vf) of
                 None \<Rightarrow> None
               | Some p \<Rightarrow>
                   let p' = drop_end f (writable vf) p;
                       s1 = s\<lparr>pipes := (pipes s)(fs_priv vf \<mapsto> p')\<rparr>;
                       s2 = (if read_end p' = 0 \<and> write_end p' = 0 then free_pipe (fs_priv vf) s1 else s1)
                   in Some (0, free_file f s2))"

definition pipe_fstat :: "nat \<Rightarrow> int" where
  "pipe_fstat f = -1"

definition pipe_getdents :: "nat \<Rightarrow> nat \<Rightarrow> int" where
  "pipe_getdents f len = 0"

section \<open>Creation\<close>

definition helix_pipe_create :: "'a kobj_scheme \<Rightarrow> nat \<times> 'a kobj_scheme" where
  "helix_pipe_create s =
     (let (p, h) = kmalloc sizeof_helix_pipe (kheap s)
      in if p = 0 then (0, s\<lparr>kheap := h\<rparr>)
         else (p, s\<lparr>kheap := h, pipes := (pipes s)(p \<mapsto>
                \<lparr>p_buf = map (garbage s) [p..<p + PIPE_BUF_SIZE], p_head = 0, p_tail = 0, p_count = 0,
                 read_end = 0, write_end = 0\<rparr>)\<rparr>))"

definition helix_pipe_wrap :: "nat \<Rightarrow> bool \<Rightarrow> 'a kobj_scheme \<Rightarrow> (nat \<times> 'a kobj_scheme) option" where
  "helix_pipe_wrap p is_write s =
     (let (f, h) = kmalloc sizeof_vfs_file (kheap s)
      in if f = 0 then Some (0, s\<lparr>kheap := h\<rparr>)
         else case pipes s p of
                None \<Rightarrow> None
              | Some pp \<Rightarrow>
                  Some (f, s\<lparr>kheap := h,
                    files := (files s)(f \<mapsto> zero_file\<lparr>f_ops := PipeOps, fs_priv := p, writable := is_write\<rparr>),
                    pipes := (pipes s)(p \<mapsto> (if is_write then pp\<lparr>write_end := f\<rparr> else pp\<lparr>read_end := f\<rparr>))\<rparr>))"

definition helix_pipe_free :: "nat \<Rightarrow> 'a kobj_scheme \<Rightarrow> 'a kobj_scheme" where
  "helix_pipe_free p s = (if p \<noteq> 0 then free_pipe p s else s)"

section \<open>The buffer is a bounded queue\<close>

definition pipe_wf :: "helix_pipe \<Rightarrow> bool" where
  "pipe_wf p \<longleftrightarrow> length (p_buf p) = PIPE_BUF_SIZE \<and> p_tail p < PIPE_BUF_SIZE \<and> p_count p \<le> PIPE_BUF_SIZE
     \<and> p_head p = (p_tail p + p_count p) mod PIPE_BUF_SIZE"

definition pipe_bytes :: "helix_pipe \<Rightarrow> bytes" where
  "pipe_bytes p = ring_list (p_buf p) (p_tail p) (p_count p)"

lemma pipe_put_room:
  assumes "pipe_wf p" "p_count p < PIPE_BUF_SIZE"
  shows "pipe_wf (pipe_put b p)" "pipe_bytes (pipe_put b p) = pipe_bytes p @ [b]"
proof -
  have l: "length (p_buf p) = 4096" using assms(1) by (simp add: pipe_wf_def)
  show "pipe_wf (pipe_put b p)"
    using assms by (simp add: pipe_wf_def pipe_put_def mod_Suc_eq)
  show "pipe_bytes (pipe_put b p) = pipe_bytes p @ [b]"
    using assms ring_list_put [of "p_count p" "p_buf p" "p_tail p" b] l
    by (simp add: pipe_wf_def pipe_put_def pipe_bytes_def)
qed

lemma pipe_get_first:
  assumes "pipe_wf p" "pipe_bytes p = x # xs"
  shows "\<exists>p'. pipe_get p = Some (x, p') \<and> pipe_wf p' \<and> pipe_bytes p' = xs"
proof -
  have l: "length (p_buf p) = 4096" "p_tail p < 4096" using assms(1) by (simp_all add: pipe_wf_def)
  obtain n where n: "p_count p = Suc n" using assms(2) by (cases "p_count p") (auto simp: pipe_bytes_def)
  have "x = p_buf p ! p_tail p" "xs = ring_list (p_buf p) (Suc (p_tail p) mod 4096) n"
    using assms(2) ring_list_get [of "p_tail p" "p_buf p" n] l by (simp_all add: pipe_bytes_def n)
  then show ?thesis
    using assms(1) l by (simp add: pipe_get_def n pipe_bytes_def pipe_wf_def mod_simps)
qed

interpretation pq: bounded_fifo 4096 pipe_wf pipe_bytes pipe_put pipe_get
proof unfold_locales
  show "length (pipe_bytes p) \<le> 4096" if "pipe_wf p" for p
    using that by (simp add: pipe_bytes_def pipe_wf_def)
  show "pipe_wf (pipe_put b p) \<and> pipe_bytes (pipe_put b p) = pipe_bytes p @ [b]"
    if "pipe_wf p" "length (pipe_bytes p) < 4096" for p b
    using that pipe_put_room [of p b] by (simp add: pipe_bytes_def)
  show "pipe_put b p = p" if "pipe_wf p" "length (pipe_bytes p) = 4096" for p b
    using that by (simp add: pipe_put_def pipe_bytes_def)
  show "pipe_get p = None" if "pipe_wf p" "pipe_bytes p = []" for p
    using that by (simp add: pipe_get_def pipe_bytes_def) (metis length_0_conv length_ring_list)
qed (rule pipe_get_first)

lemma length_pipe_bytes [simp]: "length (pipe_bytes p) = p_count p"
  by (simp add: pipe_bytes_def)

lemma pipe_put_count: "p_count p < 4096 \<Longrightarrow> p_count (pipe_put b p) = Suc (p_count p)"
  by (simp add: pipe_put_def)

lemma pipe_read_loop_get: "pipe_read_loop n p = pq.get_upto n p"
  by (induction n arbitrary: p) (auto split: option.split)

lemma pipe_write_loop_put:
  "pipe_wf p \<Longrightarrow> pipe_write_loop bs p = (min (length bs) (4096 - p_count p), pq.put_all bs p)"
proof (induction bs arbitrary: p)
  case (Cons b bs)
  show ?case
  proof (cases "p_count p < 4096")
    case True
    then have "pipe_write_loop bs (pipe_put b p) = (min (length bs) (4096 - Suc (p_count p)), pq.put_all bs (pipe_put b p))"
      using Cons.IH [OF pipe_put_room(1) [OF Cons.prems True, of b]] pipe_put_count [OF True] by simp
    with True show ?thesis by simp
  next
    case False
    then have "p_count p = 4096" using Cons.prems by (simp add: pipe_wf_def)
    then show ?thesis using pq.put_all_full [OF Cons.prems] by (simp del: pq.put_all.simps)
  qed
qed simp

lemma pipe_read_loop_bytes:
  assumes "pipe_wf p" "pipe_read_loop n p = (dst, p')"
  shows "dst = take n (pipe_bytes p)" "pipe_wf p'" "pipe_bytes p' = drop n (pipe_bytes p)"
  using pq.get_upto_contents [OF assms(1)] assms(2) by (auto simp: pipe_read_loop_get)

lemma pipe_write_loop_bytes:
  assumes "pipe_wf p" "pipe_write_loop bs p = (n, p')"
  shows "n = min (length bs) (4096 - length (pipe_bytes p))" "pipe_wf p'"
    "pipe_bytes p' = pipe_bytes p @ take n bs"
proof -
  have "take (4096 - length (pipe_bytes p)) bs = take (min (length bs) (4096 - length (pipe_bytes p))) bs"
    by (simp add: min_def)
  then show "n = min (length bs) (4096 - length (pipe_bytes p))" "pipe_wf p'"
    "pipe_bytes p' = pipe_bytes p @ take n bs"
    using pipe_write_loop_put [OF assms(1), of bs] assms pq.put_all_contents [OF assms(1), of bs]
    by simp_all
qed

text \<open>The loops leave the ends alone.\<close>

lemma pipe_get_ends: "pipe_get p = Some (b, p') \<Longrightarrow> read_end p' = read_end p \<and> write_end p' = write_end p"
  by (auto simp: pipe_get_def split: if_splits)

lemma pipe_read_loop_ends:
  "pipe_read_loop n p = (dst, p') \<Longrightarrow> read_end p' = read_end p \<and> write_end p' = write_end p"
proof (induction n arbitrary: p dst)
  case (Suc n)
  then show ?case by (fastforce split: option.splits prod.splits dest: pipe_get_ends)
qed simp

lemma pipe_write_loop_ends:
  "pipe_write_loop bs p = (n, p') \<Longrightarrow> read_end p' = read_end p \<and> write_end p' = write_end p"
proof (induction bs arbitrary: p n)
  case (Cons b bs)
  then show ?case by (fastforce simp: pipe_put_def split: if_splits prod.splits)
qed simp

section \<open>The pipe invariant\<close>

text \<open>
  Every pipe buffer is well formed, its ends point to open files, and every open pipe file
  is the end of an existing pipe.
\<close>

definition end_of :: "bool \<Rightarrow> helix_pipe \<Rightarrow> nat" where
  "end_of w p = (if w then write_end p else read_end p)"

definition pipe_sys_ok :: "'a kobj_scheme \<Rightarrow> bool" where
  "pipe_sys_ok s \<longleftrightarrow> kobj_ok s
     \<and> (\<forall>a p. pipes s a = Some p \<longrightarrow> pipe_wf p \<and>
          (\<forall>w. end_of w p \<noteq> 0 \<longrightarrow> (\<exists>vf. files s (end_of w p) = Some vf \<and> f_ops vf = PipeOps
             \<and> fs_priv vf = a \<and> writable vf = w)))
     \<and> (\<forall>f vf. files s f = Some vf \<and> f_ops vf = PipeOps \<longrightarrow>
          (\<exists>p. pipes s (fs_priv vf) = Some p \<and> end_of (writable vf) p = f))"

lemma pipe_sys_okD:
  assumes "pipe_sys_ok s" "files s f = Some vf" "f_ops vf = PipeOps"
  obtains p where "pipes s (fs_priv vf) = Some p" "pipe_wf p" "end_of (writable vf) p = f" "fs_priv vf \<noteq> 0"
proof -
  obtain p where p: "pipes s (fs_priv vf) = Some p" "end_of (writable vf) p = f"
    using assms unfolding pipe_sys_ok_def by blast
  then have "fs_priv vf \<in> objects s" by (auto simp: objects_def)
  then have "fs_priv vf \<noteq> 0" using kobj_ok_nonzero assms(1) by (metis less_irrefl pipe_sys_ok_def)
  then show ?thesis using that p assms(1) unfolding pipe_sys_ok_def by blast
qed

lemma pipe_sys_ok_end:
  assumes "pipe_sys_ok s" "pipes s a = Some p" "end_of w p \<noteq> 0"
  shows "\<exists>vf. files s (end_of w p) = Some vf"
  using assms unfolding pipe_sys_ok_def by blast

text \<open>Replacing a pipe by one with the same ends and a well-formed buffer.\<close>

lemma pipe_sys_ok_replace:
  assumes "pipe_sys_ok s" "pipes s a = Some p" "pipe_wf p'" "read_end p' = read_end p" "write_end p' = write_end p"
  shows "pipe_sys_ok (s\<lparr>pipes := (pipes s)(a \<mapsto> p')\<rparr>)"
proof -
  have k: "kobj_ok (s\<lparr>pipes := (pipes s)(a \<mapsto> p')\<rparr>)"
    using kobj_ok_update(2) [of s a p'] assms(1,2) by (auto simp: pipe_sys_ok_def)
  have e: "end_of w p' = end_of w p" for w using assms(4,5) by (simp add: end_of_def)
  show ?thesis
    using assms(1-3) k e unfolding pipe_sys_ok_def by (auto split: if_splits) (metis option.inject)
qed

section \<open>Correctness of pipes\<close>

lemma pipe_read_result:
  assumes "pipe_sys_ok s" "files s f = Some vf" "f_ops vf = PipeOps" "pipes s (fs_priv vf) = Some p"
  shows "\<exists>r dst s' p'. pipe_read f len s = Some (r, dst, s') \<and> pipe_sys_ok s'
     \<and> pipes s' (fs_priv vf) = Some p' \<and> dst = take len (pipe_bytes p) \<and> pipe_bytes p' = drop len (pipe_bytes p)
     \<and> r = (if dst = [] \<and> write_end p \<noteq> 0 \<and> refcount (the (files s (write_end p))) > 0 then - EAGAIN else 0)"
proof -
  obtain q where "pipes s (fs_priv vf) = Some q" "pipe_wf q" "fs_priv vf \<noteq> 0"
    by (rule pipe_sys_okD [OF assms(1-3)])
  then have p: "pipe_wf p" "fs_priv vf \<noteq> 0" using assms(4) by auto
  obtain dst p' where r: "pipe_read_loop len p = (dst, p')" by (rule prod.exhaust)
  note B = pipe_read_loop_bytes [OF p(1) r] and E = pipe_read_loop_ends [OF r]
  define s' where "s' = s\<lparr>pipes := (pipes s)(fs_priv vf \<mapsto> p')\<rparr>"
  have ok: "pipe_sys_ok s'" unfolding s'_def
    by (rule pipe_sys_ok_replace [OF assms(1,4)]) (use B(2) E in simp_all)
  have w: "\<exists>wf. files s' (write_end p') = Some wf" if "write_end p' \<noteq> 0"
    using pipe_sys_ok_end [OF assms(1,4), of True] that E by (auto simp: end_of_def s'_def)
  have "pipe_read f len s = Some (if dst = [] \<and> write_end p \<noteq> 0 \<and> refcount (the (files s (write_end p))) > 0
      then - EAGAIN else 0, dst, s')"
    using p(2) w E assms(2,4) by (auto simp: pipe_read_def r s'_def Let_def split: option.split)
  with ok B(1,3) show ?thesis by (auto simp: s'_def)
qed

text \<open>
  C28. \<open>pipe_read\<close> returns the oldest buffered bytes, at most as many as asked for, and
  leaves the rest in order. Only when it moves nothing does the state of the writer matter:
  while the writing end is referenced the caller is told to retry, otherwise it sees end of
  file. The operation never fails on a wild pointer and keeps the pipe invariant.
\<close>

theorem pipe_read_spec:
  assumes "pipe_sys_ok s" "files s f = Some vf" "f_ops vf = PipeOps" "pipes s (fs_priv vf) = Some p"
  shows "\<exists>r dst s' p'. pipe_read f len s = Some (r, dst, s') \<and> pipe_sys_ok s'
     \<and> pipes s' (fs_priv vf) = Some p' \<and> dst = take len (pipe_bytes p) \<and> pipe_bytes p' = drop len (pipe_bytes p)
     \<and> r = (if dst = [] \<and> write_end p \<noteq> 0 \<and> refcount (the (files s (write_end p))) > 0 then - EAGAIN else 0)"
  using pipe_read_result [OF assms] .

lemma pipe_write_result:
  assumes "pipe_sys_ok s" "files s f = Some vf" "f_ops vf = PipeOps" "pipes s (fs_priv vf) = Some p"
  shows "\<exists>r n s' p'. pipe_write f src s = Some (r, n, s') \<and> pipe_sys_ok s' \<and> pipes s' (fs_priv vf) = Some p' \<and>
    (if read_end p \<noteq> 0 \<and> refcount (the (files s (read_end p))) \<le> 0 then r = 0 \<and> n = 0 \<and> s' = s
     else n = min (length src) (PIPE_BUF_SIZE - length (pipe_bytes p))
        \<and> pipe_bytes p' = pipe_bytes p @ take n src \<and> r = (if n = 0 then - EAGAIN else 0))"
proof -
  obtain q where "pipes s (fs_priv vf) = Some q" "pipe_wf q" "fs_priv vf \<noteq> 0"
    by (rule pipe_sys_okD [OF assms(1-3)])
  then have p: "pipe_wf p" "fs_priv vf \<noteq> 0" using assms(4) by auto
  have w: "\<exists>rf. files s (read_end p) = Some rf" if "read_end p \<noteq> 0"
    using pipe_sys_ok_end [OF assms(1,4), of False] that by (auto simp: end_of_def)
  obtain n p' where r: "pipe_write_loop src p = (n, p')" by (rule prod.exhaust)
  note B = pipe_write_loop_bytes [OF p(1) r] and E = pipe_write_loop_ends [OF r]
  have ok: "pipe_sys_ok (s\<lparr>pipes := (pipes s)(fs_priv vf \<mapsto> p')\<rparr>)"
    by (rule pipe_sys_ok_replace [OF assms(1,4)]) (use B(2) E in simp_all)
  show ?thesis
  proof (cases "read_end p \<noteq> 0 \<and> refcount (the (files s (read_end p))) \<le> 0")
    case True
    then have "pipe_write f src s = Some (0, 0, s)" using w p(2) assms(2,4) by (auto simp: pipe_write_def)
    with True assms(1,4) show ?thesis by auto
  next
    case False
    then have "pipe_write f src s = Some (if n = 0 then - EAGAIN else 0, n, s\<lparr>pipes := (pipes s)(fs_priv vf \<mapsto> p')\<rparr>)"
      using w p(2) assms(2,4) by (auto simp: pipe_write_def r)
    with ok B(1,3) False show ?thesis by auto
  qed
qed


text \<open>
  A sequence of writes and reads at the two ends, with the bytes the writes accepted and
  the bytes the reads returned.
\<close>

datatype pipe_op = PWrite bytes | PRead nat

fun pipe_run :: "pipe_op list \<Rightarrow> helix_pipe \<Rightarrow> bytes \<times> bytes \<times> helix_pipe" where
  "pipe_run [] p = ([], [], p)"
| "pipe_run (PWrite bs # ops) p =
     (let (n, p1) = pipe_write_loop bs p; (ins, outs, p2) = pipe_run ops p1 in (take n bs @ ins, outs, p2))"
| "pipe_run (PRead len # ops) p =
     (let (dst, p1) = pipe_read_loop len p; (ins, outs, p2) = pipe_run ops p1 in (ins, dst @ outs, p2))"

text \<open>
  C17. Whatever the interleaving of reads and writes of any sizes, the bytes read followed
  by the bytes still buffered are the bytes buffered at the start followed by the bytes
  accepted: nothing is lost, duplicated or reordered.
\<close>

theorem pipe_fifo:
  assumes "pipe_wf p" "pipe_run ops p = (ins, outs, p')"
  shows "pipe_wf p' \<and> outs @ pipe_bytes p' = pipe_bytes p @ ins"
  using assms
proof (induction ops p arbitrary: ins outs rule: pipe_run.induct)
  case (2 bs ops p)
  obtain n p1 where w: "pipe_write_loop bs p = (n, p1)" by (rule prod.exhaust)
  obtain i o1 p2 where r: "pipe_run ops p1 = (i, o1, p2)" by (rule prod_cases3)
  note B = pipe_write_loop_bytes [OF "2.prems"(1) w]
  have "pipe_wf p2 \<and> o1 @ pipe_bytes p2 = pipe_bytes p1 @ i"
    using "2.IH" [OF w [symmetric] refl B(2)] r "2.prems"(2) w by auto
  with B(3) w r "2.prems"(2) show ?case by auto
next
  case (3 len ops p)
  obtain dst p1 where w: "pipe_read_loop len p = (dst, p1)" by (rule prod.exhaust)
  obtain i o1 p2 where r: "pipe_run ops p1 = (i, o1, p2)" by (rule prod_cases3)
  note B = pipe_read_loop_bytes [OF "3.prems"(1) w]
  have "pipe_wf p2 \<and> o1 @ pipe_bytes p2 = pipe_bytes p1 @ i"
    using "3.IH" [OF w [symmetric] refl B(2)] r "3.prems"(2) w by auto
  with B(1,3) w r "3.prems"(2) show ?case by (auto simp del: take_append drop_append)
qed simp

lemma drop_end_end: "end_of w' (drop_end f w p) = (if w' = w \<and> end_of w p = f then 0 else end_of w' p)"
  by (auto simp: drop_end_def end_of_def)

lemma pipe_sys_ok_close:
  assumes ok: "pipe_sys_ok s" and f: "files s f = Some vf" "f_ops vf = PipeOps"
    and p: "pipes s (fs_priv vf) = Some p" "end_of (writable vf) p = f" "p' = drop_end f (writable vf) p"
    and k: "kobj_ok s'"
    and P: "pipes s' = (pipes s)(fs_priv vf := (if end_of (\<not> writable vf) p = 0 then None else Some p'))"
      "files s' = (files s)(f := None)"
  shows "pipe_sys_ok s'"
  unfolding pipe_sys_ok_def
proof (intro conjI allI impI k)
  fix a q assume q: "pipes s' a = Some q"
  have pw: "pipe_wf p" using ok p(1) unfolding pipe_sys_ok_def by blast
  show "pipe_wf q"
    using q pw ok by (auto simp: P p(3) drop_end_def pipe_wf_def pipe_sys_ok_def split: if_splits)
  fix w assume w: "end_of w q \<noteq> 0"
  obtain q0 where q0: "pipes s a = Some q0" "end_of w q = end_of w q0" "a = fs_priv vf \<longrightarrow> w \<noteq> writable vf"
    using q w p by (auto simp: P drop_end_end split: if_splits)
  then obtain vg where vg: "files s (end_of w q) = Some vg" "f_ops vg = PipeOps" "fs_priv vg = a" "writable vg = w"
    using ok w unfolding pipe_sys_ok_def by metis
  with f(1) q0(3) have "end_of w q \<noteq> f" by auto
  with vg show "\<exists>vf. files s' (end_of w q) = Some vf \<and> f_ops vf = PipeOps \<and> fs_priv vf = a \<and> writable vf = w"
    by (simp add: P)
next
  fix g vg assume "files s' g = Some vg \<and> f_ops vg = PipeOps"
  then have g: "files s g = Some vg" "f_ops vg = PipeOps" "g \<noteq> f" by (auto simp: P split: if_splits)
  obtain q where q: "pipes s (fs_priv vg) = Some q" "end_of (writable vg) q = g"
    using ok g(1,2) unfolding pipe_sys_ok_def by blast
  have "g \<noteq> 0" using kobj_ok_nonzero [of s g] ok g(1) by (auto simp: pipe_sys_ok_def objects_def)
  show "\<exists>p. pipes s' (fs_priv vg) = Some p \<and> end_of (writable vg) p = g"
  proof (cases "fs_priv vg = fs_priv vf")
    case True
    then have "q = p" using p(1) q(1) by simp
    moreover from this have "writable vg \<noteq> writable vf" using p(2) q(2) g(3) by (cases "writable vg"; cases "writable vf") auto
    ultimately have "end_of (\<not> writable vf) p = g" "writable vg = (\<not> writable vf)" using q(2) by auto
    with True \<open>g \<noteq> 0\<close> show ?thesis by (simp add: P p(3) drop_end_end)
  next
    case False
    then show ?thesis using q by (simp add: P)
  qed
qed

lemma pipe_close_result:
  assumes "pipe_sys_ok s" "files s f = Some vf" "f_ops vf = PipeOps" "pipes s (fs_priv vf) = Some p"
  shows "\<exists>s'. pipe_close f s = Some (0, s') \<and> pipe_sys_ok s' \<and> files s' = (files s)(f := None)
     \<and> (if end_of (\<not> writable vf) p = 0 then pipes s' = (pipes s)(fs_priv vf := None)
        else pipes s' = (pipes s)(fs_priv vf \<mapsto> drop_end f (writable vf) p))
     \<and> rfiles s' = rfiles s \<and> bufs s' = bufs s"
proof -
  obtain q where q: "pipes s (fs_priv vf) = Some q" "end_of (writable vf) q = f" "fs_priv vf \<noteq> 0"
    by (rule pipe_sys_okD [OF assms(1-3)])
  then have e: "end_of (writable vf) p = f" using assms(4) by simp
  have ok: "kobj_ok s" using assms(1) by (simp add: pipe_sys_ok_def)
  have sep: "dom (files s) \<inter> dom (pipes s) = {}" using ok by (simp add: kobj_ok_def separate_def)
  define p' where "p' = drop_end f (writable vf) p"
  define s1 where "s1 = s\<lparr>pipes := (pipes s)(fs_priv vf \<mapsto> p')\<rparr>"
  define s2 where "s2 = (if read_end p' = 0 \<and> write_end p' = 0 then free_pipe (fs_priv vf) s1 else s1)"
  have last: "(read_end p' = 0 \<and> write_end p' = 0) = (end_of (\<not> writable vf) p = 0)"
    using e by (cases "writable vf") (auto simp: p'_def drop_end_def end_of_def)
  have r: "pipe_close f s = Some (0, free_file f s2)"
    using q(3) assms(2,4) by (simp add: pipe_close_def p'_def s1_def s2_def Let_def)
  have k1: "kobj_ok s1" unfolding s1_def by (rule kobj_ok_update(2) [OF ok]) (use assms(4) in auto)
  then have "kobj_ok s2" using free_obj_ok(2) [OF k1, of "fs_priv vf"] by (simp add: s2_def s1_def domIff)
  moreover have "f \<in> dom (files s2)" using assms(2) by (auto simp: s2_def s1_def free_pipe_def)
  ultimately have "kobj_ok (free_file f s2)" by (rule free_obj_ok(1))
  moreover have P: "pipes (free_file f s2) = (pipes s)(fs_priv vf := (if end_of (\<not> writable vf) p = 0 then None else Some p'))"
    "files (free_file f s2) = (files s)(f := None)"
    using last by (auto simp: free_file_def s2_def s1_def free_pipe_def)
  ultimately have "pipe_sys_ok (free_file f s2)" by (rule pipe_sys_ok_close [OF assms e p'_def])
  then show ?thesis using r P last
    by (auto simp: free_file_def s2_def s1_def free_pipe_def p'_def)
qed

text \<open>
  C30. Closing an end of a pipe releases its file, and the pipe itself exactly when the
  other end has been closed before; no other object is touched, and the pipe invariant,
  with that of the objects on the heap, is kept.
\<close>

theorem pipe_close_releases:
  assumes "pipe_sys_ok s" "files s f = Some vf" "f_ops vf = PipeOps" "pipes s (fs_priv vf) = Some p"
  shows "\<exists>s'. pipe_close f s = Some (0, s') \<and> pipe_sys_ok s' \<and> files s' = (files s)(f := None)
     \<and> (if end_of (\<not> writable vf) p = 0 then pipes s' = (pipes s)(fs_priv vf := None)
        else pipes s' = (pipes s)(fs_priv vf \<mapsto> drop_end f (writable vf) p))
     \<and> rfiles s' = rfiles s \<and> bufs s' = bufs s"
  using pipe_close_result [OF assms] .

text \<open>
  Once the reading end has been closed, its entry in the pipe is NULL and the test for
  a missing reader no longer applies: a writer on a full buffer is told to retry, for ever,
  where the description of the interface promises a short write.
\<close>

theorem pipe_write_after_reader_closed:
  assumes "pipe_sys_ok s" "files s f = Some vf" "f_ops vf = PipeOps" "pipes s (fs_priv vf) = Some p"
    "read_end p = 0" "p_count p = PIPE_BUF_SIZE"
  shows "\<exists>s'. pipe_write f src s = Some (- EAGAIN, 0, s') \<and> s' = s"
proof -
  obtain q where q: "pipes s (fs_priv vf) = Some q" "fs_priv vf \<noteq> 0"
    by (rule pipe_sys_okD [OF assms(1-3)])
  have "pipe_write_loop src p = (0, p)" using assms(6) by (cases src) auto
  moreover have "(pipes s)(fs_priv vf \<mapsto> p) = pipes s" using assms(4) by (simp add: fun_upd_idem)
  ultimately show ?thesis using assms(2,4,5) q(2) by (simp add: pipe_write_def)
qed

section \<open>Creating pipes\<close>

lemma helix_pipe_create_ok:
  assumes "pipe_sys_ok s" "helix_pipe_create s = (a, s')"
  shows "a \<noteq> 0 \<Longrightarrow> pipe_sys_ok s' \<and> (\<exists>p. pipes s' a = Some p \<and> pipe_bytes p = [] \<and> read_end p = 0 \<and> write_end p = 0)"
    and "a = 0 \<Longrightarrow> s' = s"
proof -
  obtain q h where k: "kmalloc 4128 (kheap s) = (q, h)" by (rule prod.exhaust)
  have ok: "kobj_ok s" using assms(1) by (simp add: pipe_sys_ok_def)
  show "s' = s" if "a = 0"
    using that assms(2) kh.alloc_fail [OF kobj_ok_heap [OF ok], of 4128 h] k
    by (auto simp: helix_pipe_create_def split: if_splits)
  assume "a \<noteq> 0"
  define p where "p = \<lparr>p_buf = map (garbage s) [a..<a + 4096], p_head = 0, p_tail = 0, p_count = 0, read_end = 0, write_end = 0\<rparr>"
  have s': "q = a" "s' = s\<lparr>kheap := h, pipes := (pipes s)(a \<mapsto> p)\<rparr>"
    using assms(2) k \<open>a \<noteq> 0\<close> by (auto simp: helix_pipe_create_def p_def split: if_splits)
  note K = kmalloc_ok [OF ok _ k [unfolded s'(1)]] and F = kmalloc_fresh [OF ok _ k [unfolded s'(1)] \<open>a \<noteq> 0\<close>]
  have "kobj_ok ((s\<lparr>kheap := h\<rparr>)\<lparr>pipes := (pipes s)(a \<mapsto> p)\<rparr>)"
    using kobj_ok_add(2) [of "s\<lparr>kheap := h\<rparr>" a p] K F \<open>a \<noteq> 0\<close> by (simp add: objects_def)
  then have k': "kobj_ok s'" by (simp add: s')
  have new: "pipes s a = None" using F by (auto simp: objects_def)
  have "pipe_sys_ok s'"
    unfolding pipe_sys_ok_def
  proof (intro conjI k' allI impI)
    show "\<exists>pa. pipes s' (fs_priv vf) = Some pa \<and> end_of (writable vf) pa = f"
      if "files s' f = Some vf \<and> f_ops vf = PipeOps" for f vf
      using that assms(1) new unfolding pipe_sys_ok_def by (auto simp: s') (metis option.distinct(1))
    show "pipe_wf q" if "pipes s' b = Some q" for b q
      using that assms(1) by (auto simp: s' pipe_sys_ok_def p_def pipe_wf_def split: if_splits)
    show "\<exists>vf. files s' (end_of w q) = Some vf \<and> f_ops vf = PipeOps \<and> fs_priv vf = b \<and> writable vf = w"
      if b: "pipes s' b = Some q" "end_of w q \<noteq> 0" for b q w
    proof (cases "b = a")
      case True
      then have "q = p" using b(1) by (simp add: s')
      then have "end_of w q = 0" by (simp add: p_def end_of_def)
      then show ?thesis using b(2) by simp
    next
      case False
      then have "pipes s b = Some q" using b(1) by (simp add: s')
      then show ?thesis using assms(1) b(2) unfolding pipe_sys_ok_def by (simp add: s')
    qed
  qed
  then show "pipe_sys_ok s' \<and> (\<exists>p. pipes s' a = Some p \<and> pipe_bytes p = [] \<and> read_end p = 0 \<and> write_end p = 0)"
    by (simp add: s'(2)) (simp add: p_def pipe_bytes_def)
qed

section \<open>Witnesses\<close>

text \<open>A pool with a pipe holding two bytes and its two ends.\<close>

definition pool :: heap where
  "pool = \<lparr>g_heap_base = 4096, g_heap_size = 4304, g_free = 8368,
     hmem = (\<lambda>_. 0)(4096 := 4144, 8240 := 64, 8304 := 64, 8368 := 32)\<rparr>"

lemma pool_rep:
  "heap_rep pool [8368] [(4096, 4144, False), (8240, 64, False), (8304, 64, False), (8368, 32, True)]"
  by (auto simp: heap_rep_def heap_ok_def pool_def free_addrs_def)

lemma pool_live: "heap_inv pool" "(4104, 4136) \<in> live pool" "(8248, 56) \<in> live pool" "(8312, 56) \<in> live pool"
  using pool_rep unfolding live_rep [OF pool_rep] by (auto simp: heap_inv_def)

definition demo_pipe :: "nat \<Rightarrow> nat \<Rightarrow> helix_pipe" where
  "demo_pipe r n = \<lparr>p_buf = 7 # 8 # replicate 4094 0, p_head = n mod 4096, p_tail = 0, p_count = n,
     read_end = r, write_end = 8312\<rparr>"

definition demo_pipes :: kobj where
  "demo_pipes = \<lparr>kheap = pool,
     files = [8248 \<mapsto> zero_file\<lparr>f_ops := PipeOps, fs_priv := 4104, refcount := 1\<rparr>,
              8312 \<mapsto> zero_file\<lparr>f_ops := PipeOps, fs_priv := 4104, writable := True, refcount := 1\<rparr>],
     pipes = [4104 \<mapsto> demo_pipe 8248 2], rfiles = Map.empty, bufs = Map.empty, garbage = (\<lambda>_. 0)\<rparr>"

definition closed_reader :: kobj where
  "closed_reader = demo_pipes\<lparr>files := (files demo_pipes)(8248 := None), pipes := [4104 \<mapsto> demo_pipe 0 4096]\<rparr>"

lemma demo_pipe_facts:
  "n \<le> 4096 \<Longrightarrow> pipe_wf (demo_pipe r n)" "pipe_bytes (demo_pipe r 2) = [7, 8]"
  "end_of w (demo_pipe r n) = (if w then 8312 else r)"
  by (simp_all add: demo_pipe_def pipe_wf_def end_of_def pipe_bytes_def ring_list_def numeral_2_eq_2)

lemma demo_pipes_ok: "pipe_sys_ok demo_pipes" "pipe_sys_ok closed_reader"
proof -
  have h: "holds 4104 4128 s" "holds 8248 56 s" "holds 8312 56 s" if "kheap s = pool" for s :: kobj
    unfolding holds_def that using pool_live by (auto intro: exI [of _ 4136] exI [of _ 56])
  have "kobj_ok demo_pipes"
    using h [of demo_pipes] pool_live(1)
    by (auto simp: kobj_ok_def needs_def separate_def) (auto simp: demo_pipes_def split: if_splits)
  then show "pipe_sys_ok demo_pipes"
    by (auto simp: pipe_sys_ok_def demo_pipe_facts) (auto simp: demo_pipes_def zero_file_def demo_pipe_facts split: if_splits)
  have "kobj_ok closed_reader"
    using h [of closed_reader] pool_live(1)
    by (auto simp: kobj_ok_def needs_def separate_def) (auto simp: closed_reader_def demo_pipes_def split: if_splits)
  then show "pipe_sys_ok closed_reader"
    by (auto simp: pipe_sys_ok_def demo_pipe_facts)
      (auto simp: closed_reader_def demo_pipes_def zero_file_def demo_pipe_facts split: if_splits)
qed

lemma demo_files:
  "files demo_pipes 8248 = Some (zero_file\<lparr>f_ops := PipeOps, fs_priv := 4104, refcount := 1\<rparr>)"
  "files demo_pipes 8312 = Some (zero_file\<lparr>f_ops := PipeOps, fs_priv := 4104, writable := True, refcount := 1\<rparr>)"
  "files closed_reader 8312 = Some (zero_file\<lparr>f_ops := PipeOps, fs_priv := 4104, writable := True, refcount := 1\<rparr>)"
  "pipes demo_pipes 4104 = Some (demo_pipe 8248 2)" "pipes closed_reader 4104 = Some (demo_pipe 0 4096)"
  by (simp_all add: demo_pipes_def closed_reader_def)

theorem pipe_read_spec_witness: "\<exists>s'. pipe_read 8248 1 demo_pipes = Some (0, [7], s') \<and> pipe_sys_ok s'"
  using pipe_read_spec [OF demo_pipes_ok(1) demo_files(1), of "demo_pipe 8248 2" 1]
  by (auto simp: demo_files demo_pipe_facts)


theorem pipe_fifo_witness:
  "\<exists>ins outs p'. pipe_run [PRead 1, PWrite [9], PRead 5] (demo_pipe 8248 2) = (ins, outs, p')
     \<and> outs @ pipe_bytes p' = [7, 8] @ ins"
proof -
  obtain ins outs p' where r: "pipe_run [PRead 1, PWrite [9], PRead 5] (demo_pipe 8248 2) = (ins, outs, p')"
    by (rule prod_cases3)
  show ?thesis using pipe_fifo [OF demo_pipe_facts(1) r] r demo_pipe_facts(2) by simp
qed

theorem pipe_close_releases_witness:
  "\<exists>s'. pipe_close 8312 closed_reader = Some (0, s') \<and> pipes s' 4104 = None \<and> files s' 8312 = None"
  using pipe_close_releases [OF demo_pipes_ok(2) demo_files(3), of "demo_pipe 0 4096"]
  by (auto simp: demo_files demo_pipe_facts)

theorem pipe_write_after_reader_closed_witness:
  "pipe_write 8312 [1, 2, 3] closed_reader = Some (- EAGAIN, 0, closed_reader)"
  using pipe_write_after_reader_closed [OF demo_pipes_ok(2) demo_files(3), of "demo_pipe 0 4096" "[1, 2, 3]"]
  by (simp add: demo_files) (simp add: demo_pipe_def)

end
