(* ===== verification/Hw.thy ===== *)
theory Hw
  imports Helix_Prelude
begin

text \<open>
  Port-level hardware: the interrupt controller \<open>src/kernel/arch/x86_64/pic.c\<close>, the interval
  timer \<open>pit.c\<close>, and \<open>timer.c\<close> with the tick counter, the heartbeat, the preemption flag and
  the real-time clock.

  The machine behind the ports is not part of the sources. It is a parameter: a value of
  the record \<open>device\<close>, which says what a port read returns and how reads and writes change
  the machine's state. Every definition that touches a port takes it as its first argument,
  and what a theorem relies on of the hardware is a hypothesis about it.
\<close>

section \<open>Ports\<close>

record 'd device =
  d_in :: "nat \<Rightarrow> 'd \<Rightarrow> u8 \<times> 'd"
  d_out :: "nat \<Rightarrow> u8 \<Rightarrow> 'd \<Rightarrow> 'd"

definition outb :: "'d device \<Rightarrow> nat \<Rightarrow> u8 \<Rightarrow> 'd \<Rightarrow> 'd" where
  "outb dev port val d = d_out dev port val d"

definition inb :: "'d device \<Rightarrow> nat \<Rightarrow> 'd \<Rightarrow> u8 \<times> 'd" where
  "inb dev port d = d_in dev port d"

abbreviation (input) PIC1_CMD :: nat where "PIC1_CMD \<equiv> 0x20"
abbreviation (input) PIC1_DATA :: nat where "PIC1_DATA \<equiv> 0x21"
abbreviation (input) PIC2_CMD :: nat where "PIC2_CMD \<equiv> 0xA0"
abbreviation (input) PIC2_DATA :: nat where "PIC2_DATA \<equiv> 0xA1"

section \<open>Interrupt controller\<close>

definition pic_mask_all :: "'d device \<Rightarrow> 'd \<Rightarrow> 'd" where
  "pic_mask_all dev d = outb dev PIC2_DATA 0xFF (outb dev PIC1_DATA 0xFF d)"

definition pic_init :: "'d device \<Rightarrow> 'd \<Rightarrow> 'd" where
  "pic_init dev d =
     (let d = snd (inb dev PIC1_DATA d);
          d = snd (inb dev PIC2_DATA d);
          d = outb dev PIC1_CMD (0x10 OR 0x01) d;
          d = outb dev PIC2_CMD (0x10 OR 0x01) d;
          d = outb dev PIC1_DATA 0x20 d;
          d = outb dev PIC2_DATA (0x20 + 8) d;
          d = outb dev PIC1_DATA (push_bit 2 1) d;
          d = outb dev PIC2_DATA 2 d;
          d = outb dev PIC1_DATA 0x01 d;
          d = outb dev PIC2_DATA 0x01 d
      in pic_mask_all dev d)"

definition pic_eoi :: "'d device \<Rightarrow> nat \<Rightarrow> 'd \<Rightarrow> 'd" where
  "pic_eoi dev irq d =
     (let d = (if irq \<ge> 8 then outb dev PIC2_CMD 0x20 d else d) in outb dev PIC1_CMD 0x20 d)"

text \<open>The \<open>bit\<close> of the two functions, \<open>1u << n\<close>.\<close>

definition irq_bit :: "nat \<Rightarrow> u8" where
  "irq_bit n = push_bit n 1"

definition pic_mask :: "'d device \<Rightarrow> nat \<Rightarrow> 'd \<Rightarrow> 'd" where
  "pic_mask dev irq d =
     (if irq < 8 then let (m, d) = inb dev PIC1_DATA d in outb dev PIC1_DATA (m OR irq_bit irq) d
      else if irq < 16 then let (m, d) = inb dev PIC2_DATA d in outb dev PIC2_DATA (m OR irq_bit (irq - 8)) d
      else d)"

definition pic_unmask :: "'d device \<Rightarrow> nat \<Rightarrow> 'd \<Rightarrow> 'd" where
  "pic_unmask dev irq d =
     (if irq < 8 then let (m, d) = inb dev PIC1_DATA d in outb dev PIC1_DATA (m AND NOT (irq_bit irq)) d
      else if irq < 16 then
        let (m1, d) = inb dev PIC1_DATA d;
            d = outb dev PIC1_DATA (m1 AND NOT (irq_bit 2)) d;
            (m, d) = inb dev PIC2_DATA d
        in outb dev PIC2_DATA (m AND NOT (irq_bit (irq - 8))) d
      else d)"

section \<open>Interval timer\<close>

abbreviation (input) PIT_HZ :: nat where "PIT_HZ \<equiv> 100"

definition pit_div :: "nat \<Rightarrow> nat" where
  "pit_div hz =
     (let hz = (if hz = 0 then PIT_HZ else hz);
          hz = (if hz > 10000 then 10000 else hz);
          dv = 1193182 div hz
      in if dv = 0 then 1 else dv)"

definition pit_init :: "'d device \<Rightarrow> nat \<Rightarrow> 'd \<Rightarrow> 'd" where
  "pit_init dev hz d =
     (let d = outb dev 0x43 0x36 d;
          d = outb dev 0x40 (of_nat (pit_div hz mod 256)) d
      in outb dev 0x40 (of_nat (pit_div hz div 256 mod 256)) d)"

section \<open>Ticks\<close>

record timer =
  g_ticks :: nat
  g_heartbeat_due :: nat
  g_hz :: nat
  g_preempt_pending :: int

definition timer_init :: "'d device \<Rightarrow> 'd \<Rightarrow> timer \<times> 'd" where
  "timer_init dev d =
     (\<lparr>g_ticks = 0, g_heartbeat_due = 0, g_hz = PIT_HZ, g_preempt_pending = 0\<rparr>,
      pic_unmask dev 0 (pit_init dev PIT_HZ d))"

definition timer_on_irq :: "timer \<Rightarrow> timer" where
  "timer_on_irq t =
     (let t1 = t\<lparr>g_ticks := inc64 (g_ticks t)\<rparr>;
          t2 = (if g_hz t1 \<noteq> 0 \<and> g_ticks t1 mod g_hz t1 = 0 then t1\<lparr>g_heartbeat_due := g_ticks t1\<rparr> else t1)
      in t2\<lparr>g_preempt_pending := g_preempt_pending t2 + 1\<rparr>)"

definition timer_ticks :: "timer \<Rightarrow> nat" where
  "timer_ticks t = g_ticks t"

definition timer_hz :: "timer \<Rightarrow> nat" where
  "timer_hz t = g_hz t"

definition timer_poll_heartbeat :: "timer \<Rightarrow> int \<times> timer" where
  "timer_poll_heartbeat t =
     (let due = g_heartbeat_due t in if due = 0 then (0, t) else (1, t\<lparr>g_heartbeat_due := 0\<rparr>))"

definition timer_preempt_pending :: "timer \<Rightarrow> int \<times> timer" where
  "timer_preempt_pending t = (g_preempt_pending t, t\<lparr>g_preempt_pending := 0\<rparr>)"

definition timer_preempt_threshold :: int where
  "timer_preempt_threshold = 8"

section \<open>Real-time clock\<close>

definition cmos_read :: "'d device \<Rightarrow> u8 \<Rightarrow> 'd \<Rightarrow> u8 \<times> 'd" where
  "cmos_read dev reg d = inb dev 0x71 (outb dev 0x70 reg d)"

definition bcd_to_bin :: "u8 \<Rightarrow> u8" where
  "bcd_to_bin bcd = (drop_bit 4 bcd AND 0x0F) * 10 + (bcd AND 0x0F)"

text \<open>All arithmetic is on \<open>u64\<close>; \<open>y >= 0\<close> always holds there.\<close>

definition days_from_civil_year_month :: "nat \<Rightarrow> nat \<Rightarrow> nat" where
  "days_from_civil_year_month y m =
     (let y = wrap64 (y + 18446744073709551616 - (if m \<le> 2 then 1 else 0));
          era = y div 400;
          yoe = y - era * 400;
          doy = wrap64 (153 * wrap64 (m + (if m > 2 then 18446744073709551613 else 9)) + 2) div 5;
          doe = yoe * 365 + yoe div 4 - yoe div 100 + doy
      in wrap64 (wrap64 (era * 146097 + doe) + 18446744073709551616 - 719468))"

partial_function (option) rtc_wait :: "'d device \<Rightarrow> 'd \<Rightarrow> 'd option" where
  "rtc_wait dev d =
     (let (a, d') = cmos_read dev 0x0A d in if a AND 0x80 \<noteq> 0 then rtc_wait dev d' else Some d')"

text \<open>The hour register after decoding, with the 12-hour conversion of the source.\<close>

definition rtc_hour :: "u8 \<Rightarrow> u8 \<Rightarrow> u8" where
  "rtc_hour status_b hour =
     (let hour = (if status_b AND 0x04 = 0 then bcd_to_bin hour else hour)
      in if status_b AND 0x02 = 0 \<and> hour AND 0x80 \<noteq> 0
         then let hour = (hour AND 0x7F) + 12 in if hour \<ge> 24 then hour - 24 else hour
         else hour)"

definition rtc_field :: "u8 \<Rightarrow> u8 \<Rightarrow> nat" where
  "rtc_field status_b v = unat (if status_b AND 0x04 = 0 then bcd_to_bin v else v)"

definition rtc_seconds :: "u8 \<Rightarrow> u8 \<Rightarrow> u8 \<Rightarrow> u8 \<Rightarrow> u8 \<Rightarrow> u8 \<Rightarrow> u8 \<Rightarrow> nat" where
  "rtc_seconds sec mins hour day mon yr status_b =
     (let year = 2000 + rtc_field status_b yr;
          days = wrap64 (days_from_civil_year_month year (rtc_field status_b mon)
                         + wrap64 (rtc_field status_b day + 18446744073709551615))
      in wrap64 (days * 86400 + unat (rtc_hour status_b hour) * 3600 + rtc_field status_b mins * 60
                 + rtc_field status_b sec))"

definition rtc_unix_seconds :: "'d device \<Rightarrow> 'd \<Rightarrow> (nat \<times> 'd) option" where
  "rtc_unix_seconds dev d =
     (case rtc_wait dev d of
        None \<Rightarrow> None
      | Some d \<Rightarrow>
          let (sec, d) = cmos_read dev 0x00 d;
              (mins, d) = cmos_read dev 0x02 d;
              (hour, d) = cmos_read dev 0x04 d;
              (day, d) = cmos_read dev 0x07 d;
              (mon, d) = cmos_read dev 0x08 d;
              (yr, d) = cmos_read dev 0x09 d;
              (status_b, d) = cmos_read dev 0x0B d
          in Some (rtc_seconds sec mins hour day mon yr status_b, d))"

section \<open>The calendar\<close>

text \<open>Days before the first of a month, counted year by year and month by month from 1970.\<close>

definition leap :: "nat \<Rightarrow> bool" where
  "leap y \<longleftrightarrow> 4 dvd y \<and> (\<not> 100 dvd y \<or> 400 dvd y)"

definition month_days :: "nat \<Rightarrow> nat \<Rightarrow> nat" where
  "month_days y m = (if m = 2 then if leap y then 29 else 28 else if m \<in> {4, 6, 9, 11} then 30 else 31)"

definition days_before :: "nat \<Rightarrow> nat \<Rightarrow> nat" where
  "days_before y m =
     sum_list (map (\<lambda>k. if leap k then 366 else 365) [1970..<y]) + sum_list (map (month_days y) [1..<m])"

text \<open>The number of leap years up to a year.\<close>

definition leaps :: "nat \<Rightarrow> nat" where
  "leaps y = y div 4 - y div 100 + y div 400"

lemma leaps_Suc: "leaps (Suc y) = leaps y + (if leap (Suc y) then 1 else 0)"
proof -
  have h: "y div 100 \<le> y div 4" by (rule div_le_mono2) simp_all
  have d: "(Suc y) div n = y div n + (if n dvd Suc y then 1 else 0)" for n
    by (simp add: div_Suc dvd_eq_mod_eq_0)
  have i: "100 dvd Suc y \<longrightarrow> 4 dvd Suc y" "400 dvd Suc y \<longrightarrow> 100 dvd Suc y"
  proof -
    have "(4 :: nat) dvd 100" "(100 :: nat) dvd 400" by simp_all
    from dvd_trans [OF this(1), of "Suc y"] dvd_trans [OF this(2), of "Suc y"]
    show "100 dvd Suc y \<longrightarrow> 4 dvd Suc y" "400 dvd Suc y \<longrightarrow> 100 dvd Suc y" by iprover+
  qed
  have "p + (if a then 1 else 0) - (q + (if b then 1 else 0)) + (r + (if c then 1 else 0))
      = p - q + r + (if a \<and> (\<not> b \<or> c) then 1 else 0)"
    if "q \<le> p" "b \<longrightarrow> a" "c \<longrightarrow> b" for p q r :: nat and a b c
    using that by (cases a; cases b; cases c) simp_all
  from this [OF h i] show ?thesis unfolding leaps_def d leap_def .
qed

lemma leaps_mono: "x \<le> y \<Longrightarrow> leaps x \<le> leaps y"
  by (induction y rule: dec_induct) (simp_all add: leaps_Suc)

lemma leaps_le: "leaps y \<le> y"
  by (induction y) (simp_all add: leaps_Suc, simp add: leaps_def)

lemma year_days: "1970 \<le> y \<Longrightarrow>
  sum_list (map (\<lambda>k. if leap k then 366 else 365) [1970..<y]) + 477 = 365 * (y - 1970) + leaps (y - 1)"
proof (induction y rule: dec_induct)
  case base
  then show ?case by (simp add: leaps_def)
next
  case (step n)
  then obtain k where k: "n = Suc k" by (cases n) auto
  show ?case using step leaps_Suc [of k] by (simp add: k Suc_diff_le)
qed

lemma era_days:
  "y div 400 * 146097 + ((y - y div 400 * 400) * 365 + (y - y div 400 * 400) div 4 - (y - y div 400 * 400) div 100)
   = 365 * y + leaps y" for y :: nat
proof -
  define q r where "q = y div 400" and "r = y mod 400"
  have y: "y = 400 * q + r" "r < 400" by (simp_all add: q_def r_def)
  have "y div 4 = 100 * q + r div 4" "y div 100 = 4 * q + r div 100" using y(1) by simp_all
  moreover have "r div 100 \<le> r div 4" by (rule div_le_mono2) simp_all
  moreover have "y - q * 400 = r" using y by simp
  ultimately show ?thesis unfolding leaps_def q_def [symmetric] using y by (simp add: mult.commute)
qed

text \<open>The day of a month's first in a year that starts in March.\<close>

definition march_day :: "nat \<Rightarrow> nat" where
  "march_day k = (153 * k + 2) div 5"

lemma wrap64_sub: "b \<le> a \<Longrightarrow> a < 18446744073709551616 \<Longrightarrow> wrap64 (a + 18446744073709551616 - b) = a - b"
proof -
  assume a: "b \<le> a" "a < 18446744073709551616"
  then have "a + 18446744073709551616 - b = (a - b) + 18446744073709551616" by simp
  then show ?thesis using a by (simp only: wrap64_def mod_add_self2 mod_less less_imp_diff_less)
qed

lemma civil_eq:
  assumes "1970 \<le> y" "y < 1000000" "1 \<le> m" "m \<le> 12"
  shows "days_from_civil_year_month y m + 719468 =
     (if m \<le> 2 then 365 * (y - 1) + leaps (y - 1) + march_day (m + 9) else 365 * y + leaps y + march_day (m - 3))"
proof -
  define z where "z = (if m \<le> 2 then y - 1 else y)"
  define k where "k = (if m \<le> 2 then m + 9 else m - 3)"
  have z: "wrap64 (y + 18446744073709551616 - (if m \<le> 2 then 1 else 0)) = z" "1969 \<le> z" "z < 1000000"
    using assms wrap64_sub [of 1 y] wrap64_sub [of 0 y] by (auto simp: z_def)
  have k: "wrap64 (m + (if m > 2 then 18446744073709551613 else 9)) = k" "k \<le> 11"
    using assms wrap64_sub [of 3 m] by (auto simp: k_def add.commute)
  have d: "wrap64 (153 * k + 2) div 5 = march_day k" "march_day k \<le> 400"
    using k(2) by (simp_all add: march_day_def)
  have l: "477 \<le> leaps z" using leaps_mono [OF z(2)] by (simp add: leaps_def)
  have "306 \<le> march_day k \<or> 1970 \<le> z" using assms by (auto simp: z_def k_def march_day_def)
  then have e: "365 * z + leaps z + march_day k < 18446744073709551616" "719468 \<le> 365 * z + leaps z + march_day k"
    using z(2,3) d(2) l leaps_le [of z] by linarith+
  have "days_from_civil_year_month y m = wrap64 (wrap64 (365 * z + leaps z + march_day k) + 18446744073709551616 - 719468)"
    unfolding days_from_civil_year_month_def Let_def z(1) k(1) d(1) era_days [of z, symmetric] by (simp only: add.assoc)
  also have "\<dots> = 365 * z + leaps z + march_day k - 719468"
    by (simp only: wrap64_id [OF e(1)] wrap64_sub [OF e(2,1)])
  finally show ?thesis using e(2) by (simp add: z_def k_def)
qed

lemma month_cases:
  assumes "\<forall>m \<in> set [1..<13]. P m" "1 \<le> m" "m \<le> 12"
  shows "P m"
  using assms by auto

definition month_start :: "nat list" where
  "month_start = [1, 32, 60, 91, 121, 152, 182, 213, 244, 274, 305, 335]"

lemma month_sum:
  assumes "1 \<le> m" "m \<le> 12"
  shows "sum_list (map (month_days y) [1..<m]) + 1 = month_start ! (m - 1) + (if m > 2 \<and> leap y then 1 else 0)"
  by (rule month_cases [OF _ assms]) (simp add: upt_conv_Cons month_days_def month_start_def)

lemma march_days:
  assumes "1 \<le> m" "m \<le> 12"
  shows "(if m \<le> 2 then march_day (m + 9) + 1 = 306 + month_start ! (m - 1) else march_day (m - 3) + 60 = month_start ! (m - 1))"
  by (rule month_cases [OF _ assms]) (simp add: upt_conv_Cons march_day_def month_start_def)

text \<open>
  C37. The closed formula the clock uses for the days from 1970 to the first of a month
  agrees with counting years of 365 or 366 days and months of 28 to 31 days, for every
  month from 1970 on; no 64-bit intermediate result wraps.
\<close>

theorem civil_days_correct:
  assumes "1970 \<le> y" "y < 1000000" "1 \<le> m" "m \<le> 12"
  shows "days_from_civil_year_month y m = days_before y m"
proof -
  note C = civil_eq [OF assms] and M = month_sum [OF assms(3,4), of y] and Y = year_days [OF assms(1)]
    and D = march_days [OF assms(3,4)]
  obtain z where z: "y = Suc z" using assms(1) by (cases y) auto
  show ?thesis
    using C M Y D assms(1) leaps_Suc [of z] by (cases "m \<le> 2") (simp_all add: days_before_def z)
qed

theorem civil_days_correct_witness: "days_from_civil_year_month 2026 11 = days_before 2026 11"
  by (rule civil_days_correct) simp_all

text \<open>
  In the clock's 12-hour BCD format the afternoon flag is bit 7 of the hour register.
  The register is decoded before the flag is tested, which removes the bit: one o'clock in
  the afternoon is read as hour 81. In the binary 12-hour format the flag is seen, and noon
  is read as midnight.
\<close>

theorem rtc_afternoon_misread: "rtc_hour 0x00 0x81 = 81 \<and> rtc_hour 0x04 0x81 = 13 \<and> rtc_hour 0x04 0x8C = 0"
  by (simp add: rtc_hour_def bcd_to_bin_def)

section \<open>Interrupt masks\<close>

text \<open>
  What the masks rely on of the controller: a data port reads back the mask last written to
  it, and an access to one of the two data ports does not change what the other reads.
\<close>

definition mask_port :: "'d device \<Rightarrow> nat \<Rightarrow> 'd \<Rightarrow> u8" where
  "mask_port dev p d = fst (d_in dev p d)"

definition pic_latches :: "'d device \<Rightarrow> bool" where
  "pic_latches dev \<longleftrightarrow>
     (\<forall>p \<in> {PIC1_DATA, PIC2_DATA}. \<forall>q \<in> {PIC1_DATA, PIC2_DATA}. \<forall>d v.
        mask_port dev q (snd (d_in dev p d)) = mask_port dev q d
        \<and> mask_port dev q (d_out dev p v d) = (if q = p then v else mask_port dev q d))"

definition masked :: "'d device \<Rightarrow> nat \<Rightarrow> 'd \<Rightarrow> bool" where
  "masked dev irq d = bit (mask_port dev (if irq < 8 then PIC1_DATA else PIC2_DATA) d) (irq mod 8)"

lemma bit_clear: "i < 8 \<Longrightarrow> j < 8 \<Longrightarrow> bit (m AND NOT (irq_bit i)) j \<longleftrightarrow> bit m j \<and> j \<noteq> i" for m :: u8
  by (auto simp: irq_bit_def bit_simps)

lemma bit_set: "i < 8 \<Longrightarrow> j < 8 \<Longrightarrow> bit (m OR irq_bit i) j \<longleftrightarrow> bit m j \<or> j = i" for m :: u8
  by (auto simp: irq_bit_def bit_simps)

lemma pic_latchesD:
  assumes "pic_latches dev"
  shows "mask_port dev 0x21 (snd (d_in dev 0x21 d)) = mask_port dev 0x21 d"
    "mask_port dev 0xA1 (snd (d_in dev 0x21 d)) = mask_port dev 0xA1 d"
    "mask_port dev 0x21 (snd (d_in dev 0xA1 d)) = mask_port dev 0x21 d"
    "mask_port dev 0xA1 (snd (d_in dev 0xA1 d)) = mask_port dev 0xA1 d"
    "mask_port dev 0x21 (d_out dev 0x21 v d) = v"
    "mask_port dev 0xA1 (d_out dev 0x21 v d) = mask_port dev 0xA1 d"
    "mask_port dev 0x21 (d_out dev 0xA1 v d) = mask_port dev 0x21 d"
    "mask_port dev 0xA1 (d_out dev 0xA1 v d) = v"
  using assms by (simp_all add: pic_latches_def)

text \<open>
  On a controller whose data ports hold their masks, \<open>pic_unmask\<close> lets exactly the
  given interrupt through, and for one of the second controller also the cascade line 2;
  \<open>pic_mask\<close> blocks exactly the given one; every other mask stays.
\<close>

theorem pic_masks_exact:
  assumes "pic_latches dev" "irq < 16" "j < 16"
  shows "masked dev j (pic_unmask dev irq d) = (masked dev j d \<and> j \<noteq> irq \<and> \<not> (irq \<ge> 8 \<and> j = 2))
    \<and> masked dev j (pic_mask dev irq d) = (masked dev j d \<or> j = irq)"
proof (rule conjI)
  note L = pic_latchesD [OF assms(1)]
  have j8: "j mod 8 < 8" "8 \<le> j \<Longrightarrow> j mod 8 = j - 8" "j < 8 \<Longrightarrow> j mod 8 = j" using assms(3) by (auto simp: mod_if [of j])
  show "masked dev j (pic_unmask dev irq d) = (masked dev j d \<and> j \<noteq> irq \<and> \<not> (irq \<ge> 8 \<and> j = 2))"
    unfolding pic_unmask_def masked_def inb_def outb_def case_prod_beta Let_def mask_port_def [symmetric]
    using assms(2,3) j8 by (auto simp: L bit_clear)
  show "masked dev j (pic_mask dev irq d) = (masked dev j d \<or> j = irq)"
    unfolding pic_mask_def masked_def inb_def outb_def case_prod_beta Let_def mask_port_def [symmetric]
    using assms(2,3) j8 by (auto simp: L bit_set)
qed

text \<open>Ports as memory: a controller that satisfies the hypothesis.\<close>

definition ram_device :: "(nat \<Rightarrow> u8) device" where
  "ram_device = \<lparr>d_in = (\<lambda>p d. (d p, d)), d_out = (\<lambda>p v d. d(p := v))\<rparr>"

theorem pic_masks_exact_witness:
  "pic_latches ram_device \<and> \<not> masked ram_device 12 (pic_unmask ram_device 12 (\<lambda>_. 0xFF))
   \<and> \<not> masked ram_device 2 (pic_unmask ram_device 12 (\<lambda>_. 0xFF)) \<and> masked ram_device 1 (pic_unmask ram_device 12 (\<lambda>_. 0xFF))"
proof -
  have l: "pic_latches ram_device" by (simp add: pic_latches_def mask_port_def ram_device_def)
  have "masked ram_device 1 (\<lambda>_. 0xFF)" by (simp add: masked_def mask_port_def ram_device_def)
  then show ?thesis using l pic_masks_exact [OF l, of 12 _ "\<lambda>_. 0xFF"] by simp
qed

end
