(* ===== verification/Ps2.thy ===== *)
theory Ps2
  imports Hw Ring
begin

text \<open>
  The PS/2 keyboard and mouse driver \<open>src/kernel/drv/ps2.c\<close> and the interrupt dispatch
  \<open>src/kernel/arch/x86_64/irq.c\<close>. Both input rings keep one slot empty, so that equal
  indices mean empty; they are instances of \<open>bounded_fifo\<close> with capacities 255 and 63. The
  keyboard handler is related to \<open>key_step\<close>, a decoder without buffers.
\<close>

section \<open>State\<close>

abbreviation (input) KB_BUF_SIZE :: nat where "KB_BUF_SIZE \<equiv> 256"
abbreviation (input) MS_BUF_SIZE :: nat where "MS_BUF_SIZE \<equiv> 64"
abbreviation (input) PS2_DATA_PORT :: nat where "PS2_DATA_PORT \<equiv> 0x60"
abbreviation (input) PS2_STATUS_PORT :: nat where "PS2_STATUS_PORT \<equiv> 0x64"

record mouse_event =
  ev_dx :: int
  ev_dy :: int
  ev_buttons :: u8

record ps2 =
  g_kb_buf :: bytes
  g_kb_head :: nat
  g_kb_tail :: nat
  g_shift :: bool
  g_ms_buf :: "mouse_event list"
  g_ms_head :: nat
  g_ms_tail :: nat
  g_ms_packet :: bytes
  g_ms_byte_idx :: nat
  g_e0_pending :: bool

section \<open>Keyboard\<close>

definition g_sc1 :: bytes where
  "g_sc1 =
    [0, 27, 49, 50, 51, 52, 53, 54, 55, 56, 57, 48, 45, 61, 8, 9,
     113, 119, 101, 114, 116, 121, 117, 105, 111, 112, 91, 93, 13, 0, 0, 0,
     97, 115, 100, 102, 103, 104, 106, 107, 108, 59, 39, 96, 0, 92, 0, 0,
     122, 120, 99, 118, 98, 110, 109, 44, 46, 47, 0, 42, 0, 32, 0, 0,
     0, 0, 0, 0, 0, 0, 0, 0, 0, 0, 0, 0, 0, 0, 0, 0,
     0, 0, 0, 0, 0, 0, 0, 0, 0, 0, 0, 0, 0, 0, 0, 0,
     0, 0, 45, 0, 53, 0, 43, 0, 0, 0, 0, 0, 0, 0, 0, 0,
     0, 0, 0, 0, 0, 0, 0, 0, 0, 0, 0, 0, 0, 0, 0, 0]"

definition g_sc1_sh :: bytes where
  "g_sc1_sh =
    [0, 27, 33, 64, 35, 36, 37, 94, 38, 42, 40, 41, 95, 43, 8, 9,
     81, 87, 69, 82, 84, 89, 85, 73, 79, 80, 123, 125, 13, 0, 0, 0,
     65, 83, 68, 70, 71, 72, 74, 75, 76, 58, 34, 126, 0, 124, 0, 0,
     90, 88, 67, 86, 66, 78, 77, 60, 62, 63, 0, 42, 0, 32, 0, 0,
     0, 0, 0, 0, 0, 0, 0, 0, 0, 0, 0, 0, 0, 0, 0, 0,
     0, 0, 0, 0, 0, 0, 0, 0, 0, 0, 0, 0, 0, 0, 0, 0,
     0, 0, 45, 0, 53, 0, 43, 0, 0, 0, 0, 0, 0, 0, 0, 0,
     0, 0, 0, 0, 0, 0, 0, 0, 0, 0, 0, 0, 0, 0, 0, 0]"

definition kb_put :: "u8 \<Rightarrow> ps2 \<Rightarrow> ps2" where
  "kb_put c s =
     (let next = (g_kb_head s + 1) mod KB_BUF_SIZE
      in if next \<noteq> g_kb_tail s then s\<lparr>g_kb_buf := (g_kb_buf s)[g_kb_head s := c], g_kb_head := next\<rparr> else s)"

text \<open>The final character of an arrow key's escape sequence, 0 for other keys.\<close>

definition arrow_final :: "u8 \<Rightarrow> u8" where
  "arrow_final sc =
     (if sc = 0x48 then 65 else if sc = 0x50 then 66 else if sc = 0x4B then 68 else if sc = 0x4D then 67 else 0)"

definition ps2_scancode :: "u8 \<Rightarrow> ps2 \<Rightarrow> ps2" where
  "ps2_scancode sc s =
     (if sc = 0x2A \<or> sc = 0x36 then s\<lparr>g_shift := True\<rparr>
      else if sc = 0xAA \<or> sc = 0xB6 then s\<lparr>g_shift := False\<rparr>
      else if sc = 0xE0 then s\<lparr>g_e0_pending := True\<rparr>
      else if g_e0_pending s then
        let s1 = s\<lparr>g_e0_pending := False\<rparr>; final = arrow_final sc
        in if final \<noteq> 0 then kb_put final (kb_put 91 (kb_put 0x1B s1)) else s1
      else if sc AND 0x80 \<noteq> 0 \<or> sc \<ge> 128 then s
      else let c = (if g_shift s then g_sc1_sh ! unat sc else g_sc1 ! unat sc)
           in if c \<noteq> 0 then kb_put c s else s)"

definition ps2_handler :: "'d device \<Rightarrow> ps2 \<Rightarrow> 'd \<Rightarrow> ps2 \<times> 'd" where
  "ps2_handler dev s d = (let (sc, d') = inb dev PS2_DATA_PORT d in (ps2_scancode sc s, d'))"

text \<open>The body of the read loop, and the loop.\<close>

definition kb_get :: "ps2 \<Rightarrow> (u8 \<times> ps2) option" where
  "kb_get s =
     (if g_kb_tail s \<noteq> g_kb_head s
      then Some (g_kb_buf s ! g_kb_tail s, s\<lparr>g_kb_tail := (g_kb_tail s + 1) mod KB_BUF_SIZE\<rparr>)
      else None)"

fun ps2_read :: "nat \<Rightarrow> ps2 \<Rightarrow> bytes \<times> ps2" where
  "ps2_read 0 s = ([], s)"
| "ps2_read (Suc n) s =
     (case kb_get s of None \<Rightarrow> ([], s) | Some (c, s1) \<Rightarrow> (let (cs, s2) = ps2_read n s1 in (c # cs, s2)))"

section \<open>Mouse\<close>

definition ms_put :: "mouse_event \<Rightarrow> ps2 \<Rightarrow> ps2" where
  "ms_put ev s =
     (let next = (g_ms_head s + 1) mod MS_BUF_SIZE
      in if next = g_ms_tail s then s else s\<lparr>g_ms_buf := (g_ms_buf s)[g_ms_head s := ev], g_ms_head := next\<rparr>)"

text \<open>The event of a complete packet; the vertical axis is flipped.\<close>

definition packet_event :: "bytes \<Rightarrow> mouse_event" where
  "packet_event p = \<lparr>ev_dx = sint (p ! 1), ev_dy = - sint (p ! 2), ev_buttons = p ! 0 AND 0x07\<rparr>"

definition ps2_mouse_byte :: "u8 \<Rightarrow> ps2 \<Rightarrow> ps2" where
  "ps2_mouse_byte b s =
     (if g_ms_byte_idx s = 0 \<and> (b = 0xAA \<or> b = 0xFA \<or> b = 0xFE \<or> b = 0xFF) then s
      else let s1 = s\<lparr>g_ms_packet := (g_ms_packet s)[g_ms_byte_idx s := b], g_ms_byte_idx := g_ms_byte_idx s + 1\<rparr>
           in if g_ms_byte_idx s1 < 3 then s1
              else let s2 = s1\<lparr>g_ms_byte_idx := 0\<rparr>
                   in if (g_ms_packet s2 ! 0) AND 0xC0 \<noteq> 0 then s2 else ms_put (packet_event (g_ms_packet s2)) s2)"

definition ps2_mouse_handler :: "'d device \<Rightarrow> ps2 \<Rightarrow> 'd \<Rightarrow> ps2 \<times> 'd" where
  "ps2_mouse_handler dev s d = (let (b, d') = inb dev PS2_DATA_PORT d in (ps2_mouse_byte b s, d'))"

definition ms_get :: "ps2 \<Rightarrow> (mouse_event \<times> ps2) option" where
  "ms_get s =
     (if g_ms_tail s \<noteq> g_ms_head s
      then Some (g_ms_buf s ! g_ms_tail s, s\<lparr>g_ms_tail := (g_ms_tail s + 1) mod MS_BUF_SIZE\<rparr>)
      else None)"

fun ps2_mouse_read :: "nat \<Rightarrow> ps2 \<Rightarrow> mouse_event list \<times> ps2" where
  "ps2_mouse_read 0 s = ([], s)"
| "ps2_mouse_read (Suc n) s =
     (case ms_get s of None \<Rightarrow> ([], s) | Some (e, s1) \<Rightarrow> (let (es, s2) = ps2_mouse_read n s1 in (e # es, s2)))"

section \<open>Initialisation\<close>

fun ps2_wait_input :: "nat \<Rightarrow> 'd device \<Rightarrow> 'd \<Rightarrow> 'd" where
  "ps2_wait_input 0 dev d = snd (inb dev PS2_STATUS_PORT d)"
| "ps2_wait_input (Suc spins) dev d =
     (let (v, d') = inb dev PS2_STATUS_PORT d in if v AND 0x02 \<noteq> 0 then ps2_wait_input spins dev d' else d')"

definition ps2_write_cmd :: "'d device \<Rightarrow> u8 \<Rightarrow> 'd \<Rightarrow> 'd" where
  "ps2_write_cmd dev c d = outb dev 0x64 c (ps2_wait_input 100000 dev d)"

definition ps2_write_aux :: "'d device \<Rightarrow> u8 \<Rightarrow> 'd \<Rightarrow> 'd" where
  "ps2_write_aux dev c d = outb dev PS2_DATA_PORT c (ps2_wait_input 100000 dev (ps2_write_cmd dev 0xD4 d))"

definition ps2_flush_data :: "'d device \<Rightarrow> 'd \<Rightarrow> 'd" where
  "ps2_flush_data dev d =
     (let (v, d') = inb dev PS2_STATUS_PORT d in if v AND 0x01 \<noteq> 0 then snd (inb dev PS2_DATA_PORT d') else d')"

partial_function (option) ps2_drain :: "'d device \<Rightarrow> 'd \<Rightarrow> 'd option" where
  "ps2_drain dev d =
     (let (v, d') = inb dev PS2_STATUS_PORT d
      in if v AND 1 \<noteq> 0 then ps2_drain dev (snd (inb dev PS2_DATA_PORT d')) else Some d')"

definition ps2_init :: "'d device \<Rightarrow> ps2 \<Rightarrow> 'd \<Rightarrow> (ps2 \<times> 'd) option" where
  "ps2_init dev s d =
     (let s1 = s\<lparr>g_kb_head := 0, g_kb_tail := 0, g_shift := False, g_e0_pending := False\<rparr>
      in case ps2_drain dev d of
           None \<Rightarrow> None
         | Some d \<Rightarrow>
             let d = pic_unmask dev 1 d;
                 s2 = s1\<lparr>g_ms_head := 0, g_ms_tail := 0, g_ms_byte_idx := 0\<rparr>;
                 d = ps2_flush_data dev (ps2_write_cmd dev 0xA8 d);
                 d = ps2_write_cmd dev 0x47 (ps2_write_cmd dev 0x60 d);
                 d = ps2_flush_data dev (ps2_write_aux dev 0xF4 d);
                 d = ps2_flush_data dev (ps2_write_aux dev 0xF3 d);
                 d = ps2_flush_data dev (ps2_write_aux dev 100 d)
             in Some (s2, pic_unmask dev 12 d))"

section \<open>Interrupt dispatch\<close>

record irq_sys =
  irq_timer :: timer
  irq_ps2 :: ps2
  g_irq_counts :: "nat list"

definition irq_handle :: "'d device \<Rightarrow> nat \<Rightarrow> irq_sys \<Rightarrow> 'd \<Rightarrow> irq_sys \<times> 'd" where
  "irq_handle dev irq s d =
     (let s1 = (if irq < 16 then s\<lparr>g_irq_counts := (g_irq_counts s)[irq := inc64 (g_irq_counts s ! irq)]\<rparr> else s);
          (s2, d2) =
            (if irq = 0 then (s1\<lparr>irq_timer := timer_on_irq (irq_timer s1)\<rparr>, d)
             else if irq = 1 then (let (p, d') = ps2_handler dev (irq_ps2 s1) d in (s1\<lparr>irq_ps2 := p\<rparr>, d'))
             else if irq = 12 then (let (p, d') = ps2_mouse_handler dev (irq_ps2 s1) d in (s1\<lparr>irq_ps2 := p\<rparr>, d'))
             else (s1, d))
      in (s2, pic_eoi dev irq d2))"

definition irq_init :: "'d device \<Rightarrow> irq_sys \<Rightarrow> 'd \<Rightarrow> (irq_sys \<times> 'd) option" where
  "irq_init dev s d =
     (let (t, d1) = timer_init dev (pic_init dev d)
      in map_option (\<lambda>(p, d2). (\<lparr>irq_timer = t, irq_ps2 = p, g_irq_counts = replicate 16 0\<rparr>, d2))
           (ps2_init dev (irq_ps2 s) d1))"

definition irq_count :: "nat \<Rightarrow> irq_sys \<Rightarrow> nat" where
  "irq_count irq s = (if irq \<ge> 16 then 0 else g_irq_counts s ! irq)"

section \<open>The rings are bounded queues\<close>

definition kb_wf :: "ps2 \<Rightarrow> bool" where
  "kb_wf s \<longleftrightarrow> length (g_kb_buf s) = KB_BUF_SIZE \<and> g_kb_head s < KB_BUF_SIZE \<and> g_kb_tail s < KB_BUF_SIZE"

definition kb_chars :: "ps2 \<Rightarrow> bytes" where
  "kb_chars s = ring_list (g_kb_buf s) (g_kb_tail s) (gap KB_BUF_SIZE (g_kb_tail s) (g_kb_head s))"

definition ms_wf :: "ps2 \<Rightarrow> bool" where
  "ms_wf s \<longleftrightarrow> length (g_ms_buf s) = MS_BUF_SIZE \<and> g_ms_head s < MS_BUF_SIZE \<and> g_ms_tail s < MS_BUF_SIZE"

definition ms_events :: "ps2 \<Rightarrow> mouse_event list" where
  "ms_events s = ring_list (g_ms_buf s) (g_ms_tail s) (gap MS_BUF_SIZE (g_ms_tail s) (g_ms_head s))"

text \<open>One argument for both rings: a ring of \<open>L\<close> slots with one kept empty.\<close>

lemma gap_ring_put:
  assumes "length buf = L" "h < L" "t < L" "Suc h mod L \<noteq> t"
  shows "ring_list (buf[h := x]) t (gap L t (Suc h mod L)) = ring_list buf t (gap L t h) @ [x]"
proof -
  have "gap L t h < L" "(t + gap L t h) mod L = h" using gap_facts [OF assms(3,2)] by auto
  then show ?thesis using ring_list_put [of "gap L t h" buf t x] gap_put [OF assms(3,2,4)] assms(1) by simp
qed

lemma gap_ring_get:
  assumes "length buf = L" "h < L" "t < L" "ring_list buf t (gap L t h) = x # xs"
  shows "t \<noteq> h" "buf ! t = x" "ring_list buf (Suc t mod L) (gap L (Suc t mod L) h) = xs"
proof -
  have "length (ring_list buf t (gap L t h)) = length (x # xs)" using assms(4) by simp
  then have n: "gap L t h = Suc (length xs)" by simp
  then show "t \<noteq> h" using gap_facts(3) [OF assms(3,2)] by auto
  show "buf ! t = x" "ring_list buf (Suc t mod L) (gap L (Suc t mod L) h) = xs"
    using assms(4) ring_list_get [of t buf "length xs"] assms(1,3) gap_get [OF assms(3,2) n] by (simp_all add: n)
qed

interpretation kb: bounded_fifo 255 kb_wf kb_chars kb_put kb_get
proof unfold_locales
  fix s x xs
  assume wf: "kb_wf s"
  then have i: "length (g_kb_buf s) = 256" "g_kb_head s < 256" "g_kb_tail s < 256" by (auto simp: kb_wf_def)
  note G = gap_facts [OF i(3,2)]
  show "length (kb_chars s) \<le> 255" using G(1) by (simp add: kb_chars_def)
  show "kb_wf (kb_put x s) \<and> kb_chars (kb_put x s) = kb_chars s @ [x]" if "length (kb_chars s) < 255"
    using that G(4) gap_ring_put [OF i] i by (auto simp: kb_put_def kb_wf_def kb_chars_def)
  show "kb_put x s = s" if "length (kb_chars s) = 255"
    using that G(4) by (simp add: kb_put_def kb_chars_def)
  show "kb_get s = None" if "kb_chars s = []"
    using that G(3) by (auto simp: kb_get_def kb_chars_def ring_list_def)
  show "\<exists>s'. kb_get s = Some (x, s') \<and> kb_wf s' \<and> kb_chars s' = xs" if "kb_chars s = x # xs"
    using that gap_ring_get [OF i, of x xs] i by (auto simp: kb_get_def kb_chars_def kb_wf_def)
qed

interpretation ms: bounded_fifo 63 ms_wf ms_events ms_put ms_get
proof unfold_locales
  fix s x xs
  assume wf: "ms_wf s"
  then have i: "length (g_ms_buf s) = 64" "g_ms_head s < 64" "g_ms_tail s < 64" by (auto simp: ms_wf_def)
  note G = gap_facts [OF i(3,2)]
  show "length (ms_events s) \<le> 63" using G(1) by (simp add: ms_events_def)
  show "ms_wf (ms_put x s) \<and> ms_events (ms_put x s) = ms_events s @ [x]" if "length (ms_events s) < 63"
    using that G(4) gap_ring_put [OF i] i by (auto simp: ms_put_def ms_wf_def ms_events_def)
  show "ms_put x s = s" if "length (ms_events s) = 63"
    using that G(4) by (simp add: ms_put_def ms_events_def)
  show "ms_get s = None" if "ms_events s = []"
    using that G(3) by (auto simp: ms_get_def ms_events_def ring_list_def)
  show "\<exists>s'. ms_get s = Some (x, s') \<and> ms_wf s' \<and> ms_events s' = xs" if "ms_events s = x # xs"
    using that gap_ring_get [OF i, of x xs] i by (auto simp: ms_get_def ms_events_def ms_wf_def)
qed

lemma ps2_read_get: "ps2_read n s = kb.get_upto n s"
  by (induction n arbitrary: s) (auto split: option.split)

lemma ps2_mouse_read_get: "ps2_mouse_read n s = ms.get_upto n s"
  by (induction n arbitrary: s) (auto split: option.split)

section \<open>Decoding keys\<close>

text \<open>The decoder without buffers: shift and prefix state, and the characters of a scancode.\<close>

definition key_step :: "bool \<times> bool \<Rightarrow> u8 \<Rightarrow> (bool \<times> bool) \<times> bytes" where
  "key_step st sc =
     (let (shift, e0) = st in
      if sc \<in> {0x2A, 0x36} then ((True, e0), [])
      else if sc \<in> {0xAA, 0xB6} then ((False, e0), [])
      else if sc = 0xE0 then ((shift, True), [])
      else if e0 then ((shift, False), if arrow_final sc = 0 then [] else [0x1B, 91, arrow_final sc])
      else if sc AND 0x80 \<noteq> 0 \<or> sc \<ge> 128 then (st, [])
      else let c = (if shift then g_sc1_sh else g_sc1) ! unat sc in (st, if c = 0 then [] else [c]))"

fun decode :: "bool \<times> bool \<Rightarrow> bytes \<Rightarrow> bytes" where
  "decode st [] = []"
| "decode st (sc # scs) = (let (st', out) = key_step st sc in out @ decode st' scs)"

lemma kb_put_keys [simp]: "g_shift (kb_put c s) = g_shift s" "g_e0_pending (kb_put c s) = g_e0_pending s"
  by (simp_all add: kb_put_def Let_def)

lemma kb_wf_keys: "kb_wf (s\<lparr>g_shift := a\<rparr>) = kb_wf s" "kb_wf (s\<lparr>g_e0_pending := a\<rparr>) = kb_wf s"
  "kb_chars (s\<lparr>g_shift := a\<rparr>) = kb_chars s" "kb_chars (s\<lparr>g_e0_pending := a\<rparr>) = kb_chars s"
  by (simp_all add: kb_wf_def kb_chars_def)

lemma scancode_step:
  assumes "kb_wf s" "key_step (g_shift s, g_e0_pending s) sc = (st, out)"
  shows "kb_wf (ps2_scancode sc s)"
    "kb_chars (ps2_scancode sc s) = kb_chars s @ take (255 - length (kb_chars s)) out"
    "(g_shift (ps2_scancode sc s), g_e0_pending (ps2_scancode sc s)) = st"
proof -
  have "\<exists>s1. ps2_scancode sc s = kb.put_all out s1 \<and> kb_wf s1 \<and> kb_chars s1 = kb_chars s \<and> (g_shift s1, g_e0_pending s1) = st"
  proof -
    consider (press) "sc = 0x2A \<or> sc = 0x36" | (release) "sc = 0xAA \<or> sc = 0xB6" | (prefix) "sc = 0xE0"
      | (extended) "sc \<notin> {0x2A, 0x36, 0xAA, 0xB6, 0xE0}" "g_e0_pending s"
      | (plain) "sc \<notin> {0x2A, 0x36, 0xAA, 0xB6, 0xE0}" "\<not> g_e0_pending s" by blast
    then show ?thesis
    proof cases
      case press
      with assms show ?thesis
        by (intro exI [of _ "s\<lparr>g_shift := True\<rparr>"]) (auto simp: ps2_scancode_def key_step_def kb_wf_keys)
    next
      case release
      with assms show ?thesis
        by (intro exI [of _ "s\<lparr>g_shift := False\<rparr>"]) (auto simp: ps2_scancode_def key_step_def kb_wf_keys)
    next
      case prefix
      with assms show ?thesis
        by (intro exI [of _ "s\<lparr>g_e0_pending := True\<rparr>"]) (simp add: ps2_scancode_def key_step_def kb_wf_keys)
    next
      case extended
      with assms show ?thesis
        by (intro exI [of _ "s\<lparr>g_e0_pending := False\<rparr>"])
          (auto simp: ps2_scancode_def key_step_def kb_wf_keys Let_def split: if_splits)
    next
      case plain
      with assms show ?thesis
        by (intro exI [of _ s]) (auto simp: ps2_scancode_def key_step_def Let_def split: if_splits)
    qed
  qed
  then obtain s1 where s1: "ps2_scancode sc s = kb.put_all out s1" "kb_wf s1" "kb_chars s1 = kb_chars s"
      "(g_shift s1, g_e0_pending s1) = st" by blast
  have "g_shift (kb.put_all out t) = g_shift t \<and> g_e0_pending (kb.put_all out t) = g_e0_pending t" for t
    by (induction out arbitrary: t) auto
  with s1 kb.put_all_contents [OF s1(2), of out]
  show "kb_wf (ps2_scancode sc s)"
    "kb_chars (ps2_scancode sc s) = kb_chars s @ take (255 - length (kb_chars s)) out"
    "(g_shift (ps2_scancode sc s), g_e0_pending (ps2_scancode sc s)) = st" by auto
qed

lemma take_append_room:
  "xs @ take (c - length xs) a @ take (c - length (xs @ take (c - length xs) a)) b = xs @ take (c - length xs) (a @ b)"
  by (cases "length a \<le> c - length xs") (simp_all add: min_def)

text \<open>
  C31. The keyboard interrupt refines the decoder: after any sequence of scancodes the
  characters waiting are those that waited before followed by the decoded characters, in
  order, of which the ones that no longer fit into the 255 usable slots are dropped; and
  \<open>ps2_read\<close> hands them out oldest first.
\<close>

theorem ps2_keyboard_refines:
  assumes "kb_wf s" "s' = fold ps2_scancode scs s" "ps2_read n s' = (cs, s'')"
  shows "kb_wf s'' \<and> cs @ kb_chars s'' = kb_chars s @
      take (255 - length (kb_chars s)) (decode (g_shift s, g_e0_pending s) scs)
    \<and> cs = take n (cs @ kb_chars s'')"
proof -
  have "kb_wf (fold ps2_scancode scs s) \<and> kb_chars (fold ps2_scancode scs s) =
      kb_chars s @ take (255 - length (kb_chars s)) (decode (g_shift s, g_e0_pending s) scs)"
    using assms(1)
  proof (induction scs arbitrary: s)
    case (Cons sc scs)
    obtain st out where k: "key_step (g_shift s, g_e0_pending s) sc = (st, out)" by (rule prod.exhaust)
    note S = scancode_step [OF Cons.prems k]
    show ?case using Cons.IH [OF S(1)] S(2,3) k take_append_room [of "kb_chars s" 255 out] by simp
  qed simp
  then have K: "kb_wf s'" "kb_chars s' = kb_chars s @
      take (255 - length (kb_chars s)) (decode (g_shift s, g_e0_pending s) scs)" using assms(2) by auto
  have G: "kb_wf s''" "cs = take n (kb_chars s')" "kb_chars s'' = drop n (kb_chars s')"
    using kb.get_upto_contents [OF K(1)] assms(3) by (auto simp: ps2_read_get)
  then have "cs @ kb_chars s'' = kb_chars s'" by simp
  then show ?thesis using G(1,2) K(2) by (simp del: take_append)
qed

text \<open>
  A mouse packet of three bytes whose first byte is not a controller response queues
  exactly one event, with the signed movement of the packet, the vertical axis flipped, and
  the three button bits, unless an overflow flag is set or the ring is full; afterwards the
  handler waits for the first byte of the next packet.
\<close>

theorem mouse_packet_queued:
  assumes "ms_wf s" "g_ms_byte_idx s = 0" "length (g_ms_packet s) = 3" "b0 \<notin> {0xAA, 0xFA, 0xFE, 0xFF}"
    "s' = ps2_mouse_byte b2 (ps2_mouse_byte b1 (ps2_mouse_byte b0 s))"
  shows "ms_wf s' \<and> g_ms_byte_idx s' = 0 \<and> ms_events s' = ms_events s @
    (if b0 AND 0xC0 = 0 \<and> length (ms_events s) < 63
     then [\<lparr>ev_dx = sint b1, ev_dy = - sint b2, ev_buttons = b0 AND 0x07\<rparr>] else [])"
proof -
  define s2 where "s2 = s\<lparr>g_ms_packet := [b0, b1, b2], g_ms_byte_idx := 0\<rparr>"
  obtain p0 p1 p2 where p: "g_ms_packet s = [p0, p1, p2]"
    using assms(3) by (auto simp: numeral_3_eq_3 length_Suc_conv)
  have s': "s' = (if b0 AND 0xC0 \<noteq> 0 then s2 else ms_put (packet_event [b0, b1, b2]) s2)"
    using assms(2,4,5) by (simp add: ps2_mouse_byte_def p s2_def)
  have w: "ms_wf s2" "ms_events s2 = ms_events s" using assms(1) by (simp_all add: s2_def ms_wf_def ms_events_def)
  have i: "g_ms_byte_idx (ms_put e s2) = 0" for e by (simp add: ms_put_def Let_def s2_def)
  show ?thesis
    using s' w i ms.within [OF w(1)] ms.put_room [OF w(1)] ms.put_full [OF w(1)]
    by (auto simp: s2_def packet_event_def not_less le_eq_less_or_eq)
qed

text \<open>
  The keyboard tables are not those of scancode set 1, in which the A key is 0x1E, the
  Z key 0x2C and the space bar 0x39: the two letters produce nothing and the space bar a
  slash. Row two of the table starts two codes late.
\<close>

theorem keyboard_table_shifted:
  "decode (False, False) [0x1E, 0x2C] = [] \<and> decode (False, False) [0x39] = [47]
   \<and> decode (False, False) [0x20] = [97] \<and> decode (False, False) [0x3D] = [32]"
  by (simp add: key_step_def g_sc1_def)

section \<open>Witnesses\<close>

definition demo_ps2 :: ps2 where
  "demo_ps2 = \<lparr>g_kb_buf = replicate 256 0, g_kb_head = 0, g_kb_tail = 0, g_shift = False,
     g_ms_buf = replicate 64 \<lparr>ev_dx = 0, ev_dy = 0, ev_buttons = 0\<rparr>, g_ms_head = 0, g_ms_tail = 0,
     g_ms_packet = [0, 0, 0], g_ms_byte_idx = 0, g_e0_pending = False\<rparr>"

lemma demo_ps2_facts: "kb_wf demo_ps2" "kb_chars demo_ps2 = []" "ms_wf demo_ps2" "ms_events demo_ps2 = []"
  by (simp_all add: demo_ps2_def kb_wf_def kb_chars_def ms_wf_def ms_events_def gap_def)

theorem ps2_keyboard_refines_witness:
  "\<exists>cs s''. ps2_read 2 (fold ps2_scancode [0x10, 0x2A, 0x11, 0xAA] demo_ps2) = (cs, s'') \<and> cs @ kb_chars s'' = [113, 87]"
proof -
  obtain cs s'' where r: "ps2_read 2 (fold ps2_scancode [0x10, 0x2A, 0x11, 0xAA] demo_ps2) = (cs, s'')"
    by (rule prod.exhaust)
  have d: "decode (g_shift demo_ps2, g_e0_pending demo_ps2) [0x10, 0x2A, 0x11, 0xAA] = [113, 87]"
    by (simp add: key_step_def g_sc1_def g_sc1_sh_def demo_ps2_def)
  show ?thesis using ps2_keyboard_refines [OF demo_ps2_facts(1) refl r] r demo_ps2_facts(2) d by simp
qed

theorem mouse_packet_queued_witness:
  "ms_events (ps2_mouse_byte 0xFF (ps2_mouse_byte 5 (ps2_mouse_byte 0x09 demo_ps2)))
     = [\<lparr>ev_dx = 5, ev_dy = 1, ev_buttons = 1\<rparr>]"
  using mouse_packet_queued [OF demo_ps2_facts(3) _ _ _ refl, where ?b0.0 = 9 and ?b1.0 = 5 and ?b2.0 = 255]
    demo_ps2_facts(4)
  by (simp add: demo_ps2_def)

end
