(* ===== verification/Wire.thy ===== *)
theory Wire
  imports Helix_Prelude
begin

text \<open>
  Byte order and checksums of \<open>src/kernel/net/net.c\<close> and \<open>src/kernel/net/tcp.c\<close>. A packet
  is the list of its bytes; a field of a packed header is a word that the little-endian
  processor stores with \<open>le16\<close> and \<open>le32\<close> and loads with \<open>rd16\<close> and \<open>rd32\<close>, and the code
  swaps it with \<open>htons_u16\<close> and \<open>htons_u32\<close>. The one's complement sum is compared with the
  sum of the big-endian 16 bit words on natural numbers (\<open>be_sum\<close>, \<open>ones_sum\<close>).
\<close>

section \<open>Memory image of a header field\<close>

definition le16 :: "u16 \<Rightarrow> bytes" where
  "le16 x = [ucast x, ucast (drop_bit 8 x)]"

definition le32 :: "u32 \<Rightarrow> bytes" where
  "le32 x = [ucast x, ucast (drop_bit 8 x), ucast (drop_bit 16 x), ucast (drop_bit 24 x)]"

definition rd16 :: "bytes \<Rightarrow> nat \<Rightarrow> u16" where
  "rd16 p i = ucast (p ! i) OR push_bit 8 (ucast (p ! Suc i))"

definition rd32 :: "bytes \<Rightarrow> nat \<Rightarrow> u32" where
  "rd32 p i = ucast (p ! i) OR push_bit 8 (ucast (p ! (i + 1)))
      OR push_bit 16 (ucast (p ! (i + 2))) OR push_bit 24 (ucast (p ! (i + 3)))"

definition htons_u16 :: "u16 \<Rightarrow> u16" where
  "htons_u16 x = push_bit 8 x OR drop_bit 8 x"

definition htons_u32 :: "u32 \<Rightarrow> u32" where
  "htons_u32 x = push_bit 24 (x AND 0x000000FF) OR push_bit 8 (x AND 0x0000FF00)
      OR drop_bit 8 (x AND 0x00FF0000) OR drop_bit 24 (x AND 0xFF000000)"

definition ip_to_bytes :: "u32 \<Rightarrow> bytes" where
  "ip_to_bytes ip = [ucast (drop_bit 24 ip), ucast (drop_bit 16 ip), ucast (drop_bit 8 ip), ucast ip]"

definition bytes_to_ip :: "bytes \<Rightarrow> u32" where
  "bytes_to_ip b = push_bit 24 (ucast (b ! 0)) OR push_bit 16 (ucast (b ! 1))
      OR push_bit 8 (ucast (b ! 2)) OR ucast (b ! 3)"

section \<open>Checksums\<close>

fun csum_add :: "u32 \<Rightarrow> bytes \<Rightarrow> u32" where
  "csum_add s (a # b # r) = csum_add (s + (push_bit 8 (ucast a) OR ucast b)) r"
| "csum_add s [a] = s + push_bit 8 (ucast a)"
| "csum_add s [] = s"

function csum_fold :: "u32 \<Rightarrow> u32" where
  "csum_fold s = (if drop_bit 16 s \<noteq> 0 then csum_fold ((s AND 0xFFFF) + drop_bit 16 s) else s)"
  by pat_completeness auto

lemma unat_fold_step: "unat ((s AND 0xFFFF) + drop_bit 16 s) = unat s mod 65536 + unat s div 65536"
  for s :: u32
proof -
  have m: "s AND 0xFFFF = take_bit 16 s"
    by (simp add: take_bit_eq_mask mask_eq_exp_minus_1)
  have l: "unat s < 4294967296" using unsigned_less [of s, where 'a = nat] by simp
  then have "unat s mod 65536 + unat s div 65536 < 4294967296"
    using mod_less_divisor [of 65536 "unat s"] by linarith
  with l show ?thesis
    unfolding m unat_word_ariths
    by (simp only: unsigned_take_bit_eq unsigned_drop_bit_eq) (simp add: take_bit_eq_mod drop_bit_eq_div)
qed

lemma drop_16_eq_0: "drop_bit 16 s = 0 \<longleftrightarrow> unat s < 65536" for s :: u32
proof -
  have "drop_bit 16 s = 0 \<longleftrightarrow> unat (drop_bit 16 s) = 0"
    by (metis unat_0 unsigned_word_eqI)
  also have "\<dots> \<longleftrightarrow> unat s div 65536 = 0"
    using unsigned_less [of s, where 'a = nat]
    by (simp only: unsigned_drop_bit_eq) (simp add: drop_bit_eq_div take_bit_eq_mod)
  finally show ?thesis by (simp add: div_eq_0_iff)
qed

termination csum_fold
proof (relation "measure unat")
  fix s :: u32
  assume "drop_bit 16 s \<noteq> 0"
  then have "65536 \<le> unat s" by (simp add: drop_16_eq_0 not_less)
  then have "unat s mod 65536 + unat s div 65536 < unat s"
    using div_mult_mod_eq [of "unat s" 65536] div_le_mono [of 65536 "unat s" 65536] by linarith
  then show "((s AND 0xFFFF) + drop_bit 16 s, s) \<in> measure unat"
    by (simp only: in_measure unat_fold_step)
qed simp

declare csum_fold.simps [simp del]

definition checksum16 :: "bytes \<Rightarrow> u16" where
  "checksum16 d = ucast (NOT (csum_fold (csum_add 0 d)))"

definition checksum16_raw :: "bytes \<Rightarrow> u16" where
  "checksum16_raw d = ucast (csum_fold (csum_add 0 d))"

section \<open>Byte order\<close>

text \<open>Two words are equal when they agree at each of their bits.\<close>

lemma u8_eqI:
  "list_all (\<lambda>n. bit x n = bit y n)
   [0, 1, 2, 3, 4, 5, 6, 7]
   \<Longrightarrow> x = y" for x y :: u8
proof (rule bit_word_eqI)
  fix n
  assume a: "list_all (\<lambda>n. bit x n = bit y n)
   [0, 1, 2, 3, 4, 5, 6, 7]"
    and n: "n < LENGTH(8)"
  have "[0, 1, 2, 3, 4, 5, 6, 7] = [0..<8]" by code_simp
  with a n show "bit x n \<longleftrightarrow> bit y n" by (simp only: list_all_iff) simp
qed

lemma u16_eqI:
  "list_all (\<lambda>n. bit x n = bit y n)
   [0, 1, 2, 3, 4, 5, 6, 7, 8, 9, 10, 11, 12, 13, 14, 15]
   \<Longrightarrow> x = y" for x y :: u16
proof (rule bit_word_eqI)
  fix n
  assume a: "list_all (\<lambda>n. bit x n = bit y n)
   [0, 1, 2, 3, 4, 5, 6, 7, 8, 9, 10, 11, 12, 13, 14, 15]"
    and n: "n < LENGTH(16)"
  have "[0, 1, 2, 3, 4, 5, 6, 7, 8, 9, 10, 11, 12, 13, 14, 15] = [0..<16]" by code_simp
  with a n show "bit x n \<longleftrightarrow> bit y n" by (simp only: list_all_iff) simp
qed

lemma u32_eqI:
  "list_all (\<lambda>n. bit x n = bit y n)
   [0, 1, 2, 3, 4, 5, 6, 7, 8, 9, 10, 11, 12, 13, 14, 15, 16, 17, 18, 19, 20, 21, 22, 23, 24,
   25, 26, 27, 28, 29, 30, 31]
   \<Longrightarrow> x = y" for x y :: u32
proof (rule bit_word_eqI)
  fix n
  assume a: "list_all (\<lambda>n. bit x n = bit y n)
   [0, 1, 2, 3, 4, 5, 6, 7, 8, 9, 10, 11, 12, 13, 14, 15, 16, 17, 18, 19, 20, 21, 22, 23, 24,
   25, 26, 27, 28, 29, 30, 31]"
    and n: "n < LENGTH(32)"
  have "[0, 1, 2, 3, 4, 5, 6, 7, 8, 9, 10, 11, 12, 13, 14, 15, 16, 17, 18, 19, 20, 21, 22, 23, 24, 25, 26, 27, 28, 29, 30, 31] = [0..<32]" by code_simp
  with a n show "bit x n \<longleftrightarrow> bit y n" by (simp only: list_all_iff) simp
qed

lemma bit_beyond: "32 \<le> n \<Longrightarrow> \<not> bit x n" for x :: u32
  using bit_imp_le_length [of x n] by auto

lemma unat_0_iff: "x = 0 \<longleftrightarrow> unat x = 0" for x :: "'a::len word"
  by (metis unat_0 unsigned_word_eqI)

lemma len_le16 [simp]: "length (le16 x) = 2" by (simp add: le16_def)
lemma len_le32 [simp]: "length (le32 x) = 4" by (simp add: le32_def)
lemma len_ip_to_bytes [simp]: "length (ip_to_bytes x) = 4" by (simp add: ip_to_bytes_def)

lemma htons_u16_twice [simp]: "htons_u16 (htons_u16 x) = x"
  unfolding htons_u16_def by (rule bit_word_eqI) (auto simp: bit_simps)

lemma and_byte_masks:
  "x AND 0x000000FF = take_bit 8 x"
  "x AND 0x0000FF00 = push_bit 8 (take_bit 8 (drop_bit 8 x))"
  "x AND 0x00FF0000 = push_bit 16 (take_bit 8 (drop_bit 16 x))"
  "x AND 0xFF000000 = push_bit 24 (drop_bit 24 x)" for x :: u32
proof -
  have *: "(0x000000FF :: u32) = mask 8" "(0x0000FF00 :: u32) = push_bit 8 (mask 8)"
    "(0x00FF0000 :: u32) = push_bit 16 (mask 8)" "(0xFF000000 :: u32) = push_bit 24 (mask 8)"
    by (simp_all add: mask_eq_exp_minus_1 push_bit_eq_mult)
  show "x AND 0x000000FF = take_bit 8 x"
    "x AND 0x0000FF00 = push_bit 8 (take_bit 8 (drop_bit 8 x))"
    "x AND 0x00FF0000 = push_bit 16 (take_bit 8 (drop_bit 16 x))"
    "x AND 0xFF000000 = push_bit 24 (drop_bit 24 x)"
    unfolding * by (rule bit_word_eqI, auto simp: bit_simps)+
qed

lemma htons_u32_alt:
  "htons_u32 x = push_bit 24 (take_bit 8 x) OR push_bit 16 (take_bit 8 (drop_bit 8 x))
     OR push_bit 8 (take_bit 8 (drop_bit 16 x)) OR drop_bit 24 x"
  unfolding htons_u32_def and_byte_masks
  by (rule u32_eqI) (simp add: bit_simps bit_beyond)

lemma htons_u32_twice [simp]: "htons_u32 (htons_u32 x) = x"
  unfolding htons_u32_alt by (rule u32_eqI) (simp add: bit_simps bit_beyond)

lemma rd16_at [simp]: "i = length a \<Longrightarrow> rd16 (a @ le16 x @ b) i = x"
  by (rule bit_word_eqI) (auto simp: rd16_def le16_def nth_append bit_simps)

lemma rd32_at [simp]: "i = length a \<Longrightarrow> rd32 (a @ le32 x @ b) i = x"
  by (rule u32_eqI) (simp add: rd32_def le32_def nth_append bit_simps bit_beyond)

lemma bytes_to_ip_bytes [simp]: "bytes_to_ip (ip_to_bytes x) = x"
  by (rule u32_eqI) (simp add: bytes_to_ip_def ip_to_bytes_def bit_simps bit_beyond)

lemma le32_htons: "le32 (htons_u32 x) = ip_to_bytes x"
  unfolding le32_def ip_to_bytes_def htons_u32_alt
  by (auto intro!: u8_eqI simp: bit_simps bit_beyond)

section \<open>One's complement sums\<close>

fun be_sum :: "bytes \<Rightarrow> nat" where
  "be_sum (a # b # r) = unat a * 256 + unat b + be_sum r"
| "be_sum [a] = unat a * 256"
| "be_sum [] = 0"

definition ones_sum :: "nat \<Rightarrow> nat" where
  "ones_sum n = (if n = 0 then 0 else (n - 1) mod 65535 + 1)"

lemma unat_u8_less: "unat a < 256" for a :: u8
  using unsigned_less [of a, where 'a = nat] by simp

lemma be_sum_append: "even (length p) \<Longrightarrow> be_sum (p @ q) = be_sum p + be_sum q"
  by (induction p rule: be_sum.induct) auto

lemma be_sum_bound: "be_sum d \<le> 65535 * ((length d + 1) div 2)"
proof (induction d rule: be_sum.induct)
  case (1 a b r)
  then show ?case using unat_u8_less [of a] unat_u8_less [of b] by simp
next
  case (2 a)
  then show ?case using unat_u8_less [of a] by simp
qed simp

lemma unat_word_be: "unat (push_bit 8 (ucast a) OR ucast b :: u32) = unat a * 256 + unat b"
  for a b :: u8
proof -
  have "(push_bit 8 (ucast a) OR ucast b :: u32) = push_bit 8 (ucast a) + ucast b"
    by (rule disjunctive_add [symmetric]) (auto simp: bit_simps dest: bit_imp_le_length)
  moreover have "unat (push_bit 8 (ucast a) + ucast b :: u32) = unat a * 256 + unat b"
    unfolding unat_word_ariths using unat_u8_less [of a] unat_u8_less [of b]
    by (simp only: unsigned_push_bit_eq unsigned_ucast_eq) (simp add: push_bit_eq_mult take_bit_eq_mod)
  ultimately show ?thesis by simp
qed

lemma unat_word_be1: "unat (push_bit 8 (ucast a) :: u32) = unat a * 256" for a :: u8
  using unat_word_be [of a 0] by simp

lemma csum_add_be_sum:
  "unat s + be_sum d < 4294967296 \<Longrightarrow> unat (csum_add s d) = unat s + be_sum d"
proof (induction s d rule: csum_add.induct)
  case (1 s a b r)
  have "unat (s + (push_bit 8 (ucast a) OR ucast b)) = unat s + (unat a * 256 + unat b)"
    using 1(2) unfolding unat_word_ariths unat_word_be by simp
  with 1 show ?case by simp
next
  case (2 s a)
  then show ?case unfolding csum_add.simps unat_word_ariths unat_word_be1 by simp
qed simp

lemma ones_sum_small: "n < 65536 \<Longrightarrow> ones_sum n = n"
  by (cases n) (auto simp: ones_sum_def)

lemma ones_sum_fold: "65536 \<le> n \<Longrightarrow> ones_sum (n mod 65536 + n div 65536) = ones_sum n"
proof -
  assume n: "65536 \<le> n"
  define q r where "q = n div 65536" and "r = n mod 65536"
  have q: "0 < q" and e: "n = 65536 * q + r"
    using n by (simp_all add: q_def r_def div_greater_zero_iff)
  have "n - 1 = (r + q - 1) + 65535 * q" using q e by simp
  then have "(n - 1) mod 65535 = (r + q - 1) mod 65535" by (simp only: mod_mult_self2)
  then show ?thesis using q n by (simp add: ones_sum_def q_def r_def)
qed

lemma csum_fold_ones: "unat (csum_fold s) = ones_sum (unat s)"
proof (induction s rule: csum_fold.induct)
  case (1 s)
  show ?case
  proof (cases "drop_bit 16 s = 0")
    case True
    then show ?thesis
      by (subst csum_fold.simps) (simp add: drop_16_eq_0 ones_sum_small)
  next
    case False
    then have "csum_fold s = csum_fold ((s AND 0xFFFF) + drop_bit 16 s)"
      by (subst csum_fold.simps) simp
    with 1 [OF False] False show ?thesis
      by (simp only: unat_fold_step ones_sum_fold drop_16_eq_0 not_less)
  qed
qed

lemma ones_sum_less: "ones_sum n < 65536"
  using mod_less_divisor [of 65535 "n - 1"] by (simp add: ones_sum_def)

lemma ones_sum_le: "ones_sum n \<le> n"
  using mod_less_eq_dividend [of "n - 1" 65535] by (cases n) (simp_all add: ones_sum_def)

lemma ones_sum_cong: "ones_sum n mod 65535 = n mod 65535"
  by (cases n) (auto simp: ones_sum_def mod_Suc_eq)

lemma ones_sum_max: "ones_sum n = 65535 \<longleftrightarrow> 0 < n \<and> 65535 dvd n"
proof
  assume a: "ones_sum n = 65535"
  then have "65535 dvd n" using ones_sum_cong [of n] by (simp add: dvd_eq_mod_eq_0)
  with a show "0 < n \<and> 65535 dvd n" by (cases n) (auto simp: ones_sum_def)
next
  assume a: "0 < n \<and> 65535 dvd n"
  then have "ones_sum n mod 65535 = 0" by (simp add: ones_sum_cong dvd_eq_mod_eq_0)
  moreover have "0 < ones_sum n" using a by (simp add: ones_sum_def)
  ultimately show "ones_sum n = 65535"
    using ones_sum_less [of n] dvd_imp_le [of 65535 "ones_sum n"]
      by (auto simp: dvd_eq_mod_eq_0 [symmetric] elim!: dvdE)
qed

text \<open>No packet of at most 65535 bytes overflows the 32 bit accumulator.\<close>

lemma csum_sum: "length d \<le> 65535 \<Longrightarrow> unat (csum_fold (csum_add 0 d)) = ones_sum (be_sum d)"
proof -
  assume "length d \<le> 65535"
  then have "be_sum d \<le> 65535 * 32768"
    by (intro order_trans [OF be_sum_bound] mult_le_mono2) simp
  then show ?thesis by (simp add: csum_fold_ones csum_add_be_sum)
qed

lemma checksum16_raw_sum: "length d \<le> 65535 \<Longrightarrow> unat (checksum16_raw d) = ones_sum (be_sum d)"
  using ones_sum_less [of "be_sum d"]
  by (simp add: checksum16_raw_def unsigned_ucast_eq csum_sum take_bit_eq_mod)

lemma unat_not16: "unat (NOT x) = 65535 - unat x" for x :: u16
proof -
  have "NOT x = -1 - x" by (simp add: not_eq_complement)
  moreover have "unat (-1 - x) = unat (-1 :: u16) - unat x" by (rule unat_sub) simp
  ultimately show ?thesis by (simp add: unsigned_minus_1_eq_mask mask_eq_exp_minus_1)
qed

lemma checksum16_not: "checksum16 d = NOT (checksum16_raw d)"
  unfolding checksum16_def checksum16_raw_def by (rule bit_word_eqI) (auto simp: bit_simps)

lemma checksum16_sum: "length d \<le> 65535 \<Longrightarrow> unat (checksum16 d) = 65535 - ones_sum (be_sum d)"
  by (simp add: checksum16_not unat_not16 checksum16_raw_sum)

lemma checksum16_zero:
  "length d \<le> 65535 \<Longrightarrow> checksum16 d = 0 \<longleftrightarrow> 0 < be_sum d \<and> 65535 dvd be_sum d"
proof -
  assume l: "length d \<le> 65535"
  have "checksum16 d = 0 \<longleftrightarrow> unat (checksum16 d) = 0" by (rule unat_0_iff)
  also have "\<dots> \<longleftrightarrow> ones_sum (be_sum d) = 65535"
    using ones_sum_less [of "be_sum d"] by (simp add: checksum16_sum l) arith
  finally show ?thesis by (simp only: ones_sum_max)
qed

text \<open>A stored checksum completes the sum to a positive multiple of 65535.\<close>

lemma be_sum_le16_htons: "be_sum (le16 (htons_u16 c)) = unat c"
proof -
  have "le16 (htons_u16 c) = [ucast (drop_bit 8 c), ucast c]"
    unfolding le16_def htons_u16_def by (auto intro!: bit_word_eqI simp: bit_simps)
  moreover have "unat c div 256 * 256 + unat c mod 256 = unat c" by (rule div_mult_mod_eq)
  moreover have "unat c div 256 < 256"
    using unsigned_less [of c, where 'a = nat] by (simp add: less_mult_imp_div_less)
  ultimately show ?thesis
    using unsigned_less [of c, where 'a = nat]
    by (simp only: be_sum.simps unsigned_ucast_eq unsigned_drop_bit_eq)
      (simp add: take_bit_eq_mod drop_bit_eq_div)
qed

lemma ones_complement_dvd: "65535 dvd n + (65535 - ones_sum n) \<and> 0 < n + (65535 - ones_sum n)"
proof -
  have "n + (65535 - ones_sum n) = 65535 + (n - ones_sum n)"
    using ones_sum_less [of n] ones_sum_le [of n] by arith
  moreover have "65535 dvd n - ones_sum n"
    using ones_sum_le ones_sum_cong by (metis mod_eq_dvd_iff_nat)
  ultimately show ?thesis by (simp add: dvd_add)
qed

lemma be_sum_patch:
  assumes "even (length pre)"
  shows "be_sum (pre @ le16 (htons_u16 c) @ post) = be_sum (pre @ le16 0 @ post) + unat c"
  using assms by (simp add: be_sum_append be_sum_le16_htons) (simp add: le16_def)

lemma checksum16_verifies:
  assumes "even (length pre)" "length pre + 2 + length post \<le> 65535"
  shows "checksum16 (pre @ le16 (htons_u16 (checksum16 (pre @ le16 0 @ post))) @ post) = 0"
proof -
  have l: "length (pre @ le16 0 @ post) \<le> 65535" using assms by simp
  have "be_sum (pre @ le16 (htons_u16 (checksum16 (pre @ le16 0 @ post))) @ post)
     = be_sum (pre @ le16 0 @ post) + (65535 - ones_sum (be_sum (pre @ le16 0 @ post)))"
    using l by (simp only: be_sum_patch [OF assms(1)] checksum16_sum)
  with ones_complement_dvd [of "be_sum (pre @ le16 0 @ post)"] show ?thesis
    using assms by (subst checksum16_zero) simp_all
qed

end
