(* ===== verification/Net.thy ===== *)
theory Net
  imports Wire
begin

text \<open>
  The link and network layers of \<open>src/kernel/net/net.c\<close> and the card selection of
  \<open>src/kernel/net/nic.c\<close>: Ethernet and ARP, the IPv4 sender, ICMP echo, and the UDP
  sender. The static variables of \<open>net.c\<close> are the record \<open>net_state\<close>; it is extended by
  the socket tables of \<open>Udp\<close> and \<open>Tcp\<close>, whose operations send through it. The two cards
  are operations on a state \<open>'n\<close> of the hardware, the parameter \<open>nics\<close> of every
  operation that reaches the wire. \<open>timer_ticks()\<close> is the argument \<open>now\<close>.

  An operation that returns an \<open>int\<close> returns it with the new state. A pointer and a length
  are the list of the bytes they delimit.
\<close>

section \<open>The network cards (nic.c)\<close>

text \<open>
  What a driver offers: \<open>drv_recv\<close> yields the bytes of one frame, none where the driver
  returns 0 or an error.
\<close>

record 'n nic_driver =
  drv_init :: "'n \<Rightarrow> int \<times> 'n"
  drv_ready :: "'n \<Rightarrow> int"
  drv_get_mac :: "'n \<Rightarrow> bytes"
  drv_send :: "bytes \<Rightarrow> 'n \<Rightarrow> int \<times> 'n"
  drv_recv :: "nat \<Rightarrow> 'n \<Rightarrow> bytes \<times> 'n"

record 'n nics =
  e1000 :: "'n nic_driver"
  virtio_net :: "'n nic_driver"

record 'n net_state =
  nic_dev :: 'n
  g_backend :: nat
  g_ready :: bool
  g_mac :: bytes
  g_ip :: u32
  g_gw :: u32
  g_gw_mac :: bytes
  g_gw_mac_valid :: bool
  g_icmp_replies :: u32
  g_icmp_echo_rx :: u32
  g_self_echo_ok :: bool
  g_ip_id :: u16
  g_icmp_seq :: u16
  g_last_arp_tick :: u64
  g_last_ping_tick :: u64
  g_selftest_done :: bool
  g_announced :: bool

type_synonym ('n, 'a) net = "('n, 'a) net_state_scheme"

definition nic_init :: "'n nics \<Rightarrow> ('n, 'a) net \<Rightarrow> int \<times> ('n, 'a) net" where
  "nic_init N s =
    (let (r1, c1) = drv_init (e1000 N) (nic_dev s) in
     if r1 = 0 then (0, s\<lparr>nic_dev := c1, g_backend := 1\<rparr>)
     else
       let (r2, c2) = drv_init (virtio_net N) c1 in
       if r2 = 0 then (0, s\<lparr>nic_dev := c2, g_backend := 2\<rparr>)
       else (-1, s\<lparr>nic_dev := c2, g_backend := 0\<rparr>))"

definition nic_ready :: "'n nics \<Rightarrow> ('n, 'a) net \<Rightarrow> int" where
  "nic_ready N s =
    (if g_backend s = 1 then drv_ready (e1000 N) (nic_dev s)
     else if g_backend s = 2 then drv_ready (virtio_net N) (nic_dev s)
     else 0)"

definition nic_get_mac :: "'n nics \<Rightarrow> ('n, 'a) net \<Rightarrow> bytes" where
  "nic_get_mac N s =
    (if g_backend s = 1 then drv_get_mac (e1000 N) (nic_dev s)
     else if g_backend s = 2 then drv_get_mac (virtio_net N) (nic_dev s)
     else replicate 6 0)"

definition nic_send :: "'n nics \<Rightarrow> bytes \<Rightarrow> ('n, 'a) net \<Rightarrow> int \<times> ('n, 'a) net" where
  "nic_send N frame s =
    (if g_backend s = 1 then
       let (r, c) = drv_send (e1000 N) frame (nic_dev s) in (r, s\<lparr>nic_dev := c\<rparr>)
     else if g_backend s = 2 then
       let (r, c) = drv_send (virtio_net N) frame (nic_dev s) in (r, s\<lparr>nic_dev := c\<rparr>)
     else (-1, s))"

definition nic_recv :: "'n nics \<Rightarrow> nat \<Rightarrow> ('n, 'a) net \<Rightarrow> bytes \<times> ('n, 'a) net" where
  "nic_recv N buflen s =
    (if g_backend s = 1 then
       let (f, c) = drv_recv (e1000 N) buflen (nic_dev s) in (f, s\<lparr>nic_dev := c\<rparr>)
     else if g_backend s = 2 then
       let (f, c) = drv_recv (virtio_net N) buflen (nic_dev s) in (f, s\<lparr>nic_dev := c\<rparr>)
     else ([], s))"

section \<open>Ethernet and ARP\<close>

abbreviation (input) ETH_TYPE_ARP :: u16 where "ETH_TYPE_ARP \<equiv> 0x0806"
abbreviation (input) ETH_TYPE_IP :: u16 where "ETH_TYPE_IP \<equiv> 0x0800"
abbreviation (input) ARP_OP_REQ :: u16 where "ARP_OP_REQ \<equiv> 1"
abbreviation (input) ARP_OP_REP :: u16 where "ARP_OP_REP \<equiv> 2"
abbreviation (input) IP_PROTO_ICMP :: u8 where "IP_PROTO_ICMP \<equiv> 1"
abbreviation (input) IP_PROTO_UDP :: u8 where "IP_PROTO_UDP \<equiv> 17"
abbreviation (input) IP_PROTO_TCP :: u8 where "IP_PROTO_TCP \<equiv> 6"
abbreviation (input) ICMP_ECHO :: u8 where "ICMP_ECHO \<equiv> 8"
abbreviation (input) ICMP_ECHOREPLY :: u8 where "ICMP_ECHOREPLY \<equiv> 0"
abbreviation (input) NET_IP_SELF :: u32 where "NET_IP_SELF \<equiv> 0x0A00020F"
abbreviation (input) NET_IP_GW :: u32 where "NET_IP_GW \<equiv> 0x0A000202"
abbreviation (input) NET_IP_MASK :: u32 where "NET_IP_MASK \<equiv> 0xFFFFFF00"

definition eth_send :: "'n nics \<Rightarrow> bytes \<Rightarrow> u16 \<Rightarrow> bytes \<Rightarrow> ('n, 'a) net \<Rightarrow> int \<times> ('n, 'a) net" where
  "eth_send N dst ethertype payload s =
    (if length payload + 14 > 1518 then (-1, s)
     else nic_send N (dst @ g_mac s @ le16 (htons_u16 ethertype) @ payload) s)"

text \<open>\<open>struct arp_pkt\<close> as \<open>arp_send\<close> fills it; a null \<open>tha\<close> leaves the field zero.\<close>

definition arp_packet :: "u16 \<Rightarrow> bytes \<Rightarrow> u32 \<Rightarrow> bytes option \<Rightarrow> u32 \<Rightarrow> bytes" where
  "arp_packet oper sha spa tha tpa =
    le16 (htons_u16 1) @ le16 (htons_u16 ETH_TYPE_IP) @ [6, 4] @ le16 (htons_u16 oper)
    @ sha @ ip_to_bytes spa @ (case tha of None \<Rightarrow> replicate 6 0 | Some t \<Rightarrow> t) @ ip_to_bytes tpa"

text \<open>Only a request passes a null \<open>tha\<close>.\<close>

definition arp_send :: "'n nics \<Rightarrow> u16 \<Rightarrow> bytes option \<Rightarrow> u32 \<Rightarrow> ('n, 'a) net \<Rightarrow> ('n, 'a) net" where
  "arp_send N oper tha tpa s =
    (let ap = arp_packet oper (g_mac s) (g_ip s) tha tpa;
         dst = (if oper = ARP_OP_REQ then replicate 6 0xFF else the tha)
     in snd (eth_send N dst ETH_TYPE_ARP ap s))"

definition handle_arp :: "'n nics \<Rightarrow> bytes \<Rightarrow> ('n, 'a) net \<Rightarrow> ('n, 'a) net" where
  "handle_arp N pkt s =
    (if length pkt < 28 then s
     else if htons_u16 (rd16 pkt 0) \<noteq> 1 \<or> htons_u16 (rd16 pkt 2) \<noteq> ETH_TYPE_IP then s
     else if pkt ! 4 \<noteq> 6 \<or> pkt ! 5 \<noteq> 4 then s
     else
       let oper = htons_u16 (rd16 pkt 6);
           sha = take 6 (drop 8 pkt);
           spa = bytes_to_ip (take 4 (drop 14 pkt));
           tpa = bytes_to_ip (take 4 (drop 24 pkt));
           s1 = (if spa = g_gw s then s\<lparr>g_gw_mac := sha, g_gw_mac_valid := True\<rparr> else s)
       in if oper = ARP_OP_REQ \<and> tpa = g_ip s1 then arp_send N ARP_OP_REP (Some sha) spa s1
          else if oper = ARP_OP_REP \<and> tpa = g_ip s1 then
            (if spa = g_gw s1 then s1\<lparr>g_gw_mac := sha, g_gw_mac_valid := True\<rparr> else s1)
          else s1)"

section \<open>IPv4 output\<close>

text \<open>\<open>struct ip_hdr\<close> with its checksum; \<open>ck\<close> is the value of the checksum field.\<close>

definition ip_fields :: "u16 \<Rightarrow> u16 \<Rightarrow> u16 \<Rightarrow> u8 \<Rightarrow> u32 \<Rightarrow> u32 \<Rightarrow> bytes" where
  "ip_fields ck tlen ident proto src dst =
    [0x45, 0] @ le16 (htons_u16 tlen) @ le16 (htons_u16 ident) @ le16 0 @ [64, proto]
    @ le16 ck @ le32 (htons_u32 src) @ le32 (htons_u32 dst)"

definition ip_header :: "u16 \<Rightarrow> u16 \<Rightarrow> u8 \<Rightarrow> u32 \<Rightarrow> u32 \<Rightarrow> bytes" where
  "ip_header tlen ident proto src dst =
    ip_fields (htons_u16 (checksum16 (ip_fields 0 tlen ident proto src dst)))
      tlen ident proto src dst"

definition ip_send :: "'n nics \<Rightarrow> u32 \<Rightarrow> u8 \<Rightarrow> bytes \<Rightarrow> ('n, 'a) net \<Rightarrow> int \<times> ('n, 'a) net" where
  "ip_send N dst_ip proto payload s =
    (if 20 + length payload > 1500 then (-1, s)
     else
       let l2_ip = (if dst_ip AND NET_IP_MASK = g_ip s AND NET_IP_MASK then dst_ip else g_gw s) in
       if l2_ip = g_gw s \<and> g_gw_mac_valid s then
         let s1 = s\<lparr>g_ip_id := g_ip_id s + 1\<rparr>;
             ip = ip_header (of_nat (20 + length payload)) (g_ip_id s1) proto (g_ip s1) dst_ip
         in eth_send N (g_gw_mac s) ETH_TYPE_IP (ip @ payload) s1
       else if l2_ip = g_gw s then (-1, arp_send N ARP_OP_REQ None (g_gw s) s)
       else (-1, arp_send N ARP_OP_REQ None l2_ip s))"

section \<open>ICMP\<close>

definition icmp_fields :: "u16 \<Rightarrow> u8 \<Rightarrow> u16 \<Rightarrow> u16 \<Rightarrow> bytes \<Rightarrow> bytes" where
  "icmp_fields ck ty ident sq data = [ty, 0] @ le16 ck @ le16 ident @ le16 sq @ data"

definition icmp_message :: "u8 \<Rightarrow> u16 \<Rightarrow> u16 \<Rightarrow> bytes \<Rightarrow> bytes" where
  "icmp_message ty ident sq data =
    icmp_fields (htons_u16 (checksum16 (icmp_fields 0 ty ident sq data))) ty ident sq data"

text \<open>The bytes of \<open>"HelixPing"\<close>.\<close>

definition helix_ping :: bytes where
  "helix_ping = [0x48, 0x65, 0x6C, 0x69, 0x78, 0x50, 0x69, 0x6E, 0x67]"

definition icmp_send_echo ::
  "'n nics \<Rightarrow> u32 \<Rightarrow> u16 \<Rightarrow> u16 \<Rightarrow> bytes \<Rightarrow> ('n, 'a) net \<Rightarrow> ('n, 'a) net" where
  "icmp_send_echo N dst ident sq data s =
    (let d = take (64 - 8) data;
         payload = (if d \<noteq> [] then d else helix_ping)
     in snd (ip_send N dst IP_PROTO_ICMP
               (icmp_message ICMP_ECHO (htons_u16 ident) (htons_u16 sq) payload) s))"

definition icmp_send_reply ::
  "'n nics \<Rightarrow> u32 \<Rightarrow> u16 \<Rightarrow> u16 \<Rightarrow> bytes \<Rightarrow> ('n, 'a) net \<Rightarrow> ('n, 'a) net" where
  "icmp_send_reply N dst ident sq data s =
    (let (r, s1) = ip_send N dst IP_PROTO_ICMP
                     (icmp_message ICMP_ECHOREPLY ident sq (take (576 - 8) data)) s
     in if r \<ge> 0 then s1\<lparr>g_icmp_echo_rx := g_icmp_echo_rx s1 + 1, g_icmp_replies := g_icmp_replies s1 + 1\<rparr>
        else s1)"

definition handle_icmp :: "'n nics \<Rightarrow> u32 \<Rightarrow> bytes \<Rightarrow> ('n, 'a) net \<Rightarrow> ('n, 'a) net" where
  "handle_icmp N src_ip pkt s =
    (if length pkt < 8 then s
     else if pkt ! 0 = ICMP_ECHO then
       icmp_send_reply N src_ip (rd16 pkt 4) (rd16 pkt 6) (drop 8 pkt) s
     else if pkt ! 0 = ICMP_ECHOREPLY then
       let s1 = s\<lparr>g_icmp_replies := g_icmp_replies s + 1\<rparr>
       in if src_ip = g_gw s1 then s1\<lparr>g_self_echo_ok := True\<rparr> else s1
     else s)"

section \<open>Services for the transport layer\<close>

definition net_ready :: "('n, 'a) net \<Rightarrow> bool" where
  "net_ready s = g_ready s"

definition net_icmp_echo_replies :: "('n, 'a) net \<Rightarrow> u32" where
  "net_icmp_echo_replies s = g_icmp_replies s"

text \<open>The byte reversal written out in \<open>net_local_ip_be\<close>, \<open>net_udp_output\<close> and \<open>tcp_send_segment\<close>.\<close>

definition swap_ip :: "u32 \<Rightarrow> u32" where
  "swap_ip a = push_bit 24 (a AND 0xFF) OR push_bit 16 (drop_bit 8 a AND 0xFF)
      OR push_bit 8 (drop_bit 16 a AND 0xFF) OR drop_bit 24 a"

definition net_local_ip_be :: "('n, 'a) net \<Rightarrow> u32" where
  "net_local_ip_be s = swap_ip (g_ip s)"

definition net_is_local_ip_be :: "u32 \<Rightarrow> ('n, 'a) net \<Rightarrow> bool" where
  "net_is_local_ip_be addr_be s \<longleftrightarrow> addr_be = net_local_ip_be s \<or> addr_be = 0"

definition udp_datagram :: "u16 \<Rightarrow> u16 \<Rightarrow> bytes \<Rightarrow> bytes" where
  "udp_datagram sport_be dport_be data =
    le16 sport_be @ le16 dport_be @ le16 (htons_u16 (of_nat (8 + length data))) @ le16 0 @ data"

definition net_udp_output ::
  "'n nics \<Rightarrow> u32 \<Rightarrow> u16 \<Rightarrow> u16 \<Rightarrow> bytes \<Rightarrow> ('n, 'a) net \<Rightarrow> int \<times> ('n, 'a) net" where
  "net_udp_output N dst_be sport_be dport_be data s =
    (if \<not> g_ready s then (-1, s)
     else if 8 + length data > 1500 - 20 - 14 then (-1, s)
     else ip_send N (swap_ip dst_be) IP_PROTO_UDP (udp_datagram sport_be dport_be data) s)"

section \<open>What an operation may change\<close>

lemma nic_send_frame: "\<exists>c. snd (nic_send N f s) = s\<lparr>nic_dev := c\<rparr>"
proof -
  have same: "\<exists>c. s = s\<lparr>nic_dev := c\<rparr>" by (rule exI [of _ "nic_dev s"]) simp
  have upd: "\<exists>c. s\<lparr>nic_dev := d\<rparr> = s\<lparr>nic_dev := c\<rparr>" for d by (rule exI [of _ d]) simp
  show ?thesis unfolding nic_send_def Let_def case_prod_beta
    by (cases "g_backend s = 1"; cases "g_backend s = 2") (simp_all only: refl if_True if_False snd_conv same upd)
qed

lemma eth_send_frame: "\<exists>c. snd (eth_send N dst ty p s) = s\<lparr>nic_dev := c\<rparr>"
proof (cases "1518 < length p + 14")
  case True
  then have "snd (eth_send N dst ty p s) = s\<lparr>nic_dev := nic_dev s\<rparr>" by (simp add: eth_send_def)
  then show ?thesis ..
next
  case False
  then show ?thesis by (simp add: eth_send_def nic_send_frame)
qed

lemma arp_send_frame: "\<exists>c. arp_send N oper tha tpa s = s\<lparr>nic_dev := c\<rparr>"
  unfolding arp_send_def Let_def by (rule eth_send_frame)

text \<open>The IPv4 sender touches the card and the identification counter, nothing else.\<close>

lemma ip_send_frame: "\<exists>c i. snd (ip_send N dst pr p s) = s\<lparr>nic_dev := c, g_ip_id := i\<rparr>"
proof -
  have same: "\<exists>c i. s = s\<lparr>nic_dev := c, g_ip_id := i\<rparr>"
    by (intro exI [of _ "nic_dev s"] exI [of _ "g_ip_id s"]) simp
  have arp: "\<exists>c i. arp_send N oper tha tpa s = s\<lparr>nic_dev := c, g_ip_id := i\<rparr>" for oper tha tpa
  proof -
    obtain c where "arp_send N oper tha tpa s = s\<lparr>nic_dev := c\<rparr>"
      using arp_send_frame [of N oper tha tpa s] by blast
    then have "arp_send N oper tha tpa s = s\<lparr>nic_dev := c, g_ip_id := g_ip_id s\<rparr>" by simp
    then show ?thesis by blast
  qed
  have eth: "\<exists>c i. snd (eth_send N d ty q (s\<lparr>g_ip_id := j\<rparr>)) = s\<lparr>nic_dev := c, g_ip_id := i\<rparr>" for d ty q j
  proof -
    obtain c where "snd (eth_send N d ty q (s\<lparr>g_ip_id := j\<rparr>)) = s\<lparr>g_ip_id := j\<rparr>\<lparr>nic_dev := c\<rparr>"
      using eth_send_frame [of N d ty q "s\<lparr>g_ip_id := j\<rparr>"] by blast
    then have "snd (eth_send N d ty q (s\<lparr>g_ip_id := j\<rparr>)) = s\<lparr>nic_dev := c, g_ip_id := j\<rparr>" by simp
    then show ?thesis by blast
  qed
  show ?thesis
    unfolding ip_send_def Let_def by (simp add: same arp eth)
qed

lemma ip_sendE:
  obtains r c i where "ip_send N dst pr p s = (r, s\<lparr>nic_dev := c, g_ip_id := i\<rparr>)"
  using ip_send_frame [of N dst pr p s] by (metis prod.collapse)

lemma net_udp_outputE:
  obtains r c i where "net_udp_output N d sp dp p s = (r, s\<lparr>nic_dev := c, g_ip_id := i\<rparr>)"
proof (cases "\<not> g_ready s \<or> 8 + length p > 1466")
  case True
  then have "net_udp_output N d sp dp p s = (-1, s\<lparr>nic_dev := nic_dev s, g_ip_id := g_ip_id s\<rparr>)"
    by (auto simp: net_udp_output_def)
  then show thesis by (rule that)
next
  case False
  then show thesis
    using that by (auto simp: net_udp_output_def intro: ip_sendE)
qed

section \<open>Headers on the wire\<close>

lemma swap_ip_htons: "swap_ip a = htons_u32 a"
proof -
  have m: "x AND 0xFF = take_bit 8 x" for x :: u32
    by (simp add: take_bit_eq_mask mask_eq_exp_minus_1)
  show ?thesis unfolding swap_ip_def htons_u32_alt m ..
qed

lemma len_ip_fields [simp]: "length (ip_fields ck tlen ident pr src dst) = 20"
  by (simp add: ip_fields_def)

lemma len_ip_header [simp]: "length (ip_header tlen ident pr src dst) = 20"
  by (simp add: ip_header_def)

lemma len_icmp_message [simp]: "length (icmp_message ty ident sq d) = 8 + length d"
  by (simp add: icmp_message_def icmp_fields_def)

lemma len_udp_datagram [simp]: "length (udp_datagram sp dp d) = 8 + length d"
  by (simp add: udp_datagram_def)

text \<open>The header carries its fields at the offsets the receiver reads.\<close>

lemma ip_header_parse:
  "ip_header tlen ident pr src dst ! 0 = 0x45"
  "ip_header tlen ident pr src dst ! 9 = pr"
  "rd16 (ip_header tlen ident pr src dst @ p) 2 = htons_u16 tlen"
  "rd32 (ip_header tlen ident pr src dst @ p) 12 = htons_u32 src"
  "rd32 (ip_header tlen ident pr src dst @ p) 16 = htons_u32 dst"
proof -
  let ?h = "ip_header tlen ident pr src dst" and
    ?ck = "htons_u16 (checksum16 (ip_fields 0 tlen ident pr src dst))"
  show "?h ! 0 = 0x45" "?h ! 9 = pr"
    by (simp_all add: ip_header_def ip_fields_def le16_def)
  have "?h @ p = [0x45, 0] @ le16 (htons_u16 tlen)
      @ (le16 (htons_u16 ident) @ le16 0 @ [64, pr] @ le16 ?ck @ le32 (htons_u32 src) @ le32 (htons_u32 dst) @ p)"
    by (simp add: ip_header_def ip_fields_def)
  then show "rd16 (?h @ p) 2 = htons_u16 tlen" by (simp only:) (rule rd16_at, simp)
  have "?h @ p = ([0x45, 0] @ le16 (htons_u16 tlen) @ le16 (htons_u16 ident) @ le16 0 @ [64, pr] @ le16 ?ck)
      @ le32 (htons_u32 src) @ (le32 (htons_u32 dst) @ p)"
    by (simp add: ip_header_def ip_fields_def)
  then show "rd32 (?h @ p) 12 = htons_u32 src" by (simp only:) (rule rd32_at, simp)
  have "?h @ p = ([0x45, 0] @ le16 (htons_u16 tlen) @ le16 (htons_u16 ident) @ le16 0 @ [64, pr] @ le16 ?ck
      @ le32 (htons_u32 src)) @ le32 (htons_u32 dst) @ p"
    by (simp add: ip_header_def ip_fields_def)
  then show "rd32 (?h @ p) 16 = htons_u32 dst" by (simp only:) (rule rd32_at, simp)
qed

lemma ip_header_checksum: "checksum16 (ip_header tlen ident pr src dst) = 0"
proof -
  let ?pre = "[0x45, 0] @ le16 (htons_u16 tlen) @ le16 (htons_u16 ident) @ le16 0 @ [64, pr]"
    and ?post = "le32 (htons_u32 src) @ le32 (htons_u32 dst)"
  have "checksum16 (?pre @ le16 (htons_u16 (checksum16 (?pre @ le16 0 @ ?post))) @ ?post) = 0"
    by (rule checksum16_verifies) simp_all
  then show ?thesis by (simp add: ip_header_def ip_fields_def)
qed

lemma icmp_message_checksum:
  assumes "length d \<le> 65527"
  shows "checksum16 (icmp_message ty ident sq d) = 0"
proof -
  let ?pre = "[ty, 0]" and ?post = "le16 ident @ le16 sq @ d"
  have "checksum16 (?pre @ le16 (htons_u16 (checksum16 (?pre @ le16 0 @ ?post))) @ ?post) = 0"
    using assms by (intro checksum16_verifies) simp_all
  then show ?thesis by (simp add: icmp_message_def icmp_fields_def)
qed

lemma icmp_message_parse:
  "icmp_message ty ident sq d ! 0 = ty"
  "rd16 (icmp_message ty ident sq d) 4 = ident"
  "rd16 (icmp_message ty ident sq d) 6 = sq"
  "drop 8 (icmp_message ty ident sq d) = d"
proof -
  let ?m = "icmp_message ty ident sq d" and ?ck = "htons_u16 (checksum16 (icmp_fields 0 ty ident sq d))"
  have e: "?m = [ty, 0] @ le16 ?ck @ le16 ident @ le16 sq @ d"
    by (simp add: icmp_message_def icmp_fields_def)
  show "?m ! 0 = ty" by (simp add: e)
  have "?m = ([ty, 0] @ le16 ?ck) @ le16 ident @ (le16 sq @ d)" by (simp add: e)
  then show "rd16 ?m 4 = ident" by (simp only:) (rule rd16_at, simp)
  have "?m = ([ty, 0] @ le16 ?ck @ le16 ident) @ le16 sq @ d" by (simp add: e)
  then show "rd16 ?m 6 = sq" by (simp only:) (rule rd16_at, simp)
  show "drop 8 ?m = d" by (simp add: e)
qed

text \<open>An ARP packet reads back to the fields it was built from.\<close>

lemma arp_packet_parse:
  fixes oper :: u16 and spa tpa :: u32
  assumes "length sha = 6" "\<And>t. tha = Some t \<Longrightarrow> length t = 6"
  defines "p \<equiv> arp_packet oper sha spa tha tpa"
  shows "length p = 28" "rd16 p 0 = htons_u16 1" "rd16 p 2 = htons_u16 ETH_TYPE_IP"
    "p ! 4 = 6" "p ! 5 = 4" "rd16 p 6 = htons_u16 oper"
    "take 6 (drop 8 p) = sha" "take 4 (drop 14 p) = ip_to_bytes spa" "take 4 (drop 24 p) = ip_to_bytes tpa"
proof -
  let ?t = "case tha of None \<Rightarrow> replicate 6 0 | Some t \<Rightarrow> t"
  have t: "length ?t = 6" using assms(2) by (cases tha) auto
  have p: "p = le16 (htons_u16 1) @ le16 (htons_u16 ETH_TYPE_IP) @ [6, 4] @ le16 (htons_u16 oper)
      @ sha @ ip_to_bytes spa @ ?t @ ip_to_bytes tpa"
    by (simp add: p_def arp_packet_def)
  show "length p = 28" "take 6 (drop 8 p) = sha" "take 4 (drop 14 p) = ip_to_bytes spa"
    "take 4 (drop 24 p) = ip_to_bytes tpa"
    using t assms(1) by (simp_all add: p)
  show "p ! 4 = 6" "p ! 5 = 4" by (simp_all add: p le16_def)
  have "p = [] @ le16 (htons_u16 1) @ drop 2 p" by (simp add: p)
  then show "rd16 p 0 = htons_u16 1" by (metis rd16_at list.size(3))
  have "p = le16 (htons_u16 1) @ le16 (htons_u16 ETH_TYPE_IP) @ drop 4 p" by (simp add: p)
  then show "rd16 p 2 = htons_u16 ETH_TYPE_IP" by (metis rd16_at len_le16)
  have "p = (le16 (htons_u16 1) @ le16 (htons_u16 ETH_TYPE_IP) @ [6, 4]) @ le16 (htons_u16 oper) @ drop 8 p"
    by (simp add: p)
  moreover have "6 = length (le16 (htons_u16 1) @ le16 (htons_u16 ETH_TYPE_IP) @ [6 :: u8, 4])" by simp
  ultimately show "rd16 p 6 = htons_u16 oper" by (metis rd16_at)
qed

end
