(* ===== verification/Udp.thy ===== *)
theory Udp
  imports Net Ring
begin

text \<open>
  The UDP sockets of \<open>src/kernel/net/udp.c\<close>: a table of eight sockets, each with a ring of
  eight received datagrams. A socket pointer is the index of its slot, or \<open>None\<close> for a
  null pointer. A slot of the ring holds the \<open>len\<close> bytes that were copied into its
  \<open>data\<close> array; the bytes behind them are never read.
\<close>

section \<open>State\<close>

record udp_rx_pkt =
  pkt_src_be :: u32
  pkt_sport_be :: u16
  pkt_len :: nat
  pkt_data :: bytes

record helix_sock =
  us_used :: bool
  us_bound :: bool
  us_laddr_be :: u32
  us_lport_be :: u16
  us_head :: nat
  us_tail :: nat
  us_count :: nat
  us_rxq :: "udp_rx_pkt list"

definition zero_pkt :: udp_rx_pkt where
  "zero_pkt = \<lparr>pkt_src_be = 0, pkt_sport_be = 0, pkt_len = 0, pkt_data = []\<rparr>"

definition zero_sock :: helix_sock where
  "zero_sock = \<lparr>us_used = False, us_bound = False, us_laddr_be = 0, us_lport_be = 0,
     us_head = 0, us_tail = 0, us_count = 0, us_rxq = replicate 8 zero_pkt\<rparr>"

record 'n udp_state = "'n net_state" +
  g_socks :: "helix_sock list"
  g_ephemeral :: u16

type_synonym ('n, 'a) udp = "('n, 'a) udp_state_scheme"

section \<open>Operations\<close>

definition net_sock_alloc_udp :: "('n, 'a) udp \<Rightarrow> nat option \<times> ('n, 'a) udp" where
  "net_sock_alloc_udp st =
    (case find (\<lambda>i. \<not> us_used (g_socks st ! i)) [0..<8] of
       None \<Rightarrow> (None, st)
     | Some i \<Rightarrow> (Some i, st\<lparr>g_socks := (g_socks st)[i := zero_sock\<lparr>us_used := True\<rparr>]\<rparr>))"

definition net_sock_free :: "nat option \<Rightarrow> ('n, 'a) udp \<Rightarrow> ('n, 'a) udp" where
  "net_sock_free s st =
    (case s of None \<Rightarrow> st | Some i \<Rightarrow> st\<lparr>g_socks := (g_socks st)[i := zero_sock]\<rparr>)"

definition next_ephemeral :: "u16 \<Rightarrow> u16" where
  "next_ephemeral p = (if p + 1 < 40000 then 40000 else p + 1)"

definition net_sock_bind :: "nat option \<Rightarrow> u32 \<Rightarrow> u16 \<Rightarrow> ('n, 'a) udp \<Rightarrow> int \<times> ('n, 'a) udp" where
  "net_sock_bind s addr_be port_be st =
    (case s of
       None \<Rightarrow> (- EINVAL, st)
     | Some i \<Rightarrow>
         if \<not> us_used (g_socks st ! i) then (- EINVAL, st)
         else
           let (port, st1) =
                 (if port_be = 0
                  then (htons_u16 (g_ephemeral st), st\<lparr>g_ephemeral := next_ephemeral (g_ephemeral st)\<rparr>)
                  else (port_be, st))
           in if list_ex (\<lambda>j. us_used (g_socks st1 ! j) \<and> us_bound (g_socks st1 ! j) \<and> j \<noteq> i
                              \<and> us_lport_be (g_socks st1 ! j) = port) [0..<8]
              then (- EADDRINUSE, st1)
              else (0, st1\<lparr>g_socks := (g_socks st1)[i :=
                     (g_socks st1 ! i)\<lparr>us_laddr_be := addr_be, us_lport_be := port, us_bound := True\<rparr>]\<rparr>))"

definition ensure_bound :: "nat \<Rightarrow> ('n, 'a) udp \<Rightarrow> ('n, 'a) udp" where
  "ensure_bound i st = (if \<not> us_bound (g_socks st ! i) then snd (net_sock_bind (Some i) 0 0 st) else st)"

text \<open>Filling the slot at the tail, as \<open>net_sock_sendto\<close> and \<open>net_udp_input\<close> do.\<close>

definition rxq_put :: "udp_rx_pkt \<Rightarrow> helix_sock \<Rightarrow> helix_sock" where
  "rxq_put p s =
    (if us_count s \<ge> 8 then s
     else s\<lparr>us_rxq := (us_rxq s)[us_tail s := p],
            us_tail := (us_tail s + 1) mod 8, us_count := us_count s + 1\<rparr>)"

definition udp_pkt :: "u32 \<Rightarrow> u16 \<Rightarrow> bytes \<Rightarrow> udp_rx_pkt" where
  "udp_pkt src sport payload =
    \<lparr>pkt_src_be = src, pkt_sport_be = sport, pkt_len = (if length payload > 512 then 512 else length payload),
     pkt_data = take 512 payload\<rparr>"

text \<open>The loop over the table: the first bound socket with the port takes the datagram.\<close>

definition udp_lookup :: "u16 \<Rightarrow> helix_sock list \<Rightarrow> nat option" where
  "udp_lookup dport socks =
    find (\<lambda>i. us_used (socks ! i) \<and> us_bound (socks ! i) \<and> us_lport_be (socks ! i) = dport) [0..<8]"

definition net_udp_input :: "u32 \<Rightarrow> u16 \<Rightarrow> u16 \<Rightarrow> bytes \<Rightarrow> ('n, 'a) udp \<Rightarrow> ('n, 'a) udp" where
  "net_udp_input src sport dport payload st =
    (case udp_lookup dport (g_socks st) of
       None \<Rightarrow> st
     | Some i \<Rightarrow> st\<lparr>g_socks := (g_socks st)[i := rxq_put (udp_pkt src sport payload) (g_socks st ! i)]\<rparr>)"

definition net_sock_sendto ::
  "'n nics \<Rightarrow> nat option \<Rightarrow> bytes option \<Rightarrow> u32 \<Rightarrow> u16 \<Rightarrow> ('n, 'a) udp \<Rightarrow> int \<times> ('n, 'a) udp" where
  "net_sock_sendto N s data dst_be dport_be st =
    (case (s, data) of
       (Some i, Some d) \<Rightarrow>
         if \<not> us_used (g_socks st ! i) then (- EINVAL, st)
         else if d = [] then (0, st)
         else
           let d1 = take 1400 d;
               st1 = ensure_bound i st;
               st2 = (if net_is_local_ip_be dst_be st1 \<or> dst_be = 0x0100007F
                      then net_udp_input (net_local_ip_be st1) (us_lport_be (g_socks st1 ! i)) dport_be d1 st1
                      else st1);
               (r, st3) = net_udp_output N dst_be (us_lport_be (g_socks st2 ! i)) dport_be d1 st2
           in if r < 0 then (r, st3) else (int (length d1), st3)
     | _ \<Rightarrow> (- EINVAL, st))"

text \<open>\<open>buflen\<close> is the size of the caller's buffer, \<open>None\<close> a null buffer.\<close>

definition net_sock_recvfrom ::
  "nat option \<Rightarrow> nat option \<Rightarrow> ('n, 'a) udp \<Rightarrow> int \<times> (bytes \<times> u32 \<times> u16) option \<times> ('n, 'a) udp" where
  "net_sock_recvfrom s buflen st =
    (case (s, buflen) of
       (Some i, Some bl) \<Rightarrow>
         if \<not> us_used (g_socks st ! i) then (- EINVAL, None, st)
         else
           let st1 = ensure_bound i st; sk = g_socks st1 ! i in
           if us_count sk = 0 then (- EAGAIN, None, st1)
           else
             let p = us_rxq sk ! us_head sk;
                 n = (if pkt_len p > bl then bl else pkt_len p)
             in (int n, Some (take n (pkt_data p), pkt_src_be p, pkt_sport_be p),
                 st1\<lparr>g_socks := (g_socks st1)[i :=
                   sk\<lparr>us_head := (us_head sk + 1) mod 8, us_count := us_count sk - 1\<rparr>]\<rparr>)
     | _ \<Rightarrow> (- EINVAL, None, st))"

section \<open>The receive queue is a bounded queue\<close>

definition sock_wf :: "helix_sock \<Rightarrow> bool" where
  "sock_wf s \<longleftrightarrow> cring_ok 8 (us_rxq s) (us_head s) (us_tail s) (us_count s)
     \<and> (us_bound s \<longrightarrow> us_used s)"

definition dgrams :: "helix_sock \<Rightarrow> udp_rx_pkt list" where
  "dgrams s = ring_list (us_rxq s) (us_head s) (us_count s)"

definition rxq_get :: "helix_sock \<Rightarrow> (udp_rx_pkt \<times> helix_sock) option" where
  "rxq_get sk =
    (if us_count sk = 0 then None
     else Some (us_rxq sk ! us_head sk,
       sk\<lparr>us_head := (us_head sk + 1) mod 8, us_count := us_count sk - 1\<rparr>))"

lemma length_dgrams [simp]: "length (dgrams s) = us_count s"
  by (simp add: dgrams_def)

lemma dgrams_count: "dgrams s = x # xs \<Longrightarrow> us_count s = Suc (length xs)"
  by (metis length_dgrams length_Cons)

interpretation uq: bounded_fifo 8 sock_wf dgrams rxq_put rxq_get
proof unfold_locales
  fix s :: helix_sock and x xs
  assume wf: "sock_wf s"
  then show "length (dgrams s) \<le> 8" by (simp add: sock_wf_def cring_ok_def)
  show "sock_wf (rxq_put x s) \<and> dgrams (rxq_put x s) = dgrams s @ [x]" if "length (dgrams s) < 8"
    using that wf cring_put [of 8 "us_rxq s" "us_head s" "us_tail s" "us_count s" x]
    by (simp add: sock_wf_def rxq_put_def dgrams_def)
  show "rxq_put x s = s" if "length (dgrams s) = 8" using that by (simp add: rxq_put_def)
  show "rxq_get s = None" if "dgrams s = []"
    using that by (simp add: rxq_get_def) (metis length_dgrams list.size(3))
  show "\<exists>s'. rxq_get s = Some (x, s') \<and> sock_wf s' \<and> dgrams s' = xs" if d: "dgrams s = x # xs"
  proof -
    note n = dgrams_count [OF d]
    with wf d cring_get [of 8 "us_rxq s" "us_head s" "us_tail s" "length xs"] show ?thesis
      by (simp add: rxq_get_def sock_wf_def dgrams_def)
  qed
qed

section \<open>The socket table\<close>

text \<open>
  The invariant of the table: eight well-formed sockets, and no two of them bound to the
  same port.
\<close>

definition udp_ok :: "helix_sock list \<Rightarrow> bool" where
  "udp_ok socks \<longleftrightarrow> length socks = 8 \<and> (\<forall>i<8. sock_wf (socks ! i)) \<and>
     (\<forall>i<8. \<forall>j<8. us_bound (socks ! i) \<longrightarrow> us_bound (socks ! j) \<longrightarrow>
        us_lport_be (socks ! i) = us_lport_be (socks ! j) \<longrightarrow> i = j)"

lemma udp_ok_len: "udp_ok socks \<Longrightarrow> length socks = 8"
  by (simp add: udp_ok_def)

lemma udp_ok_wf: "udp_ok socks \<Longrightarrow> i < 8 \<Longrightarrow> sock_wf (socks ! i)"
  by (simp add: udp_ok_def)

lemma udp_ok_inj: "udp_ok socks \<Longrightarrow> i < 8 \<Longrightarrow> j < 8 \<Longrightarrow> us_bound (socks ! i) \<Longrightarrow> us_bound (socks ! j) \<Longrightarrow>
    us_lport_be (socks ! i) = us_lport_be (socks ! j) \<Longrightarrow> i = j"
  unfolding udp_ok_def by blast

text \<open>Replacing a socket keeps the invariant when its port is not taken by another one.\<close>

lemma udp_ok_update:
  assumes ok: "udp_ok socks" and wf: "sock_wf s"
    and free: "\<forall>j<8. us_bound s \<longrightarrow> j \<noteq> i \<longrightarrow> us_bound (socks ! j) \<longrightarrow> us_lport_be (socks ! j) \<noteq> us_lport_be s"
  shows "udp_ok (socks[i := s])"
  unfolding udp_ok_def
proof (intro conjI allI impI)
  show "length (socks[i := s]) = 8" using ok by (simp add: udp_ok_def)
  show "sock_wf (socks[i := s] ! k)" if "k < 8" for k
    using that ok wf by (cases "k = i") (auto simp: udp_ok_def)
  fix j k :: nat
  assume jk: "j < 8" "k < 8" "us_bound (socks[i := s] ! j)" "us_bound (socks[i := s] ! k)"
    "us_lport_be (socks[i := s] ! j) = us_lport_be (socks[i := s] ! k)"
  show "j = k"
  proof (cases "j = i \<or> k = i")
    case True
    then show ?thesis using jk free udp_ok_len [OF ok] by (auto simp: nth_list_update split: if_splits)
  next
    case False
    then have "socks[i := s] ! j = socks ! j" "socks[i := s] ! k = socks ! k" by auto
    with jk udp_ok_inj [OF ok, of j k] show ?thesis by simp
  qed
qed

lemma zero_sock_wf: "sock_wf zero_sock" "sock_wf (zero_sock\<lparr>us_used := True\<rparr>)"
  using cring_empty [of 8 zero_pkt] by (simp_all add: sock_wf_def zero_sock_def)

lemma find_at: "find P xs = Some x \<Longrightarrow> x \<in> set xs \<and> P x"
  by (induction xs) (auto split: if_splits)

lemma rxq_put_same [simp]:
  "us_bound (rxq_put p s) = us_bound s" "us_used (rxq_put p s) = us_used s"
  "us_lport_be (rxq_put p s) = us_lport_be s" "us_laddr_be (rxq_put p s) = us_laddr_be s"
  by (simp_all add: rxq_put_def)

lemma zero_sock_unbound [simp]: "\<not> us_bound zero_sock"
  by (simp add: zero_sock_def)

lemma alloc_udp_ok: "udp_ok (g_socks st) \<Longrightarrow> udp_ok (g_socks (snd (net_sock_alloc_udp st)))"
  by (auto simp: net_sock_alloc_udp_def intro!: udp_ok_update zero_sock_wf split: option.split)

lemma free_udp_ok: "udp_ok (g_socks st) \<Longrightarrow> udp_ok (g_socks (net_sock_free s st))"
  by (auto simp: net_sock_free_def intro!: udp_ok_update zero_sock_wf split: option.split)

lemma udp_input_ok:
  assumes ok: "udp_ok (g_socks st)"
  shows "udp_ok (g_socks (net_udp_input src sp dp d st))"
proof (cases "udp_lookup dp (g_socks st)")
  case None
  then show ?thesis using ok by (simp add: net_udp_input_def)
next
  case (Some i)
  then have i: "i < 8" by (auto simp: udp_lookup_def dest!: find_at)
  have "udp_ok ((g_socks st)[i := rxq_put p (g_socks st ! i)])" for p
    using udp_ok_inj [OF ok _ i] by (intro udp_ok_update ok uq.put_wf udp_ok_wf i) auto
  then show ?thesis using Some by (simp add: net_udp_input_def)
qed

text \<open>What binding does to the table, in one equation.\<close>

definition bind_port :: "u16 \<Rightarrow> u16 \<Rightarrow> u16" where
  "bind_port eph port_be = (if port_be = 0 then htons_u16 eph else port_be)"

definition port_taken :: "nat \<Rightarrow> u16 \<Rightarrow> helix_sock list \<Rightarrow> bool" where
  "port_taken i port socks \<longleftrightarrow>
     (\<exists>j<8. us_used (socks ! j) \<and> us_bound (socks ! j) \<and> j \<noteq> i \<and> us_lport_be (socks ! j) = port)"

lemma bind_eq:
  "net_sock_bind (Some i) a p st =
    (let port = bind_port (g_ephemeral st) p;
         st1 = (if p = 0 then st\<lparr>g_ephemeral := next_ephemeral (g_ephemeral st)\<rparr> else st)
     in if \<not> us_used (g_socks st ! i) then (- EINVAL, st)
        else if port_taken i port (g_socks st) then (- EADDRINUSE, st1)
        else (0, st1\<lparr>g_socks := (g_socks st)[i :=
               (g_socks st ! i)\<lparr>us_laddr_be := a, us_lport_be := port, us_bound := True\<rparr>]\<rparr>))"
proof -
  have t: "list_ex (\<lambda>j. us_used (socks ! j) \<and> us_bound (socks ! j) \<and> j \<noteq> i \<and> us_lport_be (socks ! j) = port) [0..<8]
      \<longleftrightarrow> port_taken i port socks" for socks port
    unfolding port_taken_def list_ex_iff by auto
  show ?thesis
    unfolding net_sock_bind_def option.case t by (cases "p = 0") (simp_all add: bind_port_def Let_def)
qed

lemma bind_ok:
  assumes ok: "udp_ok (g_socks st)" and i: "\<forall>i. s = Some i \<longrightarrow> i < 8"
  shows "udp_ok (g_socks (snd (net_sock_bind s a p st)))"
proof (cases s)
  case None
  then show ?thesis using ok by (simp add: net_sock_bind_def)
next
  case (Some i)
  with i have i8: "i < 8" by simp
  let ?port = "bind_port (g_ephemeral st) p"
  have "udp_ok ((g_socks st)[i := (g_socks st ! i)\<lparr>us_laddr_be := a, us_lport_be := ?port, us_bound := True\<rparr>])"
    if u: "us_used (g_socks st ! i)" and nt: "\<not> port_taken i ?port (g_socks st)"
  proof (rule udp_ok_update [OF ok])
    show "sock_wf ((g_socks st ! i)\<lparr>us_laddr_be := a, us_lport_be := ?port, us_bound := True\<rparr>)"
      using udp_ok_wf [OF ok i8] u by (simp add: sock_wf_def)
    show "\<forall>j<8. us_bound ((g_socks st ! i)\<lparr>us_laddr_be := a, us_lport_be := ?port, us_bound := True\<rparr>) \<longrightarrow>
        j \<noteq> i \<longrightarrow> us_bound (g_socks st ! j) \<longrightarrow>
        us_lport_be (g_socks st ! j) \<noteq> us_lport_be ((g_socks st ! i)\<lparr>us_laddr_be := a, us_lport_be := ?port, us_bound := True\<rparr>)"
      using nt udp_ok_wf [OF ok] unfolding port_taken_def sock_wf_def by auto
  qed
  with ok show ?thesis by (simp add: Some bind_eq Let_def)
qed

lemma ensure_bound_ok: "udp_ok (g_socks st) \<Longrightarrow> i < 8 \<Longrightarrow> udp_ok (g_socks (ensure_bound i st))"
  using bind_ok [of st "Some i" 0 0] by (simp add: ensure_bound_def)

lemma sendto_ok:
  assumes ok: "udp_ok (g_socks st)" and i: "\<forall>i. s = Some i \<longrightarrow> i < 8"
  shows "udp_ok (g_socks (snd (net_sock_sendto N s data dst dp st)))"
proof (cases s; cases data)
  fix i d assume [simp]: "s = Some i" "data = Some d"
  let ?d = "take 1400 d" and ?st1 = "ensure_bound i st"
  define st2 where "st2 = (if net_is_local_ip_be dst ?st1 \<or> dst = 0x0100007F
      then net_udp_input (net_local_ip_be ?st1) (us_lport_be (g_socks ?st1 ! i)) dp ?d ?st1 else ?st1)"
  have "udp_ok (g_socks ?st1)" using ok i by (simp add: ensure_bound_ok)
  then have ok2: "udp_ok (g_socks st2)" unfolding st2_def by (simp add: udp_input_ok)
  obtain r c k where o: "net_udp_output N dst (us_lport_be (g_socks st2 ! i)) dp ?d st2
      = (r, st2\<lparr>nic_dev := c, g_ip_id := k\<rparr>)" by (rule net_udp_outputE)
  show ?thesis
    using ok ok2 by (simp add: net_sock_sendto_def st2_def [symmetric] o Let_def)
qed (simp_all add: net_sock_sendto_def ok)

lemma recvfrom_get:
  "net_sock_recvfrom (Some i) (Some bl) st =
    (if \<not> us_used (g_socks st ! i) then (- EINVAL, None, st)
     else case rxq_get (g_socks (ensure_bound i st) ! i) of
       None \<Rightarrow> (- EAGAIN, None, ensure_bound i st)
     | Some (p, sk) \<Rightarrow>
         (let n = min bl (pkt_len p) in
          (int n, Some (take n (pkt_data p), pkt_src_be p, pkt_sport_be p),
           (ensure_bound i st)\<lparr>g_socks := (g_socks (ensure_bound i st))[i := sk]\<rparr>)))"
  by (simp add: net_sock_recvfrom_def rxq_get_def Let_def min_def)

lemma rxq_get_ok:
  assumes "sock_wf s" "rxq_get s = Some (p, s')"
  shows "sock_wf s'" "dgrams s = p # dgrams s'" "us_bound s' = us_bound s" "us_lport_be s' = us_lport_be s"
    "us_used s' = us_used s"
proof -
  obtain x xs where d: "dgrams s = x # xs"
    using assms uq.get_empty [of s] by (cases "dgrams s") auto
  with assms uq.get_first [OF assms(1) d] show "sock_wf s'" "dgrams s = p # dgrams s'" by auto
  show "us_bound s' = us_bound s" "us_lport_be s' = us_lport_be s" "us_used s' = us_used s"
    using assms(2) by (auto simp: rxq_get_def split: if_splits)
qed

lemma recvfrom_ok:
  assumes ok: "udp_ok (g_socks st)" and i: "\<forall>i. s = Some i \<longrightarrow> i < 8"
  shows "udp_ok (g_socks (snd (snd (net_sock_recvfrom s bl st))))"
proof (cases s; cases bl)
  fix i n assume [simp]: "s = Some i" "bl = Some n"
  have i8: "i < 8" using i by simp
  let ?st1 = "ensure_bound i st"
  have ok1: "udp_ok (g_socks ?st1)" using ok i8 by (simp add: ensure_bound_ok)
  have "udp_ok ((g_socks ?st1)[i := sk])" if "rxq_get (g_socks ?st1 ! i) = Some (p, sk)" for p sk
    using rxq_get_ok [OF udp_ok_wf [OF ok1 i8] that] udp_ok_inj [OF ok1 _ i8]
    by (intro udp_ok_update ok1) auto
  with ok ok1 show ?thesis by (auto simp: recvfrom_get Let_def split: option.split)
qed (simp_all add: net_sock_recvfrom_def ok)

section \<open>Reachable tables\<close>

text \<open>
  The calls the kernel makes: sockets are allocated, freed and bound, they send and receive,
  and datagrams arrive from the wire. A socket argument is a pointer into the table.
\<close>

inductive udp_step :: "'n nics \<Rightarrow> ('n, 'a) udp \<Rightarrow> ('n, 'a) udp \<Rightarrow> bool" for N where
  alloc: "udp_step N st (snd (net_sock_alloc_udp st))"
| free: "i < 8 \<Longrightarrow> udp_step N st (net_sock_free (Some i) st)"
| bind: "i < 8 \<Longrightarrow> udp_step N st (snd (net_sock_bind (Some i) a p st))"
| sendto: "i < 8 \<Longrightarrow> udp_step N st (snd (net_sock_sendto N (Some i) d dst dp st))"
| recvfrom: "i < 8 \<Longrightarrow> udp_step N st (snd (snd (net_sock_recvfrom (Some i) bl st)))"
| input: "udp_step N st (net_udp_input src sp dp d st)"

lemma udp_step_ok: "udp_step N st st' \<Longrightarrow> udp_ok (g_socks st) \<Longrightarrow> udp_ok (g_socks st')"
  by (induction rule: udp_step.induct)
    (simp_all add: alloc_udp_ok free_udp_ok bind_ok sendto_ok recvfrom_ok udp_input_ok)

lemma udp_steps_ok: "(udp_step N)\<^sup>*\<^sup>* st st' \<Longrightarrow> udp_ok (g_socks st) \<Longrightarrow> udp_ok (g_socks st')"
  by (induction rule: rtranclp_induct) (simp_all add: udp_step_ok)

lemma udp_ok_init: "udp_ok (replicate 8 zero_sock)"
  by (simp add: udp_ok_def zero_sock_wf)

lemma udp_lookup_owner:
  assumes ok: "udp_ok socks" and i: "i < 8" "us_bound (socks ! i)" "us_lport_be (socks ! i) = dp"
  shows "udp_lookup dp socks = Some i"
proof -
  have u: "us_used (socks ! i)" using udp_ok_wf [OF ok i(1)] i(2) by (simp add: sock_wf_def)
  then have "udp_lookup dp socks \<noteq> None"
    using i by (auto simp: udp_lookup_def find_None_iff)
  then obtain j where j: "udp_lookup dp socks = Some j" by auto
  then have "j < 8" "us_bound (socks ! j)" "us_lport_be (socks ! j) = dp"
    by (auto simp: udp_lookup_def dest!: find_at)
  with udp_ok_inj [OF ok, of i j] i j show ?thesis by simp
qed

section \<open>Properties\<close>

text \<open>C27. Whatever sequence of calls led from the empty table to the state \<open>st\<close>, a port
  belongs to at most one socket, and a datagram for it is appended to the queue of that
  socket (dropped when eight are waiting) and changes no other socket.\<close>

theorem udp_delivers_to_owner:
  assumes "(udp_step N)\<^sup>*\<^sup>* st0 st" "g_socks st0 = replicate 8 zero_sock"
    and "i < 8" "us_bound (g_socks st ! i)" "us_lport_be (g_socks st ! i) = dport"
  shows "(\<forall>j<8. us_bound (g_socks st ! j) \<and> us_lport_be (g_socks st ! j) = dport \<longrightarrow> j = i)
    \<and> dgrams (g_socks (net_udp_input src sport dport d st) ! i)
        = (if us_count (g_socks st ! i) < 8 then dgrams (g_socks st ! i) @ [udp_pkt src sport d]
           else dgrams (g_socks st ! i))
    \<and> (\<forall>j<8. j \<noteq> i \<longrightarrow> g_socks (net_udp_input src sport dport d st) ! j = g_socks st ! j)"
proof -
  have ok: "udp_ok (g_socks st)"
    by (rule udp_steps_ok [OF assms(1)]) (simp add: assms(2) udp_ok_init)
  have e: "g_socks (net_udp_input src sport dport d st)
      = (g_socks st)[i := rxq_put (udp_pkt src sport d) (g_socks st ! i)]"
    using udp_lookup_owner [OF ok assms(3-5)] by (simp add: net_udp_input_def)
  have q: "dgrams (rxq_put p (g_socks st ! i))
      = (if us_count (g_socks st ! i) < 8 then dgrams (g_socks st ! i) @ [p] else dgrams (g_socks st ! i))" for p
  proof (cases "us_count (g_socks st ! i) < 8")
    case True
    with uq.put_room [OF udp_ok_wf [OF ok assms(3)], of p] show ?thesis by simp
  qed (simp add: rxq_put_def)
  show ?thesis
  proof (intro conjI)
    show "\<forall>j<8. us_bound (g_socks st ! j) \<and> us_lport_be (g_socks st ! j) = dport \<longrightarrow> j = i"
      using udp_ok_inj [OF ok _ assms(3) _ assms(4)] assms(5) by simp
  qed (use assms(3) udp_ok_len [OF ok] in \<open>simp_all add: e q\<close>)
qed

text \<open>A card without a link, to run the model on.\<close>

definition no_nics :: "unit nics" where
  "no_nics = (let d = \<lparr>drv_init = (\<lambda>c. (-1, c)), drv_ready = (\<lambda>c. 0), drv_get_mac = (\<lambda>c. replicate 6 0),
      drv_send = (\<lambda>f c. (-1, c)), drv_recv = (\<lambda>n c. ([], c))\<rparr> in \<lparr>e1000 = d, virtio_net = d\<rparr>)"

definition boot_udp :: "unit udp_state" where
  "boot_udp = \<lparr>nic_dev = (), g_backend = 0, g_ready = True, g_mac = replicate 6 0, g_ip = NET_IP_SELF,
     g_gw = NET_IP_GW, g_gw_mac = replicate 6 0, g_gw_mac_valid = False, g_icmp_replies = 0,
     g_icmp_echo_rx = 0, g_self_echo_ok = False, g_ip_id = 1, g_icmp_seq = 1, g_last_arp_tick = 0,
     g_last_ping_tick = 0, g_selftest_done = False, g_announced = False,
     g_socks = replicate 8 zero_sock, g_ephemeral = 40000\<rparr>"

text \<open>One socket allocated and bound to the port 53.\<close>

definition demo_udp :: "unit udp_state" where
  "demo_udp = snd (net_sock_bind (Some 0) 0 (htons_u16 53) (snd (net_sock_alloc_udp boot_udp)))"

lemma demo_udp_socks:
  "g_socks demo_udp = (replicate 8 zero_sock)[0 :=
     zero_sock\<lparr>us_used := True, us_laddr_be := 0, us_lport_be := htons_u16 53, us_bound := True\<rparr>]"
proof -
  have a: "snd (net_sock_alloc_udp boot_udp)
      = boot_udp\<lparr>g_socks := (replicate 8 zero_sock)[0 := zero_sock\<lparr>us_used := True\<rparr>]\<rparr>"
    by (simp add: net_sock_alloc_udp_def boot_udp_def zero_sock_def upt_conv_Cons)
  have t: "\<not> port_taken 0 p ((replicate 8 zero_sock)[0 := s])" for p s
    by (auto simp: port_taken_def)
  have z: "htons_u16 53 \<noteq> 0" by (simp add: htons_u16_def)
  then have p: "bind_port 40000 (htons_u16 53) = htons_u16 53" by (simp add: bind_port_def)
  show ?thesis
    unfolding demo_udp_def a bind_eq using z by (simp add: Let_def t) (simp add: boot_udp_def p)
qed

theorem udp_delivers_to_owner_witness:
  "dgrams (g_socks (net_udp_input 7 9 (htons_u16 53) [1, 2, 3] demo_udp) ! 0) = [udp_pkt 7 9 [1, 2, 3]]"
proof -
  have "udp_step no_nics boot_udp (snd (net_sock_alloc_udp boot_udp))" by (rule udp_step.alloc)
  moreover have "udp_step no_nics (snd (net_sock_alloc_udp boot_udp)) demo_udp"
    unfolding demo_udp_def by (rule udp_step.bind) simp
  ultimately have r: "(udp_step no_nics)\<^sup>*\<^sup>* boot_udp demo_udp"
    by (rule rtranclp.rtrancl_into_rtrancl [OF r_into_rtranclp])
  have "g_socks boot_udp = replicate 8 zero_sock" by (simp add: boot_udp_def)
  from udp_delivers_to_owner [OF r this, of 0 "htons_u16 53" 7 9 "[1, 2, 3]"] show ?thesis
    by (simp add: demo_udp_socks zero_sock_def dgrams_def)
qed

text \<open>A datagram sent to the host's own address is queued at the socket bound to the
  port, and yet \<open>net_sock_sendto\<close> reports failure: the copy for the wire needs the link
  address of the host itself, which is never resolved.\<close>

theorem sendto_self_reports_error:
  assumes ok: "udp_ok (g_socks st)" and i: "i < 8" "us_bound (g_socks st ! i)"
    and j: "j < 8" "us_bound (g_socks st ! j)" "us_lport_be (g_socks st ! j) = dport"
      "us_count (g_socks st ! j) < 8"
    and d: "d \<noteq> []" "length d \<le> 1400" and up: "g_ready st" "g_ip st \<noteq> g_gw st"
  shows "fst (net_sock_sendto N (Some i) (Some d) (net_local_ip_be st) dport st) = -1
    \<and> dgrams (g_socks (snd (net_sock_sendto N (Some i) (Some d) (net_local_ip_be st) dport st)) ! j)
      = dgrams (g_socks st ! j) @ [udp_pkt (net_local_ip_be st) (us_lport_be (g_socks st ! i)) d]"
proof -
  let ?me = "net_local_ip_be st"
  define st2 where "st2 = net_udp_input ?me (us_lport_be (g_socks st ! i)) dport d st"
  have s2: "st2 = st\<lparr>g_socks := (g_socks st)[j := rxq_put (udp_pkt ?me (us_lport_be (g_socks st ! i)) d) (g_socks st ! j)]\<rparr>"
    unfolding st2_def using udp_lookup_owner [OF ok j(1-3)] by (simp add: net_udp_input_def)
  have u: "us_used (g_socks st ! i)" using udp_ok_wf [OF ok i(1)] i(2) by (simp add: sock_wf_def)
  have e: "ensure_bound i st = st" using i(2) by (simp add: ensure_bound_def)
  have "swap_ip ?me = g_ip st2" by (simp add: net_local_ip_be_def swap_ip_htons s2)
  then have w: "ip_send N (swap_ip ?me) IP_PROTO_UDP (udp_datagram sp dport d) st2
      = (-1, arp_send N ARP_OP_REQ None (g_ip st2) st2)" for sp
    using up(2) d by (simp add: ip_send_def Let_def s2)
  have o: "net_udp_output N ?me sp dport d st2 = (-1, arp_send N ARP_OP_REQ None (g_ip st2) st2)" for sp
    using up(1) d w by (simp add: net_udp_output_def s2)
  obtain c where c: "arp_send N ARP_OP_REQ None (g_ip st2) st2 = st2\<lparr>nic_dev := c\<rparr>"
    using arp_send_frame [of N ARP_OP_REQ None "g_ip st2" st2] by blast
  have r: "net_sock_sendto N (Some i) (Some d) ?me dport st = (-1, st2\<lparr>nic_dev := c\<rparr>)"
    using d u by (simp add: net_sock_sendto_def e net_is_local_ip_be_def st2_def [symmetric] o c Let_def)
  have "dgrams (rxq_put p (g_socks st ! j)) = dgrams (g_socks st ! j) @ [p]" for p
    using uq.put_room [OF udp_ok_wf [OF ok j(1)], of p] j(4) by simp
  then show ?thesis using j(1) udp_ok_len [OF ok] by (simp add: r s2)
qed

theorem sendto_self_reports_error_witness:
  "fst (net_sock_sendto no_nics (Some 0) (Some [1, 2, 3]) (net_local_ip_be demo_udp) (htons_u16 53) demo_udp) = -1
   \<and> dgrams (g_socks (snd (net_sock_sendto no_nics (Some 0) (Some [1, 2, 3]) (net_local_ip_be demo_udp)
        (htons_u16 53) demo_udp)) ! 0)
     = [udp_pkt (net_local_ip_be demo_udp) (htons_u16 53) [1, 2, 3]]"
proof -
  have ok: "udp_ok (g_socks demo_udp)"
    unfolding demo_udp_def
    by (intro bind_ok alloc_udp_ok) (simp_all add: boot_udp_def udp_ok_init)
  have up: "g_ready demo_udp" "g_ip demo_udp \<noteq> g_gw demo_udp"
    unfolding demo_udp_def bind_eq net_sock_alloc_udp_def
    by (simp_all add: Let_def boot_udp_def split: option.split)
  show ?thesis
    using sendto_self_reports_error [OF ok, of 0 0 "htons_u16 53" "[1, 2, 3]" no_nics] up
    by (simp add: demo_udp_socks zero_sock_def dgrams_def)
qed

end
