(* ===== verification/Tcp.thy ===== *)
theory Tcp
  imports Udp
begin

text \<open>
  The TCP sockets of \<open>src/kernel/net/tcp.c\<close> and \<open>src/include/helix/tcp.h\<close>: the socket
  table, the connection state machine driven by user calls, by segments from the wire and
  by the retransmission timer, and the children that wait for a listener. A pointer to a
  socket is its index in the table; the table is updated in the order the code writes it,
  so two pointers may name the same slot. The arrays \<open>backlog\<close> and \<open>g_tcp_pending\<close> are the
  lists of their first \<open>backlog_len\<close> and \<open>g_tcp_pending_count\<close> entries, and a queued
  segment holds the \<open>len\<close> bytes that are valid in its \<open>data\<close> array; the rest is never read.
\<close>

section \<open>State\<close>

datatype tcp_st =
  CLOSED | LISTEN | SYN_SENT | SYN_RECEIVED | ESTABLISHED
| FIN_WAIT_1 | FIN_WAIT_2 | CLOSE_WAIT | LAST_ACK | TIME_WAIT

abbreviation (input) TCP_FLAG_FIN :: u8 where "TCP_FLAG_FIN \<equiv> 0x01"
abbreviation (input) TCP_FLAG_SYN :: u8 where "TCP_FLAG_SYN \<equiv> 0x02"
abbreviation (input) TCP_FLAG_PSH :: u8 where "TCP_FLAG_PSH \<equiv> 0x08"
abbreviation (input) TCP_FLAG_ACK :: u8 where "TCP_FLAG_ACK \<equiv> 0x10"

definition flag :: "u8 \<Rightarrow> u8 \<Rightarrow> bool" where
  "flag flags f \<longleftrightarrow> flags AND f \<noteq> 0"

record tcp_rx_seg =
  rseg_seq :: u32
  rseg_len :: nat
  rseg_data :: bytes

record tcp_tx_seg =
  tseg_seq :: u32
  tseg_len :: nat
  tseg_data :: bytes
  tseg_retries :: nat

record helix_tcp_sock =
  ts_used :: bool
  ts_state :: tcp_st
  laddr_be :: u32
  lport_be :: u16
  ts_bound :: bool
  raddr_be :: u32
  rport_be :: u16
  snd_una :: u32
  snd_nxt :: u32
  snd_wnd :: u32
  rcv_nxt :: u32
  iss :: u32
  rxq :: "tcp_rx_seg list"
  rx_head :: nat
  rx_tail :: nat
  rx_count :: nat
  txq :: "tcp_tx_seg list"
  tx_head :: nat
  tx_tail :: nat
  tx_count :: nat
  backlog :: "nat list"
  last_send_tick :: u64
  retries :: nat
  parent :: "nat option"

definition zero_rseg :: tcp_rx_seg where
  "zero_rseg = \<lparr>rseg_seq = 0, rseg_len = 0, rseg_data = []\<rparr>"

definition zero_tseg :: tcp_tx_seg where
  "zero_tseg = \<lparr>tseg_seq = 0, tseg_len = 0, tseg_data = [], tseg_retries = 0\<rparr>"

text \<open>A slot after \<open>memset (ts, 0, sizeof (*ts))\<close>.\<close>

definition zero_ts :: helix_tcp_sock where
  "zero_ts = \<lparr>ts_used = False, ts_state = CLOSED, laddr_be = 0, lport_be = 0, ts_bound = False,
     raddr_be = 0, rport_be = 0, snd_una = 0, snd_nxt = 0, snd_wnd = 0, rcv_nxt = 0, iss = 0,
     rxq = replicate 8 zero_rseg, rx_head = 0, rx_tail = 0, rx_count = 0,
     txq = replicate 16 zero_tseg, tx_head = 0, tx_tail = 0, tx_count = 0,
     backlog = [], last_send_tick = 0, retries = 0, parent = None\<rparr>"

record tcp_pending_child =
  pc_sock :: nat
  has_ack :: bool
  ack_seq :: u32
  data_len :: nat
  pc_data :: bytes

record 'n tcp_state = "'n udp_state" +
  g_tcp_socks :: "helix_tcp_sock list"
  g_tcp_pending :: "tcp_pending_child list"
  g_tcp_ephemeral :: u16
  s_last_retransmit_log :: u64

type_synonym ('n, 'a) tcp = "('n, 'a) tcp_state_scheme"

text \<open>Writing through a socket pointer.\<close>

definition put_ts :: "nat \<Rightarrow> helix_tcp_sock \<Rightarrow> ('n, 'a) tcp \<Rightarrow> ('n, 'a) tcp" where
  "put_ts i ts st = st\<lparr>g_tcp_socks := (g_tcp_socks st)[i := ts]\<rparr>"

abbreviation (input) sock_at :: "('n, 'a) tcp \<Rightarrow> nat \<Rightarrow> helix_tcp_sock" where
  "sock_at st i \<equiv> g_tcp_socks st ! i"

section \<open>Segments\<close>

definition htons16 :: "u16 \<Rightarrow> u16" where
  "htons16 x = push_bit 8 x OR drop_bit 8 x"

definition htons32 :: "u32 \<Rightarrow> u32" where
  "htons32 x = push_bit 24 (x AND 0x000000FF) OR push_bit 8 (x AND 0x0000FF00)
      OR drop_bit 8 (x AND 0x00FF0000) OR drop_bit 24 (x AND 0xFF000000)"

definition pseudo_header :: "u32 \<Rightarrow> u32 \<Rightarrow> nat \<Rightarrow> bytes" where
  "pseudo_header src_be dst_be tcp_len =
    [ucast src_be, ucast (drop_bit 8 src_be), ucast (drop_bit 16 src_be), ucast (drop_bit 24 src_be),
     ucast dst_be, ucast (drop_bit 8 dst_be), ucast (drop_bit 16 dst_be), ucast (drop_bit 24 dst_be),
     0, 6, of_nat (tcp_len div 256), of_nat tcp_len]"

definition tcp_checksum :: "bytes \<Rightarrow> u32 \<Rightarrow> u32 \<Rightarrow> u16" where
  "tcp_checksum seg src_be dst_be =
    (let sum0 = ucast (checksum16_raw (pseudo_header src_be dst_be (length seg))) :: u32;
         sum1 = sum0 + ucast (checksum16_raw seg);
         sum2 = (sum1 AND 0xFFFF) + drop_bit 16 sum1
     in ucast (NOT (csum_fold sum2)))"

text \<open>\<open>struct tcp_hdr\<close> as \<open>tcp_send_segment\<close> fills it; \<open>ck\<close> is the checksum field.\<close>

definition tcp_fields :: "u16 \<Rightarrow> u16 \<Rightarrow> u16 \<Rightarrow> u32 \<Rightarrow> u32 \<Rightarrow> u8 \<Rightarrow> bytes" where
  "tcp_fields ck lport rport sq ak flags =
    le16 lport @ le16 rport @ le32 (htons32 sq) @ le32 (htons32 ak) @ [0x50, flags]
    @ le16 (htons16 4096) @ le16 ck @ le16 0"

definition tcp_segment :: "helix_tcp_sock \<Rightarrow> u8 \<Rightarrow> u32 \<Rightarrow> u32 \<Rightarrow> bytes \<Rightarrow> bytes" where
  "tcp_segment ts flags sq ak data =
    (let hdr = (\<lambda>ck. tcp_fields ck (lport_be ts) (rport_be ts) sq ak flags)
     in hdr (htons16 (tcp_checksum (hdr 0 @ data) (laddr_be ts) (raddr_be ts))) @ data)"

definition tcp_send_segment ::
  "'n nics \<Rightarrow> helix_tcp_sock \<Rightarrow> u8 \<Rightarrow> u32 \<Rightarrow> u32 \<Rightarrow> bytes \<Rightarrow> ('n, 'a) tcp \<Rightarrow> int \<times> ('n, 'a) tcp" where
  "tcp_send_segment N ts flags sq ak data st =
    (if \<not> net_ready st then (-1, st)
     else ip_send N (swap_ip (raddr_be ts)) 6 (tcp_segment ts flags sq ak (take (1500 - 20 - 20) data)) st)"

section \<open>Socket calls\<close>

definition tcp_alloc_conn :: "u64 \<Rightarrow> ('n, 'a) tcp \<Rightarrow> nat option \<times> ('n, 'a) tcp" where
  "tcp_alloc_conn now st =
    (case find (\<lambda>i. \<not> ts_used (sock_at st i)) [0..<8] of
       None \<Rightarrow> (None, st)
     | Some i \<Rightarrow>
         let s0 = ucast (now * 1000 + of_nat (i * 101)) in
         (Some i, put_ts i (zero_ts\<lparr>ts_used := True, ts_state := CLOSED, iss := s0,
                              snd_una := s0, snd_nxt := s0 + 1\<rparr>) st))"

definition tcp_free :: "nat option \<Rightarrow> ('n, 'a) tcp \<Rightarrow> ('n, 'a) tcp" where
  "tcp_free ts st = (case ts of None \<Rightarrow> st | Some i \<Rightarrow> put_ts i zero_ts st)"

definition tcp_find_bound :: "u16 \<Rightarrow> helix_tcp_sock list \<Rightarrow> nat option" where
  "tcp_find_bound port_be socks =
    find (\<lambda>i. ts_used (socks ! i) \<and> ts_bound (socks ! i) \<and> lport_be (socks ! i) = port_be) [0..<8]"

definition tcp_next_ephemeral :: "u16 \<Rightarrow> u16" where
  "tcp_next_ephemeral p = (if p + 1 < 41000 then 41000 else p + 1)"

definition tcp_bind :: "nat option \<Rightarrow> u32 \<Rightarrow> u16 \<Rightarrow> ('n, 'a) tcp \<Rightarrow> int \<times> ('n, 'a) tcp" where
  "tcp_bind tp addr_be port_be st =
    (case tp of
       None \<Rightarrow> (-22, st)
     | Some i \<Rightarrow>
         if \<not> ts_used (sock_at st i) then (-22, st)
         else
           let (port, st1) =
                 (if port_be = 0
                  then (htons16 (g_tcp_ephemeral st),
                        st\<lparr>g_tcp_ephemeral := tcp_next_ephemeral (g_tcp_ephemeral st)\<rparr>)
                  else (port_be, st))
           in if tcp_find_bound port (g_tcp_socks st1) \<noteq> None then (-98, st1)
              else
                let addr = (if addr_be = 0 then net_local_ip_be st1 else addr_be)
                in (0, put_ts i ((sock_at st1 i)\<lparr>laddr_be := addr, lport_be := port, ts_bound := True\<rparr>) st1))"

definition tcp_connect ::
  "'n nics \<Rightarrow> u64 \<Rightarrow> nat option \<Rightarrow> u32 \<Rightarrow> u16 \<Rightarrow> ('n, 'a) tcp \<Rightarrow> int \<times> ('n, 'a) tcp" where
  "tcp_connect N now tp raddr rport st =
    (case tp of
       None \<Rightarrow> (-22, st)
     | Some i \<Rightarrow>
         if \<not> ts_used (sock_at st i) \<or> ts_state (sock_at st i) \<noteq> CLOSED then (-22, st)
         else
           let st1 = (if \<not> ts_bound (sock_at st i) then snd (tcp_bind (Some i) 0 0 st) else st);
               ts = (sock_at st1 i)\<lparr>raddr_be := raddr, rport_be := rport, rcv_nxt := 0,
                      ts_state := SYN_SENT, snd_nxt := iss (sock_at st1 i), retries := 0,
                      last_send_tick := now\<rparr>
           in tcp_send_segment N ts TCP_FLAG_SYN (snd_nxt ts) 0 [] (put_ts i ts st1))"

text \<open>Queueing a received segment at the tail of the receive ring.\<close>

definition rx_put :: "tcp_rx_seg \<Rightarrow> helix_tcp_sock \<Rightarrow> helix_tcp_sock" where
  "rx_put seg ts =
    ts\<lparr>rxq := (rxq ts)[rx_tail ts := seg], rx_tail := (rx_tail ts + 1) mod 8,
       rx_count := rx_count ts + 1\<rparr>"

text \<open>The adoption loop of \<open>tcp_listen\<close> over the pending children, for the listener \<open>i\<close>.\<close>

definition adopt_child :: "nat \<Rightarrow> tcp_pending_child \<Rightarrow> helix_tcp_sock list \<Rightarrow> helix_tcp_sock list" where
  "adopt_child i pc socks =
    (let c = pc_sock pc;
         c0 = (socks ! c)\<lparr>parent := Some i\<rparr>;
         c1 = (if has_ack pc
               then c0\<lparr>ts_state := ESTABLISHED, rcv_nxt := ack_seq pc, snd_una := ack_seq pc, snd_nxt := ack_seq pc\<rparr>
               else c0);
         c2 = (if data_len pc > 0 \<and> rx_count c1 < 8
               then (rx_put \<lparr>rseg_seq = rcv_nxt c1, rseg_len = data_len pc, rseg_data = pc_data pc\<rparr> c1)
                      \<lparr>rcv_nxt := rcv_nxt c1 + of_nat (data_len pc)\<rparr>
               else c1);
         socks1 = socks[c := c2]
     in socks1[i := (socks1 ! i)\<lparr>backlog := backlog (socks1 ! i) @ [c]\<rparr>])"

fun adopt_loop :: "nat \<Rightarrow> tcp_pending_child list \<Rightarrow> helix_tcp_sock list \<Rightarrow> helix_tcp_sock list" where
  "adopt_loop i [] socks = socks"
| "adopt_loop i (pc # pcs) socks =
    adopt_loop i pcs
      (if lport_be (socks ! pc_sock pc) = lport_be (socks ! i) \<and> length (backlog (socks ! i)) < 4
       then adopt_child i pc socks else socks)"

text \<open>The second half of \<open>tcp_listen\<close>: enter LISTEN, adopt the waiting children, compact.\<close>

definition listen_on :: "nat \<Rightarrow> helix_tcp_sock \<Rightarrow> ('n, 'a) tcp \<Rightarrow> ('n, 'a) tcp" where
  "listen_on i ts st =
    (let st1 = put_ts i (ts\<lparr>ts_state := LISTEN, backlog := []\<rparr>) st;
         st2 = st1\<lparr>g_tcp_socks := adopt_loop i (g_tcp_pending st1) (g_tcp_socks st1)\<rparr>
     in st2\<lparr>g_tcp_pending :=
          filter (\<lambda>pc. lport_be (sock_at st2 (pc_sock pc)) \<noteq> lport_be (sock_at st2 i)) (g_tcp_pending st2)\<rparr>)"

definition tcp_listen :: "nat option \<Rightarrow> u16 \<Rightarrow> ('n, 'a) tcp \<Rightarrow> int \<times> ('n, 'a) tcp" where
  "tcp_listen tp port_be st =
    (case tp of
       None \<Rightarrow> (-22, st)
     | Some i \<Rightarrow>
         if \<not> ts_used (sock_at st i) then (-22, st)
         else
           let (ts1, st1) =
                 (if ts_bound (sock_at st i) then (sock_at st i, st)
                  else if port_be \<noteq> 0 then
                    ((sock_at st i)\<lparr>laddr_be := net_local_ip_be st, lport_be := port_be, ts_bound := True\<rparr>, st)
                  else
                    ((sock_at st i)\<lparr>laddr_be := net_local_ip_be st, lport_be := htons16 (g_tcp_ephemeral st),
                       ts_bound := True\<rparr>, st\<lparr>g_tcp_ephemeral := g_tcp_ephemeral st + 1\<rparr>))
           in (0, listen_on i ts1 st1))"

definition tcp_accept :: "nat option \<Rightarrow> ('n, 'a) tcp \<Rightarrow> nat option \<times> ('n, 'a) tcp" where
  "tcp_accept tp st =
    (case tp of
       None \<Rightarrow> (None, st)
     | Some i \<Rightarrow>
         if ts_state (sock_at st i) \<noteq> LISTEN \<or> backlog (sock_at st i) = [] then (None, st)
         else
           let c = hd (backlog (sock_at st i));
               st1 = put_ts i ((sock_at st i)\<lparr>backlog := tl (backlog (sock_at st i))\<rparr>) st
           in (Some c, put_ts c ((sock_at st1 c)\<lparr>parent := None\<rparr>) st1))"

definition tx_put :: "tcp_tx_seg \<Rightarrow> helix_tcp_sock \<Rightarrow> helix_tcp_sock" where
  "tx_put seg ts =
    (if tx_count ts < 16
     then ts\<lparr>txq := (txq ts)[tx_tail ts := seg], tx_tail := (tx_tail ts + 1) mod 16,
             tx_count := tx_count ts + 1\<rparr>
     else ts)"

definition tcp_send_data ::
  "'n nics \<Rightarrow> u64 \<Rightarrow> nat option \<Rightarrow> bytes \<Rightarrow> ('n, 'a) tcp \<Rightarrow> int \<times> ('n, 'a) tcp" where
  "tcp_send_data N now tp data st =
    (case tp of
       None \<Rightarrow> (-22, st)
     | Some i \<Rightarrow>
         if ts_state (sock_at st i) \<noteq> ESTABLISHED then (-22, st)
         else if data = [] then (0, st)
         else
           let d = take 1400 data;
               ts0 = sock_at st i;
               ts1 = (tx_put \<lparr>tseg_seq = snd_nxt ts0, tseg_len = length d, tseg_data = d, tseg_retries = 0\<rparr> ts0)
                       \<lparr>last_send_tick := now\<rparr>;
               (r, st1) = tcp_send_segment N ts1 (TCP_FLAG_PSH OR TCP_FLAG_ACK) (snd_nxt ts1) (rcv_nxt ts1) d
                            (put_ts i ts1 st)
           in (r, put_ts i (ts1\<lparr>snd_nxt := snd_nxt ts1 + of_nat (length d)\<rparr>) st1))"

definition tcp_recv_data :: "nat option \<Rightarrow> nat \<Rightarrow> ('n, 'a) tcp \<Rightarrow> int \<times> bytes \<times> ('n, 'a) tcp" where
  "tcp_recv_data tp buflen st =
    (case tp of
       None \<Rightarrow> (-22, [], st)
     | Some i \<Rightarrow>
         let ts = sock_at st i in
         if ts_state ts \<noteq> ESTABLISHED then (-22, [], st)
         else if rx_count ts = 0 then (-11, [], st)
         else
           let seg = rxq ts ! rx_head ts;
               n = (if rseg_len seg > buflen then buflen else rseg_len seg)
           in (int n, take n (rseg_data seg),
               put_ts i (ts\<lparr>rx_head := (rx_head ts + 1) mod 8, rx_count := rx_count ts - 1,
                           rcv_nxt := rcv_nxt ts + of_nat n\<rparr>) st))"

definition tcp_close :: "'n nics \<Rightarrow> nat option \<Rightarrow> ('n, 'a) tcp \<Rightarrow> int \<times> ('n, 'a) tcp" where
  "tcp_close N tp st =
    (case tp of
       None \<Rightarrow> (-9, st)
     | Some i \<Rightarrow>
         let ts = sock_at st i in
         if \<not> ts_used ts then (-9, st)
         else if ts_state ts = CLOSED then (-9, st)
         else if ts_state ts = ESTABLISHED then
           let ts1 = ts\<lparr>ts_state := FIN_WAIT_1\<rparr> in
           tcp_send_segment N ts1 (TCP_FLAG_FIN OR TCP_FLAG_ACK) (snd_nxt ts1) (rcv_nxt ts1) [] (put_ts i ts1 st)
         else (0, put_ts i zero_ts st))"

section \<open>Segments from the wire\<close>

text \<open>
  The search of \<open>tcp_input\<close>: a connection with the ports and the peer ends it, a listener
  on the port is kept unless a later slot matches.
\<close>

fun tcp_match :: "u32 \<Rightarrow> u16 \<Rightarrow> u16 \<Rightarrow> helix_tcp_sock list \<Rightarrow> nat list \<Rightarrow> nat option \<Rightarrow> nat option" where
  "tcp_match src sport dport socks [] ts = ts"
| "tcp_match src sport dport socks (i # is) ts =
    (let s = socks ! i in
     if \<not> ts_used s then tcp_match src sport dport socks is ts
     else if ts_state s = LISTEN \<and> ts_bound s \<and> lport_be s = dport then
       tcp_match src sport dport socks is (Some i)
     else if ts_state s \<noteq> LISTEN \<and> ts_state s \<noteq> CLOSED \<and> lport_be s = dport
             \<and> rport_be s = sport \<and> raddr_be s = src then Some i
     else tcp_match src sport dport socks is ts)"

text \<open>Noting an early ACK and its data at a pending child.\<close>

definition note_data :: "bytes \<Rightarrow> tcp_pending_child \<Rightarrow> tcp_pending_child" where
  "note_data payload pc =
    (if length payload > 0 \<and> data_len pc = 0 \<and> length payload \<le> 1400
     then pc\<lparr>pc_data := payload, data_len := length payload\<rparr> else pc)"

definition note_ack :: "u32 \<Rightarrow> tcp_pending_child \<Rightarrow> tcp_pending_child" where
  "note_ack sq pc = pc\<lparr>has_ack := True, ack_seq := sq\<rparr>"

definition tcp_input_unmatched ::
  "'n nics \<Rightarrow> u64 \<Rightarrow> u32 \<Rightarrow> u16 \<Rightarrow> u16 \<Rightarrow> u8 \<Rightarrow> u32 \<Rightarrow> bytes \<Rightarrow> ('n, 'a) tcp \<Rightarrow> ('n, 'a) tcp" where
  "tcp_input_unmatched N now src sport dport flags sq payload st =
    (case find (\<lambda>k. rport_be (sock_at st (pc_sock (g_tcp_pending st ! k))) = sport
                 \<and> lport_be (sock_at st (pc_sock (g_tcp_pending st ! k))) = dport)
            [0..<length (g_tcp_pending st)] of
       Some k \<Rightarrow>
         let pc0 = g_tcp_pending st ! k;
             pc1 = (if flag flags TCP_FLAG_ACK \<and> \<not> flag flags TCP_FLAG_SYN then note_ack sq pc0 else pc0)
         in st\<lparr>g_tcp_pending := (g_tcp_pending st)[k := note_data payload pc1]\<rparr>
     | None \<Rightarrow>
         if flag flags TCP_FLAG_SYN \<and> \<not> flag flags TCP_FLAG_ACK \<and> length (g_tcp_pending st) < 4 then
           (case tcp_alloc_conn now st of
              (None, st1) \<Rightarrow> st1
            | (Some c, st1) \<Rightarrow>
                let s0 = ucast (now * 997);
                    child = (sock_at st1 c)\<lparr>laddr_be := net_local_ip_be st1, lport_be := dport,
                       raddr_be := src, rport_be := sport, ts_bound := False, ts_state := SYN_RECEIVED,
                       rcv_nxt := sq + 1, iss := s0, snd_nxt := s0, snd_una := s0, parent := None\<rparr>;
                    st2 = (put_ts c child st1)\<lparr>g_tcp_pending := g_tcp_pending st1 @
                       [\<lparr>pc_sock = c, has_ack = False, ack_seq = 0, data_len = 0, pc_data = []\<rparr>]\<rparr>
                in snd (tcp_send_segment N child (TCP_FLAG_SYN OR TCP_FLAG_ACK)
                         (snd_nxt child) (rcv_nxt child) [] st2))
         else st)"

text \<open>LISTEN + SYN: a child that answers SYN+ACK.\<close>

definition tcp_input_listen ::
  "'n nics \<Rightarrow> u64 \<Rightarrow> nat \<Rightarrow> u32 \<Rightarrow> u16 \<Rightarrow> u32 \<Rightarrow> ('n, 'a) tcp \<Rightarrow> ('n, 'a) tcp" where
  "tcp_input_listen N now i src sport sq st =
    (if length (backlog (sock_at st i)) \<ge> 4 then st
     else
       case tcp_alloc_conn now st of
         (None, st1) \<Rightarrow> st1
       | (Some c, st1) \<Rightarrow>
           let s0 = ucast (now * 997); ts = sock_at st1 i;
               child = (sock_at st1 c)\<lparr>laddr_be := laddr_be ts, lport_be := lport_be ts,
                  raddr_be := src, rport_be := sport, ts_bound := True, ts_state := SYN_RECEIVED,
                  rcv_nxt := sq + 1, iss := s0, snd_nxt := s0, snd_una := s0, parent := Some i\<rparr>
           in snd (tcp_send_segment N child (TCP_FLAG_SYN OR TCP_FLAG_ACK)
                    (snd_nxt child) (rcv_nxt child) [] (put_ts c child st1)))"

text \<open>SYN_RECEIVED + ACK: established; a pending child notes the ACK, a listener's child
  enters its backlog.\<close>

definition tcp_input_syn_received ::
  "nat \<Rightarrow> u32 \<Rightarrow> u32 \<Rightarrow> bytes \<Rightarrow> ('n, 'a) tcp \<Rightarrow> ('n, 'a) tcp" where
  "tcp_input_syn_received i sq ak payload st =
    (let ts = (sock_at st i)\<lparr>ts_state := ESTABLISHED, rcv_nxt := sq, snd_una := ak, snd_nxt := ak\<rparr>;
         st1 = put_ts i ts st
     in case parent ts of
          None \<Rightarrow>
            (case find (\<lambda>k. pc_sock (g_tcp_pending st1 ! k) = i) [0..<length (g_tcp_pending st1)] of
               None \<Rightarrow> st1
             | Some k \<Rightarrow> st1\<lparr>g_tcp_pending := (g_tcp_pending st1)[k :=
                           note_data payload (note_ack sq (g_tcp_pending st1 ! k))]\<rparr>)
        | Some p \<Rightarrow>
            let ps = sock_at st1 p in
            if length (backlog ps) < 4 then put_ts p (ps\<lparr>backlog := backlog ps @ [i]\<rparr>) st1 else st1)"

text \<open>Dropping the acknowledged segments from the head of the transmit ring.\<close>

fun tx_drain :: "nat \<Rightarrow> helix_tcp_sock \<Rightarrow> helix_tcp_sock" where
  "tx_drain 0 ts = ts"
| "tx_drain (Suc n) ts =
    (let oldest = txq ts ! tx_head ts in
     if tseg_seq oldest + of_nat (tseg_len oldest) \<le> snd_una ts
     then tx_drain n (ts\<lparr>tx_head := (tx_head ts + 1) mod 16, tx_count := tx_count ts - 1\<rparr>)
     else ts)"

definition tcp_ack :: "u32 \<Rightarrow> helix_tcp_sock \<Rightarrow> helix_tcp_sock" where
  "tcp_ack ak ts =
    (let ts1 = (if ak > snd_una ts then ts\<lparr>snd_una := ak\<rparr> else ts) in tx_drain (tx_count ts1) ts1)"

text \<open>ESTABLISHED: acknowledgement, data, FIN, in this order.\<close>

definition tcp_input_established ::
  "'n nics \<Rightarrow> nat \<Rightarrow> u8 \<Rightarrow> u32 \<Rightarrow> u32 \<Rightarrow> bytes \<Rightarrow> ('n, 'a) tcp \<Rightarrow> ('n, 'a) tcp" where
  "tcp_input_established N i flags sq ak payload st =
    (let ts1 = (if flag flags TCP_FLAG_ACK then tcp_ack ak (sock_at st i) else sock_at st i);
         st1 = put_ts i ts1 st;
         st2 = (if length payload > 0 \<and> rx_count ts1 < 8 then
                  let d = take 1400 payload;
                      ts2 = rx_put \<lparr>rseg_seq = sq, rseg_len = length d, rseg_data = d\<rparr> ts1
                  in snd (tcp_send_segment N ts2 TCP_FLAG_ACK (snd_nxt ts2) (sq + of_nat (length d)) []
                            (put_ts i ts2 st1))
                else st1)
     in if flag flags TCP_FLAG_FIN then
          let ts3 = (sock_at st2 i)\<lparr>ts_state := CLOSE_WAIT\<rparr> in
          snd (tcp_send_segment N ts3 TCP_FLAG_ACK (snd_nxt ts3) (sq + 1) [] (put_ts i ts3 st2))
        else st2)"

text \<open>A FIN in FIN_WAIT_1 or FIN_WAIT_2: acknowledge it and release the slot.\<close>

definition tcp_input_fin :: "'n nics \<Rightarrow> nat \<Rightarrow> u32 \<Rightarrow> ('n, 'a) tcp \<Rightarrow> ('n, 'a) tcp" where
  "tcp_input_fin N i sq st =
    (let ts = (sock_at st i)\<lparr>ts_state := TIME_WAIT\<rparr>
     in put_ts i zero_ts (snd (tcp_send_segment N ts TCP_FLAG_ACK (snd_nxt ts) (sq + 1) [] (put_ts i ts st))))"

definition tcp_input :: "'n nics \<Rightarrow> u64 \<Rightarrow> u32 \<Rightarrow> bytes \<Rightarrow> ('n, 'a) tcp \<Rightarrow> ('n, 'a) tcp" where
  "tcp_input N now src pkt st =
    (if \<not> net_ready st \<or> length pkt < 20 then st
     else
       let sport = rd16 pkt 0; dport = rd16 pkt 2; flags = pkt ! 13;
           sq = htons32 (rd32 pkt 4); ak = htons32 (rd32 pkt 8);
           hdr_len = unat (drop_bit 4 (pkt ! 12)) * 4
       in if hdr_len < 20 \<or> hdr_len > length pkt then st
          else
            let payload = drop hdr_len pkt in
            case tcp_match src sport dport (g_tcp_socks st) [0..<8] None of
              None \<Rightarrow> tcp_input_unmatched N now src sport dport flags sq payload st
            | Some i \<Rightarrow>
                let ts = sock_at st i in
                if ts_state ts = LISTEN \<and> flag flags TCP_FLAG_SYN \<and> \<not> flag flags TCP_FLAG_ACK then
                  tcp_input_listen N now i src sport sq st
                else if ts_state ts = SYN_RECEIVED \<and> flag flags TCP_FLAG_ACK then
                  tcp_input_syn_received i sq ak payload st
                else if ts_state ts = SYN_SENT \<and> flag flags TCP_FLAG_SYN \<and> flag flags TCP_FLAG_ACK then
                  let ts1 = ts\<lparr>ts_state := ESTABLISHED, rcv_nxt := sq + 1, snd_una := ak, snd_nxt := ak\<rparr>
                  in snd (tcp_send_segment N ts1 TCP_FLAG_ACK (snd_nxt ts1) (rcv_nxt ts1) [] (put_ts i ts1 st))
                else if ts_state ts = ESTABLISHED then
                  tcp_input_established N i flags sq ak payload st
                else if ts_state ts = FIN_WAIT_1 \<and> flag flags TCP_FLAG_ACK then
                  (if flag flags TCP_FLAG_FIN then tcp_input_fin N i sq st
                   else put_ts i (ts\<lparr>ts_state := FIN_WAIT_2\<rparr>) st)
                else if ts_state ts = FIN_WAIT_2 \<and> flag flags TCP_FLAG_FIN then
                  tcp_input_fin N i sq st
                else st)"

section \<open>Retransmission\<close>

definition bump_retries :: "nat \<Rightarrow> helix_tcp_sock \<Rightarrow> helix_tcp_sock" where
  "bump_retries idx ts =
    ts\<lparr>txq := (txq ts)[idx := (txq ts ! idx)\<lparr>tseg_retries := tseg_retries (txq ts ! idx) + 1\<rparr>]\<rparr>"

text \<open>
  Resending the queued segments \<open>k, k + 1, ...\<close> of socket \<open>i\<close>, \<open>n\<close> of them; the flag tells
  that a segment ran out of retries and the socket was dropped.
\<close>

fun resend_loop ::
  "'n nics \<Rightarrow> nat \<Rightarrow> nat \<Rightarrow> nat \<Rightarrow> ('n, 'a) tcp \<Rightarrow> bool \<times> ('n, 'a) tcp" where
  "resend_loop N i 0 k st = (False, st)"
| "resend_loop N i (Suc n) k st =
    (let idx = (tx_head (sock_at st i) + k) mod 16;
         ts = bump_retries idx (sock_at st i);
         tx = txq ts ! idx
     in if tseg_retries tx > 3 then (True, put_ts i zero_ts st)
        else resend_loop N i n (k + 1)
               (snd (tcp_send_segment N ts (TCP_FLAG_PSH OR TCP_FLAG_ACK) (tseg_seq tx) (rcv_nxt ts)
                       (tseg_data tx) (put_ts i ts st))))"

definition retransmit_sock :: "'n nics \<Rightarrow> u64 \<Rightarrow> nat \<Rightarrow> ('n, 'a) tcp \<Rightarrow> ('n, 'a) tcp" where
  "retransmit_sock N now i st =
    (let ts = sock_at st i in
     if \<not> ts_used ts then st
     else if ts_state ts = SYN_SENT then
       (if now - last_send_tick ts < 50 then st
        else if retries ts \<ge> 3 then
          (if now - s_last_retransmit_log st < 3000 then st else st\<lparr>s_last_retransmit_log := now\<rparr>)
        else
          let ts1 = ts\<lparr>retries := retries ts + 1, last_send_tick := now\<rparr>
          in snd (tcp_send_segment N ts1 TCP_FLAG_SYN (snd_nxt ts1) 0 [] (put_ts i ts1 st)))
     else if ts_state ts \<noteq> ESTABLISHED \<and> ts_state ts \<noteq> FIN_WAIT_1 then st
     else if tx_count ts = 0 then st
     else if now - last_send_tick ts < 50 then st
     else
       let (dropped, st1) = resend_loop N i (tx_count ts) 0 st
       in if dropped then st1 else put_ts i ((sock_at st1 i)\<lparr>last_send_tick := now\<rparr>) st1)"

definition tcp_retransmit :: "'n nics \<Rightarrow> u64 \<Rightarrow> ('n, 'a) tcp \<Rightarrow> ('n, 'a) tcp" where
  "tcp_retransmit N now st = fold (retransmit_sock N now) [0..<8] st"

definition tcp_init :: "('n, 'a) tcp \<Rightarrow> ('n, 'a) tcp" where
  "tcp_init st =
    st\<lparr>g_tcp_socks := map (\<lambda>ts. if ts_used ts then ts else zero_ts) (g_tcp_socks st),
       g_tcp_ephemeral := 41000\<rparr>"

section \<open>What sending may change\<close>

lemma tcp_send_segmentE:
  obtains r c k where "tcp_send_segment N ts flags sq ak d st = (r, st\<lparr>nic_dev := c, g_ip_id := k\<rparr>)"
proof (cases "g_ready st")
  case True
  then show thesis
    using that by (auto simp: tcp_send_segment_def net_ready_def intro: ip_sendE)
next
  case False
  then have "tcp_send_segment N ts flags sq ak d st = (-1, st\<lparr>nic_dev := nic_dev st, g_ip_id := g_ip_id st\<rparr>)"
    by (simp add: tcp_send_segment_def net_ready_def)
  then show thesis by (rule that)
qed

lemma tcp_send_same [simp]:
  "g_tcp_socks (snd (tcp_send_segment N ts flags sq ak d st)) = g_tcp_socks st"
  "g_tcp_pending (snd (tcp_send_segment N ts flags sq ak d st)) = g_tcp_pending st"
  "g_socks (snd (tcp_send_segment N ts flags sq ak d st)) = g_socks st"
  "g_ready (snd (tcp_send_segment N ts flags sq ak d st)) = g_ready st"
  "g_ip (snd (tcp_send_segment N ts flags sq ak d st)) = g_ip st"
  "s_last_retransmit_log (snd (tcp_send_segment N ts flags sq ak d st)) = s_last_retransmit_log st"
  by (rule tcp_send_segmentE [of N ts flags sq ak d st]; simp)+

lemma put_ts_socks [simp]:
  "g_tcp_socks (put_ts i ts st) = (g_tcp_socks st)[i := ts]"
  "g_tcp_pending (put_ts i ts st) = g_tcp_pending st"
  "g_socks (put_ts i ts st) = g_socks st"
  "g_ready (put_ts i ts st) = g_ready st"
  "g_ip (put_ts i ts st) = g_ip st"
  by (simp_all add: put_ts_def)

end
