(* ===== verification/Tcp_Props.thy ===== *)
theory Tcp_Props
  imports Tcp
begin

text \<open>
  Properties of the TCP sockets of \<open>Tcp\<close>: the table invariant (every ring index inside its
  array, every stored length inside its buffer, every pointer inside the table) and its
  preservation by every operation; the transitions a segment may cause; what an
  acknowledgement removes from the transmit queue; when retransmission gives up; and the
  checksum of an outgoing segment.
\<close>

section \<open>The invariant\<close>

definition rseg_ok :: "tcp_rx_seg \<Rightarrow> bool" where
  "rseg_ok g \<longleftrightarrow> rseg_len g = length (rseg_data g) \<and> rseg_len g \<le> 1400"

definition tseg_ok :: "tcp_tx_seg \<Rightarrow> bool" where
  "tseg_ok g \<longleftrightarrow> tseg_len g = length (tseg_data g) \<and> tseg_len g \<le> 1400 \<and> tseg_retries g \<le> 3"

definition ts_ok :: "helix_tcp_sock \<Rightarrow> bool" where
  "ts_ok ts \<longleftrightarrow>
     cring_ok 8 (rxq ts) (rx_head ts) (rx_tail ts) (rx_count ts) \<and> list_all rseg_ok (rxq ts) \<and>
     cring_ok 16 (txq ts) (tx_head ts) (tx_tail ts) (tx_count ts) \<and> list_all tseg_ok (txq ts) \<and>
     length (backlog ts) \<le> 4 \<and> list_all (\<lambda>c. c < 8) (backlog ts) \<and> pred_option (\<lambda>p. p < 8) (parent ts)"

definition pc_ok :: "tcp_pending_child \<Rightarrow> bool" where
  "pc_ok pc \<longleftrightarrow> pc_sock pc < 8 \<and> data_len pc = length (pc_data pc) \<and> data_len pc \<le> 1400"

definition tcp_ok :: "('n, 'a) tcp \<Rightarrow> bool" where
  "tcp_ok st \<longleftrightarrow> length (g_tcp_socks st) = 8 \<and> list_all ts_ok (g_tcp_socks st)
     \<and> length (g_tcp_pending st) \<le> 4 \<and> list_all pc_ok (g_tcp_pending st)"

lemma list_all_update: "list_all P xs \<Longrightarrow> P x \<Longrightarrow> list_all P (xs[i := x])"
  by (auto simp: list_all_iff dest!: set_update_subset_insert [THEN subsetD])

lemma tcp_ok_at: "tcp_ok st \<Longrightarrow> i < 8 \<Longrightarrow> ts_ok (g_tcp_socks st ! i)"
  by (simp add: tcp_ok_def list_all_length)

lemma tcp_ok_put [helix_inv]: "tcp_ok st \<Longrightarrow> ts_ok ts \<Longrightarrow> tcp_ok (put_ts i ts st)"
  by (simp add: tcp_ok_def list_all_update)

lemma tcp_ok_send [simp]: "tcp_ok (snd (tcp_send_segment N ts f sq ak d st)) \<longleftrightarrow> tcp_ok st"
  by (simp add: tcp_ok_def)

lemma tcp_ok_upd [simp]:
  "tcp_ok (st\<lparr>g_tcp_ephemeral := e\<rparr>) \<longleftrightarrow> tcp_ok st"
  "tcp_ok (st\<lparr>s_last_retransmit_log := t\<rparr>) \<longleftrightarrow> tcp_ok st"
  by (simp_all add: tcp_ok_def)

lemma zero_ts_ok: "ts_ok zero_ts"
  using cring_empty [of 8 zero_rseg] cring_empty [of 16 zero_tseg]
  by (simp add: ts_ok_def zero_ts_def rseg_ok_def zero_rseg_def tseg_ok_def zero_tseg_def list_all_iff)

text \<open>The fields outside the invariant.\<close>

lemma ts_ok_fields [simp]:
  "ts_ok (ts\<lparr>ts_used := b\<rparr>) = ts_ok ts" "ts_ok (ts\<lparr>ts_state := x\<rparr>) = ts_ok ts"
  "ts_ok (ts\<lparr>laddr_be := a\<rparr>) = ts_ok ts" "ts_ok (ts\<lparr>lport_be := p\<rparr>) = ts_ok ts"
  "ts_ok (ts\<lparr>ts_bound := b\<rparr>) = ts_ok ts" "ts_ok (ts\<lparr>raddr_be := a\<rparr>) = ts_ok ts"
  "ts_ok (ts\<lparr>rport_be := p\<rparr>) = ts_ok ts" "ts_ok (ts\<lparr>snd_una := a\<rparr>) = ts_ok ts"
  "ts_ok (ts\<lparr>snd_nxt := a\<rparr>) = ts_ok ts" "ts_ok (ts\<lparr>rcv_nxt := a\<rparr>) = ts_ok ts"
  "ts_ok (ts\<lparr>iss := a\<rparr>) = ts_ok ts" "ts_ok (ts\<lparr>last_send_tick := t\<rparr>) = ts_ok ts"
  "ts_ok (ts\<lparr>retries := n\<rparr>) = ts_ok ts" "ts_ok ts \<Longrightarrow> ts_ok (ts\<lparr>parent := None\<rparr>)"
  by (simp_all add: ts_ok_def)

lemma ts_ok_parent: "ts_ok ts \<Longrightarrow> i < 8 \<Longrightarrow> ts_ok (ts\<lparr>parent := Some i\<rparr>)"
  by (simp add: ts_ok_def)

lemma ts_ok_backlog: "ts_ok ts \<Longrightarrow> length bl \<le> 4 \<Longrightarrow> list_all (\<lambda>c. c < 8) bl \<Longrightarrow> ts_ok (ts\<lparr>backlog := bl\<rparr>)"
  by (simp add: ts_ok_def)

lemma rx_put_ok: "ts_ok ts \<Longrightarrow> rx_count ts < 8 \<Longrightarrow> rseg_ok g \<Longrightarrow> ts_ok (rx_put g ts)"
  using cring_put(1) [of 8 "rxq ts" "rx_head ts" "rx_tail ts" "rx_count ts" g]
  by (simp add: ts_ok_def rx_put_def list_all_update)

lemma tx_put_ok: "ts_ok ts \<Longrightarrow> tseg_ok g \<Longrightarrow> ts_ok (tx_put g ts)"
  using cring_put(1) [of 16 "txq ts" "tx_head ts" "tx_tail ts" "tx_count ts" g]
  by (simp add: ts_ok_def tx_put_def list_all_update)

section \<open>Every operation keeps it\<close>

lemma alloc_ok [helix_inv]: "tcp_ok st \<Longrightarrow> tcp_ok (snd (tcp_alloc_conn now st))"
  by (simp add: tcp_alloc_conn_def Let_def tcp_ok_put zero_ts_ok split: option.split)

lemma alloc_index: "tcp_alloc_conn now st = (Some c, st1) \<Longrightarrow> c < 8 \<and> \<not> ts_used (g_tcp_socks st ! c)"
  by (auto simp: tcp_alloc_conn_def Let_def dest!: find_at split: option.splits)

lemma free_ok: "tcp_ok st \<Longrightarrow> tcp_ok (tcp_free tp st)"
  by (simp add: tcp_free_def tcp_ok_put zero_ts_ok split: option.split)

lemma tcp_bind_ok: "tcp_ok st \<Longrightarrow> \<forall>i. tp = Some i \<longrightarrow> i < 8 \<Longrightarrow> tcp_ok (snd (tcp_bind tp a p st))"
  by (auto simp: tcp_bind_def Let_def tcp_ok_at intro!: tcp_ok_put split: option.split)

lemma tcp_connect_ok: "tcp_ok st \<Longrightarrow> \<forall>i. tp = Some i \<longrightarrow> i < 8 \<Longrightarrow> tcp_ok (snd (tcp_connect N now tp a p st))"
  by (auto simp: tcp_connect_def Let_def tcp_ok_at tcp_bind_ok intro!: tcp_ok_put split: option.split)

lemma adopt_child_ok:
  assumes "length socks = 8" "list_all ts_ok socks" "pc_ok pc" "i < 8" "length (backlog (socks ! i)) < 4"
  shows "length (adopt_child i pc socks) = 8 \<and> list_all ts_ok (adopt_child i pc socks)"
proof -
  let ?c = "pc_sock pc"
  define c1 where "c1 = (if has_ack pc
      then (socks ! ?c)\<lparr>parent := Some i, ts_state := ESTABLISHED, rcv_nxt := ack_seq pc,
             snd_una := ack_seq pc, snd_nxt := ack_seq pc\<rparr>
      else (socks ! ?c)\<lparr>parent := Some i\<rparr>)"
  define c2 where "c2 = (if data_len pc > 0 \<and> rx_count c1 < 8
      then (rx_put \<lparr>rseg_seq = rcv_nxt c1, rseg_len = data_len pc, rseg_data = pc_data pc\<rparr> c1)
             \<lparr>rcv_nxt := rcv_nxt c1 + of_nat (data_len pc)\<rparr>
      else c1)"
  have c: "?c < 8" using assms(3) by (simp add: pc_ok_def)
  then have "ts_ok (socks ! ?c)" using assms by (simp add: list_all_length)
  then have "ts_ok c1" unfolding c1_def using assms(4) by (simp add: ts_ok_parent)
  then have c2: "ts_ok c2"
    unfolding c2_def using assms(3) by (simp add: rx_put_ok rseg_ok_def pc_ok_def)
  have b2: "backlog c2 = backlog (socks ! ?c)" by (simp add: c2_def c1_def rx_put_def)
  let ?s1 = "socks[?c := c2]"
  have s1: "list_all ts_ok ?s1" using assms(2) c2 by (simp add: list_all_update)
  then have "ts_ok (?s1 ! i)" using assms(1,4) by (simp add: list_all_length)
  moreover have "backlog (?s1 ! i) = backlog (socks ! i)"
    using b2 assms(1,4) by (cases "?c = i") simp_all
  moreover have "list_all (\<lambda>c. c < 8) (backlog (socks ! i))"
    using assms(1,2,4) by (simp add: list_all_length ts_ok_def)
  ultimately have "ts_ok ((?s1 ! i)\<lparr>backlog := backlog (?s1 ! i) @ [?c]\<rparr>)"
    using assms(5) c by (intro ts_ok_backlog) simp_all
  moreover have "adopt_child i pc socks = ?s1[i := (?s1 ! i)\<lparr>backlog := backlog (?s1 ! i) @ [?c]\<rparr>]"
    unfolding adopt_child_def Let_def c2_def c1_def by simp
  ultimately show ?thesis using s1 assms(1) by (simp add: list_all_update)
qed

lemma adopt_loop_ok:
  "length socks = 8 \<Longrightarrow> list_all ts_ok socks \<Longrightarrow> list_all pc_ok pcs \<Longrightarrow> i < 8 \<Longrightarrow>
    length (adopt_loop i pcs socks) = 8 \<and> list_all ts_ok (adopt_loop i pcs socks)"
  by (induction i pcs socks rule: adopt_loop.induct) (simp_all add: adopt_child_ok)

lemma list_all_filter: "list_all P xs \<Longrightarrow> list_all P (filter Q xs)"
  by (auto simp: list_all_iff)

lemma listen_on_ok:
  assumes "tcp_ok st" "ts_ok ts" "i < 8"
  shows "tcp_ok (listen_on i ts st)"
proof -
  let ?st1 = "put_ts i (ts\<lparr>ts_state := LISTEN, backlog := []\<rparr>) st"
  have "tcp_ok ?st1" using assms by (intro tcp_ok_put ts_ok_backlog) simp_all
  then show ?thesis
    using adopt_loop_ok [of "g_tcp_socks ?st1" "g_tcp_pending st" i] assms(3)
    unfolding listen_on_def Let_def tcp_ok_def by (auto intro: list_all_filter order_trans [OF length_filter_le])
qed

lemma tcp_listen_ok: "tcp_ok st \<Longrightarrow> \<forall>i. tp = Some i \<longrightarrow> i < 8 \<Longrightarrow> tcp_ok (snd (tcp_listen tp p st))"
  by (auto simp: tcp_listen_def Let_def tcp_ok_at intro!: listen_on_ok split: option.split)

lemma tcp_accept_ok:
  assumes ok: "tcp_ok st" and i: "\<forall>i. tp = Some i \<longrightarrow> i < 8"
  shows "tcp_ok (snd (tcp_accept tp st))"
proof (cases "\<exists>i. tp = Some i \<and> ts_state (g_tcp_socks st ! i) = LISTEN \<and> backlog (g_tcp_socks st ! i) \<noteq> []")
  case False
  then show ?thesis using ok by (auto simp: tcp_accept_def split: option.split)
next
  case True
  then obtain i where t: "tp = Some i" "ts_state (g_tcp_socks st ! i) = LISTEN" "backlog (g_tcp_socks st ! i) \<noteq> []"
    by blast
  then have i8: "i < 8" using i by simp
  let ?b = "backlog (g_tcp_socks st ! i)"
  have b: "length ?b \<le> 4" "list_all (\<lambda>c. c < 8) ?b" using tcp_ok_at [OF ok i8] by (simp_all add: ts_ok_def)
  then have c: "hd ?b < 8" "list_all (\<lambda>c. c < 8) (tl ?b)" "length (tl ?b) \<le> 4"
    using t(3) by (cases ?b; simp)+
  let ?st1 = "put_ts i ((g_tcp_socks st ! i)\<lparr>backlog := tl ?b\<rparr>) st"
  have o1: "tcp_ok ?st1" using c by (intro tcp_ok_put ts_ok_backlog ok tcp_ok_at i8)
  have "tcp_ok (put_ts (hd ?b) ((g_tcp_socks ?st1 ! hd ?b)\<lparr>parent := None\<rparr>) ?st1)"
    by (rule tcp_ok_put [OF o1 ts_ok_fields(14) [OF tcp_ok_at [OF o1 c(1)]]])
  then show ?thesis using t by (simp add: tcp_accept_def Let_def)
qed

lemma send_data_ok:
  assumes ok: "tcp_ok st" and i: "\<forall>i. tp = Some i \<longrightarrow> i < 8"
  shows "tcp_ok (snd (tcp_send_data N now tp d st))"
proof (cases tp)
  case None
  then show ?thesis using ok by (simp add: tcp_send_data_def)
next
  case (Some i)
  then have "ts_ok (g_tcp_socks st ! i)" using ok i by (simp add: tcp_ok_at)
  then have t: "ts_ok (tx_put \<lparr>tseg_seq = q, tseg_len = length (take 1400 d), tseg_data = take 1400 d, tseg_retries = 0\<rparr> (g_tcp_socks st ! i))" for q
    by (rule tx_put_ok) (simp add: tseg_ok_def)
  show ?thesis
    using ok t by (simp add: tcp_send_data_def Some Let_def case_prod_beta tcp_ok_put)
qed

lemma recv_data_ok:
  assumes ok: "tcp_ok st" and i: "\<forall>i. tp = Some i \<longrightarrow> i < 8"
  shows "tcp_ok (snd (snd (tcp_recv_data tp n st)))"
proof (cases tp)
  case None
  then show ?thesis using ok by (simp add: tcp_recv_data_def)
next
  case (Some i)
  then have t: "ts_ok (g_tcp_socks st ! i)" using ok i by (simp add: tcp_ok_at)
  have "ts_ok ((g_tcp_socks st ! i)\<lparr>rx_head := (rx_head (g_tcp_socks st ! i) + 1) mod 8,
      rx_count := rx_count (g_tcp_socks st ! i) - 1\<rparr>)" if "rx_count (g_tcp_socks st ! i) \<noteq> 0"
  proof -
    from that obtain m where "rx_count (g_tcp_socks st ! i) = Suc m" using not0_implies_Suc by blast
    with t cring_get(1) [of 8 "rxq (g_tcp_socks st ! i)" "rx_head (g_tcp_socks st ! i)" "rx_tail (g_tcp_socks st ! i)" m]
    show ?thesis by (simp add: ts_ok_def)
  qed
  then show ?thesis using ok by (simp add: tcp_recv_data_def Some Let_def tcp_ok_put)
qed

lemma close_ok: "tcp_ok st \<Longrightarrow> \<forall>i. tp = Some i \<longrightarrow> i < 8 \<Longrightarrow> tcp_ok (snd (tcp_close N tp st))"
  by (auto simp: tcp_close_def Let_def tcp_ok_at zero_ts_ok intro!: tcp_ok_put split: option.split)

lemma note_ok: "pc_ok pc \<Longrightarrow> pc_ok (note_ack q pc)" "pc_ok pc \<Longrightarrow> pc_ok (note_data d pc)"
  by (simp_all add: pc_ok_def note_ack_def note_data_def)

lemma tcp_ok_pending:
  "tcp_ok st \<Longrightarrow> length ps \<le> 4 \<Longrightarrow> list_all pc_ok ps \<Longrightarrow> tcp_ok (st\<lparr>g_tcp_pending := ps\<rparr>)"
  by (simp add: tcp_ok_def)

lemma pending_update_ok:
  "tcp_ok st \<Longrightarrow> pc_ok pc \<Longrightarrow> tcp_ok (st\<lparr>g_tcp_pending := (g_tcp_pending st)[k := pc]\<rparr>)"
  by (simp add: tcp_ok_def list_all_update)

lemma pending_at: "tcp_ok st \<Longrightarrow> k < length (g_tcp_pending st) \<Longrightarrow> pc_ok (g_tcp_pending st ! k)"
  by (simp add: tcp_ok_def list_all_length)

lemma unmatched_ok:
  assumes ok: "tcp_ok st"
  shows "tcp_ok (tcp_input_unmatched N now src sp dp f q d st)"
proof -
  have *: "tcp_ok (st\<lparr>g_tcp_pending := (g_tcp_pending st)[k := note_data d (g_tcp_pending st ! k)]\<rparr>)"
    "tcp_ok (st\<lparr>g_tcp_pending := (g_tcp_pending st)[k := note_data d (note_ack q (g_tcp_pending st ! k))]\<rparr>)"
    if "k < length (g_tcp_pending st)" for k
    by (rule pending_update_ok [OF ok], intro note_ok pending_at ok that)+
  have **: "tcp_ok ((put_ts c ts st1)\<lparr>g_tcp_pending := g_tcp_pending st1 @
      [\<lparr>pc_sock = c, has_ack = False, ack_seq = 0, data_len = 0, pc_data = []\<rparr>]\<rparr>)"
    if a: "tcp_alloc_conn now st = (Some c, st1)" "length (g_tcp_pending st) < 4" and t: "ts_ok ts" for c st1 ts
  proof (rule tcp_ok_pending)
    have o1: "tcp_ok st1" using alloc_ok [OF ok, of now] a by simp
    then show "tcp_ok (put_ts c ts st1)" using t by (rule tcp_ok_put)
    have "g_tcp_pending st1 = g_tcp_pending st"
      using a(1) by (auto simp: tcp_alloc_conn_def Let_def split: option.splits)
    with a o1 alloc_index [OF a(1)] show "length (g_tcp_pending st1 @
        [\<lparr>pc_sock = c, has_ack = False, ack_seq = 0, data_len = 0, pc_data = []\<rparr>]) \<le> 4"
      "list_all pc_ok (g_tcp_pending st1 @
        [\<lparr>pc_sock = c, has_ack = False, ack_seq = 0, data_len = 0, pc_data = []\<rparr>])"
      by (simp_all add: tcp_ok_def pc_ok_def)
  qed
  have t: "ts_ok (g_tcp_socks st1 ! c)" if a: "tcp_alloc_conn now st = (Some c, st1)" for c st1
    using alloc_ok [OF ok, of now] a alloc_index [OF a] by (simp add: tcp_ok_at)
  have n: "tcp_ok st1" if "tcp_alloc_conn now st = (x, st1)" for x st1
    using alloc_ok [OF ok, of now] that by simp
  show ?thesis
    unfolding tcp_input_unmatched_def Let_def
    using ok * ** t n by (auto simp: dest!: find_at split: option.split prod.split)
qed

lemma input_listen_ok:
  assumes ok: "tcp_ok st" and i: "i < 8"
  shows "tcp_ok (tcp_input_listen N now i src sp q st)"
proof -
  have n: "tcp_ok st1" if "tcp_alloc_conn now st = (x, st1)" for x st1
    using alloc_ok [OF ok, of now] that by simp
  have t: "ts_ok (g_tcp_socks st1 ! c)" if a: "tcp_alloc_conn now st = (Some c, st1)" for c st1
    using n [OF a] alloc_index [OF a] by (simp add: tcp_ok_at)
  show ?thesis
    unfolding tcp_input_listen_def Let_def
    using ok n t i by (auto intro!: tcp_ok_put ts_ok_parent split: option.split prod.split)
qed

lemma input_syn_received_ok:
  assumes ok: "tcp_ok st" and i: "i < 8"
  shows "tcp_ok (tcp_input_syn_received i q ak d st)"
proof -
  let ?ts = "(g_tcp_socks st ! i)\<lparr>ts_state := ESTABLISHED, rcv_nxt := q, snd_una := ak, snd_nxt := ak\<rparr>"
  let ?st1 = "put_ts i ?ts st"
  have o1: "tcp_ok ?st1" using tcp_ok_at [OF ok i] by (intro tcp_ok_put ok) simp
  have p: "tcp_ok (?st1\<lparr>g_tcp_pending := (g_tcp_pending ?st1)[k := note_data d (note_ack q (g_tcp_pending ?st1 ! k))]\<rparr>)"
    if "k < length (g_tcp_pending ?st1)" for k
    by (rule pending_update_ok [OF o1], intro note_ok pending_at o1 that)
  have b: "tcp_ok (put_ts p ((g_tcp_socks ?st1 ! p)\<lparr>backlog := backlog (g_tcp_socks ?st1 ! p) @ [i]\<rparr>) ?st1)"
    if "parent ?ts = Some p" "length (backlog (g_tcp_socks ?st1 ! p)) < 4" for p
  proof (rule tcp_ok_put [OF o1], rule ts_ok_backlog)
    have "p < 8" using tcp_ok_at [OF ok i] that(1) by (simp add: ts_ok_def)
    then show t: "ts_ok (g_tcp_socks ?st1 ! p)" by (rule tcp_ok_at [OF o1])
    show "length (backlog (g_tcp_socks ?st1 ! p) @ [i]) \<le> 4" using that(2) by simp
    show "list_all (\<lambda>c. c < 8) (backlog (g_tcp_socks ?st1 ! p) @ [i])" using t i by (simp add: ts_ok_def)
  qed
  show ?thesis
    unfolding tcp_input_syn_received_def
    using o1 p b by (simp add: Let_def split: option.split) (auto dest!: find_at)
qed

lemma tx_drain_ok: "ts_ok ts \<Longrightarrow> n \<le> tx_count ts \<Longrightarrow> ts_ok (tx_drain n ts)"
proof (induction n ts rule: tx_drain.induct)
  case (2 n ts)
  then obtain m where m: "tx_count ts = Suc m" by (cases "tx_count ts") auto
  then have "ts_ok (ts\<lparr>tx_head := (tx_head ts + 1) mod 16, tx_count := tx_count ts - 1\<rparr>)"
    using 2(2) cring_get(1) [of 16 "txq ts" "tx_head ts" "tx_tail ts" m] by (simp add: ts_ok_def)
  with 2 m show ?case by (simp add: Let_def)
qed simp

lemma tcp_ack_ok: "ts_ok ts \<Longrightarrow> ts_ok (tcp_ack ak ts)"
  by (simp add: tcp_ack_def Let_def tx_drain_ok)

lemma input_established_ok:
  assumes ok: "tcp_ok st" and i: "i < 8"
  shows "tcp_ok (tcp_input_established N i f q ak d st)"
proof -
  define ts1 where "ts1 = (if flag f TCP_FLAG_ACK then tcp_ack ak (g_tcp_socks st ! i) else g_tcp_socks st ! i)"
  have t1: "ts_ok ts1" using tcp_ok_at [OF ok i] by (simp add: ts1_def tcp_ack_ok)
  define st2 where "st2 = (if length d > 0 \<and> rx_count ts1 < 8 then
      snd (tcp_send_segment N (rx_put \<lparr>rseg_seq = q, rseg_len = length (take 1400 d), rseg_data = take 1400 d\<rparr> ts1)
        TCP_FLAG_ACK (snd_nxt (rx_put \<lparr>rseg_seq = q, rseg_len = length (take 1400 d), rseg_data = take 1400 d\<rparr> ts1))
        (q + of_nat (length (take 1400 d))) []
        (put_ts i (rx_put \<lparr>rseg_seq = q, rseg_len = length (take 1400 d), rseg_data = take 1400 d\<rparr> ts1) (put_ts i ts1 st)))
      else put_ts i ts1 st)"
  have o2: "tcp_ok st2"
    unfolding st2_def using t1 ok by (auto intro!: tcp_ok_put rx_put_ok simp: rseg_ok_def)
  have "tcp_input_established N i f q ak d st =
      (if flag f TCP_FLAG_FIN then
         snd (tcp_send_segment N ((g_tcp_socks st2 ! i)\<lparr>ts_state := CLOSE_WAIT\<rparr>) TCP_FLAG_ACK
           (snd_nxt ((g_tcp_socks st2 ! i)\<lparr>ts_state := CLOSE_WAIT\<rparr>)) (q + 1) []
           (put_ts i ((g_tcp_socks st2 ! i)\<lparr>ts_state := CLOSE_WAIT\<rparr>) st2))
       else st2)"
    by (simp only: tcp_input_established_def Let_def ts1_def [symmetric] st2_def)
  with o2 tcp_ok_at [OF o2 i] show ?thesis by (simp add: tcp_ok_put)
qed

lemma input_fin_ok: "tcp_ok st \<Longrightarrow> i < 8 \<Longrightarrow> tcp_ok (tcp_input_fin N i q st)"
  by (simp add: tcp_input_fin_def Let_def tcp_ok_put tcp_ok_at zero_ts_ok)

lemma tcp_match_index:
  "tcp_match src sp dp socks is acc = Some i \<Longrightarrow> acc = Some i \<or> i \<in> set is"
  by (induction src sp dp socks "is" acc rule: tcp_match.induct) (auto simp: Let_def split: if_splits)

lemma tcp_match_less: "tcp_match src sp dp socks [0..<8] None = Some i \<Longrightarrow> i < 8"
  by (drule tcp_match_index) simp

lemma tcp_input_ok: "tcp_ok st \<Longrightarrow> tcp_ok (tcp_input N now src pkt st)"
  unfolding tcp_input_def Let_def
  by (auto dest!: tcp_match_less simp: tcp_ok_at unmatched_ok input_listen_ok input_syn_received_ok
      input_established_ok input_fin_ok intro!: tcp_ok_put split: option.split)

lemma bump_same [simp]:
  "ts_used (bump_retries j ts) = ts_used ts" "ts_state (bump_retries j ts) = ts_state ts"
  "tx_head (bump_retries j ts) = tx_head ts" "tx_count (bump_retries j ts) = tx_count ts"
  "length (txq (bump_retries j ts)) = length (txq ts)"
  by (simp_all add: bump_retries_def)

lemma bump_retries_at: "j < length (txq ts) \<Longrightarrow>
    tseg_retries (txq (bump_retries j ts) ! j) = Suc (tseg_retries (txq ts ! j))"
  by (simp add: bump_retries_def)

lemma bump_other: "k \<noteq> j \<Longrightarrow> txq (bump_retries j ts) ! k = txq ts ! k"
  by (simp add: bump_retries_def)

lemma bump_ok:
  assumes "ts_ok ts" "j < 16" "\<not> 3 < tseg_retries (txq (bump_retries j ts) ! j)"
  shows "ts_ok (bump_retries j ts)"
proof -
  have l: "length (txq ts) = 16" using assms(1) by (simp add: ts_ok_def cring_ok_def)
  then have "tseg_ok (txq ts ! j)" using assms(1,2) by (simp add: ts_ok_def list_all_length)
  then have "tseg_ok ((txq ts ! j)\<lparr>tseg_retries := tseg_retries (txq ts ! j) + 1\<rparr>)"
    using assms(2,3) l by (simp add: bump_retries_at tseg_ok_def)
  then show ?thesis
    using assms(1) by (simp add: bump_retries_def ts_ok_def list_all_update cring_ok_def)
qed

lemma resend_loop_ok: "tcp_ok st \<Longrightarrow> i < 8 \<Longrightarrow> tcp_ok (snd (resend_loop N i n k st))"
proof (induction N i n k st rule: resend_loop.induct)
  case (2 N i n k st)
  then show ?case by (simp add: Let_def tcp_ok_put zero_ts_ok bump_ok tcp_ok_at)
qed simp

lemma retransmit_sock_ok: "tcp_ok st \<Longrightarrow> i < 8 \<Longrightarrow> tcp_ok (retransmit_sock N now i st)"
  using resend_loop_ok [of st i N "tx_count (g_tcp_socks st ! i)" 0]
  by (auto simp: retransmit_sock_def Let_def tcp_ok_at intro!: tcp_ok_put split: prod.split)

lemma tcp_retransmit_ok: "tcp_ok st \<Longrightarrow> tcp_ok (tcp_retransmit N now st)"
  unfolding tcp_retransmit_def
  by (rule fold_invariant [where Q = "\<lambda>i. i < 8"]) (auto intro: retransmit_sock_ok)

lemma tcp_init_ok: "tcp_ok st \<Longrightarrow> tcp_ok (tcp_init st)"
  by (auto simp: tcp_init_def tcp_ok_def list_all_iff zero_ts_ok)

section \<open>Reachable states\<close>

text \<open>
  The calls the kernel makes: the socket system calls with a pointer into the table, the
  segments handed over by the IPv4 layer, the retransmission timer and the initialisation.
\<close>

inductive tcp_step :: "'n nics \<Rightarrow> ('n, 'a) tcp \<Rightarrow> ('n, 'a) tcp \<Rightarrow> bool" for N where
  alloc: "tcp_step N st (snd (tcp_alloc_conn now st))"
| free: "i < 8 \<Longrightarrow> tcp_step N st (tcp_free (Some i) st)"
| bind: "i < 8 \<Longrightarrow> tcp_step N st (snd (tcp_bind (Some i) a p st))"
| connect: "i < 8 \<Longrightarrow> tcp_step N st (snd (tcp_connect N now (Some i) a p st))"
| listen: "i < 8 \<Longrightarrow> tcp_step N st (snd (tcp_listen (Some i) p st))"
| accept: "i < 8 \<Longrightarrow> tcp_step N st (snd (tcp_accept (Some i) st))"
| send: "i < 8 \<Longrightarrow> tcp_step N st (snd (tcp_send_data N now (Some i) d st))"
| recv: "i < 8 \<Longrightarrow> tcp_step N st (snd (snd (tcp_recv_data (Some i) n st)))"
| close: "i < 8 \<Longrightarrow> tcp_step N st (snd (tcp_close N (Some i) st))"
| input: "tcp_step N st (tcp_input N now src pkt st)"
| retransmit: "tcp_step N st (tcp_retransmit N now st)"
| init: "tcp_step N st (tcp_init st)"

lemma tcp_step_ok: "tcp_step N st st' \<Longrightarrow> tcp_ok st \<Longrightarrow> tcp_ok st'"
  by (induction rule: tcp_step.induct)
    (simp_all add: alloc_ok free_ok tcp_bind_ok tcp_connect_ok tcp_listen_ok tcp_accept_ok send_data_ok
      recv_data_ok close_ok tcp_input_ok tcp_retransmit_ok tcp_init_ok)

lemma tcp_steps_ok: "(tcp_step N)\<^sup>*\<^sup>* st st' \<Longrightarrow> tcp_ok st \<Longrightarrow> tcp_ok st'"
  by (induction rule: rtranclp_induct) (simp_all add: tcp_step_ok)

lemma tcp_ok_init:
  "g_tcp_socks st = replicate 8 zero_ts \<Longrightarrow> g_tcp_pending st = [] \<Longrightarrow> tcp_ok st"
  by (simp add: tcp_ok_def zero_ts_ok list_all_iff)

section \<open>Transitions\<close>

text \<open>The edges of the connection state machine that a segment can take.\<close>

inductive seg_edge :: "tcp_st \<Rightarrow> tcp_st \<Rightarrow> bool" where
  "seg_edge SYN_RECEIVED ESTABLISHED"
| "seg_edge SYN_SENT ESTABLISHED"
| "seg_edge ESTABLISHED CLOSE_WAIT"
| "seg_edge FIN_WAIT_1 FIN_WAIT_2"

inductive_simps seg_edge_simps: "seg_edge a b"

definition follows :: "helix_tcp_sock \<Rightarrow> helix_tcp_sock \<Rightarrow> bool" where
  "follows ts ts' \<longleftrightarrow>
     (ts_used ts' \<and> (ts_state ts' = ts_state ts \<or> seg_edge (ts_state ts) (ts_state ts')))
     \<or> (ts' = zero_ts \<and> ts_state ts \<in> {FIN_WAIT_1, FIN_WAIT_2})"

definition moves :: "helix_tcp_sock list \<Rightarrow> helix_tcp_sock list \<Rightarrow> bool" where
  "moves socks socks' \<longleftrightarrow> (\<forall>j<8. ts_used (socks ! j) \<longrightarrow> follows (socks ! j) (socks' ! j))"

lemma follows_same: "ts_used ts \<Longrightarrow> follows ts ts"
  by (simp add: follows_def)

lemma moves_refl [simp]: "moves socks socks"
  by (simp add: moves_def follows_same)

lemma zero_ts_unused: "\<not> ts_used zero_ts"
  by (simp add: zero_ts_def)

text \<open>One written slot: a free one, or a socket that follows its state.\<close>

lemma moves_put:
  assumes "length socks = 8" "ts_used (socks ! i) \<Longrightarrow> follows (socks ! i) ts"
  shows "moves socks (socks[i := ts])"
  unfolding moves_def
proof (intro allI impI)
  fix j assume j: "j < 8" "ts_used (socks ! j)"
  show "follows (socks ! j) (socks[i := ts] ! j)"
    using j assms by (cases "i = j") (simp_all add: follows_same)
qed

lemma tx_drain_same [simp]:
  "ts_used (tx_drain n ts) = ts_used ts" "ts_state (tx_drain n ts) = ts_state ts"
  "snd_una (tx_drain n ts) = snd_una ts" "snd_nxt (tx_drain n ts) = snd_nxt ts"
  "rcv_nxt (tx_drain n ts) = rcv_nxt ts" "rxq (tx_drain n ts) = rxq ts"
  "rx_head (tx_drain n ts) = rx_head ts" "rx_tail (tx_drain n ts) = rx_tail ts"
  "rx_count (tx_drain n ts) = rx_count ts"
  by (induction n ts rule: tx_drain.induct) (simp_all add: Let_def)

lemma tcp_ack_same [simp]:
  "ts_used (tcp_ack ak ts) = ts_used ts" "ts_state (tcp_ack ak ts) = ts_state ts"
  "rxq (tcp_ack ak ts) = rxq ts" "rx_head (tcp_ack ak ts) = rx_head ts"
  "rx_tail (tcp_ack ak ts) = rx_tail ts" "rx_count (tcp_ack ak ts) = rx_count ts"
  by (simp_all add: tcp_ack_def Let_def)

lemma rx_put_same [simp]:
  "ts_used (rx_put g ts) = ts_used ts" "ts_state (rx_put g ts) = ts_state ts"
  by (simp_all add: rx_put_def)

lemma tcp_match_used:
  "tcp_match src sp dp socks is acc = Some i \<Longrightarrow> acc = Some i \<or> ts_used (socks ! i)"
  by (induction src sp dp socks "is" acc rule: tcp_match.induct) (auto simp: Let_def split: if_splits)

lemma alloc_moves:
  assumes "tcp_alloc_conn now st = (Some c, st1)" "length (g_tcp_socks st) = 8"
  shows "moves (g_tcp_socks st) ((g_tcp_socks st1)[c := ts])"
proof -
  obtain t where "g_tcp_socks st1 = (g_tcp_socks st)[c := t]"
    using assms(1) by (auto simp: tcp_alloc_conn_def Let_def split: option.splits)
  with moves_put [OF assms(2), of c ts] alloc_index [OF assms(1)] show ?thesis by simp
qed

lemma alloc_none: "tcp_alloc_conn now st = (None, st1) \<Longrightarrow> st1 = st"
  by (auto simp: tcp_alloc_conn_def Let_def split: option.splits)

lemma unmatched_moves:
  "length (g_tcp_socks st) = 8 \<Longrightarrow>
    moves (g_tcp_socks st) (g_tcp_socks (tcp_input_unmatched N now src sp dp f q d st))"
  unfolding tcp_input_unmatched_def Let_def
  by (auto simp: alloc_moves dest!: alloc_none split: option.split prod.split)

lemma listen_moves:
  "length (g_tcp_socks st) = 8 \<Longrightarrow>
    moves (g_tcp_socks st) (g_tcp_socks (tcp_input_listen N now i src sp q st))"
  unfolding tcp_input_listen_def Let_def
  by (auto simp: alloc_moves dest!: alloc_none split: option.split prod.split)

lemma syn_received_moves:
  assumes l: "length (g_tcp_socks st) = 8" and i: "i < 8" "ts_used (g_tcp_socks st ! i)"
    "ts_state (g_tcp_socks st ! i) = SYN_RECEIVED"
  shows "moves (g_tcp_socks st) (g_tcp_socks (tcp_input_syn_received i q ak d st))"
proof -
  let ?ts = "(g_tcp_socks st ! i)\<lparr>ts_state := ESTABLISHED, rcv_nxt := q, snd_una := ak, snd_nxt := ak\<rparr>"
  let ?s1 = "(g_tcp_socks st)[i := ?ts]"
  have 1: "moves (g_tcp_socks st) ?s1"
    using l i by (intro moves_put) (simp_all add: follows_def seg_edge_simps)
  have 2: "moves (g_tcp_socks st) (?s1[p := (?s1 ! p)\<lparr>backlog := bl\<rparr>])" for p bl
    unfolding moves_def
  proof (intro allI impI)
    fix j assume j: "j < 8" "ts_used (g_tcp_socks st ! j)"
    have "follows (g_tcp_socks st ! j) (?s1 ! j)" using 1 j by (simp add: moves_def)
    moreover have "ts_used (?s1 ! j)" using j i l by (cases "i = j") simp_all
    then have "?s1 ! j \<noteq> zero_ts" by (metis zero_ts_unused)
    ultimately show "follows (g_tcp_socks st ! j) (?s1[p := (?s1 ! p)\<lparr>backlog := bl\<rparr>] ! j)"
      using j l by (cases "p = j") (simp_all add: follows_def)
  qed
  show ?thesis
    unfolding tcp_input_syn_received_def using 1 2 by (simp add: Let_def split: option.split)
qed

lemma established_moves:
  assumes l: "length (g_tcp_socks st) = 8" and i: "i < 8" "ts_used (g_tcp_socks st ! i)"
    "ts_state (g_tcp_socks st ! i) = ESTABLISHED"
  shows "moves (g_tcp_socks st) (g_tcp_socks (tcp_input_established N i f q ak d st))"
proof -
  have "moves (g_tcp_socks st) ((g_tcp_socks st)[i := ts])"
    if "ts_used ts" "ts_state ts = ESTABLISHED \<or> ts_state ts = CLOSE_WAIT" for ts
    using that i by (intro moves_put l) (auto simp: follows_def seg_edge_simps)
  then show ?thesis
    unfolding tcp_input_established_def using l i by (simp add: Let_def)
qed

lemma fin_moves:
  assumes l: "length (g_tcp_socks st) = 8" and i: "ts_state (g_tcp_socks st ! i) \<in> {FIN_WAIT_1, FIN_WAIT_2}"
  shows "moves (g_tcp_socks st) (g_tcp_socks (tcp_input_fin N i q st))"
proof -
  have "moves (g_tcp_socks st) ((g_tcp_socks st)[i := zero_ts])"
    using i by (intro moves_put l) (simp add: follows_def)
  then show ?thesis by (simp add: tcp_input_fin_def Let_def)
qed

lemma tcp_input_moves:
  assumes l: "length (g_tcp_socks st) = 8"
  shows "moves (g_tcp_socks st) (g_tcp_socks (tcp_input N now src pkt st))"
proof -
  have p: "moves (g_tcp_socks st) ((g_tcp_socks st)[i := ts])"
    if "ts_used (g_tcp_socks st ! i)" "ts_used ts" "seg_edge (ts_state (g_tcp_socks st ! i)) (ts_state ts)" for i ts
    using that by (intro moves_put l) (simp add: follows_def)
  have m: "i < 8 \<and> ts_used (g_tcp_socks st ! i)" if "tcp_match src sp dp (g_tcp_socks st) [0..<8] None = Some i" for i sp dp
    using tcp_match_less [OF that] tcp_match_used [OF that] by simp
  show ?thesis
    unfolding tcp_input_def Let_def
    by (auto dest!: m simp: l unmatched_moves listen_moves syn_received_moves established_moves fin_moves
        seg_edge_simps intro!: p split: option.split)
qed

section \<open>Acknowledgements\<close>

text \<open>The queued segments, oldest first.\<close>

definition txsegs :: "helix_tcp_sock \<Rightarrow> tcp_tx_seg list" where
  "txsegs ts = ring_list (txq ts) (tx_head ts) (tx_count ts)"

definition rxsegs :: "helix_tcp_sock \<Rightarrow> tcp_rx_seg list" where
  "rxsegs ts = ring_list (rxq ts) (rx_head ts) (rx_count ts)"

lemma tx_drain_segs:
  "ts_ok ts \<Longrightarrow> tx_count ts = n \<Longrightarrow>
    txsegs (tx_drain n ts) = dropWhile (\<lambda>g. tseg_seq g + of_nat (tseg_len g) \<le> snd_una ts) (txsegs ts)"
proof (induction n ts rule: tx_drain.induct)
  case (1 ts)
  then show ?case by (simp add: txsegs_def)
next
  case (2 n ts)
  let ?t = "ts\<lparr>tx_head := (tx_head ts + 1) mod 16, tx_count := tx_count ts - 1\<rparr>"
  have c: "cring_ok 16 (txq ts) (tx_head ts) (tx_tail ts) (Suc n)" using 2(2,3) by (simp add: ts_ok_def)
  have t: "ts_ok ?t" using 2(2,3) cring_get(1) [OF c] by (simp add: ts_ok_def)
  have s: "txsegs ts = txq ts ! tx_head ts # txsegs ?t"
    using cring_get(2) [OF c] 2(3) by (simp add: txsegs_def)
  show ?case
    using 2(1) [OF refl _ t] 2(3) by (simp add: s Let_def)
qed

lemma word_end_le:
  assumes "unat (q :: u32) + n < 4294967296"
  shows "q + of_nat n \<le> a \<longleftrightarrow> unat q + n \<le> unat a"
proof -
  have "unat (q + of_nat n) = unat q + n"
    using assms by (simp add: unat_word_ariths unat_of_nat)
  then show ?thesis by (simp add: word_le_nat_alt)
qed

lemma dropWhile_cong_set: "(\<And>x. x \<in> set xs \<Longrightarrow> P x = Q x) \<Longrightarrow> dropWhile P xs = dropWhile Q xs"
  by (rule dropWhile_cong) simp_all

section \<open>Retransmission\<close>

lemma resend_other:
  "j \<noteq> i \<Longrightarrow> g_tcp_socks (snd (resend_loop N i n k st)) ! j = g_tcp_socks st ! j"
  by (induction N i n k st rule: resend_loop.induct) (simp_all add: Let_def)

lemma resend_length [simp]: "length (g_tcp_socks (snd (resend_loop N i n k st))) = length (g_tcp_socks st)"
  by (induction N i n k st rule: resend_loop.induct) (simp_all add: Let_def)

lemma resend_dropped:
  "fst (resend_loop N i n k st) \<Longrightarrow> i < length (g_tcp_socks st) \<Longrightarrow>
    g_tcp_socks (snd (resend_loop N i n k st)) ! i = zero_ts"
  by (induction N i n k st rule: resend_loop.induct) (auto simp: Let_def split: if_splits)

text \<open>A pass that drops nothing keeps the socket but for the retry counters.\<close>

lemma resend_kept:
  "\<not> fst (resend_loop N i n k st) \<Longrightarrow> i < length (g_tcp_socks st) \<Longrightarrow>
    ts_used (g_tcp_socks (snd (resend_loop N i n k st)) ! i) = ts_used (g_tcp_socks st ! i)
    \<and> ts_state (g_tcp_socks (snd (resend_loop N i n k st)) ! i) = ts_state (g_tcp_socks st ! i)
    \<and> tx_head (g_tcp_socks (snd (resend_loop N i n k st)) ! i) = tx_head (g_tcp_socks st ! i)
    \<and> tx_count (g_tcp_socks (snd (resend_loop N i n k st)) ! i) = tx_count (g_tcp_socks st ! i)"
  by (induction N i n k st rule: resend_loop.induct) (simp_all add: Let_def split: if_splits)

lemma resend_head_kept:
  "\<not> fst (resend_loop N i n k st) \<Longrightarrow> i < length (g_tcp_socks st) \<Longrightarrow> 0 < k \<Longrightarrow> k + n \<le> 16 \<Longrightarrow>
    tx_head (g_tcp_socks st ! i) = h \<Longrightarrow> h < 16 \<Longrightarrow>
    txq (g_tcp_socks (snd (resend_loop N i n k st)) ! i) ! h = txq (g_tcp_socks st ! i) ! h"
proof (induction N i n k st rule: resend_loop.induct)
  case (2 N i n k st)
  have "h \<noteq> (h + k) mod 16" using mod_add_neq [of 0 k 16 h] 2(4-7) by simp
  with 2 show ?case by (simp add: Let_def bump_other split: if_splits)
qed simp

text \<open>A socket whose oldest segment has been resent \<open>r\<close> times, the last time at \<open>t\<close>, or dropped.\<close>

definition waiting :: "nat \<Rightarrow> u64 \<Rightarrow> helix_tcp_sock \<Rightarrow> bool" where
  "waiting r t ts \<longleftrightarrow> ts = zero_ts \<or>
     (ts_used ts \<and> ts_state ts \<in> {ESTABLISHED, FIN_WAIT_1} \<and> 0 < tx_count ts \<and> last_send_tick ts = t
      \<and> r \<le> tseg_retries (txq ts ! tx_head ts))"

lemma retransmit_other: "j \<noteq> i \<Longrightarrow> g_tcp_socks (retransmit_sock N now i st) ! j = g_tcp_socks st ! j"
  by (simp add: retransmit_sock_def Let_def resend_other case_prod_beta)

lemma retransmit_zero: "g_tcp_socks st ! i = zero_ts \<Longrightarrow> retransmit_sock N now i st = st"
  by (simp add: retransmit_sock_def zero_ts_unused)

text \<open>A pass over an expired socket either drops it or counts one more retry.\<close>

lemma retransmit_pass:
  assumes ok: "tcp_ok st" and i: "i < 8" and w: "waiting r t (g_tcp_socks st ! i)" and late: "\<not> now - t < 50"
  shows "waiting (Suc r) now (g_tcp_socks (retransmit_sock N now i st) ! i)"
    and "3 \<le> r \<Longrightarrow> g_tcp_socks (retransmit_sock N now i st) ! i = zero_ts"
proof -
  let ?ts = "g_tcp_socks st ! i" and ?r = "resend_loop N i (tx_count (g_tcp_socks st ! i)) 0 st"
  have len: "i < length (g_tcp_socks st)" using ok i by (simp add: tcp_ok_def)
  have "waiting (Suc r) now (g_tcp_socks (retransmit_sock N now i st) ! i)
    \<and> (3 \<le> r \<longrightarrow> g_tcp_socks (retransmit_sock N now i st) ! i = zero_ts)"
  proof (cases "?ts = zero_ts")
    case True
    then show ?thesis by (simp add: retransmit_zero waiting_def)
  next
    case False
    then have u: "ts_used ?ts" "ts_state ?ts \<in> {ESTABLISHED, FIN_WAIT_1}" "0 < tx_count ?ts"
      "last_send_tick ?ts = t" "r \<le> tseg_retries (txq ?ts ! tx_head ?ts)"
      using w by (auto simp: waiting_def)
    have e: "retransmit_sock N now i st =
        (if fst ?r then snd ?r else put_ts i ((g_tcp_socks (snd ?r) ! i)\<lparr>last_send_tick := now\<rparr>) (snd ?r))"
      using u late by (auto simp: retransmit_sock_def Let_def case_prod_beta)
    have q: "tx_head ?ts < 16" "length (txq ?ts) = 16" "tx_count ?ts \<le> 16"
      using tcp_ok_at [OF ok i] by (auto simp: ts_ok_def cring_ok_def)
    obtain n where n: "tx_count ?ts = Suc n" using u(3) by (cases "tx_count ?ts") auto
    let ?b = "bump_retries (tx_head ?ts) ?ts"
    let ?st1 = "snd (tcp_send_segment N ?b (TCP_FLAG_PSH OR TCP_FLAG_ACK) (tseg_seq (txq ?b ! tx_head ?ts)) (rcv_nxt ?b)
        (tseg_data (txq ?b ! tx_head ?ts)) (put_ts i ?b st))"
    have first: "?r = (if tseg_retries (txq ?b ! tx_head ?ts) > 3 then (True, put_ts i zero_ts st)
        else resend_loop N i n 1 ?st1)"
      using q(1) by (simp add: n Let_def)
    have b: "tseg_retries (txq ?b ! tx_head ?ts) = Suc (tseg_retries (txq ?ts ! tx_head ?ts))"
      using q by (simp add: bump_retries_at)
    show ?thesis
    proof (cases "fst ?r")
      case True
      then have "g_tcp_socks (snd ?r) ! i = zero_ts" by (rule resend_dropped [OF _ len])
      with e True show ?thesis by (simp add: waiting_def)
    next
      case False
      then have nd: "\<not> 3 < tseg_retries (txq ?b ! tx_head ?ts)" using first by (auto split: if_splits)
      then have r1: "?r = resend_loop N i n 1 ?st1" using first by simp
      have s1: "g_tcp_socks ?st1 ! i = ?b" "i < length (g_tcp_socks ?st1)" using len by simp_all
      have h: "txq (g_tcp_socks (snd ?r) ! i) ! tx_head ?ts = txq ?b ! tx_head ?ts"
        using resend_head_kept [of N i n 1 ?st1 "tx_head ?ts"] False q n s1 unfolding r1 by simp
      from h resend_kept [OF False len] nd b u len e False show ?thesis by (simp add: waiting_def)
    qed
  qed
  then show "waiting (Suc r) now (g_tcp_socks (retransmit_sock N now i st) ! i)"
    and "3 \<le> r \<Longrightarrow> g_tcp_socks (retransmit_sock N now i st) ! i = zero_ts" by simp_all
qed

lemma fold_retransmit_other:
  "i \<notin> set js \<Longrightarrow> g_tcp_socks (fold (retransmit_sock N now) js st) ! i = g_tcp_socks st ! i"
  by (induction js arbitrary: st) (simp_all add: retransmit_other)

text \<open>The timer handles socket \<open>i\<close> in a state that still has it as before.\<close>

lemma tcp_retransmit_at:
  fixes st :: "('n, 'a) tcp"
  assumes "tcp_ok st" "i < 8"
  obtains st1 :: "('n, 'a) tcp" where "tcp_ok st1" "g_tcp_socks st1 ! i = g_tcp_socks st ! i"
    "g_tcp_socks (tcp_retransmit N now st) ! i = g_tcp_socks (retransmit_sock N now i st1) ! i"
proof -
  let ?st1 = "fold (retransmit_sock N now) [0..<i] st"
  have 1: "tcp_ok ?st1"
    using assms by (intro fold_invariant [where Q = "\<lambda>i. i < 8" and P = tcp_ok]) (auto intro: retransmit_sock_ok)
  have 2: "g_tcp_socks ?st1 ! i = g_tcp_socks st ! i" by (simp add: fold_retransmit_other)
  have "[0..<8] = [0..<i] @ i # [Suc i..<8]"
    using assms(2) by (metis le0 less_imp_le upt_add_eq_append upt_conv_Cons le_add_diff_inverse)
  then have "g_tcp_socks (tcp_retransmit N now st) ! i = g_tcp_socks (retransmit_sock N now i ?st1) ! i"
    unfolding tcp_retransmit_def by (simp only: fold_append fold.simps comp_apply) (simp add: fold_retransmit_other)
  with 1 2 show thesis by (rule that)
qed

lemma tcp_retransmit_pass:
  fixes st :: "('n, 'a) tcp"
  assumes "tcp_ok st" "i < 8" "waiting r t (g_tcp_socks st ! i)" "\<not> now - t < 50"
  shows "waiting (Suc r) now (g_tcp_socks (tcp_retransmit N now st) ! i)"
    and "3 \<le> r \<Longrightarrow> g_tcp_socks (tcp_retransmit N now st) ! i = zero_ts"
proof -
  obtain st1 :: "('n, 'a) tcp" where s: "tcp_ok st1" "g_tcp_socks st1 ! i = g_tcp_socks st ! i"
    "g_tcp_socks (tcp_retransmit N now st) ! i = g_tcp_socks (retransmit_sock N now i st1) ! i"
    by (rule tcp_retransmit_at [OF assms(1,2)])
  then show "waiting (Suc r) now (g_tcp_socks (tcp_retransmit N now st) ! i)"
    and "3 \<le> r \<Longrightarrow> g_tcp_socks (tcp_retransmit N now st) ! i = zero_ts"
    using retransmit_pass [of st1 i r t now N] assms(2-4) by simp_all
qed

section \<open>The checksum of a segment\<close>

lemma htons16_eq: "htons16 = htons_u16"
  by (rule ext) (simp add: htons16_def htons_u16_def)

lemma htons32_eq: "htons32 = htons_u32"
  by (rule ext) (simp add: htons32_def htons_u32_def)

lemma ones_sum_unique: "n mod 65535 = m mod 65535 \<Longrightarrow> (n = 0 \<longleftrightarrow> m = 0) \<Longrightarrow> ones_sum n = ones_sum m"
proof -
  assume a: "n mod 65535 = m mod 65535" "n = 0 \<longleftrightarrow> m = 0"
  have "(n + 65534) mod 65535 = (m + 65534) mod 65535" using a(1) by (metis mod_add_left_eq)
  moreover have "(k - 1) mod 65535 = (k + 65534) mod 65535" if "0 < k" for k :: nat
  proof -
    have "k + 65534 = k - 1 + 65535" using that by simp
    then show ?thesis by (simp only: mod_add_self2)
  qed
  ultimately show ?thesis using a(2) by (auto simp: ones_sum_def)
qed

lemma ones_sum_0_iff: "ones_sum n = 0 \<longleftrightarrow> n = 0"
  by (simp add: ones_sum_def)

lemma ones_sum_add: "ones_sum (ones_sum a + ones_sum b) = ones_sum (a + b)"
  by (rule ones_sum_unique) (simp_all add: mod_add_cong [OF ones_sum_cong ones_sum_cong] ones_sum_0_iff)

lemma fold_once: "ones_sum (n mod 65536 + n div 65536) = ones_sum n"
  by (cases "65536 \<le> n") (simp_all add: ones_sum_fold)

lemma tcp_checksum_sum:
  assumes "length seg \<le> 65535"
  shows "unat (tcp_checksum seg src dst) = 65535 - ones_sum (be_sum (pseudo_header src dst (length seg)) + be_sum seg)"
proof -
  let ?ph = "pseudo_header src dst (length seg)"
  define sum1 :: u32 where "sum1 = ucast (checksum16_raw ?ph) + ucast (checksum16_raw seg)"
  have p: "unat (checksum16_raw ?ph) = ones_sum (be_sum ?ph)" "unat (checksum16_raw seg) = ones_sum (be_sum seg)"
    using assms by (intro checksum16_raw_sum; simp add: pseudo_header_def)+
  have "unat sum1 = ones_sum (be_sum ?ph) + ones_sum (be_sum seg)"
    unfolding sum1_def unat_word_ariths using p ones_sum_less [of "be_sum ?ph"] ones_sum_less [of "be_sum seg"]
    by (simp add: unsigned_ucast_eq take_bit_eq_mod)
  then have f: "unat (csum_fold ((sum1 AND 0xFFFF) + drop_bit 16 sum1)) = ones_sum (be_sum ?ph + be_sum seg)"
    by (simp only: csum_fold_ones unat_fold_step fold_once ones_sum_add)
  have "(ucast (NOT x) :: u16) = NOT (ucast x)" for x :: u32
    by (rule bit_word_eqI) (auto simp: bit_simps)
  then have "tcp_checksum seg src dst = NOT (ucast (csum_fold ((sum1 AND 0xFFFF) + drop_bit 16 sum1)))"
    by (simp add: tcp_checksum_def Let_def sum1_def)
  then show ?thesis
    using f ones_sum_less [of "be_sum ?ph + be_sum seg"]
    by (simp add: unat_not16 unsigned_ucast_eq take_bit_eq_mod)
qed

lemma tcp_segment_split:
  obtains pre post where "even (length pre)" "length pre + length post = 18 + length d"
    "\<forall>ck. tcp_fields ck lp rp sq ak f @ d = pre @ le16 ck @ post"
proof
  let ?pre = "le16 lp @ le16 rp @ le32 (htons32 sq) @ le32 (htons32 ak) @ [0x50, f] @ le16 (htons16 4096)"
  show "even (length ?pre)" "length ?pre + length (le16 0 @ d) = 18 + length d" by simp_all
  show "\<forall>ck. tcp_fields ck lp rp sq ak f @ d = ?pre @ le16 ck @ (le16 0 @ d)" by (simp add: tcp_fields_def)
qed

section \<open>A state to run the model on\<close>

definition boot_tcp :: "unit tcp_state" where
  "boot_tcp = \<lparr>nic_dev = (), g_backend = 0, g_ready = True, g_mac = replicate 6 0, g_ip = NET_IP_SELF,
     g_gw = NET_IP_GW, g_gw_mac = replicate 6 0, g_gw_mac_valid = False, g_icmp_replies = 0,
     g_icmp_echo_rx = 0, g_self_echo_ok = False, g_ip_id = 1, g_icmp_seq = 1, g_last_arp_tick = 0,
     g_last_ping_tick = 0, g_selftest_done = False, g_announced = False,
     g_socks = replicate 8 zero_sock, g_ephemeral = 40000,
     g_tcp_socks = replicate 8 zero_ts, g_tcp_pending = [], g_tcp_ephemeral = 41000,
     s_last_retransmit_log = 0\<rparr>"

text \<open>An established connection with one segment in flight that starts at \<open>q\<close>.\<close>

definition demo_conn :: "u32 \<Rightarrow> helix_tcp_sock" where
  "demo_conn q = zero_ts\<lparr>ts_used := True, ts_state := ESTABLISHED, laddr_be := 0x0F02000A, lport_be := 0x28A0,
     ts_bound := True, raddr_be := 0x0202000A, rport_be := 0x5000, snd_una := q, snd_nxt := q + 3,
     txq := (replicate 16 zero_tseg)[0 := \<lparr>tseg_seq = q, tseg_len = 3, tseg_data = [1, 2, 3], tseg_retries = 0\<rparr>],
     tx_tail := 1, tx_count := 1\<rparr>"

definition demo_tcp :: "unit tcp_state" where
  "demo_tcp = boot_tcp\<lparr>g_tcp_socks := (replicate 8 zero_ts)[0 := demo_conn 1000]\<rparr>"

lemma demo_conn_ok: "ts_ok (demo_conn q)"
  using zero_ts_ok
  by (simp add: ts_ok_def demo_conn_def zero_ts_def cring_ok_def list_all_update tseg_ok_def)

lemma demo_tcp_ok: "tcp_ok demo_tcp"
  by (simp add: tcp_ok_def demo_tcp_def list_all_update demo_conn_ok zero_ts_ok list_all_iff [of _ "replicate _ _"])
    (simp add: boot_tcp_def)

lemma demo_tcp_sock: "g_tcp_socks demo_tcp ! 0 = demo_conn 1000"
  by (simp add: demo_tcp_def)

lemma demo_conn_segs:
  "txsegs (demo_conn q) = [\<lparr>tseg_seq = q, tseg_len = 3, tseg_data = [1, 2, 3], tseg_retries = 0\<rparr>]"
  "snd_una (demo_conn q) = q"
  by (simp_all add: txsegs_def demo_conn_def zero_ts_def ring_list_def)

section \<open>Properties\<close>

text \<open>C24. After any sequence of socket calls, segments and timer ticks from the empty table,
  every ring index lies in its array, every queued length fits its buffer and equals the
  bytes stored, every retry counter is at most 3, and every backlog, parent and pending
  pointer names a slot of the table.\<close>

theorem tcp_tables_safe:
  assumes "(tcp_step N)\<^sup>*\<^sup>* st0 st" "g_tcp_socks st0 = replicate 8 zero_ts" "g_tcp_pending st0 = []"
  shows "tcp_ok st"
  by (rule tcp_steps_ok [OF assms(1) tcp_ok_init [OF assms(2,3)]])

theorem tcp_tables_safe_witness:
  "tcp_ok (snd (tcp_listen (Some 0) 0x911F (snd (tcp_alloc_conn 7 boot_tcp))))"
proof -
  have "tcp_step no_nics boot_tcp (snd (tcp_alloc_conn 7 boot_tcp))" by (rule tcp_step.alloc)
  moreover have "tcp_step no_nics (snd (tcp_alloc_conn 7 boot_tcp))
      (snd (tcp_listen (Some 0) 0x911F (snd (tcp_alloc_conn 7 boot_tcp))))" by (rule tcp_step.listen) simp
  ultimately have r: "(tcp_step no_nics)\<^sup>*\<^sup>* boot_tcp
      (snd (tcp_listen (Some 0) 0x911F (snd (tcp_alloc_conn 7 boot_tcp))))"
    by (rule rtranclp.rtrancl_into_rtrancl [OF r_into_rtranclp])
  have "g_tcp_socks boot_tcp = replicate 8 zero_ts" "g_tcp_pending boot_tcp = []" by (simp_all add: boot_tcp_def)
  then show ?thesis by (rule tcp_tables_safe [OF r])
qed

text \<open>C25. A segment moves a socket in use only along SYN_RECEIVED or SYN_SENT to ESTABLISHED,
  ESTABLISHED to CLOSE_WAIT, and FIN_WAIT_1 to FIN_WAIT_2, or releases its slot from one of
  the two FIN_WAIT states; whatever the segment holds, every other socket keeps its state.\<close>

theorem tcp_input_transitions:
  assumes "tcp_ok st" "j < 8" "ts_used (g_tcp_socks st ! j)"
  shows "follows (g_tcp_socks st ! j) (g_tcp_socks (tcp_input N now src pkt st) ! j)"
  using tcp_input_moves [of st N now src pkt] assms by (simp add: moves_def tcp_ok_def)

theorem tcp_input_transitions_witness:
  "follows (demo_conn 1000) (g_tcp_socks (tcp_input no_nics 9 0x0202000A (replicate 24 1) demo_tcp) ! 0)"
proof -
  have "ts_used (g_tcp_socks demo_tcp ! 0)" by (simp add: demo_tcp_sock demo_conn_def)
  from tcp_input_transitions [OF demo_tcp_ok _ this, of no_nics 9 "0x0202000A" "replicate 24 1"] show ?thesis
    by (simp add: demo_tcp_sock)
qed

text \<open>C33. Where no queued segment runs across the end of the sequence space, an
  acknowledgement moves \<open>snd_una\<close> forward only, removes from the front of the transmit queue
  exactly the segments whose last byte it covers, and keeps all others in order.\<close>

theorem ack_drops_acked:
  assumes ok: "ts_ok ts" and nowrap: "\<forall>g\<in>set (txsegs ts). unat (tseg_seq g) + tseg_len g < 2 ^ 32"
  shows "unat (snd_una (tcp_ack ak ts)) = max (unat (snd_una ts)) (unat ak)
    \<and> txsegs (tcp_ack ak ts)
      = dropWhile (\<lambda>g. unat (tseg_seq g) + tseg_len g \<le> max (unat (snd_una ts)) (unat ak)) (txsegs ts)"
proof -
  define ts1 where "ts1 = (if ak > snd_una ts then ts\<lparr>snd_una := ak\<rparr> else ts)"
  have u: "unat (snd_una ts1) = max (unat (snd_una ts)) (unat ak)"
    by (simp add: ts1_def max_def word_less_nat_alt)
  have t: "txsegs ts1 = txsegs ts" "ts_ok ts1" using ok by (simp_all add: ts1_def txsegs_def)
  have e: "tcp_ack ak ts = tx_drain (tx_count ts1) ts1" by (simp add: tcp_ack_def ts1_def Let_def)
  have "dropWhile (\<lambda>g. tseg_seq g + of_nat (tseg_len g) \<le> snd_una ts1) (txsegs ts)
      = dropWhile (\<lambda>g. unat (tseg_seq g) + tseg_len g \<le> max (unat (snd_una ts)) (unat ak)) (txsegs ts)"
    using nowrap by (intro dropWhile_cong_set) (simp add: word_end_le u)
  with u t e tx_drain_segs [OF t(2) refl] show ?thesis by simp
qed

theorem ack_drops_acked_witness:
  "unat (snd_una (tcp_ack 1003 (demo_conn 1000))) = 1003 \<and> txsegs (tcp_ack 1003 (demo_conn 1000)) = []"
proof -
  have "\<forall>g\<in>set (txsegs (demo_conn 1000)). unat (tseg_seq g) + tseg_len g < 2 ^ 32"
    by (simp add: demo_conn_segs)
  from ack_drops_acked [OF demo_conn_ok this, of 1003] show ?thesis by (simp add: demo_conn_segs)
qed

text \<open>C39. Sequence numbers are compared as plain integers. A segment in flight whose last byte
  lies beyond \<open>2 ^ 32\<close> is removed from the transmit queue by an acknowledgement that covers
  none of it, so it is never sent again.\<close>

theorem ack_wrap_loses_segment:
  assumes ok: "ts_ok ts" and q: "txsegs ts = g # gs" "tseg_seq g = snd_una ts"
    and wrap: "2 ^ 32 \<le> unat (tseg_seq g) + tseg_len g"
  shows "snd_una (tcp_ack (snd_una ts) ts) = tseg_seq g \<and> length (txsegs (tcp_ack (snd_una ts) ts)) \<le> length gs"
proof -
  have l: "tseg_len g \<le> 1400"
  proof -
    have "g \<in> set (txsegs ts)" using q by simp
    then obtain k where "k < tx_count ts" "g = txq ts ! ((tx_head ts + k) mod length (txq ts))"
      by (auto simp: txsegs_def ring_list_def)
    then have "g \<in> set (txq ts)" using ok by (auto simp: ts_ok_def cring_ok_def intro!: nth_mem)
    then show ?thesis using ok by (auto simp: ts_ok_def list_all_iff tseg_ok_def)
  qed
  have "unat (tseg_seq g + of_nat (tseg_len g)) = (unat (tseg_seq g) + tseg_len g) mod 2 ^ 32"
    using l by (simp add: unat_word_ariths unat_of_nat mod_add_right_eq)
  also have "\<dots> = unat (tseg_seq g) + tseg_len g - 2 ^ 32"
    using wrap l unsigned_less [of "tseg_seq g", where 'a = nat] by (simp add: mod_if)
  also have "\<dots> \<le> unat (snd_una ts)" using l q(2) by simp
  finally have d: "tseg_seq g + of_nat (tseg_len g) \<le> snd_una ts" by (simp add: word_le_nat_alt)
  have e: "tcp_ack (snd_una ts) ts = tx_drain (tx_count ts) ts" by (simp add: tcp_ack_def Let_def)
  have "txsegs (tcp_ack (snd_una ts) ts) = dropWhile (\<lambda>g. tseg_seq g + of_nat (tseg_len g) \<le> snd_una ts) gs"
    using tx_drain_segs [OF ok refl] q d by (simp add: e)
  then show ?thesis using q(2) by (simp add: e length_dropWhile_le)
qed

theorem ack_wrap_loses_segment_witness:
  "length (txsegs (demo_conn 0xFFFFFFFE)) = 1
   \<and> snd_una (tcp_ack 0xFFFFFFFE (demo_conn 0xFFFFFFFE)) = 0xFFFFFFFE
   \<and> length (txsegs (tcp_ack 0xFFFFFFFE (demo_conn 0xFFFFFFFE))) = 0"
  using ack_wrap_loses_segment [OF demo_conn_ok [of "0xFFFFFFFE"] demo_conn_segs(1)]
  by (simp add: demo_conn_segs)

text \<open>C26. Retransmission ends: when the oldest segment of a connection is not acknowledged,
  the fourth expiry of the timer releases the socket, at the latest.\<close>

theorem retransmission_gives_up:
  assumes ok: "tcp_ok st" and i: "i < 8" and ts: "ts = g_tcp_socks st ! i"
    and live: "ts_used ts" "ts_state ts = ESTABLISHED \<or> ts_state ts = FIN_WAIT_1" "tx_count ts > 0"
    and late: "t1 - last_send_tick ts \<ge> 50" "t2 - t1 \<ge> 50" "t3 - t2 \<ge> 50" "t4 - t3 \<ge> 50"
  shows "g_tcp_socks (tcp_retransmit N t4 (tcp_retransmit N t3 (tcp_retransmit N t2 (tcp_retransmit N t1 st)))) ! i
    = zero_ts"
proof -
  have w0: "waiting 0 (last_send_tick ts) (g_tcp_socks st ! i)" using ts live by (auto simp: waiting_def)
  note late' = late [unfolded linorder_not_less [symmetric]]
  note P = tcp_retransmit_pass [where N = N and i = i, OF _ i]
  have w1: "waiting 1 t1 (g_tcp_socks (tcp_retransmit N t1 st) ! i)"
    using P(1) [OF ok w0 late'(1)] by simp
  have o1: "tcp_ok (tcp_retransmit N t1 st)" by (rule tcp_retransmit_ok [OF ok])
  have w2: "waiting 2 t2 (g_tcp_socks (tcp_retransmit N t2 (tcp_retransmit N t1 st)) ! i)"
    using P(1) [OF o1 w1 late'(2)] by (simp add: numeral_2_eq_2)
  have o2: "tcp_ok (tcp_retransmit N t2 (tcp_retransmit N t1 st))" by (rule tcp_retransmit_ok [OF o1])
  have w3: "waiting 3 t3 (g_tcp_socks (tcp_retransmit N t3 (tcp_retransmit N t2 (tcp_retransmit N t1 st))) ! i)"
    using P(1) [OF o2 w2 late'(3)] by (simp add: numeral_3_eq_3 numeral_2_eq_2)
  have o3: "tcp_ok (tcp_retransmit N t3 (tcp_retransmit N t2 (tcp_retransmit N t1 st)))"
    by (rule tcp_retransmit_ok [OF o2])
  show ?thesis by (rule P(2) [OF o3 w3 late'(4)]) simp
qed

theorem retransmission_gives_up_witness:
  "g_tcp_socks (tcp_retransmit no_nics 200 (tcp_retransmit no_nics 150 (tcp_retransmit no_nics 100
     (tcp_retransmit no_nics 50 demo_tcp)))) ! 0 = zero_ts"
  by (rule retransmission_gives_up [OF demo_tcp_ok _ refl])
    (simp_all add: demo_tcp_sock demo_conn_def zero_ts_def)

text \<open>C34. Every segment \<open>tcp_send_segment\<close> builds passes the receiver's check: the checksum of
  the segment with its checksum field, under the pseudo header of its addresses, is 0.\<close>

theorem tcp_segment_verifies:
  assumes "length d \<le> 1460"
  shows "tcp_checksum (tcp_segment ts flags sq ak d) (laddr_be ts) (raddr_be ts) = 0"
proof -
  obtain pre post where s: "even (length pre)" "length pre + length post = 18 + length d"
    "\<forall>ck. tcp_fields ck (lport_be ts) (rport_be ts) sq ak flags @ d = pre @ le16 ck @ post"
    by (rule tcp_segment_split [of d "lport_be ts" "rport_be ts" sq ak flags])
  let ?ph = "pseudo_header (laddr_be ts) (raddr_be ts) (20 + length d)"
  let ?n = "be_sum ?ph + be_sum (pre @ le16 0 @ post)"
  define c where "c = tcp_checksum (pre @ le16 0 @ post) (laddr_be ts) (raddr_be ts)"
  have seg: "tcp_segment ts flags sq ak d = pre @ le16 (htons_u16 c) @ post"
    by (simp add: tcp_segment_def s(3) htons16_eq c_def)
  have len: "length (pre @ le16 x @ post) = 20 + length d" for x using s(2) by simp
  have K: "unat (tcp_checksum (pre @ le16 x @ post) (laddr_be ts) (raddr_be ts))
      = 65535 - ones_sum (be_sum ?ph + be_sum (pre @ le16 x @ post))" for x
  proof -
    have "length (pre @ le16 x @ post) \<le> 65535" unfolding len using assms by simp
    from tcp_checksum_sum [OF this, of "laddr_be ts" "raddr_be ts"] show ?thesis unfolding len .
  qed
  have "unat c = 65535 - ones_sum ?n" unfolding c_def by (rule K)
  moreover have "unat (tcp_checksum (tcp_segment ts flags sq ak d) (laddr_be ts) (raddr_be ts))
      = 65535 - ones_sum (?n + unat c)"
    unfolding seg K be_sum_patch [OF s(1)] by (simp only: add.assoc)
  ultimately have "unat (tcp_checksum (tcp_segment ts flags sq ak d) (laddr_be ts) (raddr_be ts)) = 0"
    using ones_complement_dvd [of ?n] ones_sum_max [of "?n + (65535 - ones_sum ?n)"] by simp
  then show ?thesis by (simp add: unat_0_iff)
qed

theorem tcp_segment_verifies_witness:
  "tcp_checksum (tcp_segment (demo_conn 1000) 0x18 1000 7 [1, 2, 3]) 0x0F02000A 0x0202000A = 0"
  using tcp_segment_verifies [of "[1, 2, 3]" "demo_conn 1000" "0x18" 1000 7] by (simp add: demo_conn_def)

end
