(* ===== verification/NetStack.thy ===== *)
theory NetStack
  imports Tcp_Props
begin

text \<open>
  The receive path of \<open>src/kernel/net/net.c\<close> (frames to ARP, ICMP, UDP and TCP), the
  initialisation and the poll loop that drives the stack, and the properties that span the
  layers: what one host puts on the wire is what another one delivers.
\<close>

section \<open>Receiving\<close>

definition handle_ip :: "'n nics \<Rightarrow> u64 \<Rightarrow> bytes \<Rightarrow> ('n, 'a) tcp \<Rightarrow> ('n, 'a) tcp" where
  "handle_ip N now pkt st =
    (if length pkt < 20 then st
     else if drop_bit 4 (pkt ! 0) \<noteq> 4 then st
     else
       let ihl = unat (pkt ! 0 AND 0xF) * 4 in
       if ihl < 20 \<or> length pkt < ihl then st
       else
         let total0 = unat (htons_u16 (rd16 pkt 2));
             tot = (if total0 < ihl \<or> total0 > length pkt then length pkt else total0);
             src = htons_u32 (rd32 pkt 12);
             dst = htons_u32 (rd32 pkt 16);
             proto = pkt ! 9
         in if dst \<noteq> g_ip st \<and> dst \<noteq> 0xFFFFFFFF then st
            else if proto = IP_PROTO_ICMP then handle_icmp N src (take (tot - ihl) (drop ihl pkt)) st
            else if proto = IP_PROTO_TCP \<and> tot > ihl + 20 then
              tcp_input N now (rd32 pkt 12) (take (tot - ihl) (drop ihl pkt)) st
            else if proto = IP_PROTO_UDP \<and> tot > ihl + 8 then
              let dgm = drop ihl pkt;
                  sport = rd16 dgm 0; dport = rd16 dgm 2; udp_len = rd16 dgm 4;
                  plen0 = (if udp_len > 8 then unat (udp_len - 8) else 0);
                  plen = (if plen0 > tot - ihl - 8 then tot - ihl - 8 else plen0)
              in net_udp_input src sport dport (take plen (drop 8 dgm)) st
            else st)"

definition handle_frame :: "'n nics \<Rightarrow> u64 \<Rightarrow> bytes \<Rightarrow> ('n, 'a) tcp \<Rightarrow> ('n, 'a) tcp" where
  "handle_frame N now frame st =
    (if length frame < 14 then st
     else
       let ty = htons_u16 (rd16 frame 12); payload = drop 14 frame in
       if ty = ETH_TYPE_ARP then handle_arp N payload st
       else if ty = ETH_TYPE_IP then handle_ip N now payload st
       else st)"

section \<open>Initialisation and polling\<close>

definition net_init :: "'n nics \<Rightarrow> u64 \<Rightarrow> ('n, 'a) net \<Rightarrow> int \<times> ('n, 'a) net" where
  "net_init N now s =
    (let s0 = s\<lparr>g_ready := False, g_gw_mac_valid := False, g_icmp_replies := 0, g_icmp_echo_rx := 0,
               g_self_echo_ok := False, g_selftest_done := False, g_announced := False,
               g_ip_id := 1, g_icmp_seq := 1, g_last_arp_tick := 0, g_last_ping_tick := 0\<rparr>;
         (r, s1) = nic_init N s0
     in if r \<noteq> 0 then (-1, s1)
        else
          let s2 = s1\<lparr>g_mac := nic_get_mac N s1, g_ready := True\<rparr>;
              s3 = arp_send N ARP_OP_REQ None (g_gw s2) s2
          in (0, s3\<lparr>g_last_arp_tick := now\<rparr>))"

fun poll_frames :: "'n nics \<Rightarrow> u64 \<Rightarrow> nat \<Rightarrow> ('n, 'a) tcp \<Rightarrow> ('n, 'a) tcp" where
  "poll_frames N now 0 st = st"
| "poll_frames N now (Suc n) st =
    (let (frame, st1) = nic_recv N 2048 st in
     if frame = [] then st1 else poll_frames N now n (handle_frame N now frame st1))"

text \<open>\<open>hz0\<close> is \<open>timer_hz()\<close>.\<close>

definition net_poll :: "'n nics \<Rightarrow> u64 \<Rightarrow> u64 \<Rightarrow> ('n, 'a) tcp \<Rightarrow> ('n, 'a) tcp" where
  "net_poll N now hz0 st =
    (if \<not> g_ready st then st
     else
       let st1 = poll_frames N now 16 st;
           hz = (if hz0 \<noteq> 0 then hz0 else 100);
           st2 = (if \<not> g_gw_mac_valid st1 \<and> now - g_last_arp_tick st1 \<ge> hz
                  then (arp_send N ARP_OP_REQ None (g_gw st1) st1)\<lparr>g_last_arp_tick := now\<rparr> else st1);
           st3 = (if g_gw_mac_valid st2 \<and> \<not> g_self_echo_ok st2
                    \<and> (g_last_ping_tick st2 = 0 \<or> now - g_last_ping_tick st2 \<ge> hz)
                  then
                    let p = icmp_send_echo N (g_gw st2) 0x4845 (g_icmp_seq st2) [] st2
                    in p\<lparr>g_icmp_seq := g_icmp_seq p + 1, g_last_ping_tick := now\<rparr>
                  else st2);
           st4 = (if g_self_echo_ok st3 \<and> \<not> g_announced st3
                  then tcp_init (st3\<lparr>g_announced := True, g_selftest_done := True\<rparr>) else st3)
       in tcp_retransmit N now st4)"

section \<open>From frame to packet\<close>

lemma handle_frame_eth:
  assumes "length dst = 6" "length mac = 6"
  shows "handle_frame N now (dst @ mac @ le16 (htons_u16 ty) @ p) st =
    (if ty = ETH_TYPE_ARP then handle_arp N p st else if ty = ETH_TYPE_IP then handle_ip N now p st else st)"
proof -
  have "rd16 ((dst @ mac) @ le16 (htons_u16 ty) @ p) 12 = htons_u16 ty"
    using assms by (intro rd16_at) simp
  then have r: "rd16 (dst @ mac @ le16 (htons_u16 ty) @ p) 12 = htons_u16 ty" by simp
  have d: "drop 14 (dst @ mac @ le16 (htons_u16 ty) @ p) = p" using assms by simp
  show ?thesis
    unfolding handle_frame_def Let_def r d using assms by simp
qed

text \<open>The packet \<open>ip_send\<close> builds, at the host it is addressed to.\<close>

lemma handle_ip_packet:
  assumes p: "length p \<le> 1480" and me: "g_ip st = dst" and tl: "tl' = of_nat (20 + length p)"
  shows "handle_ip N now (ip_header tl' ident pr src dst @ p) st =
    (if pr = IP_PROTO_ICMP then handle_icmp N src p st
     else if pr = IP_PROTO_TCP \<and> length p > 20 then tcp_input N now (htons_u32 src) p st
     else if pr = IP_PROTO_UDP \<and> length p > 8 then
       net_udp_input src (rd16 p 0) (rd16 p 2)
         (take (min (if rd16 p 4 > 8 then unat (rd16 p 4 - 8) else 0) (length p - 8)) (drop 8 p)) st
     else st)"
proof -
  let ?h = "ip_header tl' ident pr src dst"
  have n0: "(?h @ p) ! 0 = 0x45" and n9: "(?h @ p) ! 9 = pr"
    by (simp_all add: nth_append ip_header_parse)
  have tot: "unat (htons_u16 (rd16 (?h @ p) 2)) = 20 + length p"
  proof -
    have "unat (of_nat (20 + length p) :: u16) = 20 + length p" using p by (simp only: unat_of_nat) simp
    then show ?thesis by (simp only: ip_header_parse tl htons_u16_twice)
  qed
  have ihl: "unat ((0x45 :: u8) AND 0xF) * 4 = 20" by simp
  have ver: "drop_bit 4 (0x45 :: u8) = 4" by simp
  have mn: "(if b < a then b else a) = min a b" for a b :: nat by simp
  have len: "length (?h @ p) = 20 + length p" "drop 20 (?h @ p) = p" by simp_all
  define X where "X = (if 8 < rd16 p 4 then unat (rd16 p 4 - 8) else 0)"
  have t: "(if 20 + length p < 20 \<or> 20 + length p < 20 + length p then 20 + length p else 20 + length p) = 20 + length p"
    "20 + length p - 20 = length p" "take (length p) p = p" by simp_all
  show ?thesis
    unfolding handle_ip_def n0 n9 Let_def tot ihl ver len
    unfolding ip_header_parse X_def [symmetric] t mn htons_u32_twice by (simp add: me)
qed

lemma udp_datagram_parse:
  "rd16 (udp_datagram sp dp d) 0 = sp" "rd16 (udp_datagram sp dp d) 2 = dp"
  "rd16 (udp_datagram sp dp d) 4 = htons_u16 (of_nat (8 + length d))"
  "drop 8 (udp_datagram sp dp d) = d"
proof -
  let ?u = "udp_datagram sp dp d" and ?l = "le16 (htons_u16 (of_nat (8 + length d)))"
  have e: "?u = le16 sp @ le16 dp @ ?l @ le16 0 @ d" by (simp only: udp_datagram_def)
  show "drop 8 ?u = d" by (simp add: e)
  have "?u = [] @ le16 sp @ (le16 dp @ ?l @ le16 0 @ d)" by (simp add: e)
  then show "rd16 ?u 0 = sp" by (metis rd16_at list.size(3))
  have "?u = le16 sp @ le16 dp @ (?l @ le16 0 @ d)" by (simp add: e)
  then show "rd16 ?u 2 = dp" by (metis rd16_at len_le16)
  have "?u = (le16 sp @ le16 dp) @ ?l @ (le16 0 @ d)" by (simp add: e)
  then show "rd16 ?u 4 = htons_u16 (of_nat (8 + length d))" by (simp only:) (rule rd16_at, simp)
qed

lemma tcp_segment_parse:
  fixes ts :: helix_tcp_sock and d :: bytes and flags :: u8 and sq ak :: u32
  defines "p \<equiv> tcp_segment ts flags sq ak d"
  shows "rd16 p 0 = lport_be ts" "rd16 p 2 = rport_be ts" "htons32 (rd32 p 4) = sq" "htons32 (rd32 p 8) = ak"
    "p ! 12 = 0x50" "p ! 13 = flags" "length p = 20 + length d" "drop 20 p = d"
proof -
  define ck where "ck = htons16 (tcp_checksum (tcp_fields 0 (lport_be ts) (rport_be ts) sq ak flags @ d)
      (laddr_be ts) (raddr_be ts))"
  let ?a = "le16 (lport_be ts)" and ?b = "le16 (rport_be ts)" and ?c = "le32 (htons32 sq)" and
    ?e = "le32 (htons32 ak)" and ?f = "[0x50, flags] @ le16 (htons16 4096) @ le16 ck @ le16 0 @ d"
  have e: "p = ?a @ ?b @ ?c @ ?e @ ?f" by (simp add: p_def tcp_segment_def Let_def ck_def tcp_fields_def)
  show "p ! 12 = 0x50" "p ! 13 = flags" "length p = 20 + length d" "drop 20 p = d"
    by (simp_all add: e le16_def le32_def)
  have "p = [] @ ?a @ (?b @ ?c @ ?e @ ?f)" by (simp add: e)
  then show "rd16 p 0 = lport_be ts" by (metis rd16_at list.size(3))
  have "p = ?a @ ?b @ (?c @ ?e @ ?f)" by (simp add: e)
  then show "rd16 p 2 = rport_be ts" by (metis rd16_at len_le16)
  have "p = (?a @ ?b) @ ?c @ (?e @ ?f)" by (simp add: e)
  then have "rd32 p 4 = htons32 sq" by (simp only:) (rule rd32_at, simp)
  then show "htons32 (rd32 p 4) = sq" by (simp add: htons32_eq)
  have "p = (?a @ ?b @ ?c) @ ?e @ ?f" by (simp add: e)
  then have "rd32 p 8 = htons32 ak" by (simp only:) (rule rd32_at, simp)
  then show "htons32 (rd32 p 8) = ak" by (simp add: htons32_eq)
qed

section \<open>From host to host\<close>

text \<open>
  A host can reach the address \<open>dst\<close>: the next hop is the gateway and its link address is
  known.
\<close>

definition routed :: "u32 \<Rightarrow> ('n, 'a) net \<Rightarrow> bool" where
  "routed dst s \<longleftrightarrow> g_gw_mac_valid s \<and> length (g_mac s) = 6 \<and> length (g_gw_mac s) = 6
     \<and> (dst = g_gw s \<or> dst AND NET_IP_MASK \<noteq> g_ip s AND NET_IP_MASK)"

definition ip_frame :: "u32 \<Rightarrow> u8 \<Rightarrow> bytes \<Rightarrow> ('n, 'a) net \<Rightarrow> bytes" where
  "ip_frame dst pr p s = g_gw_mac s @ g_mac s @ le16 (htons_u16 ETH_TYPE_IP)
     @ ip_header (of_nat (20 + length p)) (g_ip_id s + 1) pr (g_ip s) dst @ p"

lemma ip_send_routed:
  assumes "routed dst s" "length p \<le> 1480"
  shows "ip_send N dst pr p s = nic_send N (ip_frame dst pr p s) (s\<lparr>g_ip_id := g_ip_id s + 1\<rparr>)"
  using assms by (auto simp: ip_send_def Let_def routed_def eth_send_def ip_frame_def)

lemma handle_ip_frame:
  assumes "routed dst s" "length p \<le> 1480" "g_ip r = dst"
  shows "handle_frame N now (ip_frame dst pr p s) r =
    (if pr = IP_PROTO_ICMP then handle_icmp N (g_ip s) p r
     else if pr = IP_PROTO_TCP \<and> length p > 20 then tcp_input N now (htons_u32 (g_ip s)) p r
     else if pr = IP_PROTO_UDP \<and> length p > 8 then
       net_udp_input (g_ip s) (rd16 p 0) (rd16 p 2)
         (take (min (if rd16 p 4 > 8 then unat (rd16 p 4 - 8) else 0) (length p - 8)) (drop 8 p)) r
     else r)"
proof -
  have m: "length (g_gw_mac s) = 6" "length (g_mac s) = 6" using assms(1) by (simp_all add: routed_def)
  show ?thesis
    unfolding ip_frame_def handle_frame_eth [OF m] handle_ip_packet [OF assms(2,3) refl] by simp
qed

lemma ip_frame_verifies:
  assumes "routed dst s"
  shows "checksum16 (take 20 (drop 14 (ip_frame dst pr p s))) = 0"
  using assms ip_header_checksum [of "of_nat (20 + length p)" "g_ip_id s + 1" pr "g_ip s" dst]
  by (simp add: ip_frame_def routed_def)

text \<open>The length field as the receiver reads it: its two bytes exchanged.\<close>

lemma unat_htons_u16: "unat (htons_u16 x) = unat x mod 256 * 256 + unat x div 256"
proof -
  have "htons_u16 x = push_bit 8 x + drop_bit 8 x"
    unfolding htons_u16_def by (rule disjunctive_add [symmetric]) (auto simp: bit_simps dest: bit_imp_le_length)
  moreover have x: "unat x < 65536" using unsigned_less [of x, where 'a = nat] by simp
  have "(unat x * 256) mod 65536 = unat x mod 256 * 256"
    using mult_mod_left [of "unat x" 256 256] by simp
  moreover have "unat x mod 256 * 256 + unat x div 256 < 65536"
  proof -
    have "unat x mod 256 \<le> 255" "unat x div 256 < 256" using x by (simp_all add: less_mult_imp_div_less)
    then show ?thesis by linarith
  qed
  ultimately show ?thesis
    using x by (simp only: unat_word_ariths unsigned_push_bit_eq unsigned_drop_bit_eq)
      (simp add: push_bit_eq_mult drop_bit_eq_div take_bit_eq_mod)
qed

definition seen_len :: "nat \<Rightarrow> nat" where
  "seen_len n = (8 + n) mod 256 * 256 + (8 + n) div 256 - 8"

lemma udp_seen:
  assumes "length d \<le> 1458"
  shows "(if rd16 (udp_datagram sp dp d) 4 > 8 then unat (rd16 (udp_datagram sp dp d) 4 - 8) else 0) = seen_len (length d)"
proof -
  let ?w = "rd16 (udp_datagram sp dp d) 4"
  have "unat (of_nat (8 + length d) :: u16) = 8 + length d" using assms by (simp only: unat_of_nat) simp
  then have w: "unat ?w = (8 + length d) mod 256 * 256 + (8 + length d) div 256"
    by (simp only: udp_datagram_parse unat_htons_u16)
  show ?thesis
  proof (cases "8 < ?w")
    case True
    then have "unat (?w - 8) = unat ?w - 8"
      by (simp add: unat_sub word_less_nat_alt word_le_nat_alt)
    then show ?thesis using True w by (simp add: seen_len_def)
  next
    case False
    then have "unat ?w \<le> 8" by (simp add: word_less_nat_alt)
    then show ?thesis using False w by (simp add: seen_len_def)
  qed
qed

lemma udp_delivery:
  assumes "routed (swap_ip dst_be) s" "g_ready s" "d \<noteq> []" "length d \<le> 1458" "g_ip r = swap_ip dst_be"
  shows "net_udp_output N dst_be sp dp d s
      = nic_send N (ip_frame (swap_ip dst_be) IP_PROTO_UDP (udp_datagram sp dp d) s) (s\<lparr>g_ip_id := g_ip_id s + 1\<rparr>)"
    and "handle_frame N' now (ip_frame (swap_ip dst_be) IP_PROTO_UDP (udp_datagram sp dp d) s) r
      = net_udp_input (g_ip s) sp dp (take (min (seen_len (length d)) (length d)) d) r"
proof -
  have l: "length (udp_datagram sp dp d) \<le> 1480" using assms(4) by simp
  show "net_udp_output N dst_be sp dp d s
      = nic_send N (ip_frame (swap_ip dst_be) IP_PROTO_UDP (udp_datagram sp dp d) s) (s\<lparr>g_ip_id := g_ip_id s + 1\<rparr>)"
    using assms(2,4) by (simp add: net_udp_output_def ip_send_routed [OF assms(1) l])
  show "handle_frame N' now (ip_frame (swap_ip dst_be) IP_PROTO_UDP (udp_datagram sp dp d) s) r
      = net_udp_input (g_ip s) sp dp (take (min (seen_len (length d)) (length d)) d) r"
    using handle_ip_frame [OF assms(1) l assms(5), of N' now IP_PROTO_UDP] assms(3) udp_seen [OF assms(4), of sp dp]
    by (simp add: udp_datagram_parse)
qed

lemma seen_len_ge: "(8 + n) div 256 \<le> (8 + n) mod 256 \<Longrightarrow> n \<le> seen_len n"
  unfolding seen_len_def using div_mult_mod_eq [of "8 + n" 256] by linarith

lemma tcp_delivery:
  assumes a: "routed (swap_ip (raddr_be ts)) s" "g_ready s" and d: "length d \<le> 1460"
  shows "tcp_send_segment N ts flags sq ak d s = nic_send N
      (ip_frame (swap_ip (raddr_be ts)) IP_PROTO_TCP (tcp_segment ts flags sq ak d) s) (s\<lparr>g_ip_id := g_ip_id s + 1\<rparr>)"
proof -
  have l: "length (tcp_segment ts flags sq ak d) \<le> 1480" using d by (simp add: tcp_segment_parse)
  show ?thesis
    using a(2) d by (simp add: tcp_send_segment_def net_ready_def ip_send_routed [OF a(1) l])
qed

lemma rxsegs_put:
  assumes "ts_ok ts" "rx_count ts < 8"
  shows "rxsegs (rx_put g ts) = rxsegs ts @ [g]"
  using cring_put(2) [of 8 "rxq ts" "rx_head ts" "rx_tail ts" "rx_count ts" g] assms
  by (simp add: rxsegs_def rx_put_def ts_ok_def)

text \<open>A data segment without FIN at its connection.\<close>

lemma established_data:
  assumes ok: "tcp_ok r" and j: "j < 8" and d: "d \<noteq> []" "length d \<le> 1400" "rx_count (g_tcp_socks r ! j) < 8"
    and fl: "\<not> flag flags TCP_FLAG_FIN"
  shows "rxsegs (g_tcp_socks (tcp_input_established N j flags sq ak d r) ! j)
      = rxsegs (g_tcp_socks r ! j) @ [\<lparr>rseg_seq = sq, rseg_len = length d, rseg_data = d\<rparr>]
    \<and> ts_state (g_tcp_socks (tcp_input_established N j flags sq ak d r) ! j) = ts_state (g_tcp_socks r ! j)"
proof -
  define ts1 where "ts1 = (if flag flags TCP_FLAG_ACK then tcp_ack ak (g_tcp_socks r ! j) else g_tcp_socks r ! j)"
  have t: "ts_ok ts1" "rx_count ts1 < 8" "rxsegs ts1 = rxsegs (g_tcp_socks r ! j)"
    "ts_state ts1 = ts_state (g_tcp_socks r ! j)"
    using tcp_ok_at [OF ok j] d(3) by (simp_all add: ts1_def tcp_ack_ok rxsegs_def)
  have "g_tcp_socks (tcp_input_established N j flags sq ak d r) ! j
      = rx_put \<lparr>rseg_seq = sq, rseg_len = length d, rseg_data = d\<rparr> ts1"
    unfolding tcp_input_established_def ts1_def [symmetric] Let_def
    using d t(2) fl j ok by (simp add: tcp_ok_def)
  then show ?thesis using t by (simp add: rxsegs_put)
qed

lemma tcp_input_data:
  assumes r: "g_ready r" "tcp_match src (lport_be ts) (rport_be ts) (g_tcp_socks r) [0..<8] None = Some j"
    "ts_state (g_tcp_socks r ! j) = ESTABLISHED"
  shows "tcp_input N now src (tcp_segment ts flags sq ak d) r = tcp_input_established N j flags sq ak d r"
proof -
  have h: "unat (drop_bit 4 (0x50 :: u8)) * 4 = 20" by simp
  show ?thesis
    unfolding tcp_input_def Let_def tcp_segment_parse h using r by (simp add: net_ready_def)
qed

lemma recv_first:
  assumes "tcp_ok r" "j < 8" "ts_state (g_tcp_socks r ! j) = ESTABLISHED" "rxsegs (g_tcp_socks r ! j) = g # gs"
    and "rseg_len g \<le> n"
  shows "fst (tcp_recv_data (Some j) n r) = int (rseg_len g)
    \<and> fst (snd (tcp_recv_data (Some j) n r)) = take (rseg_len g) (rseg_data g)"
proof -
  let ?ts = "g_tcp_socks r ! j"
  have n: "rx_count ?ts = Suc (length gs)" using assms(4) by (metis rxsegs_def length_ring_list length_Cons)
  have "cring_ok 8 (rxq ?ts) (rx_head ?ts) (rx_tail ?ts) (Suc (length gs))"
    using tcp_ok_at [OF assms(1,2)] n by (simp add: ts_ok_def)
  from cring_get(2) [OF this] have "rxq ?ts ! rx_head ?ts = g" using assms(4) n by (simp add: rxsegs_def)
  then show ?thesis using assms(3,5) n by (simp add: tcp_recv_data_def Let_def)
qed

lemma handle_frame_tcp_ok: "tcp_ok r \<Longrightarrow> routed dst s \<Longrightarrow> length p \<le> 1480 \<Longrightarrow> length p > 20 \<Longrightarrow> g_ip r = dst \<Longrightarrow>
    tcp_ok (handle_frame N now (ip_frame dst IP_PROTO_TCP p s) r)"
  by (simp add: handle_ip_frame tcp_input_ok)

text \<open>The ARP frames of a request for \<open>tpa\<close> and of the reply to it.\<close>

definition arp_frame :: "u16 \<Rightarrow> bytes \<Rightarrow> bytes option \<Rightarrow> u32 \<Rightarrow> ('n, 'a) net \<Rightarrow> bytes" where
  "arp_frame oper dst tha tpa s = dst @ g_mac s @ le16 (htons_u16 ETH_TYPE_ARP)
     @ arp_packet oper (g_mac s) (g_ip s) tha tpa"

lemma arp_send_eq:
  assumes "length (g_mac s) = 6" "\<forall>t. tha = Some t \<longrightarrow> length t = 6"
  shows "arp_send N oper tha tpa s
    = snd (nic_send N (arp_frame oper (if oper = ARP_OP_REQ then replicate 6 0xFF else the tha) tha tpa s) s)"
  using arp_packet_parse(1) [of "g_mac s" tha oper "g_ip s" tpa] assms
  by (simp add: arp_send_def Let_def eth_send_def arp_frame_def)

lemma handle_arp_packet:
  assumes "length sha = 6" "\<forall>t. tha = Some t \<longrightarrow> length t = 6"
  shows "handle_arp N (arp_packet oper sha spa tha tpa) s =
    (let s1 = (if spa = g_gw s then s\<lparr>g_gw_mac := sha, g_gw_mac_valid := True\<rparr> else s)
     in if oper = ARP_OP_REQ \<and> tpa = g_ip s then arp_send N ARP_OP_REP (Some sha) spa s1 else s1)"
proof -
  have "\<And>t. tha = Some t \<Longrightarrow> length t = 6" using assms(2) by blast
  note P = arp_packet_parse [OF assms(1) this, where oper = oper and spa = spa and tpa = tpa]
  show ?thesis
    unfolding handle_arp_def
    by (simp only: P Let_def, simp only: bytes_to_ip_bytes htons_u16_twice refl if_False simp_thms less_irrefl)
      (cases "spa = g_gw s"; cases "oper = 1"; cases "tpa = g_ip s"; simp)
qed

section \<open>Properties\<close>

text \<open>C35. A datagram \<open>net_udp_output\<close> accepts for a reachable host is handed to the card in a
  frame whose IPv4 header has a valid checksum, and the receive path of the addressed host
  delivers exactly its payload and ports to \<open>net_udp_input\<close>. This holds for the lengths whose
  high byte does not exceed their low byte (the length field is read in the wrong byte
  order); the source address arrives in host byte order.\<close>

theorem udp_host_to_host:
  fixes sport dport :: u16
  assumes "routed (swap_ip dst_be) s" "g_ready s" "g_ip r = swap_ip dst_be"
    and "d \<noteq> []" "length d \<le> 1458" "(8 + length d) div 256 \<le> (8 + length d) mod 256"
  defines "frame \<equiv> ip_frame (swap_ip dst_be) IP_PROTO_UDP (udp_datagram sport dport d) s"
  shows "net_udp_output N dst_be sport dport d s = nic_send N frame (s\<lparr>g_ip_id := g_ip_id s + 1\<rparr>)
    \<and> checksum16 (take 20 (drop 14 frame)) = 0
    \<and> handle_frame N' now frame r = net_udp_input (g_ip s) sport dport d r"
  using udp_delivery [OF assms(1,2,4,5,3)] seen_len_ge [OF assms(6)] ip_frame_verifies [OF assms(1)]
  by (simp add: frame_def)

text \<open>Two hosts, each the gateway of the other.\<close>

definition host_a :: "unit tcp_state" where
  "host_a = boot_tcp\<lparr>g_gw_mac := replicate 6 7, g_gw_mac_valid := True\<rparr>"

definition host_b :: "unit tcp_state" where
  "host_b = host_a\<lparr>g_ip := NET_IP_GW, g_gw := NET_IP_SELF\<rparr>"

lemma host_a_routed: "routed NET_IP_GW host_a" "g_ready host_a" "g_ip host_b = NET_IP_GW" "g_ready host_b"
  "g_ip host_a = NET_IP_SELF" "g_tcp_socks host_b = replicate 8 zero_ts" "g_tcp_pending host_b = []"
  by (simp_all add: routed_def host_a_def host_b_def boot_tcp_def)

lemma swap_gw: "swap_ip 0x0202000A = NET_IP_GW"
  by (simp add: swap_ip_def)

theorem udp_host_to_host_witness:
  "handle_frame no_nics 5 (ip_frame NET_IP_GW IP_PROTO_UDP (udp_datagram 9 53 [1, 2, 3]) host_a) host_b
   = net_udp_input NET_IP_SELF 9 53 [1, 2, 3] host_b"
  using udp_host_to_host [where dst_be = "0x0202000A" and s = host_a and r = host_b and d = "[1, 2, 3]"
      and sport = 9 and dport = 53 and N' = no_nics and now = 5]
  by (simp only: swap_gw host_a_routed) simp

text \<open>A datagram whose UDP length is a multiple of 256, such as one with a payload of 248
  bytes, arrives with an empty payload.\<close>

theorem udp_length_misread:
  assumes "routed (swap_ip dst_be) s" "g_ready s" "g_ip r = swap_ip dst_be"
    and "d \<noteq> []" "length d \<le> 1458" "256 dvd 8 + length d"
  shows "handle_frame N now (ip_frame (swap_ip dst_be) IP_PROTO_UDP (udp_datagram sport dport d) s) r
    = net_udp_input (g_ip s) sport dport [] r"
proof -
  have "(8 + length d) mod 256 = 0" using assms(6) by (simp only: dvd_eq_mod_eq_0)
  moreover have "(8 + length d) div 256 \<le> 8" using div_le_mono [of "8 + length d" 2048 256] assms(5) by simp
  ultimately have "seen_len (length d) = 0" by (simp add: seen_len_def)
  then show ?thesis using udp_delivery(2) [OF assms(1,2,4,5,3)] by simp
qed

theorem udp_length_misread_witness:
  "handle_frame no_nics 5 (ip_frame NET_IP_GW IP_PROTO_UDP (udp_datagram 9 53 (replicate 248 1)) host_a) host_b
   = net_udp_input NET_IP_SELF 9 53 [] host_b"
proof -
  have "replicate 248 (1 :: u8) \<noteq> []" "length (replicate 248 (1 :: u8)) \<le> 1458"
    "256 dvd 8 + length (replicate 248 (1 :: u8))" by simp_all
  from udp_length_misread [where dst_be = "0x0202000A" and s = host_a and r = host_b, unfolded swap_gw,
      OF host_a_routed(1,2,3) this] show ?thesis
    by (simp only: host_a_routed)
qed

text \<open>C22. What \<open>tcp_send_segment\<close> sends on a connection with data reaches the program at the
  other end: the receiving host finds its established socket, queues the payload, and
  \<open>tcp_recv_data\<close> returns exactly the bytes that were sent.\<close>

theorem tcp_data_host_to_host:
  fixes flags :: u8 and sq ak :: u32
  assumes "routed (swap_ip (raddr_be ts)) s" "g_ready s" "d \<noteq> []" "length d \<le> 1400"
    and r: "tcp_ok r" "g_ready r" "g_ip r = swap_ip (raddr_be ts)"
    and j: "tcp_match (htons_u32 (g_ip s)) (lport_be ts) (rport_be ts) (g_tcp_socks r) [0..<8] None = Some j"
      "ts_state (g_tcp_socks r ! j) = ESTABLISHED" "rx_count (g_tcp_socks r ! j) = 0"
    and nofin: "\<not> flag flags TCP_FLAG_FIN"
  defines "frame \<equiv> ip_frame (swap_ip (raddr_be ts)) IP_PROTO_TCP (tcp_segment ts flags sq ak d) s"
  shows "tcp_send_segment N ts flags sq ak d s = nic_send N frame (s\<lparr>g_ip_id := g_ip_id s + 1\<rparr>)
    \<and> fst (tcp_recv_data (Some j) 1400 (handle_frame N' now frame r)) = int (length d)
    \<and> fst (snd (tcp_recv_data (Some j) 1400 (handle_frame N' now frame r))) = d"
proof -
  have l: "length (tcp_segment ts flags sq ak d) \<le> 1480" "length (tcp_segment ts flags sq ak d) > 20"
    using assms(3,4) by (simp_all add: tcp_segment_parse)
  let ?r = "handle_frame N' now frame r"
  have e: "?r = tcp_input_established N' j flags sq ak d r"
    using handle_ip_frame [OF assms(1) l(1) r(3), of N' now IP_PROTO_TCP] l(2) tcp_input_data [OF r(2) j(1,2)]
    by (simp add: frame_def)
  have j8: "j < 8" by (rule tcp_match_less [OF j(1)])
  have "tcp_ok ?r" unfolding frame_def by (rule handle_frame_tcp_ok [OF r(1) assms(1) l r(3)])
  moreover have "rxsegs (g_tcp_socks ?r ! j) = [\<lparr>rseg_seq = sq, rseg_len = length d, rseg_data = d\<rparr>]"
    "ts_state (g_tcp_socks ?r ! j) = ESTABLISHED"
    using established_data [OF r(1) j8 assms(3,4) _ nofin, of N' sq ak] j e by (simp_all add: rxsegs_def)
  ultimately have "fst (tcp_recv_data (Some j) 1400 ?r) = int (length d)"
    "fst (snd (tcp_recv_data (Some j) 1400 ?r)) = d"
    using recv_first [of ?r j _ "[]" 1400] j8 assms(4) by simp_all
  then show ?thesis using tcp_delivery [OF assms(1,2), of d] assms(4) by (simp add: frame_def)
qed

text \<open>The other end of \<open>demo_conn\<close>.\<close>

definition peer_conn :: helix_tcp_sock where
  "peer_conn = zero_ts\<lparr>ts_used := True, ts_state := ESTABLISHED, lport_be := 0x5000,
     raddr_be := 0x0F02000A, rport_be := 0x28A0\<rparr>"

definition host_c :: "unit tcp_state" where
  "host_c = host_b\<lparr>g_tcp_socks := (replicate 8 zero_ts)[0 := peer_conn]\<rparr>"

theorem tcp_data_host_to_host_witness:
  "fst (snd (tcp_recv_data (Some 0) 1400 (handle_frame no_nics 5
     (ip_frame NET_IP_GW IP_PROTO_TCP (tcp_segment (demo_conn 1000) 0x18 1000 7 [4, 5]) host_a) host_c))) = [4, 5]"
proof -
  have c: "raddr_be (demo_conn 1000) = 0x0202000A" "lport_be (demo_conn 1000) = 0x28A0" "rport_be (demo_conn 1000) = 0x5000"
    by (simp_all add: demo_conn_def)
  have ok: "tcp_ok host_c"
    using zero_ts_ok by (simp add: tcp_ok_def host_c_def list_all_update peer_conn_def list_all_iff [of _ "replicate _ _"])
      (simp add: host_a_routed)
  have g: "g_ready host_c" "g_ip host_c = NET_IP_GW" "g_tcp_socks host_c ! 0 = peer_conn"
    by (simp_all add: host_c_def host_a_routed)
  have h: "htons_u32 NET_IP_SELF = 0x0F02000A" by (simp add: htons_u32_def)
  have m: "tcp_match 0x0F02000A 0x28A0 0x5000 (g_tcp_socks host_c) [0..<8] None = Some 0"
    by (simp add: upt_conv_Cons g peer_conn_def zero_ts_def Let_def)
  have "ts_state (g_tcp_socks host_c ! 0) = ESTABLISHED" "rx_count (g_tcp_socks host_c ! 0) = 0" "\<not> flag 0x18 TCP_FLAG_FIN"
    by (simp_all add: g peer_conn_def zero_ts_def flag_def)
  then show ?thesis
    using tcp_data_host_to_host [where ts = "demo_conn 1000" and s = host_a and r = host_c and d = "[4, 5]" and j = 0
        and flags = "0x18" and sq = 1000 and ak = 7 and N' = no_nics and now = 5] ok g(1,2) m
    by (simp only: c swap_gw host_a_routed h) simp
qed

text \<open>C38. A segment without data is never processed: the 20 byte header the stack itself sends
  with SYN, ACK or FIN is dropped by the length test of the receiving host, in whatever
  state its sockets are.\<close>

theorem bare_segment_ignored:
  fixes flags :: u8 and sq ak :: u32
  assumes "routed (swap_ip (raddr_be ts)) s" "g_ready s" "g_ip r = swap_ip (raddr_be ts)"
  defines "frame \<equiv> ip_frame (swap_ip (raddr_be ts)) IP_PROTO_TCP (tcp_segment ts flags sq ak []) s"
  shows "tcp_send_segment N ts flags sq ak [] s = nic_send N frame (s\<lparr>g_ip_id := g_ip_id s + 1\<rparr>)
    \<and> handle_frame N' now frame r = r"
proof -
  have l: "length (tcp_segment ts flags sq ak []) = 20" by (simp add: tcp_segment_parse)
  have "handle_frame N' now frame r = r"
    using handle_ip_frame [OF assms(1) _ assms(3), of "tcp_segment ts flags sq ak []" N' now IP_PROTO_TCP] l
    by (simp add: frame_def)
  then show ?thesis using tcp_delivery [OF assms(1,2), of "[]"] by (simp add: frame_def)
qed

theorem bare_segment_ignored_witness:
  "handle_frame no_nics 5 (ip_frame NET_IP_GW IP_PROTO_TCP (tcp_segment (demo_conn 1000) 0x02 1000 0 []) host_a) host_b
   = host_b"
proof -
  have c: "raddr_be (demo_conn 1000) = 0x0202000A" by (simp add: demo_conn_def)
  show ?thesis
    using bare_segment_ignored [where ts = "demo_conn 1000" and s = host_a and r = host_b and flags = "0x02"
        and sq = 1000 and ak = 0 and N' = no_nics and now = 5]
    by (simp only: c swap_gw host_a_routed)
qed

text \<open>Address resolution works end to end: the gateway answers the broadcast request with a
  frame for the asking host, and that host, on receiving it, records the link address of the
  gateway and changes nothing else.\<close>

theorem arp_resolves_gateway:
  assumes "length (g_mac s) = 6" "length (g_mac r) = 6" "g_ip r = g_gw s"
  defines "request \<equiv> arp_frame ARP_OP_REQ (replicate 6 0xFF) None (g_gw s) s"
    and "reply \<equiv> arp_frame ARP_OP_REP (g_mac s) (Some (g_mac s)) (g_ip s) r"
    and "r1 \<equiv> if g_ip s = g_gw r then r\<lparr>g_gw_mac := g_mac s, g_gw_mac_valid := True\<rparr> else r"
  shows "arp_send N ARP_OP_REQ None (g_gw s) s = snd (nic_send N request s)
    \<and> handle_frame N' now request r = snd (nic_send N' reply r1)
    \<and> handle_frame N now' reply s = s\<lparr>g_gw_mac := g_mac r, g_gw_mac_valid := True\<rparr>"
proof -
  have r1: "g_mac r1 = g_mac r" "g_ip r1 = g_ip r" by (simp_all add: r1_def)
  have 1: "arp_send N ARP_OP_REQ None (g_gw s) s = snd (nic_send N request s)"
    using assms(1) by (simp add: arp_send_eq request_def)
  have "arp_send N' ARP_OP_REP (Some (g_mac s)) (g_ip s) r1 = snd (nic_send N' reply r1)"
    using assms(1,2) r1 by (subst arp_send_eq) (simp_all add: reply_def arp_frame_def)
  then have 2: "handle_frame N' now request r = snd (nic_send N' reply r1)"
    unfolding request_def arp_frame_def
    using assms(1,3) by (simp add: handle_frame_eth handle_arp_packet r1_def Let_def)
  have 3: "handle_frame N now' reply s = s\<lparr>g_gw_mac := g_mac r, g_gw_mac_valid := True\<rparr>"
    unfolding reply_def arp_frame_def
    using assms(1-3) by (simp add: handle_frame_eth handle_arp_packet Let_def)
  from 1 2 3 show ?thesis by simp
qed

theorem arp_resolves_gateway_witness:
  "handle_frame no_nics 6 (arp_frame ARP_OP_REP (replicate 6 0) (Some (replicate 6 0)) NET_IP_SELF host_b) boot_tcp
   = boot_tcp\<lparr>g_gw_mac := replicate 6 0, g_gw_mac_valid := True\<rparr>"
proof -
  have "g_mac boot_tcp = replicate 6 0" "g_mac host_b = replicate 6 0" "g_gw boot_tcp = NET_IP_GW" "g_ip boot_tcp = NET_IP_SELF"
    by (simp_all add: host_b_def host_a_def boot_tcp_def)
  then show ?thesis
    using arp_resolves_gateway [where s = boot_tcp and r = host_b and N = no_nics and N' = no_nics and now = 5 and now' = 6]
    by (simp only: host_a_routed) simp
qed

end
