(* ===== verification/Ramfs.thy ===== *)
theory Ramfs
  imports Kobj
begin

text \<open>
  The memory file system mounted at \<open>/tmp\<close>, \<open>src/kernel/fs/ramfs.c\<close>: a table of 64 nodes
  linked by parent indices, path lookup, the directory operations, and the file data in
  heap buffers. The state extends the heap objects of \<open>Kobj\<close> by the node table. A node
  index is a \<open>nat\<close>, a parent an \<open>int\<close> with -1 for none, and a C string the list of its
  characters. An operation that would touch a node or an object that does not exist
  returns \<open>None\<close>; so does a loop that would not end.
\<close>

section \<open>State\<close>

abbreviation (input) RAMFS_MAX_NODES :: nat where "RAMFS_MAX_NODES \<equiv> 64"
abbreviation (input) RAMFS_MAX_NAME :: nat where "RAMFS_MAX_NAME \<equiv> 32"
abbreviation (input) RAMFS_MAX_FILE :: nat where "RAMFS_MAX_FILE \<equiv> 65536"

record ramfs_node =
  n_used :: bool
  n_is_dir :: bool
  n_name :: string
  n_parent :: int
  n_data :: nat
  n_size :: nat
  n_cap :: nat

definition zero_node :: ramfs_node where
  "zero_node = \<lparr>n_used = False, n_is_dir = False, n_name = [], n_parent = 0, n_data = 0, n_size = 0, n_cap = 0\<rparr>"

record rfs = kobj +
  g_nodes :: "ramfs_node list"
  g_tmp_root :: int

abbreviation (input) VFS_O_RDONLY :: nat where "VFS_O_RDONLY \<equiv> 0"
abbreviation (input) VFS_O_WRONLY :: nat where "VFS_O_WRONLY \<equiv> 1"
abbreviation (input) VFS_O_RDWR :: nat where "VFS_O_RDWR \<equiv> 2"
abbreviation (input) VFS_O_CREAT :: nat where "VFS_O_CREAT \<equiv> 64"
abbreviation (input) VFS_O_TRUNC :: nat where "VFS_O_TRUNC \<equiv> 512"
abbreviation (input) VFS_O_APPEND :: nat where "VFS_O_APPEND \<equiv> 1024"

definition has_flag :: "nat \<Rightarrow> nat \<Rightarrow> bool" where
  "has_flag flags m \<longleftrightarrow> flags AND m \<noteq> 0"

section \<open>Nodes and paths\<close>

text \<open>The new slot is cleared and marked; its parent is -1 until the caller sets it.\<close>

definition node_alloc :: "ramfs_node list \<Rightarrow> nat option \<times> ramfs_node list" where
  "node_alloc ns =
    (case find (\<lambda>i. \<not> n_used (ns ! i)) [0..<RAMFS_MAX_NODES] of
       None \<Rightarrow> (None, ns)
     | Some i \<Rightarrow> (Some i, ns[i := zero_node\<lparr>n_used := True, n_parent := -1\<rparr>]))"

definition find_child :: "int \<Rightarrow> string \<Rightarrow> ramfs_node list \<Rightarrow> nat option" where
  "find_child parent name ns =
    find (\<lambda>i. n_used (ns ! i) \<and> n_parent (ns ! i) = parent \<and> n_name (ns ! i) = name) [0..<RAMFS_MAX_NODES]"

text \<open>One round of the loop of \<open>resolve\<close>: at most 31 characters up to a slash, then slashes.\<close>

definition comp_of :: "string \<Rightarrow> string" where
  "comp_of p = take (RAMFS_MAX_NAME - 1) (takeWhile (\<lambda>c. c \<noteq> SLASH) p)"

definition after_comp :: "string \<Rightarrow> string" where
  "after_comp p = dropWhile (\<lambda>c. c = SLASH) (drop (length (comp_of p)) p)"

lemma after_comp_shorter: "after_comp p \<noteq> [] \<Longrightarrow> length (after_comp p) < length p"
proof -
  assume a: "after_comp p \<noteq> []"
  then have p: "p \<noteq> []" by (auto simp: after_comp_def)
  have l: "length (after_comp p) \<le> length (drop (length (comp_of p)) p)"
    unfolding after_comp_def by (rule length_dropWhile_le)
  show ?thesis
  proof (cases "comp_of p = []")
    case True
    then have "takeWhile (\<lambda>c. c \<noteq> SLASH) p = []" by (simp add: comp_of_def)
    then have "hd p = SLASH" using p by (cases p) (auto split: if_splits)
    then have "after_comp p = dropWhile (\<lambda>c. c = SLASH) (tl p)"
      using True p by (cases p) (simp_all add: after_comp_def)
    then have "length (after_comp p) \<le> length (tl p)" by (metis length_dropWhile_le)
    then show ?thesis using p by (cases p) simp_all
  next
    case False
    then have "0 < length (comp_of p)" by simp
    then show ?thesis using l p by (simp add: le_less_trans [OF l])
  qed
qed

text \<open>
  The result is the returned node (0 with \<open>need_parent\<close>), \<open>*out_parent\<close> and the leaf;
  \<open>None\<close> stands for -1.
\<close>

function resolve_loop :: "ramfs_node list \<Rightarrow> bool \<Rightarrow> int \<Rightarrow> string \<Rightarrow> (int \<times> int \<times> string) option" where
  "resolve_loop ns need_parent parent p =
    (let comp = comp_of p; q = after_comp p in
     if q = [] then
       (if need_parent then Some (0, parent, comp)
        else case find_child parent comp ns of
               None \<Rightarrow> None
             | Some c \<Rightarrow> Some (int c, parent, []))
     else
       case find_child parent comp ns of
         None \<Rightarrow> None
       | Some c \<Rightarrow> if \<not> n_is_dir (ns ! c) then None else resolve_loop ns need_parent (int c) q)"
  by pat_completeness auto
termination
  by (relation "measure (\<lambda>(ns, need_parent, parent, p). length p)") (auto simp: after_comp_shorter)

declare resolve_loop.simps [simp del]

definition resolve :: "ramfs_node list \<Rightarrow> int \<Rightarrow> string \<Rightarrow> bool \<Rightarrow> (int \<times> int \<times> string) option" where
  "resolve ns root rel need_parent =
    (if rel = [] then (if need_parent then None else Some (root, root, []))
     else resolve_loop ns need_parent root rel)"

definition strip_tmp_prefix :: "string \<Rightarrow> string option" where
  "strip_tmp_prefix path =
    (let p = dropWhile (\<lambda>c. c = SLASH) path in
     if take 3 p = ''tmp'' \<and> (drop 3 p = [] \<or> hd (drop 3 p) = SLASH)
     then Some (dropWhile (\<lambda>c. c = SLASH) (drop 3 p))
     else None)"

section \<open>Directory operations\<close>

definition ramfs_mkdir :: "string \<Rightarrow> 'a rfs_scheme \<Rightarrow> int \<times> 'a rfs_scheme" where
  "ramfs_mkdir path s =
    (case strip_tmp_prefix path of
       None \<Rightarrow> (-1, s)
     | Some rel \<Rightarrow>
         if rel = [] then (0, s)
         else
           case resolve (g_nodes s) (g_tmp_root s) rel True of
             None \<Rightarrow> (-1, s)
           | Some (_, parent, leaf) \<Rightarrow>
               if leaf = [] then (-1, s)
               else if find_child parent leaf (g_nodes s) \<noteq> None then (-1, s)
               else
                 case node_alloc (g_nodes s) of
                   (None, _) \<Rightarrow> (-1, s)
                 | (Some n, ns) \<Rightarrow>
                     (0, s\<lparr>g_nodes := ns[n := (ns ! n)\<lparr>n_is_dir := True, n_parent := parent, n_name := leaf\<rparr>]\<rparr>))"

definition ramfs_create_file :: "string \<Rightarrow> 'a rfs_scheme \<Rightarrow> int \<times> 'a rfs_scheme" where
  "ramfs_create_file path s =
    (case strip_tmp_prefix path of
       None \<Rightarrow> (-1, s)
     | Some rel \<Rightarrow>
         if rel = [] then (-1, s)
         else
           case resolve (g_nodes s) (g_tmp_root s) rel True of
             None \<Rightarrow> (-1, s)
           | Some (_, parent, leaf) \<Rightarrow>
               if find_child parent leaf (g_nodes s) \<noteq> None then (-1, s)
               else
                 case node_alloc (g_nodes s) of
                   (None, _) \<Rightarrow> (-1, s)
                 | (Some n, ns) \<Rightarrow>
                     (int n, s\<lparr>g_nodes := ns[n := (ns ! n)\<lparr>n_is_dir := False, n_parent := parent, n_name := leaf,
                        n_data := 0, n_size := 0, n_cap := 0\<rparr>]\<rparr>))"

definition ramfs_mkdir_op :: "string \<Rightarrow> 'a rfs_scheme \<Rightarrow> int \<times> 'a rfs_scheme" where
  "ramfs_mkdir_op path s = (let (r, s') = ramfs_mkdir path s in (if r = 0 then 0 else -1, s'))"

definition node_release :: "nat \<Rightarrow> 'a rfs_scheme \<Rightarrow> 'a rfs_scheme" where
  "node_release idx s =
    (let s1 = (if n_data (g_nodes s ! idx) \<noteq> 0 then free_buf (n_data (g_nodes s ! idx)) s else s)
     in s1\<lparr>g_nodes := (g_nodes s1)[idx := zero_node]\<rparr>)"

definition node_child_count :: "nat \<Rightarrow> ramfs_node list \<Rightarrow> nat" where
  "node_child_count idx ns =
    length (filter (\<lambda>i. n_used (ns ! i) \<and> n_parent (ns ! i) = int idx) [0..<RAMFS_MAX_NODES])"

text \<open>The common start of \<open>ramfs_unlink_op\<close> and \<open>ramfs_rmdir_op\<close>: the node of the last component.\<close>

definition target_node :: "string \<Rightarrow> 'a rfs_scheme \<Rightarrow> nat option" where
  "target_node path s =
    (case strip_tmp_prefix path of
       None \<Rightarrow> None
     | Some rel \<Rightarrow>
         if rel = [] \<or> rel = ''.'' then None
         else
           case resolve (g_nodes s) (g_tmp_root s) rel True of
             None \<Rightarrow> None
           | Some (_, parent, leaf) \<Rightarrow> if leaf = [] then None else find_child parent leaf (g_nodes s))"

definition ramfs_unlink_op :: "string \<Rightarrow> 'a rfs_scheme \<Rightarrow> int \<times> 'a rfs_scheme" where
  "ramfs_unlink_op path s =
    (case target_node path s of None \<Rightarrow> (-1, s) | Some idx \<Rightarrow> (0, node_release idx s))"

definition ramfs_rmdir_op :: "string \<Rightarrow> 'a rfs_scheme \<Rightarrow> int \<times> 'a rfs_scheme" where
  "ramfs_rmdir_op path s =
    (case target_node path s of
       None \<Rightarrow> (-1, s)
     | Some idx \<Rightarrow>
         if \<not> n_is_dir (g_nodes s ! idx) then (-1, s)
         else if node_child_count idx (g_nodes s) > 0 then (-1, s)
         else (0, node_release idx s))"

text \<open>
  The walk of \<open>ramfs_rename_op\<close> from the new parent upwards: \<open>True\<close> where it meets the node
  that moves. It reads the parent of a node that must exist.
\<close>

partial_function (option) meets :: "ramfs_node list \<Rightarrow> int \<Rightarrow> nat \<Rightarrow> int \<Rightarrow> bool option" where
  "meets ns root idx p =
    (if p < 0 then Some False
     else if p = int idx then Some True
     else if p = root then Some False
     else if nat p < length ns then meets ns root idx (n_parent (ns ! nat p))
     else None)"

definition ramfs_rename_op :: "string \<Rightarrow> string \<Rightarrow> 'a rfs_scheme \<Rightarrow> (int \<times> 'a rfs_scheme) option" where
  "ramfs_rename_op oldpath newpath s =
    (case (strip_tmp_prefix oldpath, strip_tmp_prefix newpath) of
       (Some old_rel, Some new_rel) \<Rightarrow>
         if old_rel = [] \<or> new_rel = [] then Some (-1, s)
         else
           (case (resolve (g_nodes s) (g_tmp_root s) old_rel True, resolve (g_nodes s) (g_tmp_root s) new_rel True) of
              (Some (_, old_parent, old_leaf), Some (_, new_parent, new_leaf)) \<Rightarrow>
                if old_leaf = [] \<or> new_leaf = [] then Some (-1, s)
                else
                  (case find_child old_parent old_leaf (g_nodes s) of
                     None \<Rightarrow> Some (-1, s)
                   | Some idx \<Rightarrow>
                       if find_child new_parent new_leaf (g_nodes s) \<noteq> None then Some (-1, s)
                       else
                         let moved = s\<lparr>g_nodes := (g_nodes s)[idx :=
                               (g_nodes s ! idx)\<lparr>n_parent := new_parent, n_name := new_leaf\<rparr>]\<rparr>
                         in if n_is_dir (g_nodes s ! idx) then
                              (case meets (g_nodes s) (g_tmp_root s) idx new_parent of
                                 None \<Rightarrow> None
                               | Some True \<Rightarrow> Some (-1, s)
                               | Some False \<Rightarrow> Some (0, moved))
                            else Some (0, moved))
            | _ \<Rightarrow> Some (-1, s))
     | _ \<Rightarrow> Some (-1, s))"

definition ramfs_init :: "'a rfs_scheme \<Rightarrow> int \<times> 'a rfs_scheme" where
  "ramfs_init s =
    (case node_alloc (replicate RAMFS_MAX_NODES zero_node) of
       (None, ns) \<Rightarrow> (-1, s\<lparr>g_nodes := ns, g_tmp_root := -1\<rparr>)
     | (Some r, ns) \<Rightarrow>
         (0, s\<lparr>g_nodes := ns[r := (ns ! r)\<lparr>n_is_dir := True, n_parent := -1, n_name := ''tmp''\<rparr>],
               g_tmp_root := int r\<rparr>))"

section \<open>Open files\<close>

text \<open>
  The flag word is read bit by bit. The result holds the return value and the new file;
  \<open>idx\<close> is -1 only before \<open>ramfs_init\<close>, where the code would read in front of the table.
\<close>

definition ramfs_open :: "string \<Rightarrow> nat \<Rightarrow> 'a rfs_scheme \<Rightarrow> (int \<times> nat \<times> 'a rfs_scheme) option" where
  "ramfs_open path flags s =
    (case strip_tmp_prefix path of
       None \<Rightarrow> Some (-1, 0, s)
     | Some rel \<Rightarrow>
         let look = (\<lambda>st. map_option fst (resolve (g_nodes st) (g_tmp_root st) rel False));
             (found, s1) =
               (if rel = [] then (Some (g_tmp_root s), s)
                else
                  case look s of
                    Some i \<Rightarrow> (Some i, s)
                  | None \<Rightarrow>
                      if has_flag flags VFS_O_CREAT then
                        let (r, s1) = ramfs_create_file path s in
                        if r < 0 then (None, s1) else (look s1, s1)
                      else (None, s))
         in case found of
              None \<Rightarrow> Some (-1, 0, s1)
            | Some idx \<Rightarrow>
                if idx < 0 \<or> idx \<ge> int (length (g_nodes s1)) then None
                else
                  let node = g_nodes s1 ! nat idx in
                  if has_flag flags (VFS_O_WRONLY OR VFS_O_RDWR OR VFS_O_TRUNC OR VFS_O_CREAT) \<and> n_is_dir node
                  then Some (-1, 0, s1)
                  else
                    let node1 = (if has_flag flags VFS_O_TRUNC \<and> \<not> n_is_dir node then node\<lparr>n_size := 0\<rparr> else node);
                        s2 = s1\<lparr>g_nodes := (g_nodes s1)[nat idx := node1]\<rparr>;
                        (rf, h3) = kmalloc sizeof_ramfs_file (kheap s2)
                    in if rf = 0 then Some (-1, 0, s2\<lparr>kheap := h3\<rparr>)
                       else
                         let pos = (if has_flag flags VFS_O_APPEND then n_size node1 else 0);
                             s3 = s2\<lparr>kheap := h3, rfiles := (rfiles s2)(rf \<mapsto> \<lparr>rf_node = nat idx, rf_pos = pos\<rparr>)\<rparr>;
                             (vf, h4) = kmalloc sizeof_vfs_file (kheap s3)
                         in if vf = 0 then Some (-1, 0, free_rfile rf (s3\<lparr>kheap := h4\<rparr>))
                            else Some (0, vf, s3\<lparr>kheap := h4, files := (files s3)(vf \<mapsto>
                                   zero_file\<lparr>f_ops := RamfsOps, fs_priv := rf, is_dir := n_is_dir node1,
                                     f_size := n_size node1, f_pos := pos,
                                     writable := has_flag flags (VFS_O_WRONLY OR VFS_O_RDWR OR VFS_O_CREAT
                                                                OR VFS_O_TRUNC OR VFS_O_APPEND)\<rparr>)\<rparr>))"

text \<open>Reading: the return value, \<open>*out_n\<close>, the bytes copied into the caller's buffer, the state.\<close>

definition ramfs_read :: "nat \<Rightarrow> nat \<Rightarrow> 'a rfs_scheme \<Rightarrow> (int \<times> nat \<times> bytes \<times> 'a rfs_scheme) option" where
  "ramfs_read fp len s =
    (case files s fp of
       None \<Rightarrow> None
     | Some f \<Rightarrow>
         if fs_priv f = 0 then Some (-1, 0, [], s)
         else
           case rfiles s (fs_priv f) of
             None \<Rightarrow> None
           | Some rf \<Rightarrow>
               if length (g_nodes s) \<le> rf_node rf then None
               else
                 let n = g_nodes s ! rf_node rf in
                 if n_is_dir n then Some (-1, 0, [], s)
                 else if rf_pos rf \<ge> n_size n then Some (0, 0, [], s)
                 else
                   let got = (if n_size n - rf_pos rf > len then len else n_size n - rf_pos rf);
                       s1 = s\<lparr>rfiles := (rfiles s)(fs_priv f \<mapsto> rf\<lparr>rf_pos := rf_pos rf + got\<rparr>),
                              files := (files s)(fp \<mapsto> f\<lparr>f_pos := rf_pos rf + got\<rparr>)\<rparr>
                   in if got = 0 \<or> n_data n = 0 then Some (0, got, [], s1)
                      else
                        case bufs s (n_data n) of
                          None \<Rightarrow> None
                        | Some b \<Rightarrow>
                            if rf_pos rf + got \<le> length b
                            then Some (0, got, take got (drop (rf_pos rf) b), s1) else None)"

text \<open>The capacity doubles until it suffices.\<close>

partial_function (option) grow_cap :: "nat \<Rightarrow> nat \<Rightarrow> nat option" where
  "grow_cap ncap need = (if ncap < need then grow_cap (wrap64 (ncap * 2)) need else Some ncap)"

text \<open>Making room for \<open>need\<close> bytes: the second half of the result is \<open>False\<close> where \<open>kmalloc\<close> fails.\<close>

definition ramfs_reserve :: "nat \<Rightarrow> nat \<Rightarrow> 'a rfs_scheme \<Rightarrow> (bool \<times> 'a rfs_scheme) option" where
  "ramfs_reserve i need s =
    (let n = g_nodes s ! i in
     if need \<le> n_cap n then Some (True, s)
     else
       case grow_cap (if n_cap n \<noteq> 0 then wrap64 (n_cap n * 2) else 256) need of
         None \<Rightarrow> None
       | Some c \<Rightarrow>
           let ncap = (if c > RAMFS_MAX_FILE then RAMFS_MAX_FILE else c);
               (nd, h1) = kmalloc ncap (kheap s)
           in if nd = 0 then Some (False, s\<lparr>kheap := h1\<rparr>)
              else
                let fresh = map (garbage s) [nd..<nd + ncap];
                    old = (if n_data n \<noteq> 0 \<and> n_size n \<noteq> 0 then bufs s (n_data n) else Some [])
                in case old of
                     None \<Rightarrow> None
                   | Some b \<Rightarrow>
                       if b \<noteq> [] \<and> (length b < n_size n \<or> ncap < n_size n) then None
                       else
                         let copied = take (n_size n) b @ drop (length (take (n_size n) b)) fresh;
                             s1 = s\<lparr>kheap := h1, bufs := (bufs s)(nd \<mapsto> copied)\<rparr>;
                             s2 = (if n_data n \<noteq> 0 then free_buf (n_data n) s1 else s1)
                         in Some (True, s2\<lparr>g_nodes := (g_nodes s2)[i := n\<lparr>n_data := nd, n_cap := ncap\<rparr>]\<rparr>))"

definition ramfs_write :: "nat \<Rightarrow> bytes \<Rightarrow> 'a rfs_scheme \<Rightarrow> (int \<times> nat \<times> 'a rfs_scheme) option" where
  "ramfs_write fp src s =
    (case files s fp of
       None \<Rightarrow> None
     | Some f \<Rightarrow>
         if fs_priv f = 0 then Some (-1, 0, s)
         else
           case rfiles s (fs_priv f) of
             None \<Rightarrow> None
           | Some rf \<Rightarrow>
               if length (g_nodes s) \<le> rf_node rf then None
               else if \<not> writable f \<or> n_is_dir (g_nodes s ! rf_node rf) then Some (-1, 0, s)
               else
                 let i = rf_node rf; need = wrap64 (rf_pos rf + length src) in
                 if need > RAMFS_MAX_FILE then Some (-1, 0, s)
                 else
                   case ramfs_reserve i need s of
                     None \<Rightarrow> None
                   | Some (False, s1) \<Rightarrow> Some (-1, 0, s1)
                   | Some (True, s1) \<Rightarrow>
                       let n = g_nodes s1 ! i;
                           pos = wrap64 (rf_pos rf + length src);
                           size = (if pos > n_size n then pos else n_size n);
                           s2 = s1\<lparr>rfiles := (rfiles s1)(fs_priv f \<mapsto> rf\<lparr>rf_pos := pos\<rparr>),
                                   files := (files s1)(fp \<mapsto> f\<lparr>f_size := size, f_pos := pos\<rparr>),
                                   g_nodes := (g_nodes s1)[i := n\<lparr>n_size := size\<rparr>]\<rparr>
                       in if src = [] then Some (0, 0, s2)
                          else
                            case bufs s1 (n_data n) of
                              None \<Rightarrow> None
                            | Some b \<Rightarrow>
                                if rf_pos rf + length src \<le> length b
                                then Some (0, length src, s2\<lparr>bufs := (bufs s2)(n_data n \<mapsto>
                                       take (rf_pos rf) b @ src @ drop (rf_pos rf + length src) b)\<rparr>)
                                else None)"

definition ramfs_close :: "nat \<Rightarrow> 'a rfs_scheme \<Rightarrow> (int \<times> 'a rfs_scheme) option" where
  "ramfs_close fp s =
    (case files s fp of
       None \<Rightarrow> None
     | Some f \<Rightarrow>
         if fs_priv f \<noteq> 0 then
           (if rfiles s (fs_priv f) = None then None else Some (0, free_file fp (free_rfile (fs_priv f) s)))
         else Some (0, free_file fp s))"

section \<open>Listing\<close>

text \<open>The names and sizes \<open>ramfs_readdir_tmp\<close> passes to its callback, in order.\<close>

definition ramfs_readdir_tmp :: "'a rfs_scheme \<Rightarrow> (string \<times> nat) list" where
  "ramfs_readdir_tmp s =
    map (\<lambda>i. (n_name (g_nodes s ! i), if n_is_dir (g_nodes s ! i) then 0 else n_size (g_nodes s ! i)))
      (filter (\<lambda>i. n_used (g_nodes s ! i) \<and> n_parent (g_nodes s ! i) = g_tmp_root s) [0..<RAMFS_MAX_NODES])"

record linux_dirent64 =
  d_ino :: nat
  d_off :: nat
  d_reclen :: nat
  d_type :: nat
  d_name :: string

definition dirent_reclen :: "string \<Rightarrow> nat" where
  "dirent_reclen name = (8 + 8 + 2 + 1 + length name + 1 + 7) div 8 * 8"

text \<open>
  The loop of \<open>ramfs_getdents64\<close> over the node indices; \<open>seen\<close>, \<open>index\<close> and \<open>produced\<close> are its
  counters. The result is the list of entries, their total length and the new index, or
  \<open>None\<close> for the return value -22.
\<close>

fun getdents_loop :: "ramfs_node list \<Rightarrow> int \<Rightarrow> nat \<Rightarrow> nat list \<Rightarrow> nat \<Rightarrow> nat \<Rightarrow> nat \<Rightarrow>
    (linux_dirent64 list \<times> nat \<times> nat) option" where
  "getdents_loop ns parent len [] seen index produced = Some ([], produced, index)"
| "getdents_loop ns parent len (i # is) seen index produced =
    (if \<not> n_used (ns ! i) \<or> n_parent (ns ! i) \<noteq> parent then
       getdents_loop ns parent len is seen index produced
     else if seen < index then getdents_loop ns parent len is (seen + 1) index produced
     else
       let rl = dirent_reclen (n_name (ns ! i)) in
       if produced + rl > len then
         (if produced = 0 then None else Some ([], produced, index))
       else
         map_option (\<lambda>(es, n, k). (\<lparr>d_ino = i + 1, d_off = index + 1, d_reclen = rl,
              d_type = (if n_is_dir (ns ! i) then 4 else 8), d_name = n_name (ns ! i)\<rparr> # es, n, k))
           (getdents_loop ns parent len is (seen + 1) (index + 1) (produced + rl)))"

definition ramfs_getdents64 ::
  "nat \<Rightarrow> nat \<Rightarrow> 'a rfs_scheme \<Rightarrow> (int \<times> linux_dirent64 list \<times> 'a rfs_scheme) option" where
  "ramfs_getdents64 fp len s =
    (case files s fp of
       None \<Rightarrow> None
     | Some f \<Rightarrow>
         if \<not> is_dir f then Some (-20, [], s)
         else
           case (if fs_priv f = 0 then Some (g_tmp_root s) else map_option (int \<circ> rf_node) (rfiles s (fs_priv f))) of
             None \<Rightarrow> None
           | Some parent \<Rightarrow>
               (case getdents_loop (g_nodes s) parent len [0..<RAMFS_MAX_NODES] 0 (f_pos f) 0 of
                  None \<Rightarrow> Some (-22, [], s)
                | Some (es, produced, index) \<Rightarrow>
                    Some (int produced, es, s\<lparr>files := (files s)(fp \<mapsto> f\<lparr>f_pos := index\<rparr>)\<rparr>)))"

record helix_stat =
  st_nlink :: nat
  st_mode :: nat
  st_size :: nat
  st_blksize :: nat

text \<open>The fields that are not zero; 16877 is octal 40755 and 33188 octal 100644.\<close>

definition ramfs_fstat :: "nat \<Rightarrow> 'a rfs_scheme \<Rightarrow> helix_stat option" where
  "ramfs_fstat fp s =
    (case files s fp of
       None \<Rightarrow> None
     | Some f \<Rightarrow>
         if is_dir f then Some \<lparr>st_nlink = 1, st_mode = 16877, st_size = 0, st_blksize = 512\<rparr>
         else
           (case (if fs_priv f = 0 then Some 0
                  else case rfiles s (fs_priv f) of
                         None \<Rightarrow> None
                       | Some rf \<Rightarrow> if rf_node rf < length (g_nodes s) then Some (n_size (g_nodes s ! rf_node rf)) else None)
            of None \<Rightarrow> None
             | Some z \<Rightarrow> Some \<lparr>st_nlink = 1, st_mode = 33188, st_size = z, st_blksize = 512\<rparr>))"

end
