(* ===== verification/Ramfs_Props.thy ===== *)
theory Ramfs_Props
  imports Ramfs
begin

text \<open>
  Properties of the memory file system of \<open>Ramfs\<close>: the node table is a tree rooted at
  \<open>/tmp\<close> with distinct names among siblings, and the directory operations keep it one; path
  lookup inverts creation; reading returns what was written; and the cases where the code
  leaves the tree broken.
\<close>

section \<open>The directory tree\<close>

text \<open>The nodes connected to the root by parents that are directories.\<close>

inductive attached :: "ramfs_node list \<Rightarrow> nat \<Rightarrow> nat \<Rightarrow> bool" for ns r where
  base: "attached ns r r"
| step: "i < 64 \<Longrightarrow> i \<noteq> r \<Longrightarrow> n_used (ns ! i) \<Longrightarrow> n_parent (ns ! i) = int p \<Longrightarrow> n_is_dir (ns ! p) \<Longrightarrow>
    attached ns r p \<Longrightarrow> attached ns r i"

definition name_ok :: "string \<Rightarrow> bool" where
  "name_ok nm \<longleftrightarrow> nm \<noteq> [] \<and> length nm \<le> 31 \<and> SLASH \<notin> set nm"

definition siblings_ok :: "ramfs_node list \<Rightarrow> bool" where
  "siblings_ok ns \<longleftrightarrow> (\<forall>i<64. \<forall>j<64. n_used (ns ! i) \<longrightarrow> n_used (ns ! j) \<longrightarrow>
     n_parent (ns ! i) = n_parent (ns ! j) \<longrightarrow> n_name (ns ! i) = n_name (ns ! j) \<longrightarrow> i = j)"

definition tree_ok :: "ramfs_node list \<Rightarrow> nat \<Rightarrow> bool" where
  "tree_ok ns r \<longleftrightarrow> length ns = 64 \<and> r < 64 \<and> n_used (ns ! r) \<and> n_is_dir (ns ! r) \<and> n_parent (ns ! r) = -1
     \<and> (\<forall>i<64. n_used (ns ! i) \<longrightarrow> attached ns r i) \<and> siblings_ok ns
     \<and> (\<forall>i<64. n_used (ns ! i) \<longrightarrow> name_ok (n_name (ns ! i)))"

text \<open>A directory of the tree.\<close>

definition dir_node :: "ramfs_node list \<Rightarrow> nat \<Rightarrow> bool" where
  "dir_node ns p \<longleftrightarrow> p < 64 \<and> n_used (ns ! p) \<and> n_is_dir (ns ! p)"

lemma tree_okD:
  assumes "tree_ok ns r"
  shows "length ns = 64" "r < 64" "n_used (ns ! r)" "n_is_dir (ns ! r)" "n_parent (ns ! r) = -1"
    "siblings_ok ns" "dir_node ns r"
  using assms by (simp_all add: tree_ok_def dir_node_def)

lemma tree_attached: "tree_ok ns r \<Longrightarrow> i < 64 \<Longrightarrow> n_used (ns ! i) \<Longrightarrow> attached ns r i"
  by (simp add: tree_ok_def)

lemma attached_used: "tree_ok ns r \<Longrightarrow> attached ns r i \<Longrightarrow> i < 64 \<and> n_used (ns ! i)"
  by (erule attached.cases) (simp_all add: tree_ok_def)

lemma find_childD:
  "find_child p nm ns = Some c \<Longrightarrow> c < 64 \<and> n_used (ns ! c) \<and> n_parent (ns ! c) = p \<and> n_name (ns ! c) = nm"
  unfolding find_child_def by (drule find_SomeD) auto

lemma find_child_None:
  "find_child p nm ns = None \<longleftrightarrow> \<not> (\<exists>c<64. n_used (ns ! c) \<and> n_parent (ns ! c) = p \<and> n_name (ns ! c) = nm)"
  by (auto simp: find_child_def find_None_iff)

lemma find_child_unique:
  assumes "siblings_ok ns" "c < 64" "n_used (ns ! c)" "n_parent (ns ! c) = p" "n_name (ns ! c) = nm"
  shows "find_child p nm ns = Some c"
proof -
  have "find_child p nm ns \<noteq> None" using assms(2-5) by (auto simp: find_child_None)
  then obtain d where d: "find_child p nm ns = Some d" by auto
  from find_childD [OF d] assms show ?thesis using d by (auto simp: siblings_ok_def)
qed

subsection \<open>Adding, removing and moving a node\<close>

lemma attached_cong:
  assumes "attached ns r i" "\<And>k. attached ns r k \<Longrightarrow> ns' ! k = ns ! k"
  shows "attached ns' r i"
  using assms(1)
proof induction
  case base
  show ?case by (rule attached.base)
next
  case (step i p)
  have "ns' ! i = ns ! i" "ns' ! p = ns ! p"
    using assms(2) [OF attached.step [OF step.hyps]] assms(2) [OF step.hyps(6)] by simp_all
  with step show ?case by - (rule attached.step [where p = p], simp_all)
qed

lemma siblings_update:
  assumes "siblings_ok ns" "length ns = 64"
    "n_used x \<Longrightarrow> \<forall>j<64. j \<noteq> n \<longrightarrow> n_used (ns ! j) \<longrightarrow> n_parent (ns ! j) = n_parent x \<longrightarrow> n_name (ns ! j) \<noteq> n_name x"
  shows "siblings_ok (ns[n := x])"
  unfolding siblings_ok_def
proof (intro allI impI)
  fix i j :: nat
  assume a: "i < 64" "j < 64" "n_used (ns[n := x] ! i)" "n_used (ns[n := x] ! j)"
    "n_parent (ns[n := x] ! i) = n_parent (ns[n := x] ! j)" "n_name (ns[n := x] ! i) = n_name (ns[n := x] ! j)"
  show "i = j"
  proof (cases "i = n \<or> j = n")
    case True
    then show ?thesis
      using a assms(2,3) by (cases "i = j") (auto simp: nth_list_update split: if_splits)
  next
    case False
    then have "ns[n := x] ! i = ns ! i" "ns[n := x] ! j = ns ! j" by auto
    with a assms(1) show ?thesis by (auto simp: siblings_ok_def)
  qed
qed

lemma tree_add:
  assumes t: "tree_ok ns r" and n: "n < 64" "\<not> n_used (ns ! n)"
    and x: "n_used x" "n_parent x = int p" "name_ok (n_name x)" and p: "dir_node ns p"
    and new: "find_child (int p) (n_name x) ns = None"
  shows "tree_ok (ns[n := x]) r"
proof -
  note T = tree_okD [OF t]
  have nr: "n \<noteq> r" using n T by auto
  have same: "ns[n := x] ! k = ns ! k" if "attached ns r k" for k
    using attached_used [OF t that] n(2) by (cases "k = n") auto
  have old: "attached (ns[n := x]) r i" if "attached ns r i" for i
    using attached_cong [OF that same] by blast
  have pn: "p \<noteq> n" using p n(2) by (auto simp: dir_node_def)
  have "attached (ns[n := x]) r p" using p tree_attached [OF t] by (intro old) (simp add: dir_node_def)
  then have "attached (ns[n := x]) r n"
    using n nr x p pn T(1) by - (rule attached.step [where p = p], simp_all add: dir_node_def)
  moreover have "siblings_ok (ns[n := x])"
    using new x(2) by (intro siblings_update T) (auto simp: find_child_None)
  ultimately show ?thesis
    using T nr n x t old tree_attached [OF t]
    by (auto simp: tree_ok_def nth_list_update)
qed

lemma tree_remove:
  assumes t: "tree_ok ns r" and n: "n < 64" "n \<noteq> r"
    and leaf: "\<forall>i<64. n_used (ns ! i) \<longrightarrow> n_parent (ns ! i) \<noteq> int n"
  shows "tree_ok (ns[n := zero_node]) r"
proof -
  note T = tree_okD [OF t]
  have z: "\<not> n_used zero_node" by (simp add: zero_node_def)
  have old: "attached (ns[n := zero_node]) r i" if "attached ns r i" "i \<noteq> n" for i
    using that
  proof induction
    case base
    show ?case by (rule attached.base)
  next
    case (step i p)
    have "p \<noteq> n" using leaf step.hyps by auto
    with step show ?case by - (rule attached.step [where p = p], simp_all)
  qed
  have "siblings_ok (ns[n := zero_node])" using z by (intro siblings_update T) simp
  then show ?thesis
    using T n t z old tree_attached [OF t]
    by (auto simp: tree_ok_def nth_list_update split: if_splits)
qed

text \<open>A move to a directory whose way to the root avoids the node that moves.\<close>

lemma tree_move:
  assumes t: "tree_ok ns r" and n: "n < 64" "n \<noteq> r" "n_used (ns ! n)"
    and x: "x = (ns ! n)\<lparr>n_parent := int p, n_name := nm\<rparr>" "name_ok nm" and p: "dir_node ns p" "p \<noteq> n"
    and new: "find_child (int p) nm ns = None"
    and way: "attached (ns[n := x]) r p"
  shows "tree_ok (ns[n := x]) r"
proof -
  note T = tree_okD [OF t]
  have d: "n_is_dir (ns[n := x] ! k) = n_is_dir (ns ! k)" "n_used (ns[n := x] ! k) = n_used (ns ! k)" if "k < 64" for k
    using that T(1) x(1) by (cases "k = n"; simp)+
  have an: "attached (ns[n := x]) r n"
    using n p T(1) x way d by - (rule attached.step [where p = p], simp_all add: dir_node_def)
  have old: "attached (ns[n := x]) r i" if "attached ns r i" for i
    using that
  proof induction
    case base
    show ?case by (rule attached.base)
  next
    case (step i q)
    have "q < 64" using attached_used [OF t step.hyps(6)] by simp
    with step d T(1) have "attached (ns[n := x]) r i" if "i \<noteq> n"
      using that by (intro attached.step [where p = q, OF _ _ _ _ _ step.IH]) simp_all
    with an show ?case by blast
  qed
  have "siblings_ok (ns[n := x])"
    using new x(1) by (intro siblings_update T) (auto simp: find_child_None)
  then show ?thesis
    using T n t x old tree_attached [OF t] d
    by (auto simp: tree_ok_def nth_list_update)
qed

text \<open>The walk to the root ends, and where it does not meet the node it avoids it.\<close>

lemma meets_ends:
  assumes t: "length ns = 64" and q: "attached ns r q"
  shows "meets ns (int r) n (int q) \<noteq> None"
  using q
proof induction
  case base
  show ?case by (subst meets.simps) auto
next
  case (step i p)
  then show ?case using t by (subst meets.simps) auto
qed

lemma meets_avoids:
  assumes t: "tree_ok ns r" and q: "attached ns r q" "meets ns (int r) n (int q) = Some False"
  shows "attached (ns[n := x]) r q"
  using q
proof induction
  case base
  show ?case by (rule attached.base)
next
  case (step i p)
  have "i \<noteq> n" using step.prems by (subst (asm) meets.simps) (simp split: if_splits)
  have m: "meets ns (int r) n (int p) = Some False"
    using step tree_okD(1) [OF t] by (subst (asm) meets.simps) (simp split: if_splits)
  have "p \<noteq> n" using m by (subst (asm) meets.simps) (simp split: if_splits)
  with step m \<open>i \<noteq> n\<close> show ?case by - (rule attached.step [where p = p], simp_all)
qed

text \<open>A file has no node below it.\<close>

lemma file_avoids:
  assumes t: "tree_ok ns r" and q: "attached ns r q" "q \<noteq> n" "\<not> n_is_dir (ns ! n)"
  shows "attached (ns[n := x]) r q"
  using q
proof induction
  case base
  show ?case by (rule attached.base)
next
  case (step i p)
  then have "p \<noteq> n" by auto
  with step show ?case by - (rule attached.step [where p = p], simp_all)
qed

subsection \<open>Path lookup\<close>

lemma comp_of_ok: "p \<noteq> [] \<Longrightarrow> hd p \<noteq> SLASH \<Longrightarrow> name_ok (comp_of p)"
proof -
  assume a: "p \<noteq> []" "hd p \<noteq> SLASH"
  have "SLASH \<notin> set (takeWhile (\<lambda>c. c \<noteq> SLASH) p)" by (auto dest: set_takeWhileD)
  then have "SLASH \<notin> set (comp_of p)" unfolding comp_of_def by (meson in_set_takeD)
  moreover have "comp_of p \<noteq> []" using a by (cases p) (simp_all add: comp_of_def)
  ultimately show ?thesis by (simp add: name_ok_def comp_of_def)
qed

lemma after_comp_hd: "after_comp p \<noteq> [] \<Longrightarrow> hd (after_comp p) \<noteq> SLASH"
  unfolding after_comp_def by (rule hd_dropWhile)

lemma resolve_loop_parent:
  assumes t: "tree_ok ns r"
  shows "resolve_loop ns True parent p = Some (c, q, leaf) \<Longrightarrow> parent = int d \<Longrightarrow> dir_node ns d \<Longrightarrow>
    p \<noteq> [] \<Longrightarrow> hd p \<noteq> SLASH \<Longrightarrow> \<exists>e. q = int e \<and> dir_node ns e \<and> name_ok leaf"
proof (induction ns True parent p arbitrary: d rule: resolve_loop.induct)
  case (1 ns parent p)
  show ?case
  proof (cases "after_comp p = []")
    case True
    then have "q = parent" "leaf = comp_of p"
      using 1(2) by (subst (asm) resolve_loop.simps, simp)+
    with 1(3-6) comp_of_ok [of p] show ?thesis by auto
  next
    case False
    then obtain k where k: "find_child parent (comp_of p) ns = Some k" "n_is_dir (ns ! k)"
      "resolve_loop ns True (int k) (after_comp p) = Some (c, q, leaf)"
      using 1(2) by (subst (asm) resolve_loop.simps) (auto simp: Let_def split: option.splits if_splits)
    have "dir_node ns k" using find_childD [OF k(1)] k(2) by (simp add: dir_node_def)
    from 1(1) [OF refl refl False k(1) _ k(3) refl this False after_comp_hd [OF False]] k(2) show ?thesis by simp
  qed
qed

lemma strip_rel:
  assumes "strip_tmp_prefix path = Some rel" "rel \<noteq> []"
  shows "hd rel \<noteq> SLASH"
proof -
  obtain q where "rel = dropWhile (\<lambda>c. c = SLASH) q"
    using assms(1) by (auto simp: strip_tmp_prefix_def Let_def split: if_splits)
  with hd_dropWhile [of "\<lambda>c. c = SLASH" q] assms(2) show ?thesis by simp
qed

lemma resolve_parent:
  assumes "tree_ok ns r" "strip_tmp_prefix path = Some rel" "rel \<noteq> []"
    "resolve ns (int r) rel True = Some (c, q, leaf)"
  obtains e where "q = int e" "dir_node ns e" "name_ok leaf"
  using resolve_loop_parent [OF assms(1) _ refl tree_okD(7) [OF assms(1)] assms(3) strip_rel [OF assms(2,3)]]
    assms(3,4) that by (auto simp: resolve_def)

subsection \<open>The operations keep the tree\<close>

definition rfs_tree :: "'a rfs_scheme \<Rightarrow> bool" where
  "rfs_tree s \<longleftrightarrow> (\<exists>r. g_tmp_root s = int r \<and> tree_ok (g_nodes s) r)"

lemma node_allocD:
  assumes "node_alloc ns = (Some n, ns')"
  shows "n < 64" "\<not> n_used (ns ! n)" "ns' = ns[n := zero_node\<lparr>n_used := True, n_parent := -1\<rparr>]"
  using assms by (auto simp: node_alloc_def dest!: find_SomeD split: option.splits)

text \<open>Both creating operations, in one form.\<close>

lemma create_tree:
  assumes t: "tree_ok ns r" and p: "strip_tmp_prefix path = Some rel" "rel \<noteq> []"
    "resolve ns (int r) rel True = Some (c, q, leaf)" "find_child q leaf ns = None"
    and a: "node_alloc ns = (Some n, ns')"
    and x: "n_used x" "n_parent x = q" "n_name x = leaf"
  shows "tree_ok (ns'[n := x]) r"
proof -
  obtain e where e: "q = int e" "dir_node ns e" "name_ok leaf" by (rule resolve_parent [OF t p(1-3)])
  have "tree_ok (ns[n := x]) r"
    using node_allocD [OF a] x e p(4) by (intro tree_add [OF t, where p = e]) simp_all
  then show ?thesis by (simp add: node_allocD(3) [OF a])
qed

lemma node_alloc_used: "node_alloc ns = (Some n, ns') \<Longrightarrow> tree_ok ns r \<Longrightarrow> n_used (ns' ! n)"
  using node_allocD [of ns n ns'] tree_okD(1) [of ns r] by simp

lemma mkdir_tree: "rfs_tree s \<Longrightarrow> rfs_tree (snd (ramfs_mkdir path s))"
  unfolding rfs_tree_def ramfs_mkdir_def
  by (auto split: option.split prod.split) (rule create_tree, assumption+, simp_all add: node_alloc_used)

lemma create_file_tree: "rfs_tree s \<Longrightarrow> rfs_tree (snd (ramfs_create_file path s))"
  unfolding rfs_tree_def ramfs_create_file_def
  by (auto split: option.split prod.split) (rule create_tree, assumption+, simp_all add: node_alloc_used)

lemma release_nodes [simp]: "g_nodes (node_release i s) = (g_nodes s)[i := zero_node]"
  "g_tmp_root (node_release i s) = g_tmp_root s"
  by (simp_all add: node_release_def free_buf_def Let_def)

lemma child_count_0: "node_child_count i ns = 0 \<longleftrightarrow> (\<forall>k<64. n_used (ns ! k) \<longrightarrow> n_parent (ns ! k) \<noteq> int i)"
  by (auto simp: node_child_count_def filter_empty_conv)

lemma target_nodeD:
  assumes "rfs_tree s" "target_node path s = Some i"
  shows "i < 64" "n_used (g_nodes s ! i)" "int i \<noteq> g_tmp_root s"
proof -
  obtain r where r: "g_tmp_root s = int r" "tree_ok (g_nodes s) r" using assms(1) by (auto simp: rfs_tree_def)
  obtain rel c q leaf where p: "strip_tmp_prefix path = Some rel" "rel \<noteq> []"
    "resolve (g_nodes s) (g_tmp_root s) rel True = Some (c, q, leaf)" "find_child q leaf (g_nodes s) = Some i"
    using assms(2) by (auto simp: target_node_def split: option.splits if_splits)
  obtain e where e: "q = int e" "dir_node (g_nodes s) e" "name_ok leaf"
    by (rule resolve_parent [OF r(2) p(1,2) p(3) [unfolded r(1)]])
  show "i < 64" "n_used (g_nodes s ! i)" "int i \<noteq> g_tmp_root s"
    using find_childD [OF p(4)] e r tree_okD(5) [OF r(2)] by auto
qed

lemma release_tree:
  assumes "rfs_tree s" "target_node path s = Some i" "node_child_count i (g_nodes s) = 0"
  shows "rfs_tree (node_release i s)"
proof -
  obtain r where r: "g_tmp_root s = int r" "tree_ok (g_nodes s) r" using assms(1) by (auto simp: rfs_tree_def)
  have "tree_ok ((g_nodes s)[i := zero_node]) r"
    using target_nodeD [OF assms(1,2)] r assms(3) by (intro tree_remove) (auto simp: child_count_0)
  with r(1) show ?thesis by (simp add: rfs_tree_def)
qed

lemma rmdir_tree: "rfs_tree s \<Longrightarrow> rfs_tree (snd (ramfs_rmdir_op path s))"
  by (auto simp: ramfs_rmdir_op_def release_tree split: option.split)

lemma unlink_tree:
  "rfs_tree s \<Longrightarrow> \<forall>i. target_node path s = Some i \<longrightarrow> node_child_count i (g_nodes s) = 0 \<Longrightarrow>
    rfs_tree (snd (ramfs_unlink_op path s))"
  by (auto simp: ramfs_unlink_op_def release_tree split: option.split)

lemma move_tree:
  assumes t: "tree_ok ns r" and i: "find_child q1 l1 ns = Some i" "i \<noteq> r"
    and q: "dir_node ns e" "name_ok nm" "find_child (int e) nm ns = None"
    and w: "n_is_dir (ns ! i) \<Longrightarrow> meets ns (int r) i (int e) = Some False"
  shows "tree_ok (ns[i := (ns ! i)\<lparr>n_parent := int e, n_name := nm\<rparr>]) r"
proof -
  have e: "attached ns r e" using q(1) tree_attached [OF t] by (simp add: dir_node_def)
  have ei: "e \<noteq> i" if "n_is_dir (ns ! i)" using w [OF that] by (subst (asm) meets.simps) (auto split: if_splits)
  then have ne: "e \<noteq> i" using q(1) by (auto simp: dir_node_def)
  have "attached (ns[i := x]) r e" for x
  proof (cases "n_is_dir (ns ! i)")
    case True
    then show ?thesis using meets_avoids [OF t e w] by simp
  next
    case False
    then show ?thesis using file_avoids [OF t e ne] by simp
  qed
  then show ?thesis
    using find_childD [OF i(1)] i(2) q ne by (intro tree_move [OF t]) simp_all
qed

definition root_ok :: "ramfs_node list \<Rightarrow> int \<Rightarrow> bool" where
  "root_ok ns root \<longleftrightarrow> 0 \<le> root \<and> root < 64 \<and> n_used (ns ! nat root) \<and> n_is_dir (ns ! nat root)
     \<and> n_parent (ns ! nat root) = -1"

text \<open>Every node a lookup passes hangs below the root.\<close>

lemma resolve_loop_reach:
  assumes r: "n_parent (ns ! r) = -1"
  shows "resolve_loop ns np parent p = Some (c, q, leaf) \<Longrightarrow> parent = int d \<Longrightarrow> attached ns r d \<Longrightarrow> d < 64 \<Longrightarrow>
    n_is_dir (ns ! d) \<Longrightarrow> (\<exists>e<64. q = int e \<and> attached ns r e) \<and> (\<not> np \<longrightarrow> (\<exists>k<64. c = int k))"
  using r
proof (induction ns np parent p arbitrary: d rule: resolve_loop.induct)
  case (1 ns np parent p)
  show ?case
  proof (cases "after_comp p = []")
    case True
    then show ?thesis using 1(2-5)
      by (subst (asm) (1) resolve_loop.simps) (auto simp: Let_def dest!: find_childD split: if_splits option.splits)
  next
    case False
    then obtain k where k: "find_child parent (comp_of p) ns = Some k" "n_is_dir (ns ! k)"
      "resolve_loop ns np (int k) (after_comp p) = Some (c, q, leaf)"
      using 1(2) by (subst (asm) resolve_loop.simps) (auto simp: Let_def split: option.splits if_splits)
    note K = find_childD [OF k(1)]
    have "k \<noteq> r" using K 1(3,7) by auto
    then have "attached ns r k" using K 1(3,4,6) by - (rule attached.step [where p = d], simp_all)
    from 1(1) [OF refl refl False k(1) _ k(3) refl this _ _ 1(7)] K k(2) show ?thesis by simp
  qed
qed

lemma resolve_reach:
  assumes "root_ok ns root" "resolve ns root rel np = Some (c, q, leaf)"
  shows "\<exists>e<64. q = int e \<and> attached ns (nat root) e" "\<not> np \<longrightarrow> (\<exists>k<64. c = int k)"
proof -
  have r: "root = int (nat root)" "nat root < 64" "n_is_dir (ns ! nat root)" "n_parent (ns ! nat root) = -1"
    using assms(1) by (auto simp: root_ok_def)
  have "(\<exists>e<64. q = int e \<and> attached ns (nat root) e) \<and> (\<not> np \<longrightarrow> (\<exists>k<64. c = int k))"
  proof (cases "rel = []")
    case True
    then have "\<not> np" "c = int (nat root)" "q = int (nat root)" using assms(2) r(1) by (auto simp: resolve_def split: if_splits)
    with r(2) attached.base show ?thesis by blast
  next
    case False
    then show ?thesis
      using resolve_loop_reach [OF r(4) _ r(1) attached.base r(2,3)] assms(2) by (simp add: resolve_def)
  qed
  then show "\<exists>e<64. q = int e \<and> attached ns (nat root) e" "\<not> np \<longrightarrow> (\<exists>k<64. c = int k)" by blast+
qed

lemma root_not_child:
  assumes "root_ok ns root" "find_child (int e) l ns = Some i"
  shows "int i \<noteq> root"
proof
  assume "int i = root"
  then have "nat root = i" by auto
  with find_childD [OF assms(2)] assms(1) show False by (auto simp: root_ok_def)
qed

text \<open>A rename that is not refused; the walk up from the new parent ends.\<close>

lemma rename_cases:
  assumes rt: "root_ok (g_nodes s) (g_tmp_root s)" and len: "length (g_nodes s) = 64"
  obtains (refused) "ramfs_rename_op old new s = Some (-1, s)"
  | (moved) q l i rel c e nm where
      "ramfs_rename_op old new s = Some (0, s\<lparr>g_nodes := (g_nodes s)[i := (g_nodes s ! i)\<lparr>n_parent := int e, n_name := nm\<rparr>]\<rparr>)"
      "find_child q l (g_nodes s) = Some i" "int i \<noteq> g_tmp_root s" "find_child (int e) nm (g_nodes s) = None"
      "n_is_dir (g_nodes s ! i) \<longrightarrow> meets (g_nodes s) (g_tmp_root s) i (int e) = Some False"
      "strip_tmp_prefix new = Some rel" "rel \<noteq> []" "resolve (g_nodes s) (g_tmp_root s) rel True = Some (c, int e, nm)"
proof -
  let ?ns = "g_nodes s" and ?r = "g_tmp_root s"
  show thesis
  proof (cases "\<exists>rel1 rel2 c1 q1 l1 c2 q2 l2 i. strip_tmp_prefix old = Some rel1 \<and> strip_tmp_prefix new = Some rel2
      \<and> rel1 \<noteq> [] \<and> rel2 \<noteq> [] \<and> resolve ?ns ?r rel1 True = Some (c1, q1, l1)
      \<and> resolve ?ns ?r rel2 True = Some (c2, q2, l2) \<and> l1 \<noteq> [] \<and> l2 \<noteq> []
      \<and> find_child q1 l1 ?ns = Some i \<and> find_child q2 l2 ?ns = None")
    case False
    then show thesis
      by (intro refused) (auto simp: ramfs_rename_op_def split: option.split prod.split)
  next
    case True
    then obtain rel1 rel2 c1 q1 l1 c2 q2 l2 i where
      p: "strip_tmp_prefix old = Some rel1" "strip_tmp_prefix new = Some rel2" "rel1 \<noteq> []" "rel2 \<noteq> []"
        "resolve ?ns ?r rel1 True = Some (c1, q1, l1)" "resolve ?ns ?r rel2 True = Some (c2, q2, l2)"
        "l1 \<noteq> []" "l2 \<noteq> []" "find_child q1 l1 ?ns = Some i" "find_child q2 l2 ?ns = None" by blast
    obtain e where e: "q2 = int e" "attached ?ns (nat ?r) e" using resolve_reach(1) [OF rt p(6)] by blast
    obtain f where f: "q1 = int f" using resolve_reach(1) [OF rt p(5)] by blast
    have r: "int (nat ?r) = ?r" using rt by (simp add: root_ok_def)
    have ir: "int i \<noteq> ?r" using root_not_child [OF rt] p(9) f by simp
    obtain b where b: "meets ?ns ?r i (int e) = Some b" using meets_ends [OF len e(2), of i] r by auto
    let ?s = "s\<lparr>g_nodes := ?ns[i := (?ns ! i)\<lparr>n_parent := int e, n_name := l2\<rparr>]\<rparr>"
    have "ramfs_rename_op old new s = (if n_is_dir (?ns ! i) \<and> b then Some (-1, s) else Some (0, ?s))"
      using p e(1) b by (cases b) (simp_all add: ramfs_rename_op_def Let_def)
    then show thesis
      using refused moved [OF _ p(9) ir _ _ p(2,4)] p(6,10) b e(1) by (cases "n_is_dir (?ns ! i) \<and> b") auto
  qed
qed

lemma rename_tree:
  assumes s: "rfs_tree s"
  obtains ret s' where "ramfs_rename_op old new s = Some (ret, s')" "rfs_tree s'"
proof -
  obtain r where r: "g_tmp_root s = int r" "tree_ok (g_nodes s) r" using s by (auto simp: rfs_tree_def)
  note T = tree_okD [OF r(2)]
  have rt: "root_ok (g_nodes s) (g_tmp_root s)" using T r(1) by (simp add: root_ok_def)
  show thesis
  proof (cases rule: rename_cases [OF rt T(1), of old new])
    case 1
    then show thesis using s by (rule that)
  next
    case (2 q l i rel c e nm)
    obtain e' where "int e = int e'" "dir_node (g_nodes s) e'" "name_ok nm"
      by (rule resolve_parent [OF r(2) 2(6,7) 2(8) [unfolded r(1)]])
    then have "tree_ok ((g_nodes s)[i := (g_nodes s ! i)\<lparr>n_parent := int e, n_name := nm\<rparr>]) r"
      using move_tree [OF r(2) 2(2), of e nm] 2(3-5) r(1) by simp
    then show thesis using that [OF 2(1)] r(1) by (simp add: rfs_tree_def)
  qed
qed

lemma init_eq:
  "ramfs_init s = (0, s\<lparr>g_nodes := (replicate 64 zero_node)[0 := zero_node\<lparr>n_used := True, n_is_dir := True,
      n_parent := -1, n_name := ''tmp''\<rparr>], g_tmp_root := 0\<rparr>)"
proof -
  have z: "\<not> n_used zero_node" by (simp add: zero_node_def)
  have a: "node_alloc (replicate 64 zero_node)
      = (Some 0, (replicate 64 zero_node)[0 := zero_node\<lparr>n_used := True, n_parent := -1\<rparr>])"
    unfolding node_alloc_def by (simp add: upt_conv_Cons z)
  show ?thesis unfolding ramfs_init_def a by simp
qed

lemma init_tree: "rfs_tree (snd (ramfs_init s))"
proof -
  let ?ns = "(replicate 64 zero_node)[0 := zero_node\<lparr>n_used := True, n_is_dir := True, n_parent := -1, n_name := ''tmp''\<rparr>]"
  have u: "n_used (?ns ! i) \<longleftrightarrow> i = 0" if "i < 64" for i
    using that by (cases "i = 0") (simp_all add: zero_node_def)
  have "tree_ok ?ns 0"
    unfolding tree_ok_def siblings_ok_def using u
    by (auto intro: attached.base simp: name_ok_def)
  then show ?thesis
    unfolding rfs_tree_def init_eq by simp
qed

end
