(* ===== verification/Ramfs_Data.thy ===== *)
theory Ramfs_Data
  imports Ramfs_Props
begin

text \<open>
  File contents of the memory file system. \<open>ramfs_ok\<close> says that every node's data lie in a
  buffer of its own with the recorded capacity, that an open file refers to a private part
  of its own, and that the heap objects are sound. Every operation of the table
  \<open>ramfs_ops\<close> returns, touches only objects that exist and keeps this invariant; a write
  splices the bytes into the file at the handle's position, a read returns the bytes from
  there, and the other files stay as they are.
\<close>

section \<open>The invariant\<close>

definition node_data_ok :: "(nat \<rightharpoonup> bytes) \<Rightarrow> ramfs_node \<Rightarrow> bool" where
  "node_data_ok bf n \<longleftrightarrow>
     (if n_data n = 0 then n_size n = 0 \<and> n_cap n = 0
      else map_option length (bf (n_data n)) = Some (n_cap n) \<and> n_size n \<le> n_cap n \<and> n_cap n \<le> RAMFS_MAX_FILE)"

definition own_data :: "ramfs_node list \<Rightarrow> bool" where
  "own_data ns \<longleftrightarrow> (\<forall>i<64. \<forall>j<64. n_data (ns ! i) = n_data (ns ! j) \<longrightarrow> n_data (ns ! i) \<noteq> 0 \<longrightarrow> i = j)"

definition nodes_ok :: "(nat \<rightharpoonup> bytes) \<Rightarrow> ramfs_node list \<Rightarrow> int \<Rightarrow> bool" where
  "nodes_ok bf ns root \<longleftrightarrow> length ns = 64 \<and> (\<forall>i<64. node_data_ok bf (ns ! i)) \<and> own_data ns \<and> root_ok ns root"

definition handles_ok :: "(nat \<rightharpoonup> vfs_file) \<Rightarrow> (nat \<rightharpoonup> ramfs_file) \<Rightarrow> bool" where
  "handles_ok fs rf \<longleftrightarrow>
     (\<forall>p h. rf p = Some h \<longrightarrow> rf_node h < 64 \<and> rf_pos h \<le> RAMFS_MAX_FILE)
     \<and> (\<forall>p f. fs p = Some f \<longrightarrow> f_ops f = RamfsOps \<longrightarrow> fs_priv f \<in> dom rf)
     \<and> (\<forall>p q f g. fs p = Some f \<longrightarrow> fs q = Some g \<longrightarrow> f_ops f = RamfsOps \<longrightarrow> f_ops g = RamfsOps \<longrightarrow>
          fs_priv f = fs_priv g \<longrightarrow> p = q)"

definition ramfs_ok :: "'a rfs_scheme \<Rightarrow> bool" where
  "ramfs_ok s \<longleftrightarrow> kobj_ok s \<and> nodes_ok (bufs s) (g_nodes s) (g_tmp_root s) \<and> handles_ok (files s) (rfiles s)"

text \<open>The bytes of the file in a node.\<close>

definition content :: "'a rfs_scheme \<Rightarrow> nat \<Rightarrow> bytes" where
  "content s i = (let n = g_nodes s ! i in
     if n_data n = 0 then [] else take (n_size n) (the (bufs s (n_data n))))"

lemma kobj_ok_nodes [simp]: "kobj_ok (s\<lparr>g_nodes := ns\<rparr>) = kobj_ok s"
  "kobj_ok (s\<lparr>g_tmp_root := r\<rparr>) = kobj_ok s"
  by (simp_all add: kobj_ok_def needs_def holds_def separate_def)

lemma ramfs_okD:
  assumes "ramfs_ok s"
  shows "kobj_ok s" "length (g_nodes s) = 64" "i < 64 \<Longrightarrow> node_data_ok (bufs s) (g_nodes s ! i)"
    "own_data (g_nodes s)" "root_ok (g_nodes s) (g_tmp_root s)" "handles_ok (files s) (rfiles s)"
  using assms by (simp_all add: ramfs_ok_def nodes_ok_def)

lemma ramfs_handle:
  assumes "ramfs_ok s" "files s fp = Some f" "f_ops f = RamfsOps"
  obtains rf where "rfiles s (fs_priv f) = Some rf" "fs_priv f \<noteq> 0" "rf_node rf < 64" "rf_pos rf \<le> 65536"
proof -
  have "fs_priv f \<in> dom (rfiles s)"
    using assms(2,3) ramfs_okD(6) [OF assms(1)] unfolding handles_ok_def by blast
  then obtain rf where r: "rfiles s (fs_priv f) = Some rf" by auto
  moreover have "fs_priv f \<noteq> 0"
    using kobj_ok_nonzero [OF ramfs_okD(1) [OF assms(1)], of "fs_priv f"] r by (auto simp: objects_def)
  ultimately show thesis using that ramfs_okD(6) [OF assms(1)] by (auto simp: handles_ok_def)
qed

lemma length_content: "ramfs_ok s \<Longrightarrow> i < 64 \<Longrightarrow> length (content s i) = n_size (g_nodes s ! i)"
  using ramfs_okD(3) [of s i] by (auto simp: content_def node_data_ok_def Let_def)

lemma node_replace:
  assumes n: "nodes_ok bf ns root" and i: "i < 64" and x: "root = int i \<Longrightarrow> n_used x \<and> n_is_dir x \<and> n_parent x = -1" "node_data_ok bf' x"
    and own: "\<And>j. j < 64 \<Longrightarrow> j \<noteq> i \<Longrightarrow> n_data x \<noteq> 0 \<Longrightarrow> n_data (ns ! j) \<noteq> n_data x"
    and bf: "\<And>j. j < 64 \<Longrightarrow> j \<noteq> i \<Longrightarrow> n_data (ns ! j) \<noteq> 0 \<Longrightarrow>
      map_option length (bf' (n_data (ns ! j))) = map_option length (bf (n_data (ns ! j)))"
  shows "nodes_ok bf' (ns[i := x]) root"
proof -
  have len: "length ns = 64" using n by (simp add: nodes_ok_def)
  have "node_data_ok bf' (ns[i := x] ! j)" if "j < 64" for j
    using n x(2) bf [OF that] that len by (cases "j = i") (auto simp: nodes_ok_def node_data_ok_def)
  moreover have "own_data (ns[i := x])"
    unfolding own_data_def
  proof (intro allI impI)
    fix a b assume a: "a < 64" "b < 64" "n_data (ns[i := x] ! a) = n_data (ns[i := x] ! b)" "n_data (ns[i := x] ! a) \<noteq> 0"
    show "a = b"
      using a own [OF a(1)] own [OF a(2)] n len
      by (cases "a = i"; cases "b = i") (auto simp: nodes_ok_def own_data_def)
  qed
  moreover have "root_ok (ns[i := x]) root"
    using n x(1) i len by (cases "root = int i") (auto simp: nodes_ok_def root_ok_def nth_list_update)
  ultimately show ?thesis using len by (simp add: nodes_ok_def)
qed

lemma node_update:
  assumes n: "nodes_ok bf ns root" and i: "i < 64" and x: "n_used x = n_used (ns ! i)" "n_is_dir x = n_is_dir (ns ! i)"
      "n_parent x = n_parent (ns ! i)" "node_data_ok bf' x"
    and own: "\<And>j. j < 64 \<Longrightarrow> j \<noteq> i \<Longrightarrow> n_data x \<noteq> 0 \<Longrightarrow> n_data (ns ! j) \<noteq> n_data x"
    and bf: "\<And>j. j < 64 \<Longrightarrow> j \<noteq> i \<Longrightarrow> n_data (ns ! j) \<noteq> 0 \<Longrightarrow>
      map_option length (bf' (n_data (ns ! j))) = map_option length (bf (n_data (ns ! j)))"
  shows "nodes_ok bf' (ns[i := x]) root"
  by (rule node_replace [OF n i _ x(4) own bf]) (use n x(1-3) in \<open>auto simp: nodes_ok_def root_ok_def\<close>)

section \<open>Making room\<close>

lemma grow_cap_ends:
  "0 < c \<Longrightarrow> c \<le> 131072 \<Longrightarrow> need \<le> 65536 \<Longrightarrow> \<exists>m. grow_cap c need = Some m \<and> need \<le> m"
proof (induction "need - c" arbitrary: c rule: less_induct)
  case less
  show ?case
  proof (cases "c < need")
    case True
    then have "wrap64 (c * 2) = c * 2" using less.prems by (simp add: wrap64_def)
    moreover have "\<exists>m. grow_cap (c * 2) need = Some m \<and> need \<le> m"
      using less.prems True by (intro less.hyps) simp_all
    ultimately show ?thesis using True by (subst grow_cap.simps) simp
  qed (subst grow_cap.simps, simp)
qed

text \<open>What \<open>ramfs_reserve\<close> and a write leave alone.\<close>

definition same_tree :: "'a rfs_scheme \<Rightarrow> 'a rfs_scheme \<Rightarrow> bool" where
  "same_tree s s' \<longleftrightarrow> g_tmp_root s' = g_tmp_root s \<and> (\<forall>j<64. n_used (g_nodes s' ! j) = n_used (g_nodes s ! j)
     \<and> n_is_dir (g_nodes s' ! j) = n_is_dir (g_nodes s ! j) \<and> n_parent (g_nodes s' ! j) = n_parent (g_nodes s ! j)
     \<and> n_name (g_nodes s' ! j) = n_name (g_nodes s ! j))"

definition reserved :: "nat \<Rightarrow> nat \<Rightarrow> bytes \<Rightarrow> heap \<Rightarrow> nat \<Rightarrow> 'a rfs_scheme \<Rightarrow> 'a rfs_scheme" where
  "reserved i nd copied h ncap s =
    (let n = g_nodes s ! i;
         s1 = s\<lparr>kheap := h, bufs := (bufs s)(nd \<mapsto> copied)\<rparr>;
         s2 = (if n_data n \<noteq> 0 then free_buf (n_data n) s1 else s1)
     in s2\<lparr>g_nodes := (g_nodes s2)[i := n\<lparr>n_data := nd, n_cap := ncap\<rparr>]\<rparr>)"

lemma reserved_ok:
  assumes ok: "ramfs_ok s" and i: "i < 64" and k: "kmalloc ncap (kheap s) = (nd, h)" "nd \<noteq> 0"
    and c: "length copied = ncap" "n_size (g_nodes s ! i) \<le> ncap" "ncap \<le> 65536"
      "take (n_size (g_nodes s ! i)) copied = content s i"
  shows "ramfs_ok (reserved i nd copied h ncap s)" "j < 64 \<Longrightarrow> content (reserved i nd copied h ncap s) j = content s j"
proof -
  let ?n = "g_nodes s ! i" and ?s1 = "s\<lparr>kheap := h, bufs := (bufs s)(nd \<mapsto> copied)\<rparr>"
  let ?s' = "reserved i nd copied h ncap s" and ?x = "(g_nodes s ! i)\<lparr>n_data := nd, n_cap := ncap\<rparr>"
  note O = ramfs_okD [OF ok]
  have fresh: "nd \<notin> objects s" using kmalloc_fresh [OF O(1) _ k] c(3) by simp
  have k1: "kobj_ok ?s1"
    using kobj_ok_add(4) [of "s\<lparr>kheap := h\<rparr>" nd copied] kmalloc_ok [OF O(1) _ k(1)] k(2) c fresh
    by (simp add: objects_def)
  have d: "n_data (g_nodes s ! j) \<noteq> nd" if "j < 64" for j
    using O(3) [OF that] fresh k(2) by (auto simp: node_data_ok_def objects_def split: if_splits)
  have old: "n_data ?n \<in> dom (bufs ?s1)" if "n_data ?n \<noteq> 0"
    using O(3) [OF i] that by (auto simp: node_data_ok_def)
  have fields: "g_nodes ?s' = (g_nodes s)[i := ?x]" "files ?s' = files s" "rfiles ?s' = rfiles s"
      "g_tmp_root ?s' = g_tmp_root s"
    "bufs ?s' = (if n_data ?n = 0 then (bufs s)(nd \<mapsto> copied) else (bufs s)(nd \<mapsto> copied, n_data ?n := None))"
    by (simp_all add: reserved_def Let_def free_buf_def)
  have "kobj_ok ?s'" using k1 free_obj_ok(4) [OF k1 old] by (simp add: reserved_def Let_def)
  moreover have "nodes_ok (bufs ?s') ((g_nodes s)[i := ?x]) (g_tmp_root s)"
  proof (rule node_update [where bf = "bufs s"])
    show "nodes_ok (bufs s) (g_nodes s) (g_tmp_root s)" using ok by (simp add: ramfs_ok_def)
    show "node_data_ok (bufs ?s') ?x" using c d [OF i] k(2) by (simp add: node_data_ok_def fields)
    show "map_option length (bufs ?s' (n_data (g_nodes s ! j))) = map_option length (bufs s (n_data (g_nodes s ! j)))"
      if "j < 64" "j \<noteq> i" "n_data (g_nodes s ! j) \<noteq> 0" for j
      using that d [OF that(1)] O(4) i by (auto simp: fields own_data_def)
  qed (use i d in simp_all)
  ultimately show "ramfs_ok ?s'" using O(6) by (simp add: ramfs_ok_def fields)
  show "content ?s' j = content s j" if j: "j < 64"
  proof (cases "j = i")
    case True
    then show ?thesis using c(4) k(2) i O(2) d [OF i] by (simp add: content_def [of ?s'] fields Let_def)
  next
    case False
    then show ?thesis using d [OF j] O(4) i j by (auto simp: content_def fields own_data_def Let_def)
  qed
qed

lemma reserve_cases:
  assumes ok: "ramfs_ok s" and i: "i < 64" and need: "need \<le> 65536"
  obtains (room) "ramfs_reserve i need s = Some (True, s)" "need \<le> n_cap (g_nodes s ! i)"
  | (fail) h where "ramfs_reserve i need s = Some (False, s\<lparr>kheap := h\<rparr>)" "kobj_ok (s\<lparr>kheap := h\<rparr>)"
  | (grow) ncap nd h copied where "ramfs_reserve i need s = Some (True, reserved i nd copied h ncap s)"
      "need \<le> ncap" "kmalloc ncap (kheap s) = (nd, h)" "nd \<noteq> 0" "length copied = ncap"
      "n_size (g_nodes s ! i) \<le> ncap" "ncap \<le> 65536" "take (n_size (g_nodes s ! i)) copied = content s i"
proof (cases "need \<le> n_cap (g_nodes s ! i)")
  case True
  then show thesis by (intro room) (simp_all add: ramfs_reserve_def Let_def)
next
  case False
  let ?n = "g_nodes s ! i"
  note O = ramfs_okD [OF ok]
  have cap: "n_size ?n \<le> n_cap ?n" "n_cap ?n \<le> 65536"
    using O(3) [OF i] by (simp_all add: node_data_ok_def split: if_splits)
  define c0 where "c0 = (if n_cap ?n \<noteq> 0 then wrap64 (n_cap ?n * 2) else 256)"
  have "0 < c0" "c0 \<le> 131072" using cap(2) by (simp_all add: c0_def)
  then obtain m where m: "grow_cap c0 need = Some m" "need \<le> m" using grow_cap_ends need by blast
  note g = m(1) [unfolded c0_def]
  define ncap where "ncap = (if m > 65536 then 65536 else m)"
  note nc0 = ncap_def [symmetric]
  have nc: "need \<le> ncap" "ncap \<le> 65536" using m need by (simp_all add: ncap_def)
  obtain nd h where k: "kmalloc ncap (kheap s) = (nd, h)" by (cases "kmalloc ncap (kheap s)") simp
  show thesis
  proof (cases "nd = 0")
    case True
    show thesis
    proof (rule fail)
      show "ramfs_reserve i need s = Some (False, s\<lparr>kheap := h\<rparr>)"
        unfolding ramfs_reserve_def Let_def g option.case nc0 k using False True by simp
      show "kobj_ok (s\<lparr>kheap := h\<rparr>)" using kmalloc_ok(1) [OF O(1) _ k] nc by simp
    qed
  next
    case nz: False
    define b where "b = (if n_data ?n \<noteq> 0 \<and> n_size ?n \<noteq> 0 then the (bufs s (n_data ?n)) else [])"
    have b: "(if n_data ?n \<noteq> 0 \<and> n_size ?n \<noteq> 0 then bufs s (n_data ?n) else Some []) = Some b"
      "take (n_size ?n) b = content s i" "b \<noteq> [] \<Longrightarrow> n_size ?n \<le> length b"
      using O(3) [OF i] by (auto simp: b_def node_data_ok_def content_def Let_def)
    define copied where "copied = take (n_size ?n) b @ drop (length (take (n_size ?n) b)) (map (garbage s) [nd..<nd + ncap])"
    note cp = copied_def [symmetric]
    have sz: "n_size ?n \<le> ncap" using False nc cap by simp
    have bb: "\<not> (b \<noteq> [] \<and> (length b < n_size ?n \<or> ncap < n_size ?n))" using b(3) sz by auto
    have lb: "length (take (n_size ?n) b) = n_size ?n" using b(2) length_content [OF ok i] by simp
    show thesis
    proof (rule grow)
      show "ramfs_reserve i need s = Some (True, reserved i nd copied h ncap s)"
        unfolding ramfs_reserve_def Let_def g option.case nc0 k prod.case b(1) cp reserved_def if_not_P [OF bb]
        using False nz by simp
      show "length copied = ncap" unfolding copied_def length_append lb length_drop using sz by simp
      show "take (n_size ?n) copied = content s i" unfolding copied_def b(2) [symmetric] using lb by simp
    qed (use nc k nz sz in simp_all)
  qed
qed

section \<open>Reading and writing\<close>

text \<open>A handle that moves.\<close>

lemma handle_moves:
  assumes ok: "ramfs_ok s" and f: "files s fp = Some f" "rfiles s (fs_priv f) = Some rf"
    and f': "f_ops f' = f_ops f" "fs_priv f' = fs_priv f" and rf': "rf_node rf' = rf_node rf" "rf_pos rf' \<le> 65536"
  shows "ramfs_ok (s\<lparr>rfiles := (rfiles s)(fs_priv f \<mapsto> rf'), files := (files s)(fp \<mapsto> f')\<rparr>)"
proof -
  note O = ramfs_okD [OF ok]
  have "kobj_ok (s\<lparr>rfiles := (rfiles s)(fs_priv f \<mapsto> rf')\<rparr>)" by (rule kobj_ok_update(3) [OF O(1)]) (use f in auto)
  then have "kobj_ok ((s\<lparr>rfiles := (rfiles s)(fs_priv f \<mapsto> rf')\<rparr>)\<lparr>files := (files s)(fp \<mapsto> f')\<rparr>)"
    using kobj_ok_update(1) [of "s\<lparr>rfiles := (rfiles s)(fs_priv f \<mapsto> rf')\<rparr>" fp f'] f by auto
  moreover have "handles_ok ((files s)(fp \<mapsto> f')) ((rfiles s)(fs_priv f \<mapsto> rf'))"
    unfolding handles_ok_def
  proof (intro conjI allI impI)
    fix p h assume "((rfiles s)(fs_priv f \<mapsto> rf')) p = Some h"
    then show "rf_node h < 64" "rf_pos h \<le> 65536"
      using O(6) f rf' unfolding handles_ok_def by (auto split: if_splits)
  next
    fix p g assume "((files s)(fp \<mapsto> f')) p = Some g" "f_ops g = RamfsOps"
    then show "fs_priv g \<in> dom ((rfiles s)(fs_priv f \<mapsto> rf'))"
      using O(6) f f' unfolding handles_ok_def by (cases "p = fp") auto
  next
    fix p q g k assume "((files s)(fp \<mapsto> f')) p = Some g" "((files s)(fp \<mapsto> f')) q = Some k"
      "f_ops g = RamfsOps" "f_ops k = RamfsOps" "fs_priv g = fs_priv k"
    then show "p = q"
      using O(6) f f' unfolding handles_ok_def by (cases "p = fp"; cases "q = fp") auto
  qed
  ultimately show ?thesis using ok by (simp add: ramfs_ok_def)
qed

lemma read_spec:
  fixes s :: "'a rfs_scheme" and len :: nat and got :: bytes
  assumes ok: "ramfs_ok s" and f: "files s fp = Some f" "f_ops f = RamfsOps"
    and rf: "rfiles s (fs_priv f) = Some rf" and nd: "\<not> n_is_dir (g_nodes s ! rf_node rf)"
  defines "got \<equiv> take len (drop (rf_pos rf) (content s (rf_node rf)))"
  obtains s' where "ramfs_read fp len s = Some (0, length got, got, s')" "ramfs_ok s'"
    "g_nodes s' = g_nodes s" "bufs s' = bufs s"
    "rfiles s' = (rfiles s)(fs_priv f \<mapsto> rf\<lparr>rf_pos := rf_pos rf + length got\<rparr>)"
proof -
  obtain rf' where h: "rfiles s (fs_priv f) = Some rf'" "fs_priv f \<noteq> 0" "rf_node rf' < 64" "rf_pos rf' \<le> 65536"
    by (rule ramfs_handle [OF ok f])
  then have i: "rf_node rf < 64" "rf_pos rf \<le> 65536" using rf by simp_all
  let ?n = "g_nodes s ! rf_node rf"
  note O = ramfs_okD [OF ok] and lc = length_content [OF ok i(1)]
  show thesis
  proof (cases "n_size ?n \<le> rf_pos rf")
    case True
    then have "got = []" using lc by (simp add: got_def)
    moreover have "rf\<lparr>rf_pos := rf_pos rf\<rparr> = rf" by simp
    ultimately show thesis
      using that [of s] ok f rf h(2) nd True i O(2) by (simp add: ramfs_read_def Let_def fun_upd_idem)
  next
    case False
    then obtain b where b: "n_data ?n \<noteq> 0" "bufs s (n_data ?n) = Some b" "n_size ?n \<le> length b"
      using O(3) [OF i(1)] by (auto simp: node_data_ok_def split: if_splits)
    define g where "g = (if n_size ?n - rf_pos rf > len then len else n_size ?n - rf_pos rf)"
    have lg: "length got = g" using lc by (auto simp: got_def g_def)
    have c: "content s (rf_node rf) = take (n_size ?n) b" using b by (simp add: content_def Let_def)
    have tk: "take g (drop (rf_pos rf) b) = got"
      unfolding got_def c using False by (simp add: g_def drop_take)
    let ?s = "s\<lparr>rfiles := (rfiles s)(fs_priv f \<mapsto> rf\<lparr>rf_pos := rf_pos rf + g\<rparr>),
      files := (files s)(fp \<mapsto> f\<lparr>f_pos := rf_pos rf + g\<rparr>)\<rparr>"
    have le: "rf_pos rf + g \<le> length b" "rf_pos rf + g \<le> 65536"
      using False b(3) O(3) [OF i(1)] b(1) by (auto simp: g_def node_data_ok_def)
    show thesis
    proof (rule that [of ?s])
      show "ramfs_read fp len s = Some (0, length got, got, ?s)"
        unfolding ramfs_read_def Let_def using f rf h(2) i O(2) nd False b le(1) tk lg
        by (simp flip: g_def) (auto simp: got_def)
      show "ramfs_ok ?s" by (rule handle_moves [OF ok f(1) rf]) (use le(2) in simp_all)
    qed (simp_all add: lg)
  qed
qed

lemma ramfs_ok_cong:
  "kheap s' = kheap s \<Longrightarrow> files s' = files s \<Longrightarrow> pipes s' = pipes s \<Longrightarrow> rfiles s' = rfiles s \<Longrightarrow> bufs s' = bufs s \<Longrightarrow>
    g_nodes s' = g_nodes s \<Longrightarrow> g_tmp_root s' = g_tmp_root s \<Longrightarrow> ramfs_ok s' = ramfs_ok s"
  by (simp add: ramfs_ok_def kobj_ok_def needs_def holds_def separate_def)

lemma reserve_spec:
  assumes ok: "ramfs_ok s" and i: "i < 64" and need: "need \<le> 65536"
  obtains room s1 where "ramfs_reserve i need s = Some (room, s1)" "ramfs_ok s1" "room \<longrightarrow> need \<le> n_cap (g_nodes s1 ! i)"
    "\<forall>j<64. content s1 j = content s j" "files s1 = files s" "rfiles s1 = rfiles s" "same_tree s s1"
proof -
  note O = ramfs_okD [OF ok]
  show thesis
  proof (cases rule: reserve_cases [OF ok i need])
    case 1
    then show thesis using that [of True s] ok by (simp add: same_tree_def)
  next
    case (2 h)
    have "ramfs_ok (s\<lparr>kheap := h\<rparr>)" using 2(2) ok by (simp add: ramfs_ok_def)
    then show thesis using 2 that [of False "s\<lparr>kheap := h\<rparr>"] by (simp add: same_tree_def content_def Let_def)
  next
    case (3 ncap nd h copied)
    let ?s = "reserved i nd copied h ncap s"
    have g: "g_nodes ?s = (g_nodes s)[i := (g_nodes s ! i)\<lparr>n_data := nd, n_cap := ncap\<rparr>]" "files ?s = files s" "rfiles ?s = rfiles s"
        "g_tmp_root ?s = g_tmp_root s"
      by (simp_all add: reserved_def Let_def free_buf_def)
    show thesis
      using reserved_ok [OF ok i 3(3-8)] 3(1,2) i O(2)
      by (intro that [of True ?s]) (auto simp: g same_tree_def nth_list_update)
  qed
qed

definition put_bytes :: "nat \<Rightarrow> nat \<Rightarrow> bytes \<Rightarrow> 'a rfs_scheme \<Rightarrow> 'a rfs_scheme" where
  "put_bytes i pos src s =
    (let n = g_nodes s ! i; b = the (bufs s (n_data n)) in
     s\<lparr>bufs := (if src = [] then bufs s else (bufs s)(n_data n \<mapsto> take pos b @ src @ drop (pos + length src) b)),
       g_nodes := (g_nodes s)[i := n\<lparr>n_size := if pos + length src > n_size n then pos + length src else n_size n\<rparr>]\<rparr>)"

lemma put_bytes_spec:
  assumes ok: "ramfs_ok s" and i: "i < 64" and room: "pos + length src \<le> n_cap (g_nodes s ! i)"
  shows "ramfs_ok (put_bytes i pos src s)"
    "j < 64 \<Longrightarrow> j \<noteq> i \<Longrightarrow> content (put_bytes i pos src s) j = content s j"
    "pos \<le> length (content s i) \<Longrightarrow> content (put_bytes i pos src s) i
       = take pos (content s i) @ src @ drop (pos + length src) (content s i)"
proof -
  let ?n = "g_nodes s ! i"
  note O = ramfs_okD [OF ok] and lc = length_content [OF ok i]
  define size where "size = (if pos + length src > n_size ?n then pos + length src else n_size ?n)"
  have cap: "n_size ?n \<le> n_cap ?n" "n_cap ?n \<le> 65536" using O(3) [OF i] by (auto simp: node_data_ok_def split: if_splits)
  have "ramfs_ok (put_bytes i pos src s)
     \<and> (\<forall>j<64. j \<noteq> i \<longrightarrow> content (put_bytes i pos src s) j = content s j)
     \<and> (pos \<le> length (content s i) \<longrightarrow> content (put_bytes i pos src s) i
       = take pos (content s i) @ src @ drop (pos + length src) (content s i))"
  proof (cases "n_data ?n = 0")
    case True
    then have "pos = 0" "src = []" "n_size ?n = 0" using O(3) [OF i] room by (auto simp: node_data_ok_def)
    moreover have "?n\<lparr>n_size := 0\<rparr> = ?n" using \<open>n_size ?n = 0\<close> by simp
    ultimately have "put_bytes i pos src s = s" by (simp add: put_bytes_def Let_def)
    then show ?thesis using ok \<open>pos = 0\<close> \<open>src = []\<close> by simp
  next
    case False
    then obtain b where b: "bufs s (n_data ?n) = Some b" "length b = n_cap ?n"
      using O(3) [OF i] by (auto simp: node_data_ok_def split: if_splits)
    define b' where "b' = take pos b @ src @ drop (pos + length src) b"
    have lb': "length b' = length b" using room b(2) by (simp add: b'_def)
    let ?x = "?n\<lparr>n_size := size\<rparr>"
    have P: "bufs (put_bytes i pos src s) = (bufs s)(n_data ?n \<mapsto> b')" "g_nodes (put_bytes i pos src s) = (g_nodes s)[i := ?x]"
      "files (put_bytes i pos src s) = files s" "rfiles (put_bytes i pos src s) = rfiles s"
      "g_tmp_root (put_bytes i pos src s) = g_tmp_root s"
      "put_bytes i pos src s = (s\<lparr>bufs := (bufs s)(n_data ?n \<mapsto> b')\<rparr>)\<lparr>g_nodes := (g_nodes s)[i := ?x]\<rparr>"
      using b by (auto simp: put_bytes_def Let_def b'_def size_def fun_upd_idem)
    have "kobj_ok (put_bytes i pos src s)"
      unfolding P(6) using kobj_ok_update(4) [OF O(1) b(1) lb'] by simp
    moreover have "nodes_ok ((bufs s)(n_data ?n \<mapsto> b')) ((g_nodes s)[i := ?x]) (g_tmp_root s)"
    proof (rule node_update [where bf = "bufs s"])
      show "nodes_ok (bufs s) (g_nodes s) (g_tmp_root s)" using ok by (simp add: ramfs_ok_def)
      show "node_data_ok ((bufs s)(n_data ?n \<mapsto> b')) ?x"
        using False lb' b cap room by (simp add: node_data_ok_def size_def)
      show "n_data (g_nodes s ! j) \<noteq> n_data ?x" if "j < 64" "j \<noteq> i" "n_data ?x \<noteq> 0" for j
        using O(4) that i by (auto simp: own_data_def)
    qed (use i lb' b in auto)
    ultimately have 1: "ramfs_ok (put_bytes i pos src s)" using O(6) by (simp add: ramfs_ok_def P)
    have 2: "content (put_bytes i pos src s) j = content s j" if "j < 64" "j \<noteq> i" for j
      using that O(4) i False by (auto simp: content_def P(1,2) own_data_def Let_def)
    have 3: "content (put_bytes i pos src s) i = take size b'"
      using i O(2) False by (simp add: content_def P(1,2) Let_def)
    have c: "content s i = take (n_size ?n) b" using b False by (simp add: content_def Let_def)
    have "take size b' = take pos (take (n_size ?n) b) @ src @ drop (pos + length src) (take (n_size ?n) b)"
      if "pos \<le> n_size ?n"
    proof -
      have 1: "pos \<le> length b" "pos + length src \<le> size" using that cap b(2) by (simp_all add: size_def)
      then have "take size b' = take pos b @ src @ take (size - pos - length src) (drop (pos + length src) b)"
        by (simp add: b'_def min_absorb1 min_absorb2)
      moreover have "take (size - pos - length src) (drop (pos + length src) b) = drop (pos + length src) (take (n_size ?n) b)"
        by (simp add: drop_take size_def)
      ultimately show ?thesis using that by (simp add: min_def)
    qed
    with 1 2 3 c lc show ?thesis by simp
  qed
  then show "ramfs_ok (put_bytes i pos src s)"
    "j < 64 \<Longrightarrow> j \<noteq> i \<Longrightarrow> content (put_bytes i pos src s) j = content s j"
    "pos \<le> length (content s i) \<Longrightarrow> content (put_bytes i pos src s) i
       = take pos (content s i) @ src @ drop (pos + length src) (content s i)" by blast+
qed

lemma write_spec:
  assumes ok: "ramfs_ok s" and f: "files s fp = Some f" "f_ops f = RamfsOps"
    and rf: "rfiles s (fs_priv f) = Some rf" and len: "length src < 9223372036854775808"
  obtains (refused) s' where "ramfs_write fp src s = Some (-1, 0, s')" "ramfs_ok s'" "rfiles s' = rfiles s"
      "\<forall>j<64. content s' j = content s j" "same_tree s s'"
  | (written) s' where "ramfs_write fp src s = Some (0, length src, s')" "ramfs_ok s'"
      "rfiles s' = (rfiles s)(fs_priv f \<mapsto> rf\<lparr>rf_pos := rf_pos rf + length src\<rparr>)"
      "\<forall>p. p \<noteq> fp \<longrightarrow> files s' p = files s p" "same_tree s s'"
      "\<forall>j<64. j \<noteq> rf_node rf \<longrightarrow> content s' j = content s j"
      "rf_pos rf \<le> length (content s (rf_node rf)) \<longrightarrow> content s' (rf_node rf)
         = take (rf_pos rf) (content s (rf_node rf)) @ src @ drop (rf_pos rf + length src) (content s (rf_node rf))"
proof -
  obtain rf' where h: "rfiles s (fs_priv f) = Some rf'" "fs_priv f \<noteq> 0" "rf_node rf' < 64" "rf_pos rf' \<le> 65536"
    by (rule ramfs_handle [OF ok f])
  then have i: "rf_node rf < 64" "rf_pos rf \<le> 65536" using rf by simp_all
  let ?i = "rf_node rf" and ?pos = "rf_pos rf + length src"
  have w: "wrap64 ?pos = ?pos" using i len by simp
  note O = ramfs_okD [OF ok]
  show thesis
  proof (cases "\<not> writable f \<or> n_is_dir (g_nodes s ! ?i) \<or> ?pos > 65536")
    case True
    then have "ramfs_write fp src s = Some (-1, 0, s)"
      using f rf h(2) i(1) O(2) w by (auto simp: ramfs_write_def Let_def)
    then show thesis using refused ok by (simp add: same_tree_def)
  next
    case False
    then have need: "?pos \<le> 65536" by simp
    obtain room s1 where r: "ramfs_reserve ?i ?pos s = Some (room, s1)" "ramfs_ok s1"
        "room \<longrightarrow> ?pos \<le> n_cap (g_nodes s1 ! ?i)" "\<forall>j<64. content s1 j = content s j"
        "files s1 = files s" "rfiles s1 = rfiles s" "same_tree s s1"
      by (rule reserve_spec [OF ok i(1) need])
    show thesis
    proof (cases room)
      case False
      then have "ramfs_write fp src s = Some (-1, 0, s1)"
        using f rf h(2) i(1) O(2) w r(1) \<open>\<not> (_ \<or> _ \<or> _)\<close> by (simp add: ramfs_write_def Let_def)
      then show thesis using refused r by blast
    next
      case True
      note P = put_bytes_spec [OF r(2) i(1) r(3) [rule_format, OF True]] and O1 = ramfs_okD [OF r(2)]
      let ?n = "g_nodes s1 ! ?i" and ?p = "put_bytes ?i (rf_pos rf) src s1"
      define size where "size = (if ?pos > n_size ?n then ?pos else n_size ?n)"
      define s' where "s' = ?p\<lparr>rfiles := (rfiles s)(fs_priv f \<mapsto> rf\<lparr>rf_pos := ?pos\<rparr>),
        files := (files s)(fp \<mapsto> f\<lparr>f_size := size, f_pos := ?pos\<rparr>)\<rparr>"
      have ff: "files ?p = files s" "rfiles ?p = rfiles s" using r(5,6) by (simp_all add: put_bytes_def Let_def)
      have ok': "ramfs_ok s'"
        using handle_moves [OF P(1), of fp f rf "f\<lparr>f_size := size, f_pos := ?pos\<rparr>" "rf\<lparr>rf_pos := ?pos\<rparr>"] f rf need
        by (simp add: s'_def ff)
      have cc: "content s' j = content ?p j" for j by (simp add: s'_def content_def Let_def)
      have buf: "\<exists>b. bufs s1 (n_data ?n) = Some b \<and> ?pos \<le> length b" if "src \<noteq> []"
        using O1(3) [OF i(1)] r(3) [rule_format, OF True] that by (auto simp: node_data_ok_def split: if_splits)
      have res: "ramfs_write fp src s = Some (0, length src, s')"
      proof (cases "src = []")
        case True
        then show ?thesis
          using f rf h(2) i(1) O(2) w r(1,5,6) \<open>room\<close> \<open>\<not> (_ \<or> _ \<or> _)\<close>
          by (simp add: ramfs_write_def Let_def s'_def put_bytes_def size_def)
      next
        case False
        then obtain b where "bufs s1 (n_data ?n) = Some b" "?pos \<le> length b" using buf by blast
        with False show ?thesis
          using f rf h(2) i(1) O(2) w r(1,5,6) \<open>room\<close> \<open>\<not> (_ \<or> _ \<or> _)\<close>
          by (simp add: ramfs_write_def Let_def s'_def put_bytes_def size_def)
      qed
      have st: "same_tree s s'"
        using r(7) i(1) O1(2) by (auto simp: same_tree_def s'_def put_bytes_def Let_def nth_list_update)
      show thesis
        by (rule written [OF res ok' _ _ st]) (use P(2,3) r(4) i(1) in \<open>auto simp: s'_def cc [unfolded s'_def]\<close>)
    qed
  qed
qed

section \<open>Opening and closing\<close>

lemma new_node_ok:
  assumes n: "nodes_ok bf ns root" and a: "node_alloc ns = (Some n, ns')"
    and x: "n_data x = 0" "n_size x = 0" "n_cap x = 0"
  shows "nodes_ok bf (ns'[n := x]) root"
proof -
  note A = node_allocD [OF a]
  have "nodes_ok bf (ns[n := x]) root"
    using A n x by (intro node_replace [OF n]) (auto simp: nodes_ok_def root_ok_def node_data_ok_def)
  then show ?thesis by (simp add: A(3))
qed

lemma node_alloc_data:
  "node_alloc ns = (Some n, ns') \<Longrightarrow> length ns = 64 \<Longrightarrow>
    n_data (ns' ! n) = 0 \<and> n_size (ns' ! n) = 0 \<and> n_cap (ns' ! n) = 0"
  using node_allocD [of ns n ns'] by (simp add: zero_node_def)

lemma create_ok: "ramfs_ok s \<Longrightarrow> ramfs_ok (snd (ramfs_create_file path s))"
  unfolding ramfs_create_file_def
  by (auto simp: ramfs_ok_def split: option.split prod.split) (rule new_node_ok, assumption+, simp_all)

lemma mkdir_ok: "ramfs_ok s \<Longrightarrow> ramfs_ok (snd (ramfs_mkdir path s))"
  unfolding ramfs_mkdir_def
  by (auto simp: ramfs_ok_def split: option.split prod.split)
    (rule new_node_ok, assumption+, simp_all add: node_alloc_data nodes_ok_def)

lemma ramfs_ok_heap:
  "ramfs_ok s \<Longrightarrow> n < 18446744073709551552 \<Longrightarrow> kmalloc n (kheap s) = (p, h) \<Longrightarrow> ramfs_ok (s\<lparr>kheap := h\<rparr>)"
  using kmalloc_ok(1) [of s n p h] by (simp add: ramfs_ok_def)

lemma truncate_ok:
  assumes "ramfs_ok s" "i < 64" "x = g_nodes s ! i \<or> x = (g_nodes s ! i)\<lparr>n_size := 0\<rparr>"
  shows "ramfs_ok (s\<lparr>g_nodes := (g_nodes s)[i := x]\<rparr>)"
proof -
  have "nodes_ok (bufs s) ((g_nodes s)[i := x]) (g_tmp_root s)"
    using assms(2,3) ramfs_okD(3) [OF assms(1,2)] ramfs_okD(4) [OF assms(1)]
    by (intro node_update [where bf = "bufs s"])
      (use assms(1) in \<open>auto simp: ramfs_ok_def node_data_ok_def own_data_def split: if_splits\<close>)
  then show ?thesis using assms(1) by (simp add: ramfs_ok_def)
qed

lemma add_rfile_ok:
  assumes ok: "ramfs_ok s" and k: "kmalloc 16 (kheap s) = (p, h)" "p \<noteq> 0"
    and rf: "rf_node rf < 64" "rf_pos rf \<le> 65536"
  shows "ramfs_ok (s\<lparr>kheap := h, rfiles := (rfiles s)(p \<mapsto> rf)\<rparr>)"
proof -
  note O = ramfs_okD [OF ok]
  have "p \<notin> objects s" by (rule kmalloc_fresh [OF O(1) _ k]) simp
  then have "kobj_ok ((s\<lparr>kheap := h\<rparr>)\<lparr>rfiles := (rfiles (s\<lparr>kheap := h\<rparr>))(p \<mapsto> rf)\<rparr>)"
    using kmalloc_ok [OF O(1) _ k(1)] k(2) by (intro kobj_ok_add(3)) (simp_all add: objects_def)
  moreover have "handles_ok (files s) ((rfiles s)(p \<mapsto> rf))"
    using O(6) rf by (auto simp: handles_ok_def)
  ultimately show ?thesis using ok by (simp add: ramfs_ok_def)
qed

text \<open>A private part that no open file uses yet.\<close>

definition spare :: "'a rfs_scheme \<Rightarrow> nat \<Rightarrow> bool" where
  "spare s p \<longleftrightarrow> p \<in> dom (rfiles s) \<and> (\<forall>fp f. files s fp = Some f \<longrightarrow> f_ops f = RamfsOps \<longrightarrow> fs_priv f \<noteq> p)"

lemma add_file_ok:
  assumes ok: "ramfs_ok s" and k: "kmalloc 56 (kheap s) = (vf, h)" "vf \<noteq> 0" and p: "spare s (fs_priv f)"
  shows "ramfs_ok (s\<lparr>kheap := h, files := (files s)(vf \<mapsto> f)\<rparr>)"
proof -
  note O = ramfs_okD [OF ok]
  have n: "vf \<notin> objects s" by (rule kmalloc_fresh [OF O(1) _ k]) simp
  then have "kobj_ok ((s\<lparr>kheap := h\<rparr>)\<lparr>files := (files (s\<lparr>kheap := h\<rparr>))(vf \<mapsto> f)\<rparr>)"
    using kmalloc_ok [OF O(1) _ k(1)] k(2) by (intro kobj_ok_add(1)) (simp_all add: objects_def)
  moreover have "handles_ok ((files s)(vf \<mapsto> f)) (rfiles s)"
    using O(6) p unfolding handles_ok_def spare_def by (auto split: if_splits) metis+
  ultimately show ?thesis using ok by (simp add: ramfs_ok_def)
qed

lemma drop_rfile_ok:
  assumes ok: "ramfs_ok s" and p: "spare s p"
  shows "ramfs_ok (free_rfile p s)"
proof -
  have "handles_ok (files s) ((rfiles s)(p := None))"
    using ramfs_okD(6) [OF ok] p unfolding handles_ok_def spare_def by (auto split: if_splits)
  then show ?thesis
    using free_obj_ok(3) [OF ramfs_okD(1) [OF ok], of p] p ok by (simp add: ramfs_ok_def spare_def free_rfile_def)
qed

lemma open_tail:
  assumes ok: "ramfs_ok s" and i: "i < 64"
  shows "\<exists>r vf s'. (let node = g_nodes s ! i in
      if bad \<and> n_is_dir node then Some (-1, 0, s)
      else
        let node1 = (if trunc \<and> \<not> n_is_dir node then node\<lparr>n_size := 0\<rparr> else node);
            s2 = s\<lparr>g_nodes := (g_nodes s)[i := node1]\<rparr>;
            (rf, h3) = kmalloc sizeof_ramfs_file (kheap s2)
        in if rf = 0 then Some (-1, 0, s2\<lparr>kheap := h3\<rparr>)
           else
             let pos = (if app then n_size node1 else 0);
                 s3 = s2\<lparr>kheap := h3, rfiles := (rfiles s2)(rf \<mapsto> \<lparr>rf_node = i, rf_pos = pos\<rparr>)\<rparr>;
                 (vf, h4) = kmalloc sizeof_vfs_file (kheap s3)
             in if vf = 0 then Some (-1, 0, free_rfile rf (s3\<lparr>kheap := h4\<rparr>))
                else Some (0, vf, s3\<lparr>kheap := h4, files := (files s3)(vf \<mapsto>
                       zero_file\<lparr>f_ops := RamfsOps, fs_priv := rf, is_dir := n_is_dir node1,
                         f_size := n_size node1, f_pos := pos, writable := wr\<rparr>)\<rparr>))
      = Some (r, vf, s') \<and> ramfs_ok s' \<and> same_tree s s'"
proof (cases "bad \<and> n_is_dir (g_nodes s ! i)")
  case True
  then show ?thesis using ok by (simp add: Let_def same_tree_def)
next
  case False
  let ?node = "g_nodes s ! i"
  define node1 where "node1 = (if trunc \<and> \<not> n_is_dir ?node then ?node\<lparr>n_size := 0\<rparr> else ?node)"
  define pos where "pos = (if app then n_size node1 else 0)"
  define s2 where "s2 = s\<lparr>g_nodes := (g_nodes s)[i := node1]\<rparr>"
  have ok2: "ramfs_ok s2" unfolding s2_def by (rule truncate_ok [OF ok i]) (simp add: node1_def)
  have pos: "pos \<le> 65536"
    using ramfs_okD(3) [OF ok i] by (auto simp: pos_def node1_def node_data_ok_def split: if_splits)
  obtain rf h3 where k: "kmalloc 16 (kheap s2) = (rf, h3)" by (cases "kmalloc 16 (kheap s2)") simp
  define s3 where "s3 = s2\<lparr>kheap := h3, rfiles := (rfiles s2)(rf \<mapsto> \<lparr>rf_node = i, rf_pos = pos\<rparr>)\<rparr>"
  obtain vf h4 where k4: "kmalloc 56 (kheap s3) = (vf, h4)" by (cases "kmalloc 56 (kheap s3)") simp
  note names = node1_def [symmetric] pos_def [symmetric] s2_def [symmetric]
  have ok3: "ramfs_ok s3" if "rf \<noteq> 0"
    unfolding s3_def by (rule add_rfile_ok [OF ok2 k that]) (simp_all add: i pos)
  have sp: "spare s3 rf" if "rf \<noteq> 0"
    using kmalloc_fresh [OF ramfs_okD(1) [OF ok2] _ k that] ramfs_okD(6) [OF ok2]
    unfolding spare_def s3_def handles_ok_def by (auto simp: objects_def)
  then have sp4: "spare (s3\<lparr>kheap := h4\<rparr>) rf" if "rf \<noteq> 0" using that by (simp add: spare_def)
  have s3: "g_nodes s3 = g_nodes s2" "g_tmp_root s3 = g_tmp_root s2" by (simp_all add: s3_def)
  have same: "same_tree s st" if "g_nodes st = g_nodes s2" "g_tmp_root st = g_tmp_root s2" for st
    using that i ramfs_okD(2) [OF ok] by (auto simp: same_tree_def s2_def node1_def nth_list_update)
  show ?thesis
    unfolding Let_def names k prod.case s3_def [symmetric] k4
    using False ok same [of "s2\<lparr>kheap := h3\<rparr>"] same [of "free_rfile rf (s3\<lparr>kheap := h4\<rparr>)"]
      same [of "s3\<lparr>kheap := h4, files := fs\<rparr>" for fs] s3 ramfs_ok_heap [OF ok2 _ k] drop_rfile_ok [OF ramfs_ok_heap [OF ok3 _ k4] sp4]
      add_file_ok [OF ok3 k4] sp by (simp add: free_rfile_def same_tree_def [of s s])
qed

lemma open_ok:
  assumes ok: "ramfs_ok s"
  shows "\<exists>r vf s'. ramfs_open path flags s = Some (r, vf, s') \<and> ramfs_ok s'
    \<and> (same_tree s s' \<or> same_tree (snd (ramfs_create_file path s)) s')"
proof (cases "strip_tmp_prefix path")
  case None
  then show ?thesis using ok by (simp add: ramfs_open_def same_tree_def)
next
  case (Some rel)
  define look where "look = (\<lambda>st :: 'a rfs_scheme. map_option fst (resolve (g_nodes st) (g_tmp_root st) rel False))"
  define fs where "fs = (if rel = [] then (Some (g_tmp_root s), s) else case look s of Some i \<Rightarrow> (Some i, s)
      | None \<Rightarrow> if has_flag flags VFS_O_CREAT then
                 case ramfs_create_file path s of (r, s1) \<Rightarrow> if r < 0 then (None, s1) else (look s1, s1)
               else (None, s))"
  note names = fs_def [unfolded look_def, symmetric] and strip = Some
  have lk: "\<exists>k<64. x = int k" if "look st = Some x" "ramfs_ok st" for st x
    using that resolve_reach(2) [OF ramfs_okD(5) [OF that(2)]] by (fastforce simp: look_def)
  have root: "\<exists>k<64. g_tmp_root s = int k"
    using ramfs_okD(5) [OF ok] by (auto simp: root_ok_def intro!: exI [of _ "nat (g_tmp_root s)"])
  have src: "snd fs = s \<or> snd fs = snd (ramfs_create_file path s)"
    by (auto simp: fs_def split: option.split prod.split)
  have f: "ramfs_ok (snd fs)" "\<forall>x. fst fs = Some x \<longrightarrow> (\<exists>k<64. x = int k)"
    using ok create_ok [OF ok, of path] lk root
    by (auto simp: fs_def Let_def split: option.split prod.split)
  obtain found s1 where fs: "fs = (found, s1)" by (cases fs) simp
  show ?thesis
  proof (cases found)
    case None
    then show ?thesis
      using f(1) src unfolding ramfs_open_def strip option.case Let_def names fs by (auto simp: same_tree_def)
  next
    case (Some x)
    then obtain k where k: "k < 64" "x = int k" using f(2) fs by auto
    have ok1: "ramfs_ok s1" using f(1) fs by simp
    have c: "(int k < 0 \<or> int (length (g_nodes s1)) \<le> int k) = False" using ramfs_okD(2) [OF ok1] k(1) by simp
    have "\<exists>r vf s'. ramfs_open path flags s = Some (r, vf, s') \<and> ramfs_ok s' \<and> same_tree s1 s'"
      unfolding ramfs_open_def strip option.case Let_def names fs prod.case Some k(2) nat_int c if_False
      by (rule open_tail [OF ok1 k(1), unfolded Let_def])
    then show ?thesis using src fs by auto
  qed
qed

lemma ramfs_close_ok:
  assumes ok: "ramfs_ok s" and f: "files s fp = Some f" "f_ops f = RamfsOps"
  shows "\<exists>s'. ramfs_close fp s = Some (0, s') \<and> ramfs_ok s'"
proof -
  obtain rf where h: "rfiles s (fs_priv f) = Some rf" "fs_priv f \<noteq> 0" by (rule ramfs_handle [OF ok f])
  let ?s1 = "free_rfile (fs_priv f) s"
  note O = ramfs_okD [OF ok]
  have "kobj_ok ?s1" using free_obj_ok(3) [OF O(1)] h(1) by auto
  then have "kobj_ok (free_file fp ?s1)" using free_obj_ok(1) [of ?s1 fp] f(1) by (auto simp: free_rfile_def)
  moreover have "handles_ok ((files s)(fp := None)) ((rfiles s)(fs_priv f := None))"
    using O(6) f unfolding handles_ok_def by (auto split: if_splits)
  ultimately have "ramfs_ok (free_file fp ?s1)" using ok by (simp add: ramfs_ok_def free_file_def free_rfile_def)
  then show ?thesis using f h by (simp add: ramfs_close_def)
qed

section \<open>Directory operations keep the data\<close>

lemma release_ok:
  assumes ok: "ramfs_ok s" and i: "i < 64" "int i \<noteq> g_tmp_root s"
  shows "ramfs_ok (node_release i s)"
proof -
  note O = ramfs_okD [OF ok]
  let ?d = "n_data (g_nodes s ! i)"
  have "kobj_ok (node_release i s)"
    using free_obj_ok(4) [OF O(1), of ?d] O(1) O(3) [OF i(1)]
    by (auto simp: node_release_def Let_def node_data_ok_def domIff)
  moreover have "nodes_ok (bufs (node_release i s)) ((g_nodes s)[i := zero_node]) (g_tmp_root s)"
    using ok i O(4)
    by (intro node_replace [where bf = "bufs s"])
      (auto simp: ramfs_ok_def node_release_def free_buf_def node_data_ok_def zero_node_def own_data_def Let_def)
  ultimately show ?thesis using ok by (simp add: ramfs_ok_def) (simp add: node_release_def free_buf_def Let_def)
qed

lemma target_node_ok:
  assumes ok: "ramfs_ok s" and t: "target_node path s = Some i"
  shows "i < 64" "int i \<noteq> g_tmp_root s"
proof -
  obtain rel c q leaf where p: "resolve (g_nodes s) (g_tmp_root s) rel True = Some (c, q, leaf)"
      "find_child q leaf (g_nodes s) = Some i"
    using t by (auto simp: target_node_def split: option.splits if_splits)
  obtain e where "q = int e" using resolve_reach(1) [OF ramfs_okD(5) [OF ok] p(1)] by blast
  then show "i < 64" "int i \<noteq> g_tmp_root s"
    using find_childD [OF p(2)] root_not_child [OF ramfs_okD(5) [OF ok]] p(2) by simp_all
qed

lemma remove_ok:
  assumes "ramfs_ok s"
  shows "ramfs_ok (snd (ramfs_unlink_op path s))" "ramfs_ok (snd (ramfs_rmdir_op path s))"
  using assms target_node_ok [OF assms] release_ok [OF assms]
  by (auto simp: ramfs_unlink_op_def ramfs_rmdir_op_def split: option.split)

lemma rename_ok:
  assumes ok: "ramfs_ok s"
  shows "\<exists>r s'. ramfs_rename_op old new s = Some (r, s') \<and> ramfs_ok s'"
proof (cases rule: rename_cases [OF ramfs_okD(5) [OF ok] ramfs_okD(2) [OF ok], of old new])
  case 1
  then show ?thesis using ok by blast
next
  case (2 q l i rel c e nm)
  have i: "i < 64" using find_childD [OF 2(2)] by simp
  have "nodes_ok (bufs s) ((g_nodes s)[i := (g_nodes s ! i)\<lparr>n_parent := int e, n_name := nm\<rparr>]) (g_tmp_root s)"
    using ramfs_okD(3) [OF ok i] ramfs_okD(4) [OF ok] i 2(3)
    by (intro node_replace [where bf = "bufs s"]) (use ok in \<open>auto simp: ramfs_ok_def node_data_ok_def own_data_def split: if_splits\<close>)
  then have "ramfs_ok (s\<lparr>g_nodes := (g_nodes s)[i := (g_nodes s ! i)\<lparr>n_parent := int e, n_name := nm\<rparr>]\<rparr>)"
    using ok by (simp add: ramfs_ok_def)
  with 2(1) show ?thesis by blast
qed

lemma init_ok:
  assumes "kobj_ok s" "handles_ok (files s) (rfiles s)"
  shows "ramfs_ok (snd (ramfs_init s))"
proof -
  let ?ns = "(replicate 64 zero_node)[0 := zero_node\<lparr>n_used := True, n_is_dir := True, n_parent := -1, n_name := ''tmp''\<rparr>]"
  have "n_data (?ns ! i) = 0 \<and> n_size (?ns ! i) = 0 \<and> n_cap (?ns ! i) = 0" if "i < 64" for i
    using that by (cases "i = 0") (simp_all add: zero_node_def)
  then show ?thesis
    using assms by (simp add: init_eq ramfs_ok_def nodes_ok_def root_ok_def own_data_def node_data_ok_def)
qed

lemma getdents_ok:
  assumes ok: "ramfs_ok s" and f: "files s fp = Some f" "f_ops f = RamfsOps"
  shows "\<exists>r es s'. ramfs_getdents64 fp len s = Some (r, es, s') \<and> ramfs_ok s' \<and> g_nodes s' = g_nodes s \<and> g_tmp_root s' = g_tmp_root s"
proof -
  obtain rf where h: "rfiles s (fs_priv f) = Some rf" "fs_priv f \<noteq> 0" "rf_pos rf \<le> 65536" by (rule ramfs_handle [OF ok f])
  have "ramfs_ok (s\<lparr>files := (files s)(fp \<mapsto> f\<lparr>f_pos := k\<rparr>)\<rparr>)" for k
    using handle_moves [OF ok f(1) h(1), of "f\<lparr>f_pos := k\<rparr>" rf] h by (simp add: fun_upd_idem)
  then show ?thesis using ok f h by (auto simp: ramfs_getdents64_def split: option.split prod.split)
qed

section \<open>Calls of the operation table\<close>

datatype fs_call =
    Mkdir string | Unlink string | Rmdir string | Rename string string
  | Open string nat | Read nat nat | Write nat bytes | Close nat | Getdents nat nat

fun fs_run :: "fs_call \<Rightarrow> 'a rfs_scheme \<Rightarrow> 'a rfs_scheme option" where
  "fs_run (Mkdir p) s = Some (snd (ramfs_mkdir_op p s))"
| "fs_run (Unlink p) s = Some (snd (ramfs_unlink_op p s))"
| "fs_run (Rmdir p) s = Some (snd (ramfs_rmdir_op p s))"
| "fs_run (Rename p q) s = map_option snd (ramfs_rename_op p q s)"
| "fs_run (Open p fl) s = map_option (snd \<circ> snd) (ramfs_open p fl s)"
| "fs_run (Read fp n) s = map_option (snd \<circ> snd \<circ> snd) (ramfs_read fp n s)"
| "fs_run (Write fp src) s = map_option (snd \<circ> snd) (ramfs_write fp src s)"
| "fs_run (Close fp) s = map_option snd (ramfs_close fp s)"
| "fs_run (Getdents fp n) s = map_option (snd \<circ> snd) (ramfs_getdents64 fp n s)"

text \<open>An open file of the memory file system, and the calls the system-call layer can make.\<close>

definition ramfs_fd :: "'a rfs_scheme \<Rightarrow> nat \<Rightarrow> bool" where
  "ramfs_fd s fp \<longleftrightarrow> (case files s fp of None \<Rightarrow> False | Some f \<Rightarrow> f_ops f = RamfsOps)"

fun call_ok :: "fs_call \<Rightarrow> 'a rfs_scheme \<Rightarrow> bool" where
  "call_ok (Read fp n) s = ramfs_fd s fp"
| "call_ok (Write fp src) s = (ramfs_fd s fp \<and> length src < 9223372036854775808)"
| "call_ok (Close fp) s = ramfs_fd s fp"
| "call_ok (Getdents fp n) s = ramfs_fd s fp"
| "call_ok c s = True"

lemma ramfs_fdE:
  assumes "ramfs_fd s fp"
  obtains f where "files s fp = Some f" "f_ops f = RamfsOps"
  using assms that by (auto simp: ramfs_fd_def split: option.splits)

lemma read_ok:
  assumes ok: "ramfs_ok s" and f: "files s fp = Some f" "f_ops f = RamfsOps"
  shows "\<exists>r n bs s'. ramfs_read fp len s = Some (r, n, bs, s') \<and> ramfs_ok s' \<and> g_nodes s' = g_nodes s \<and> g_tmp_root s' = g_tmp_root s"
proof -
  obtain rf where h: "rfiles s (fs_priv f) = Some rf" "fs_priv f \<noteq> 0" "rf_node rf < 64" by (rule ramfs_handle [OF ok f])
  show ?thesis
  proof (cases "n_is_dir (g_nodes s ! rf_node rf)")
    case True
    then show ?thesis using ok f h ramfs_okD(2) [OF ok] by (simp add: ramfs_read_def Let_def)
  next
    case False
    obtain s' where r: "ramfs_read fp len s = Some (0, length (take len (drop (rf_pos rf) (content s (rf_node rf)))),
        take len (drop (rf_pos rf) (content s (rf_node rf))), s')" "ramfs_ok s'" "g_nodes s' = g_nodes s"
      by (rule read_spec [OF ok f h(1) False])
    moreover have "g_tmp_root s' = g_tmp_root s"
      using r(1) f h by (auto simp: ramfs_read_def Let_def split: if_splits option.splits)
    ultimately show ?thesis by blast
  qed
qed

lemma write_ok:
  assumes ok: "ramfs_ok s" and f: "files s fp = Some f" "f_ops f = RamfsOps" "length src < 9223372036854775808"
  shows "\<exists>r n s'. ramfs_write fp src s = Some (r, n, s') \<and> ramfs_ok s' \<and> same_tree s s'"
proof -
  obtain rf where h: "rfiles s (fs_priv f) = Some rf" by (rule ramfs_handle [OF ok f(1,2)])
  show ?thesis by (rule write_spec [OF ok f(1,2) h f(3)]) blast+
qed

lemma same_tree_attached:
  assumes t: "tree_ok (g_nodes s) r" and s: "same_tree s s'" and a: "attached (g_nodes s) r i"
  shows "attached (g_nodes s') r i"
  using a
proof induction
  case base
  show ?case by (rule attached.base)
next
  case (step i p)
  have "p < 64" using attached_used [OF t step.hyps(6)] by simp
  with step s show ?case by - (rule attached.step [where p = p], simp_all add: same_tree_def)
qed

lemma same_tree_tree:
  assumes "rfs_tree s" "same_tree s s'" "length (g_nodes s') = 64"
  shows "rfs_tree s'"
proof -
  obtain r where r: "g_tmp_root s = int r" "tree_ok (g_nodes s) r" using assms(1) by (auto simp: rfs_tree_def)
  have "tree_ok (g_nodes s') r"
    using tree_okD [OF r(2)] assms(2,3) same_tree_attached [OF r(2) assms(2)] tree_attached [OF r(2)] r(2)
    by (simp add: tree_ok_def same_tree_def siblings_ok_def)
  then show ?thesis using r(1) assms(2) by (auto simp: rfs_tree_def same_tree_def)
qed

lemma open_tree:
  assumes ok: "ramfs_ok s" and t: "rfs_tree s" and o: "ramfs_open path flags s = Some (r, vf, s')"
  shows "rfs_tree s'"
proof -
  have "ramfs_ok s'" "same_tree s s' \<or> same_tree (snd (ramfs_create_file path s)) s'"
    using open_ok [OF ok, of path flags] o by auto
  then show ?thesis
    using same_tree_tree [OF t] same_tree_tree [OF create_file_tree [OF t, of path]] ramfs_okD(2) by blast
qed

lemma fs_run_ok:
  assumes ok: "ramfs_ok s" and c: "call_ok c s"
  shows "\<exists>s'. fs_run c s = Some s' \<and> ramfs_ok s'"
proof (cases c)
  case (Mkdir p)
  then show ?thesis using mkdir_ok [OF ok, of p] by (simp add: ramfs_mkdir_op_def case_prod_unfold Let_def)
next
  case (Unlink p)
  then show ?thesis using remove_ok(1) [OF ok, of p] by simp
next
  case (Rmdir p)
  then show ?thesis using remove_ok(2) [OF ok, of p] by simp
next
  case (Rename p q)
  then show ?thesis using rename_ok [OF ok, of p q] by auto
next
  case (Open p fl)
  then show ?thesis using open_ok [OF ok, of p fl] by auto
next
  case (Read fp n)
  with c obtain f where "files s fp = Some f" "f_ops f = RamfsOps" by (auto elim: ramfs_fdE)
  then show ?thesis using read_ok [OF ok, of fp f n] Read by auto
next
  case (Write fp src)
  with c obtain f where "files s fp = Some f" "f_ops f = RamfsOps" by (auto elim: ramfs_fdE)
  then show ?thesis using write_ok [OF ok, of fp f src] Write c by auto
next
  case (Close fp)
  with c obtain f where "files s fp = Some f" "f_ops f = RamfsOps" by (auto elim: ramfs_fdE)
  then show ?thesis using ramfs_close_ok [OF ok, of fp f] Close by auto
next
  case (Getdents fp n)
  with c obtain f where "files s fp = Some f" "f_ops f = RamfsOps" by (auto elim: ramfs_fdE)
  then show ?thesis using getdents_ok [OF ok, of fp f n] Getdents by auto
qed

lemma fs_run_tree:
  assumes ok: "ramfs_ok s" and t: "rfs_tree s" and c: "call_ok c s" and r: "fs_run c s = Some s'"
    and leaf: "\<forall>p i. c = Unlink p \<longrightarrow> target_node p s = Some i \<longrightarrow> node_child_count i (g_nodes s) = 0"
  shows "rfs_tree s'"
proof (cases c)
  case (Mkdir p)
  then show ?thesis using mkdir_tree [OF t, of p] r by (auto simp: ramfs_mkdir_op_def case_prod_unfold Let_def)
next
  case (Unlink p)
  then show ?thesis using unlink_tree [OF t, of p] leaf r by auto
next
  case (Rmdir p)
  then show ?thesis using rmdir_tree [OF t, of p] r by auto
next
  case (Rename p q)
  obtain ret s1 where "ramfs_rename_op p q s = Some (ret, s1)" "rfs_tree s1" by (rule rename_tree [OF t])
  then show ?thesis using r Rename by auto
next
  case (Open p fl)
  then obtain ret vf where "ramfs_open p fl s = Some (ret, vf, s')" using r by auto
  then show ?thesis by (rule open_tree [OF ok t])
next
  case (Read fp n)
  with c obtain f where "files s fp = Some f" "f_ops f = RamfsOps" by (auto elim: ramfs_fdE)
  then show ?thesis using read_ok [OF ok, of fp f n] Read r t by (auto simp: rfs_tree_def)
next
  case (Write fp src)
  with c obtain f where "files s fp = Some f" "f_ops f = RamfsOps" by (auto elim: ramfs_fdE)
  then have "ramfs_ok s'" "same_tree s s'" using write_ok [OF ok, of fp f src] Write c r by auto
  then show ?thesis using same_tree_tree [OF t] ramfs_okD(2) by blast
next
  case (Close fp)
  with r obtain ret where "ramfs_close fp s = Some (ret, s')" by auto
  then show ?thesis
    using t by (auto simp: ramfs_close_def rfs_tree_def free_file_def free_rfile_def split: option.splits if_splits)
next
  case (Getdents fp n)
  with c obtain f where "files s fp = Some f" "f_ops f = RamfsOps" by (auto elim: ramfs_fdE)
  then show ?thesis using getdents_ok [OF ok, of fp f n] Getdents r t by (auto simp: rfs_tree_def)
qed

text \<open>The states from boot on.\<close>

inductive ramfs_reach :: "'a rfs_scheme \<Rightarrow> bool" where
  boot: "kobj_ok s \<Longrightarrow> handles_ok (files s) (rfiles s) \<Longrightarrow> ramfs_reach (snd (ramfs_init s))"
| call: "ramfs_reach s \<Longrightarrow> call_ok c s \<Longrightarrow> fs_run c s = Some s' \<Longrightarrow> ramfs_reach s'"

lemma reach_ok: "ramfs_reach s \<Longrightarrow> ramfs_ok s"
proof (induction rule: ramfs_reach.induct)
  case (boot s)
  then show ?case by (rule init_ok)
next
  case (call s c s')
  then show ?case using fs_run_ok [of s c] by auto
qed

lemma attached_not_self: "attached ns r i \<Longrightarrow> n_parent (ns ! r) = -1 \<Longrightarrow> n_parent (ns ! i) \<noteq> int i"
  by (induction rule: attached.induct) auto

section \<open>Properties\<close>

text \<open>
  C18. From the state after \<open>ramfs_init\<close> on, whatever directory and file calls came before,
  every further call returns: the loops of \<open>ramfs_rename_op\<close> and of the growing buffer end,
  no call touches a node, handle or buffer that does not exist, and the invariant holds
  again (each node's data in a buffer of its own, each handle with its own private part).
\<close>

theorem ramfs_calls_return:
  assumes "ramfs_reach s" "call_ok c s"
  shows "\<exists>s'. fs_run c s = Some s' \<and> ramfs_ok s'"
  using fs_run_ok [OF reach_ok [OF assms(1)] assms(2)] .

text \<open>
  C19. The nodes stay a tree: every call leaves each node in use connected to \<open>/tmp\<close> through
  directories, with distinct, non-empty, slash-free names among siblings. The one
  exception is \<open>ramfs_unlink_op\<close> on a directory that is not empty.
\<close>

theorem ramfs_tree_kept:
  assumes "ramfs_ok s" "rfs_tree s" "call_ok c s" "fs_run c s = Some s'"
    and "\<forall>p i. c = Unlink p \<longrightarrow> target_node p s = Some i \<longrightarrow> node_child_count i (g_nodes s) = 0"
  shows "rfs_tree s'"
  using fs_run_tree [OF assms] .

text \<open>
  C23. Two open files of the same node at the same position inside it: after a write through
  one, a read of as many bytes through the other returns exactly the bytes written, and no
  other file changes.
\<close>

theorem ramfs_write_read:
  assumes ok: "ramfs_ok s" and f: "files s fp = Some f" "f_ops f = RamfsOps" "rfiles s (fs_priv f) = Some rf"
    and g: "files s gp = Some g" "f_ops g = RamfsOps" "rfiles s (fs_priv g) = Some rg" "fp \<noteq> gp"
    and same: "rf_node rg = rf_node rf" "rf_pos rg = rf_pos rf" "rf_pos rf \<le> length (content s (rf_node rf))"
    and file_node: "\<not> n_is_dir (g_nodes s ! rf_node rf)" and len: "length src < 9223372036854775808"
    and w: "ramfs_write fp src s = Some (0, n, s1)"
  shows "n = length src \<and> (\<exists>s2. ramfs_read gp n s1 = Some (0, n, src, s2))
    \<and> (\<forall>j<64. j \<noteq> rf_node rf \<longrightarrow> content s1 j = content s j)"
proof (cases rule: write_spec [OF ok f len])
  case (1 s')
  then show ?thesis using w by simp
next
  case (2 s')
  then have s': "s1 = s'" "n = length src" using w by simp_all
  have pr: "fs_priv g \<noteq> fs_priv f"
    using ramfs_okD(6) [OF ok] f(1,2) g(1,2,4) unfolding handles_ok_def by blast
  have G: "files s' gp = Some g" "rfiles s' (fs_priv g) = Some rg" using 2(3,4) g pr by simp_all
  have i: "rf_node rf < 64" using f(3) ramfs_okD(6) [OF ok] by (auto simp: handles_ok_def)
  have nd: "\<not> n_is_dir (g_nodes s' ! rf_node rg)" using 2(5) i file_node same(1) by (simp add: same_tree_def)
  have c: "content s' (rf_node rg)
      = take (rf_pos rf) (content s (rf_node rf)) @ src @ drop (rf_pos rf + length src) (content s (rf_node rf))"
    using 2(7) same by simp
  have "take (length src) (drop (rf_pos rg) (content s' (rf_node rg))) = src"
    using same(2,3) by (simp add: c)
  then show ?thesis
    using read_spec [OF 2(2) G(1) g(2) G(2) nd, of "length src" "\<exists>s2. ramfs_read gp (length src) s' = Some (0, length src, src, s2)"]
      2(6) s' by auto
qed

text \<open>
  C40. \<open>ramfs_unlink_op\<close> does not check that a directory is empty: it returns 0, and the nodes in
  it stay in use without a way to the root, while \<open>ramfs_rmdir_op\<close> refuses the same directory.
\<close>

theorem ramfs_unlink_orphans:
  assumes t: "tree_ok (g_nodes s) r" "g_tmp_root s = int r" and i: "target_node path s = Some i"
    and k: "k < 64" "n_used (g_nodes s ! k)" "n_parent (g_nodes s ! k) = int i" "n_is_dir (g_nodes s ! i)"
  shows "fst (ramfs_unlink_op path s) = 0 \<and> n_used (g_nodes (snd (ramfs_unlink_op path s)) ! k)
    \<and> \<not> attached (g_nodes (snd (ramfs_unlink_op path s))) r k \<and> ramfs_rmdir_op path s = (-1, s)"
proof -
  have rt: "rfs_tree s" using t by (auto simp: rfs_tree_def)
  note I = target_nodeD [OF rt i] and T = tree_okD [OF t(1)]
  have kr: "k \<noteq> r" using T(5) k(3) by auto
  have "k \<noteq> i" using attached_not_self [OF tree_attached [OF t(1) k(1,2)] T(5)] k(3) by auto
  let ?ns = "(g_nodes s)[i := zero_node]"
  have "\<not> n_is_dir (?ns ! i)" using I(1) T(1) by (simp add: zero_node_def)
  then have "\<not> attached ?ns r k"
    using kr \<open>k \<noteq> i\<close> k(3) by (auto elim: attached.cases)
  moreover have "node_child_count i (g_nodes s) \<noteq> 0" using k by (auto simp: child_count_0)
  ultimately show ?thesis using i k(2,4) \<open>k \<noteq> i\<close> by (simp add: ramfs_unlink_op_def ramfs_rmdir_op_def)
qed

section \<open>Witnesses\<close>

text \<open>
  Two handles on the file \<open>/tmp/a\<close>, which holds the bytes 1 and 2, and a directory \<open>/tmp/d\<close> with
  the empty file \<open>x\<close>; the objects lie in a pool of 496 bytes.
\<close>

definition fs_pool :: heap where
  "fs_pool = \<lparr>g_heap_base = 4096, g_heap_size = 496, g_free = 4560,
     hmem = (\<lambda>_. 0)(4096 := 64, 4160 := 64, 4224 := 32, 4256 := 32, 4288 := 272, 4560 := 32)\<rparr>"

lemma fs_pool_rep:
  "heap_rep fs_pool [4560] [(4096, 64, False), (4160, 64, False), (4224, 32, False), (4256, 32, False),
     (4288, 272, False), (4560, 32, True)]"
  by (auto simp: heap_rep_def heap_ok_def fs_pool_def free_addrs_def)

lemma fs_pool_live: "heap_inv fs_pool" "(4104, 56) \<in> live fs_pool" "(4168, 56) \<in> live fs_pool" "(4232, 24) \<in> live fs_pool"
  "(4264, 24) \<in> live fs_pool" "(4296, 264) \<in> live fs_pool"
  using fs_pool_rep unfolding live_rep [OF fs_pool_rep] by (auto simp: heap_inv_def)

definition demo_nodes :: "ramfs_node list" where
  "demo_nodes = (replicate 64 zero_node)[
     0 := \<lparr>n_used = True, n_is_dir = True, n_name = ''tmp'', n_parent = -1, n_data = 0, n_size = 0, n_cap = 0\<rparr>,
     1 := \<lparr>n_used = True, n_is_dir = False, n_name = ''a'', n_parent = 0, n_data = 4296, n_size = 2, n_cap = 256\<rparr>,
     2 := \<lparr>n_used = True, n_is_dir = True, n_name = ''d'', n_parent = 0, n_data = 0, n_size = 0, n_cap = 0\<rparr>,
     3 := \<lparr>n_used = True, n_is_dir = False, n_name = ''x'', n_parent = 2, n_data = 0, n_size = 0, n_cap = 0\<rparr>]"

definition demo_fs :: rfs where
  "demo_fs = \<lparr>kheap = fs_pool,
     files = [4104 \<mapsto> zero_file\<lparr>f_ops := RamfsOps, fs_priv := 4232, f_size := 2, f_pos := 1, writable := True\<rparr>,
              4168 \<mapsto> zero_file\<lparr>f_ops := RamfsOps, fs_priv := 4264, f_size := 2, f_pos := 1\<rparr>],
     pipes = Map.empty,
     rfiles = [4232 \<mapsto> \<lparr>rf_node = 1, rf_pos = 1\<rparr>, 4264 \<mapsto> \<lparr>rf_node = 1, rf_pos = 1\<rparr>],
     bufs = [4296 \<mapsto> 1 # 2 # replicate 254 0], garbage = (\<lambda>_. 0), g_nodes = demo_nodes, g_tmp_root = 0\<rparr>"

lemma demo_nodes_nth:
  "demo_nodes ! 0 = \<lparr>n_used = True, n_is_dir = True, n_name = ''tmp'', n_parent = -1, n_data = 0, n_size = 0, n_cap = 0\<rparr>"
  "demo_nodes ! 1 = \<lparr>n_used = True, n_is_dir = False, n_name = ''a'', n_parent = 0, n_data = 4296, n_size = 2, n_cap = 256\<rparr>"
  "demo_nodes ! 2 = \<lparr>n_used = True, n_is_dir = True, n_name = ''d'', n_parent = 0, n_data = 0, n_size = 0, n_cap = 0\<rparr>"
  "demo_nodes ! 3 = \<lparr>n_used = True, n_is_dir = False, n_name = ''x'', n_parent = 2, n_data = 0, n_size = 0, n_cap = 0\<rparr>"
  "length demo_nodes = 64" "3 < i \<Longrightarrow> i < 64 \<Longrightarrow> demo_nodes ! i = zero_node"
  by (simp_all add: demo_nodes_def)

lemma demo_used: "i < 64 \<Longrightarrow> n_used (demo_nodes ! i) \<Longrightarrow> i = 0 \<or> i = 1 \<or> i = 2 \<or> i = 3"
  by (rule ccontr) (auto simp: demo_nodes_nth zero_node_def)

lemma demo_tree: "tree_ok demo_nodes 0"
proof -
  note N = demo_nodes_nth
  have a0: "attached demo_nodes 0 0" by (rule attached.base)
  have a1: "attached demo_nodes 0 1" by (rule attached.step [where p = 0, OF _ _ _ _ _ a0]) (simp_all add: N(1-4) [simplified])
  have a2: "attached demo_nodes 0 2" by (rule attached.step [where p = 0, OF _ _ _ _ _ a0]) (simp_all add: N(1-4))
  have a3: "attached demo_nodes 0 3" by (rule attached.step [where p = 2, OF _ _ _ _ _ a2]) (simp_all add: N(1-4))
  have "i = j" if "i < 64" "j < 64" "n_used (demo_nodes ! i)" "n_used (demo_nodes ! j)" "n_name (demo_nodes ! i) = n_name (demo_nodes ! j)" for i j
    using demo_used [OF that(1,3)] demo_used [OF that(2,4)] that(5) by (elim disjE) (simp_all add: N(1-4) [simplified])
  then have "siblings_ok demo_nodes" by (simp add: siblings_ok_def)
  moreover have "attached demo_nodes 0 i \<and> name_ok (n_name (demo_nodes ! i))" if "i < 64" "n_used (demo_nodes ! i)" for i
    using demo_used [OF that] a0 a1 a2 a3 by (elim disjE) (simp_all add: N(1-4) [simplified] name_ok_def)
  ultimately show ?thesis by (simp add: tree_ok_def N(1,5))
qed

lemma demo_ok: "ramfs_ok demo_fs"
proof -
  have h: "holds 4104 56 demo_fs" "holds 4168 56 demo_fs" "holds 4232 16 demo_fs" "holds 4264 16 demo_fs" "holds 4296 256 demo_fs"
    unfolding holds_def using fs_pool_live by (auto simp: demo_fs_def intro: exI [of _ 56] exI [of _ 24] exI [of _ 264])
  then have "kobj_ok demo_fs"
    using fs_pool_live(1)
    by (auto simp: kobj_ok_def needs_def separate_def) (auto simp: demo_fs_def split: if_splits)
  moreover have d: "n_data (demo_nodes ! i) = (if i = 1 then 4296 else 0)"
      "node_data_ok [4296 \<mapsto> 1 # 2 # replicate 254 0] (demo_nodes ! i)" if "i < 64" for i
  proof -
    have "i = 0 \<or> i = 1 \<or> i = 2 \<or> i = 3 \<or> 3 < i" by linarith
    then show "n_data (demo_nodes ! i) = (if i = 1 then 4296 else 0)"
      "node_data_ok [4296 \<mapsto> 1 # 2 # replicate 254 0] (demo_nodes ! i)"
      using that by (elim disjE; simp add: demo_nodes_nth [simplified] node_data_ok_def zero_node_def)+
  qed
  moreover have "handles_ok (files demo_fs) (rfiles demo_fs)"
    by (auto simp: handles_ok_def demo_fs_def split: if_splits)
  ultimately show ?thesis
    using demo_nodes_nth(1,5) by (simp add: ramfs_ok_def nodes_ok_def own_data_def root_ok_def) (simp add: demo_fs_def)
qed

lemma demo_fields:
  "files demo_fs 4104 = Some (zero_file\<lparr>f_ops := RamfsOps, fs_priv := 4232, f_size := 2, f_pos := 1, writable := True\<rparr>)"
  "files demo_fs 4168 = Some (zero_file\<lparr>f_ops := RamfsOps, fs_priv := 4264, f_size := 2, f_pos := 1\<rparr>)"
  "rfiles demo_fs 4232 = Some \<lparr>rf_node = 1, rf_pos = 1\<rparr>" "rfiles demo_fs 4264 = Some \<lparr>rf_node = 1, rf_pos = 1\<rparr>"
  "g_nodes demo_fs = demo_nodes" "g_tmp_root demo_fs = 0" "bufs demo_fs 4296 = Some (1 # 2 # replicate 254 0)"
  "content demo_fs 1 = [1, 2]"
  by (simp_all add: demo_fs_def content_def demo_nodes_nth [simplified])

theorem ramfs_tree_kept_witness: "\<exists>s'. fs_run (Rename ''/tmp/a'' ''/tmp/d/b'') demo_fs = Some s' \<and> rfs_tree s'"
proof -
  obtain s' where "fs_run (Rename ''/tmp/a'' ''/tmp/d/b'') demo_fs = Some s'"
    using fs_run_ok [OF demo_ok, of "Rename ''/tmp/a'' ''/tmp/d/b''"] by auto
  moreover have "rfs_tree demo_fs" using demo_tree by (auto simp: rfs_tree_def demo_fields)
  ultimately show ?thesis using ramfs_tree_kept [OF demo_ok, of "Rename ''/tmp/a'' ''/tmp/d/b''" s'] by auto
qed

theorem ramfs_write_read_witness:
  "\<exists>s1 s2. ramfs_write 4104 [7, 8, 9] demo_fs = Some (0, 3, s1) \<and> ramfs_read 4168 3 s1 = Some (0, 3, [7, 8, 9], s2)"
proof -
  have "\<exists>s1. ramfs_write 4104 [7, 8, 9] demo_fs = Some (0, 3, s1)"
    by (simp add: ramfs_write_def ramfs_reserve_def demo_fields demo_nodes_nth [simplified] Let_def)
  then obtain s1 where w: "ramfs_write 4104 [7, 8, 9] demo_fs = Some (0, 3, s1)" by blast
  show ?thesis
    using ramfs_write_read [OF demo_ok demo_fields(1) _ _ demo_fields(2), of "\<lparr>rf_node = 1, rf_pos = 1\<rparr>" "\<lparr>rf_node = 1, rf_pos = 1\<rparr>" "[7, 8, 9]" 3 s1]
      w by (simp add: demo_fields [simplified] demo_nodes_nth [simplified])
qed

lemma strip_demo: "strip_tmp_prefix ''/tmp/d'' = Some ''d''"
  by (simp add: strip_tmp_prefix_def Let_def)

lemma demo_target: "target_node ''/tmp/d'' demo_fs = Some 2"
proof -
  have c: "comp_of ''d'' = ''d''" "after_comp ''d'' = []" by (simp_all add: comp_of_def after_comp_def)
  have "find_child 0 ''d'' demo_nodes = Some 2"
    by (rule find_child_unique) (simp_all add: demo_nodes_nth tree_okD(6) [OF demo_tree])
  then show ?thesis
    by (simp add: target_node_def strip_demo resolve_def resolve_loop.simps c demo_fields)
qed

theorem ramfs_unlink_orphans_witness:
  "fst (ramfs_unlink_op ''/tmp/d'' demo_fs) = 0 \<and> \<not> attached (g_nodes (snd (ramfs_unlink_op ''/tmp/d'' demo_fs))) 0 3"
  using ramfs_unlink_orphans [of demo_fs 0 "''/tmp/d''" 2 3] demo_target demo_tree
  by (simp add: demo_fields demo_nodes_nth)

definition empty_fs :: rfs where
  "empty_fs = demo_fs\<lparr>files := Map.empty, rfiles := Map.empty, bufs := Map.empty\<rparr>"

theorem ramfs_calls_return_witness:
  "\<exists>s'. fs_run (Rename ''/tmp/a'' ''/tmp/b'') (snd (ramfs_init empty_fs)) = Some s' \<and> ramfs_ok s'"
proof -
  have "kobj_ok empty_fs"
    using fs_pool_live(1) by (simp add: empty_fs_def demo_fs_def kobj_ok_def needs_def separate_def)
  then have "ramfs_reach (snd (ramfs_init empty_fs))"
    by (rule ramfs_reach.boot) (simp add: empty_fs_def handles_ok_def)
  from ramfs_calls_return [OF this, of "Rename ''/tmp/a'' ''/tmp/b''"] show ?thesis by simp
qed

end
