(* ===== verification/Paging.thy ===== *)
theory Paging
  imports Pmm
begin

text \<open>
  Page tables, \<open>src/kernel/arch/x86_64/paging.c\<close>. Physical memory is read and written by
  the 8-byte words of the tables: \<open>pmem\<close> maps the byte address of a word to its value.
  A table is the address of its page, an entry a 64-bit word. The static variables of the
  file and the page allocator they draw from form the record \<open>paging\<close>; loading CR3 is the
  assignment to \<open>g_cr3\<close>, and \<open>invlpg\<close>, which only drops cached translations, has no effect
  on this state.
\<close>

section \<open>State and entries\<close>

record paging =
  pt_pmm :: pmm
  pmem :: "nat \<Rightarrow> u64"
  g_mapped_ceiling :: nat
  g_cr3 :: nat
  g_pml4 :: nat
  g_kernel_pml4 :: nat

abbreviation (input) PTE_P :: u64 where "PTE_P \<equiv> 1"
abbreviation (input) PTE_W :: u64 where "PTE_W \<equiv> 2"
abbreviation (input) PTE_U :: u64 where "PTE_U \<equiv> 4"
abbreviation (input) PTE_PWT :: u64 where "PTE_PWT \<equiv> 8"
abbreviation (input) PTE_PCD :: u64 where "PTE_PCD \<equiv> 16"
abbreviation (input) PTE_PS :: u64 where "PTE_PS \<equiv> 128"
abbreviation (input) PTE_ADDR :: u64 where "PTE_ADDR \<equiv> 0x000FFFFFFFFFF000"

definition has :: "u64 \<Rightarrow> u64 \<Rightarrow> bool" where
  "has e m \<longleftrightarrow> e AND m \<noteq> 0"

text \<open>The table an entry points to: \<open>entry & ~0xFFF\<close>.\<close>

definition tbl :: "u64 \<Rightarrow> nat" where
  "tbl e = unat (e AND NOT 0xFFF)"

definition ent :: "paging \<Rightarrow> nat \<Rightarrow> nat \<Rightarrow> u64" where
  "ent s t i = pmem s (t + 8 * i)"

definition set_ent :: "nat \<Rightarrow> nat \<Rightarrow> u64 \<Rightarrow> paging \<Rightarrow> paging" where
  "set_ent t i v s = s\<lparr>pmem := (pmem s)(t + 8 * i := v)\<rparr>"

text \<open>The index of level \<open>k\<close> (3 for the PML4, 0 for the page table) in an address.\<close>

definition pt_idx :: "nat \<Rightarrow> u64 \<Rightarrow> nat" where
  "pt_idx k virt = unat (drop_bit (12 + 9 * k) virt AND 0x1FF)"

definition zero_page :: "nat \<Rightarrow> (nat \<Rightarrow> u64) \<Rightarrow> nat \<Rightarrow> u64" where
  "zero_page p m = (\<lambda>a. if p \<le> a \<and> a < p + PAGE_SIZE then 0 else m a)"

definition alloc_table :: "paging \<Rightarrow> nat \<times> paging" where
  "alloc_table s =
    (let (phys, m) = pmm_alloc_page (pt_pmm s)
     in if phys = 0 then (0, s\<lparr>pt_pmm := m\<rparr>)
        else (phys, s\<lparr>pt_pmm := m, pmem := zero_page phys (pmem s)\<rparr>))"

section \<open>The identity map\<close>

text \<open>The loops over page directories and over their entries; \<open>large_idx\<close> is shared by both.\<close>

definition fill_pd :: "nat \<Rightarrow> nat \<Rightarrow> nat \<Rightarrow> paging \<Rightarrow> paging" where
  "fill_pd pd large_idx n_large s =
    fold (\<lambda>i. set_ent pd i (of_nat ((large_idx + i) * LARGE_PAGE_SIZE) OR PTE_P OR PTE_W OR PTE_PS))
      [0..<min 512 (n_large - large_idx)] s"

fun init_pds :: "nat \<Rightarrow> nat \<Rightarrow> nat list \<Rightarrow> nat \<Rightarrow> paging \<Rightarrow> bool \<times> paging" where
  "init_pds pdpt n_large [] large_idx s = (True, s)"
| "init_pds pdpt n_large (pdi # pdis) large_idx s =
    (let (pd, s1) = alloc_table s
     in if pd = 0 then (False, s1)
        else let s2 = set_ent pdpt pdi (of_nat pd OR PTE_P OR PTE_W) s1;
                 s3 = fill_pd pd large_idx n_large s2
             in init_pds pdpt n_large pdis (large_idx + min 512 (n_large - large_idx)) s3)"

definition paging_init_identity :: "nat \<Rightarrow> paging \<Rightarrow> int \<times> paging" where
  "paging_init_identity phys_ceiling s =
    (let ceil0 = align_up phys_ceiling LARGE_PAGE_SIZE;
         ceil1 = (if ceil0 < LARGE_PAGE_SIZE then LARGE_PAGE_SIZE else ceil0);
         (pml4, s1) = alloc_table s;
         s2 = s1\<lparr>g_pml4 := pml4\<rparr>
     in if pml4 = 0 then (-1, s2)
        else
          let n_large1 = ceil1 div LARGE_PAGE_SIZE;
              n_pd1 = (n_large1 + 511) div 512;
              n_pd2 = (if n_pd1 = 0 then 1 else n_pd1);
              (n_pd, n_large, ceil) =
                (if n_pd2 > 512 then (512, 512 * 512, 512 * 512 * LARGE_PAGE_SIZE) else (n_pd2, n_large1, ceil1));
              (pdpt, s3) = alloc_table s2
          in if pdpt = 0 then (-1, s3)
             else
               let s4 = set_ent pml4 0 (of_nat pdpt OR PTE_P OR PTE_W) s3;
                   (ok, s5) = init_pds pdpt n_large [0..<n_pd] 0 s4
               in if \<not> ok then (-1, s5)
                  else (0, s5\<lparr>g_cr3 := pml4, g_kernel_pml4 := pml4, g_mapped_ceiling := ceil\<rparr>))"

definition paging_mapped_ceiling :: "paging \<Rightarrow> nat" where
  "paging_mapped_ceiling s = g_mapped_ceiling s"

definition paging_cr3 :: "paging \<Rightarrow> nat" where
  "paging_cr3 s = g_cr3 s"

definition paging_kernel_pml4 :: "paging \<Rightarrow> nat" where
  "paging_kernel_pml4 s = g_kernel_pml4 s"

definition paging_set_pml4 :: "nat \<Rightarrow> paging \<Rightarrow> paging" where
  "paging_set_pml4 pml4 s = (if pml4 = 0 then s else s\<lparr>g_pml4 := pml4, g_cr3 := pml4\<rparr>)"

section \<open>Mapping\<close>

text \<open>
  Following an entry, with a fresh table where it is not present. \<open>None\<close> means that no page
  was left. The next table is read back from the entry.
\<close>

definition new_table :: "nat \<Rightarrow> nat \<Rightarrow> u64 \<Rightarrow> paging \<Rightarrow> nat option \<times> paging" where
  "new_table t i user s =
    (let (n, s1) = alloc_table s
     in if n = 0 then (None, s1)
        else let s2 = set_ent t i (of_nat n OR PTE_P OR PTE_W OR user) s1 in (Some (tbl (ent s2 t i)), s2))"

definition grant_user :: "nat \<Rightarrow> nat \<Rightarrow> u64 \<Rightarrow> paging \<Rightarrow> nat option \<times> paging" where
  "grant_user t i user s =
    (let s1 = (if user \<noteq> 0 then set_ent t i (ent s t i OR PTE_U) s else s) in (Some (tbl (ent s1 t i)), s1))"

definition enter_pml4 :: "nat \<Rightarrow> nat \<Rightarrow> u64 \<Rightarrow> paging \<Rightarrow> nat option \<times> paging" where
  "enter_pml4 t i user s = (if \<not> has (ent s t i) PTE_P then new_table t i user s else grant_user t i user s)"

definition enter_pdpt :: "nat \<Rightarrow> nat \<Rightarrow> u64 \<Rightarrow> paging \<Rightarrow> nat option \<times> paging" where
  "enter_pdpt t i user s =
    (if \<not> has (ent s t i) PTE_P then new_table t i user s
     else if has (ent s t i) PTE_PS then (None, s)
     else grant_user t i user s)"

text \<open>A 2 MiB leaf is split into a table of 512 leaves before one of them is replaced.\<close>

definition split_flags :: "u64 \<Rightarrow> u64" where
  "split_flags big = big AND 0x80000000000001EF AND NOT PTE_PS"

definition split_large :: "nat \<Rightarrow> nat \<Rightarrow> u64 \<Rightarrow> paging \<Rightarrow> nat option \<times> paging" where
  "split_large t i user s =
    (let big = ent s t i; big_phys = big AND PTE_ADDR; big_flags = split_flags big;
         (n, s1) = alloc_table s
     in if n = 0 then (None, s1)
        else
          let s2 = fold (\<lambda>j. set_ent n j ((big_phys + of_nat (j * PAGE_SIZE)) OR big_flags OR PTE_P)) [0..<512] s1;
              s3 = set_ent t i (of_nat n OR PTE_P OR PTE_W OR (big_flags AND PTE_U) OR user) s2
          in (Some (tbl (ent s3 t i)), s3))"

definition enter_pd :: "nat \<Rightarrow> nat \<Rightarrow> u64 \<Rightarrow> paging \<Rightarrow> nat option \<times> paging" where
  "enter_pd t i user s =
    (if has (ent s t i) PTE_P then
       (if has (ent s t i) PTE_PS then split_large t i user s else grant_user t i user s)
     else new_table t i user s)"

definition paging_map_4k :: "u64 \<Rightarrow> u64 \<Rightarrow> u64 \<Rightarrow> paging \<Rightarrow> int \<times> paging" where
  "paging_map_4k virt phys flags s =
    (if g_pml4 s = 0 then (-1, s)
     else if virt AND 0xFFF \<noteq> 0 \<or> phys AND 0xFFF \<noteq> 0 then (-1, s)
     else
       let user = (if has flags PTE_U then PTE_U else 0) in
       case enter_pml4 (g_pml4 s) (pt_idx 3 virt) user s of
         (None, s1) \<Rightarrow> (-1, s1)
       | (Some pdpt, s1) \<Rightarrow>
           (case enter_pdpt pdpt (pt_idx 2 virt) user s1 of
              (None, s2) \<Rightarrow> (-1, s2)
            | (Some pd, s2) \<Rightarrow>
                (case enter_pd pd (pt_idx 1 virt) user s2 of
                   (None, s3) \<Rightarrow> (-1, s3)
                 | (Some pt, s3) \<Rightarrow>
                     (0, set_ent pt (pt_idx 0 virt)
                           ((phys AND PTE_ADDR) OR (flags AND 0x8000000000000FFF) OR PTE_P) s3))))"

text \<open>The page addresses a range loop visits; the end may wrap to 0, and then there are none.\<close>

definition page_walk :: "u64 \<Rightarrow> u64 \<Rightarrow> u64 list" where
  "page_walk start stop =
    map (\<lambda>k. start + of_nat (k * PAGE_SIZE)) [0..<(unat stop - unat start + 4095) div PAGE_SIZE]"

fun map_pages :: "(u64 \<times> u64) list \<Rightarrow> u64 \<Rightarrow> paging \<Rightarrow> int \<times> paging" where
  "map_pages [] flags s = (0, s)"
| "map_pages ((virt, phys) # ps) flags s =
    (case paging_map_4k virt phys flags s of
       (r, s1) \<Rightarrow> if r \<noteq> 0 then (-1, s1) else map_pages ps flags s1)"

definition paging_map_mmio :: "u64 \<Rightarrow> u64 \<Rightarrow> paging \<Rightarrow> int \<times> paging" where
  "paging_map_mmio phys len s =
    (let start = align_down_u64 phys 4096; stop = align_up_u64 (phys + len) 4096
     in map_pages (map (\<lambda>va. (va, va)) (page_walk start stop)) (PTE_P OR PTE_W OR PTE_PCD OR PTE_PWT) s)"

section \<open>Unmapping\<close>

definition table_count_present :: "nat \<Rightarrow> paging \<Rightarrow> nat" where
  "table_count_present t s = length (filter (\<lambda>i. has (ent s t i) PTE_P) [0..<512])"

definition free_page :: "nat \<Rightarrow> paging \<Rightarrow> paging" where
  "free_page t s = s\<lparr>pt_pmm := pmm_free_page t (pt_pmm s)\<rparr>"

text \<open>The leaf's table for an address, or \<open>None\<close> where the walk ends early: the four tables.\<close>

definition walk_pt :: "u64 \<Rightarrow> paging \<Rightarrow> (nat \<times> nat \<times> nat) option" where
  "walk_pt virt s =
    (let e4 = ent s (g_pml4 s) (pt_idx 3 virt); pdpt = tbl e4; e3 = ent s pdpt (pt_idx 2 virt);
         pd = tbl e3; e2 = ent s pd (pt_idx 1 virt)
     in if g_pml4 s = 0 \<or> \<not> has e4 PTE_P \<or> \<not> has e3 PTE_P \<or> has e3 PTE_PS \<or> \<not> has e2 PTE_P \<or> has e2 PTE_PS
        then None else Some (pdpt, pd, tbl e2))"

definition paging_unmap_4k :: "u64 \<Rightarrow> paging \<Rightarrow> int \<times> paging" where
  "paging_unmap_4k virt s =
    (case walk_pt virt s of
       None \<Rightarrow> (-1, s)
     | Some (pdpt, pd, pt) \<Rightarrow>
         let pte = ent s pt (pt_idx 0 virt) in
         if \<not> has pte PTE_P then (-1, s)
         else if \<not> has pte PTE_U then (-1, s)
         else
           let s1 = s\<lparr>pt_pmm := pmm_page_deref (unat (pte AND PTE_ADDR)) (pt_pmm s)\<rparr>;
               s2 = set_ent pt (pt_idx 0 virt) 0 s1
           in if table_count_present pt s2 \<noteq> 0 then (0, s2)
              else
                let s3 = set_ent pd (pt_idx 1 virt) 0 (free_page pt s2) in
                if table_count_present pd s3 \<noteq> 0 then (0, s3)
                else
                  let s4 = set_ent pdpt (pt_idx 2 virt) 0 (free_page pd s3) in
                  if table_count_present pdpt s4 \<noteq> 0 then (0, s4)
                  else (0, set_ent (g_pml4 s) (pt_idx 3 virt) 0 (free_page pdpt s4)))"

section \<open>Protection and lookup\<close>

fun set_prot_pages :: "u64 list \<Rightarrow> bool \<Rightarrow> paging \<Rightarrow> int \<times> paging" where
  "set_prot_pages [] wr s = (0, s)"
| "set_prot_pages (va # vas) wr s =
    (case walk_pt va s of
       None \<Rightarrow> (-1, s)
     | Some (pdpt, pd, pt) \<Rightarrow>
         let pte = ent s pt (pt_idx 0 va) in
         if \<not> has pte PTE_P \<or> \<not> has pte PTE_U then (-1, s)
         else set_prot_pages vas wr
                (set_ent pt (pt_idx 0 va) (if wr then pte OR PTE_W else pte AND NOT PTE_W) s))"

definition paging_set_prot_range :: "u64 \<Rightarrow> u64 \<Rightarrow> bool \<Rightarrow> paging \<Rightarrow> int \<times> paging" where
  "paging_set_prot_range virt len wr s =
    (if g_pml4 s = 0 then (-1, s)
     else set_prot_pages (page_walk (virt AND NOT 0xFFF) (align_up_u64 (virt + len) 4096)) wr s)"

definition paging_virt_to_phys :: "u64 \<Rightarrow> paging \<Rightarrow> u64" where
  "paging_virt_to_phys virt s =
    (let e4 = ent s (g_pml4 s) (pt_idx 3 virt); e3 = ent s (tbl e4) (pt_idx 2 virt);
         e2 = ent s (tbl e3) (pt_idx 1 virt); e1 = ent s (tbl e2) (pt_idx 0 virt)
     in if g_pml4 s = 0 then 0
        else if \<not> has e4 PTE_P then 0
        else if \<not> has e3 PTE_P then 0
        else if has e3 PTE_PS then (e3 AND 0x000FFFFFC0000000) OR (virt AND 0x3FFFFFFF)
        else if \<not> has e2 PTE_P then 0
        else if has e2 PTE_PS then (e2 AND 0x000FFFFFFFE00000) OR (virt AND 0x1FFFFF)
        else if \<not> has e1 PTE_P then 0
        else (e1 AND PTE_ADDR) OR (virt AND 0xFFF))"

text \<open>
  Setting the user bit along a range. The step is 4 KiB, 2 MiB or to the next multiple of
  1 GiB, by the size of the leaf; the address may wrap, so the loop need not end.
\<close>

partial_function (option) set_user_loop :: "u64 \<Rightarrow> u64 \<Rightarrow> paging \<Rightarrow> (int \<times> paging) option" where
  "set_user_loop v stop s =
    (if v < stop then
       let t4 = g_pml4 s; i4 = pt_idx 3 v; i3 = pt_idx 2 v; i2 = pt_idx 1 v; i1 = pt_idx 0 v in
       if \<not> has (ent s t4 i4) PTE_P then Some (-1, s)
       else
         let s1 = set_ent t4 i4 (ent s t4 i4 OR PTE_U) s; t3 = tbl (ent s1 t4 i4) in
         if \<not> has (ent s1 t3 i3) PTE_P then Some (-1, s1)
         else
           let s2 = set_ent t3 i3 (ent s1 t3 i3 OR PTE_U) s1 in
           if has (ent s2 t3 i3) PTE_PS
           then set_user_loop (align_up_u64 (v + 1) 0x40000000) stop (set_ent t3 i3 (ent s2 t3 i3 OR PTE_U) s2)
           else
             let t2 = tbl (ent s2 t3 i3) in
             if \<not> has (ent s2 t2 i2) PTE_P then Some (-1, s2)
             else
               let s3 = set_ent t2 i2 (ent s2 t2 i2 OR PTE_U) s2 in
               if has (ent s2 t2 i2) PTE_PS then set_user_loop (v + 0x200000) stop s3
               else
                 let t1 = tbl (ent s3 t2 i2) in
                 if \<not> has (ent s3 t1 i1) PTE_P then Some (-1, s3)
                 else set_user_loop (v + 4096) stop (set_ent t1 i1 (ent s3 t1 i1 OR PTE_U) s3)
     else Some (0, s))"

definition paging_set_user_range :: "u64 \<Rightarrow> u64 \<Rightarrow> paging \<Rightarrow> (int \<times> paging) option" where
  "paging_set_user_range va len s =
    (if g_pml4 s = 0 \<or> len = 0 then Some (-1, s)
     else set_user_loop (align_down_u64 va 4096) (align_up_u64 (va + len) 4096) s)"

end
