(* ===== verification/Paging_Props.thy ===== *)
theory Paging_Props
  imports Paging "HOL-Library.Sublist"
begin

text \<open>
  Properties of the page tables of \<open>Paging\<close>. A table is named by the path of indices from
  the PML4 to it; the invariant \<open>pt_ok\<close> says that tables on different paths are different
  pages in use. Under it a write to an entry changes the translation of the addresses below
  that entry only, which gives the effect of mapping, splitting and unmapping on every
  address.
\<close>

section \<open>Entries\<close>

lemma has_bit: "has e (2 ^ k) \<longleftrightarrow> bit e k" for e :: u64
proof
  assume "has e (2 ^ k)"
  then obtain j where "bit (e AND 2 ^ k) j" unfolding has_def by (metis bit_eq_iff bit_0_eq bot_apply bot_bool_def)
  then show "bit e k" by (auto simp: bit_simps)
next
  assume b: "bit e k"
  then have "k < 64" using bit_imp_le_length [of e k] by simp
  with b have "bit (e AND 2 ^ k) k" by (simp add: bit_simps)
  then show "has e (2 ^ k)" unfolding has_def by auto
qed

lemma has_flags:
  "has e PTE_P \<longleftrightarrow> bit e 0" "has e PTE_W \<longleftrightarrow> bit e 1" "has e PTE_U \<longleftrightarrow> bit e 2" "has e PTE_PS \<longleftrightarrow> bit e 7"
  using has_bit [of e 0] has_bit [of e 1] has_bit [of e 2] has_bit [of e 7] by simp_all

lemma not_has_zero [simp]: "\<not> has 0 m"
  by (simp add: has_def)

lemma mask12: "(0xFFF :: u64) = mask 12" by (simp add: mask_eq_exp_minus_1)

lemma tbl_page:
  assumes "t mod 4096 = 0" "t < 18446744073709551616" "f AND NOT 0xFFF = 0"
  shows "tbl (of_nat t OR f) = t"
proof -
  have "unat (of_nat t AND NOT (2 ^ 12 - 1) :: u64) = t"
    unfolding unat_and_not_mask using assms(1,2) by (simp add: unat_of_nat flip: minus_mod_eq_div_mult)
  moreover have "(of_nat t OR f) AND NOT 0xFFF = of_nat t AND NOT (0xFFF :: u64)"
    using assms(3) by (simp add: bit.conj_disj_distrib2)
  ultimately show ?thesis by (simp add: tbl_def)
qed

lemma tbl_cong: "e AND NOT 0xFFF = e' AND NOT 0xFFF \<Longrightarrow> tbl e = tbl e'"
  by (simp add: tbl_def)

section \<open>Tables and paths\<close>

text \<open>The table an entry leads to; below the PML4 the size bit makes it a leaf.\<close>

definition follow :: "bool \<Rightarrow> u64 \<Rightarrow> nat option" where
  "follow lower e = (if has e PTE_P \<and> \<not> (lower \<and> has e PTE_PS) then Some (tbl e) else None)"

text \<open>Paths are written from the last index to the first.\<close>

fun table_at :: "paging \<Rightarrow> nat list \<Rightarrow> nat option" where
  "table_at s [] = Some (g_pml4 s)"
| "table_at s (i # p) = (case table_at s p of None \<Rightarrow> None | Some t \<Rightarrow> follow (p \<noteq> []) (ent s t i))"

definition vpath :: "nat list \<Rightarrow> bool" where
  "vpath p \<longleftrightarrow> length p \<le> 3 \<and> (\<forall>i\<in>set p. i < 512)"

definition used_page :: "paging \<Rightarrow> nat \<Rightarrow> bool" where
  "used_page s t \<longleftrightarrow> t mod 4096 = 0 \<and> 0 < t \<and> t div 4096 < g_total_pages (pt_pmm s) \<and> t div 4096 \<notin> free_set (pt_pmm s)"

definition pt_ok :: "paging \<Rightarrow> bool" where
  "pt_ok s \<longleftrightarrow> pmm_wf (pt_pmm s) \<and> page0_used (pt_pmm s)
     \<and> (\<forall>p t. vpath p \<longrightarrow> table_at s p = Some t \<longrightarrow> used_page s t)
     \<and> (\<forall>p q t. vpath p \<longrightarrow> vpath q \<longrightarrow> table_at s p = Some t \<longrightarrow> table_at s q = Some t \<longrightarrow> p = q)
     \<and> (\<forall>p t i. vpath p \<longrightarrow> length p = 2 \<longrightarrow> table_at s p = Some t \<longrightarrow> i < 512 \<longrightarrow>
          has (ent s t i) PTE_P \<longrightarrow> has (ent s t i) PTE_PS \<longrightarrow> ent s t i AND 0x1FF000 = 0)"

lemma pt_okD:
  assumes "pt_ok s"
  shows "pmm_wf (pt_pmm s)" "page0_used (pt_pmm s)"
    "vpath p \<Longrightarrow> table_at s p = Some t \<Longrightarrow> used_page s t"
    "vpath p \<Longrightarrow> vpath q \<Longrightarrow> table_at s p = Some t \<Longrightarrow> table_at s q = Some t \<Longrightarrow> p = q"
    "vpath p \<Longrightarrow> length p = 2 \<Longrightarrow> table_at s p = Some t \<Longrightarrow> i < 512 \<Longrightarrow> has (ent s t i) PTE_P \<Longrightarrow>
      has (ent s t i) PTE_PS \<Longrightarrow> ent s t i AND 0x1FF000 = 0"
  using assms by (auto simp: pt_ok_def)

lemma vpath_Cons: "vpath (i # p) \<longleftrightarrow> i < 512 \<and> length p < 3 \<and> vpath p"
  by (auto simp: vpath_def)

lemma vpath_Nil [simp]: "vpath []"
  by (simp add: vpath_def)

lemma used_page_limit: "pmm_wf (pt_pmm s) \<Longrightarrow> used_page s t \<Longrightarrow> t < 18446744073709551616"
  by (auto simp: pmm_wf_def used_page_def)

lemma pt_idx_div: "pt_idx k v = unat v div 2 ^ (12 + 9 * k) mod 512"
proof -
  have m: "(0x1FF :: u64) = mask 9" by (simp add: mask_eq_exp_minus_1)
  have u: "take_bit LENGTH(64) (unat v) = unat v" using unat_u64_less [of v] by (simp add: take_bit_eq_mod)
  have "pt_idx k v = take_bit 9 (drop_bit (12 + 9 * k) (unat v))"
    unfolding pt_idx_def m take_bit_eq_mask [symmetric] unsigned_take_bit_eq unsigned_drop_bit_eq u ..
  then show ?thesis by (simp only: take_bit_eq_mod drop_bit_eq_div) simp
qed

lemma pt_idx_less [simp]: "pt_idx k v < 512"
  by (simp add: pt_idx_div)

text \<open>Two page addresses with in-page offsets are equal only together.\<close>

lemma same_word:
  fixes t u i j :: nat
  assumes "t mod 4096 = 0" "u mod 4096 = 0" "i < 512" "j < 512"
  shows "(t + 8 * i = u + 8 * j) = (t = u \<and> i = j)"
proof -
  obtain a b where ab: "t = 4096 * a" "u = 4096 * b" using assms(1,2) by (metis mod_0_imp_dvd dvdE)
  have "a = b" if "4096 * a + 8 * i = 4096 * b + 8 * j"
  proof -
    have "(4096 * a + 8 * i) div 4096 = a" "(4096 * b + 8 * j) div 4096 = b" using assms(3,4) by simp_all
    then show ?thesis using that by simp
  qed
  then show ?thesis unfolding ab by auto
qed

section \<open>Writing an entry\<close>

lemma ent_set_ent:
  "t mod 4096 = 0 \<Longrightarrow> u mod 4096 = 0 \<Longrightarrow> i < 512 \<Longrightarrow> j < 512 \<Longrightarrow>
    ent (set_ent t i v s) u j = (if u = t \<and> j = i then v else ent s u j)"
  using same_word [of u t j i] by (auto simp: ent_def set_ent_def)

lemma set_ent_sel [simp]:
  "pt_pmm (set_ent t i v s) = pt_pmm s" "g_pml4 (set_ent t i v s) = g_pml4 s"
  "g_kernel_pml4 (set_ent t i v s) = g_kernel_pml4 s" "g_cr3 (set_ent t i v s) = g_cr3 s"
  by (simp_all add: set_ent_def)

lemma used_aligned: "used_page s t \<Longrightarrow> t mod 4096 = 0"
  by (simp add: used_page_def)

text \<open>Tables that are not below the entry stay where they are.\<close>

lemma table_at_other:
  assumes ok: "pt_ok s" and p: "vpath p" "table_at s p = Some t" "i < 512"
  shows "vpath q \<Longrightarrow> \<not> suffix (i # p) q \<Longrightarrow> table_at (set_ent t i v s) q = table_at s q"
proof (induction q)
  case (Cons j q)
  then have q: "vpath q" "j < 512" and IH: "table_at (set_ent t i v s) q = table_at s q"
    by (auto simp: vpath_Cons suffix_Cons)
  show ?case
  proof (cases "table_at s q")
    case (Some u)
    have "\<not> (u = t \<and> j = i)"
      using pt_okD(4) [OF ok q(1) p(1)] Some p(2) Cons.prems(2) by auto
    then have "ent (set_ent t i v s) u j = ent s u j"
      using ent_set_ent [of t u i j v s] used_aligned pt_okD(3) [OF ok p(1,2)] pt_okD(3) [OF ok q(1) Some] p(3) q(2)
      by auto
    then show ?thesis by (simp add: IH Some)
  qed (simp add: IH)
qed simp

text \<open>A write that keeps the target of the entry keeps every table.\<close>

lemma table_at_same:
  assumes ok: "pt_ok s" and p: "vpath p" "table_at s p = Some t" "i < 512"
    and v: "follow (p \<noteq> []) v = follow (p \<noteq> []) (ent s t i)"
  shows "vpath q \<Longrightarrow> table_at (set_ent t i v s) q = table_at s q"
proof (induction q)
  case (Cons j q)
  then have q: "vpath q" "j < 512" and IH: "table_at (set_ent t i v s) q = table_at s q"
    by (auto simp: vpath_Cons)
  show ?case
  proof (cases "table_at s q")
    case (Some u)
    have e: "ent (set_ent t i v s) u j = (if u = t \<and> j = i then v else ent s u j)"
      using ent_set_ent [of t u i j v s] used_aligned pt_okD(3) [OF ok p(1,2)] pt_okD(3) [OF ok q(1) Some] p(3) q(2)
      by auto
    have "u = t \<and> j = i \<longrightarrow> q = p" using pt_okD(4) [OF ok q(1) p(1)] Some p(2) by auto
    then show ?thesis using v by (auto simp: IH Some e)
  qed (simp add: IH)
qed simp

section \<open>Translation by paths\<close>

text \<open>The entry that decides the translation of an address.\<close>

definition leaf_at :: "paging \<Rightarrow> nat list \<Rightarrow> nat \<Rightarrow> u64" where
  "leaf_at s p i = (case table_at s p of None \<Rightarrow> 0 | Some t \<Rightarrow> ent s t i)"

lemma v2p_paths:
  "paging_virt_to_phys w s =
    (if g_pml4 s = 0 then 0
     else let i4 = pt_idx 3 w; i3 = pt_idx 2 w; i2 = pt_idx 1 w; i1 = pt_idx 0 w;
              e3 = leaf_at s [i4] i3; e2 = leaf_at s [i3, i4] i2; e1 = leaf_at s [i2, i3, i4] i1
          in if has e3 PTE_P \<and> has e3 PTE_PS then (e3 AND 0x000FFFFFC0000000) OR (w AND 0x3FFFFFFF)
             else if has e2 PTE_P \<and> has e2 PTE_PS then (e2 AND 0x000FFFFFFFE00000) OR (w AND 0x1FFFFF)
             else if has e1 PTE_P then (e1 AND PTE_ADDR) OR (w AND 0xFFF) else 0)"
  by (simp add: paging_virt_to_phys_def leaf_at_def follow_def Let_def)

definition large :: "u64 \<Rightarrow> bool" where
  "large e \<longleftrightarrow> has e PTE_P \<and> has e PTE_PS"

definition decide :: "u64 \<Rightarrow> u64 \<Rightarrow> u64 \<Rightarrow> u64 \<Rightarrow> u64" where
  "decide e3 e2 e1 w =
    (if large e3 then (e3 AND 0x000FFFFFC0000000) OR (w AND 0x3FFFFFFF)
     else if large e2 then (e2 AND 0x000FFFFFFFE00000) OR (w AND 0x1FFFFF)
     else if has e1 PTE_P then (e1 AND PTE_ADDR) OR (w AND 0xFFF) else 0)"

lemma v2p_decide:
  "paging_virt_to_phys w s =
    (if g_pml4 s = 0 then 0
     else decide (leaf_at s [pt_idx 3 w] (pt_idx 2 w)) (leaf_at s [pt_idx 2 w, pt_idx 3 w] (pt_idx 1 w))
            (leaf_at s [pt_idx 1 w, pt_idx 2 w, pt_idx 3 w] (pt_idx 0 w)) w)"
  unfolding v2p_paths decide_def large_def Let_def ..

lemma decide_table: "\<not> large e3 \<Longrightarrow> \<not> large e3' \<Longrightarrow> decide e3 e2 e1 w = decide e3' e2 e1 w"
  "\<not> large e2 \<Longrightarrow> \<not> large e2' \<Longrightarrow> decide e3 e2 e1 w = decide e3 e2' e1 w"
  by (simp_all add: decide_def)

lemma leaf_at_set:
  assumes ok: "pt_ok s" and p: "vpath p" "table_at s p = Some t" "i < 512" and q: "vpath q" "j < 512"
    and same: "table_at (set_ent t i v s) q = table_at s q"
  shows "leaf_at (set_ent t i v s) q j = (if q = p \<and> j = i then v else leaf_at s q j)"
proof (cases "table_at s q")
  case None
  then show ?thesis using same p(2) by (auto simp: leaf_at_def)
next
  case (Some u)
  have e: "ent (set_ent t i v s) u j = (if u = t \<and> j = i then v else ent s u j)"
    using ent_set_ent [of t u i j v s] used_aligned pt_okD(3) [OF ok p(1,2)] pt_okD(3) [OF ok q(1) Some] p(3) q(2)
    by auto
  have "u = t \<longleftrightarrow> q = p" using pt_okD(4) [OF ok q(1) p(1)] Some p(2) by auto
  then show ?thesis using same by (simp add: leaf_at_def Some e)
qed

section \<open>Fresh tables\<close>

lemma page_apart: "t mod 4096 = 0 \<Longrightarrow> n mod 4096 = 0 \<Longrightarrow> t \<noteq> n \<Longrightarrow> i < 512 \<Longrightarrow> \<not> (n \<le> t + 8 * i \<and> t + 8 * i < n + 4096)"
  for t n i :: nat
proof -
  assume a: "t mod 4096 = 0" "n mod 4096 = 0" "t \<noteq> n" "i < 512"
  then obtain b c where bc: "t = 4096 * b" "n = 4096 * c" by (metis mod_0_imp_dvd dvdE)
  with a have "b < c \<or> c < b" by auto
  then show ?thesis
  proof
    assume "b < c"
    then have "4096 * b + 4096 \<le> 4096 * c" by simp
    then show ?thesis using a(4) unfolding bc by simp
  next
    assume "c < b"
    then have "4096 * c + 4096 \<le> 4096 * b" by simp
    then show ?thesis unfolding bc by simp
  qed
qed

lemma alloc_table_fresh:
  assumes W: "pmm_wf (pt_pmm s)" "page0_used (pt_pmm s)" and a: "alloc_table s = (n, s')" "n \<noteq> 0"
  shows "used_page s' n" "\<not> used_page s n" "used_page s t \<Longrightarrow> used_page s' t"
    "used_page s t \<Longrightarrow> i < 512 \<Longrightarrow> ent s' t i = ent s t i" "i < 512 \<Longrightarrow> ent s' n i = 0"
    "g_pml4 s' = g_pml4 s" "g_kernel_pml4 s' = g_kernel_pml4 s" "pmm_wf (pt_pmm s')" "page0_used (pt_pmm s')"
proof -
  have ne: "free_set (pt_pmm s) \<noteq> {}"
    using a alloc_page_full [of "pt_pmm s"] by (auto simp: alloc_table_def)
  let ?p = "Min (free_set (pt_pmm s))"
  have p: "?p \<in> free_set (pt_pmm s)" using ne by (intro Min_in finite_free_set)
  note T = pmm_wf_take [OF W(1) p]
  have e: "n = ?p * 4096" "s' = s\<lparr>pt_pmm := take_page ?p (pt_pmm s), pmem := zero_page n (pmem s)\<rparr>"
    using a alloc_page_some [OF W(1) ne] by (auto simp: alloc_table_def split: if_splits)
  have pt: "?p < g_total_pages (pt_pmm s)" using p by (simp add: free_set_def)
  show u: "used_page s' n" using pt a(2) T by (simp add: used_page_def e)
  show nu: "\<not> used_page s n" using p by (simp add: used_page_def e(1))
  show "used_page s t \<Longrightarrow> used_page s' t" using T by (simp add: used_page_def e(2))
  show "ent s' t i = ent s t i" if "used_page s t" "i < 512"
  proof -
    have "t \<noteq> n" using that(1) nu by auto
    then have "\<not> (n \<le> t + 8 * i \<and> t + 8 * i < n + 4096)"
      by (rule page_apart [OF used_aligned [OF that(1)] used_aligned [OF u] _ that(2)])
    then show ?thesis by (auto simp: ent_def e(2) zero_page_def)
  qed
  show "i < 512 \<Longrightarrow> ent s' n i = 0" by (simp add: ent_def e(2) zero_page_def)
  show "g_pml4 s' = g_pml4 s" "g_kernel_pml4 s' = g_kernel_pml4 s" "pmm_wf (pt_pmm s')" "page0_used (pt_pmm s')"
    using T W by (auto simp: e(2) page0_used_iff)
qed

lemma alloc_table_fail:
  assumes "alloc_table s = (0, s')" "pt_ok s"
  shows "s' = s"
proof (cases "free_set (pt_pmm s) = {}")
  case True
  then show ?thesis using assms(1) alloc_page_full [of "pt_pmm s"] by (simp add: alloc_table_def)
next
  case False
  have "Min (free_set (pt_pmm s)) \<in> free_set (pt_pmm s)" using False by (intro Min_in finite_free_set)
  then have "Min (free_set (pt_pmm s)) \<noteq> 0" using pt_okD(2) [OF assms(2)] unfolding page0_used_iff by metis
  then show ?thesis
    using assms(1) unfolding alloc_table_def alloc_page_some [OF pt_okD(1) [OF assms(2)] False] by simp
qed

lemma alloc_table_ok:
  assumes ok: "pt_ok s" and a: "alloc_table s = (n, s')" "n \<noteq> 0"
  shows "vpath q \<Longrightarrow> table_at s' q = table_at s q" "pt_ok s'"
    "vpath q \<Longrightarrow> j < 512 \<Longrightarrow> leaf_at s' q j = leaf_at s q j" "paging_virt_to_phys w s' = paging_virt_to_phys w s"
    "vpath q \<Longrightarrow> table_at s' q \<noteq> Some n"
proof -
  note F = alloc_table_fresh [OF pt_okD(1,2) [OF ok] a]
  show t: "table_at s' q = table_at s q" if "vpath q" for q
    using that by (induction q) (auto simp: F(6) vpath_Cons F(4) pt_okD(3) [OF ok] split: option.split)
  show l: "leaf_at s' q j = leaf_at s q j" if "vpath q" "j < 512" for q j
    using that by (auto simp: leaf_at_def t F(4) pt_okD(3) [OF ok] split: option.split)
  show "paging_virt_to_phys w s' = paging_virt_to_phys w s"
    unfolding v2p_paths by (simp add: l vpath_Cons F(6))
  show "table_at s' q \<noteq> Some n" if "vpath q"
    using t [OF that] pt_okD(3) [OF ok that] F(2) by auto
  show "pt_ok s'"
    unfolding pt_ok_def
  proof (intro conjI allI impI)
    show "pmm_wf (pt_pmm s')" "page0_used (pt_pmm s')" by (fact F)+
  qed (use t F(3,4) pt_okD(3-5) [OF ok] in \<open>auto\<close>)
qed

section \<open>Linking a table\<close>

lemma suffix_one_more: "suffix (i # p) (j # q) \<longleftrightarrow> j # q = i # p \<or> suffix (i # p) q"
  by (auto simp: suffix_Cons)

lemma suffix_append_length: "suffix p q \<Longrightarrow> length p = length q \<Longrightarrow> p = q"
  by (auto simp: suffix_def)

lemma link_ok:
  assumes ok: "pt_ok s" and p: "vpath (i # p)" "table_at s p = Some t"
    and n: "used_page s n" "\<forall>q. vpath q \<longrightarrow> table_at s q \<noteq> Some n"
      "length p < 2 \<Longrightarrow> \<forall>j<512. \<not> has (ent s n j) PTE_P"
    and old: "follow (p \<noteq> []) (ent s t i) = None" and v: "follow (p \<noteq> []) v = Some n"
  shows "vpath q \<Longrightarrow> table_at (set_ent t i v s) q = (if q = i # p then Some n else if suffix (i # p) q then None else table_at s q)"
    "pt_ok (set_ent t i v s)" "j < 512 \<Longrightarrow> leaf_at (set_ent t i v s) (i # p) j = ent s n j"
proof -
  let ?s = "set_ent t i v s"
  have vp: "vpath p" "i < 512" "length p < 3" using p(1) by (auto simp: vpath_Cons)
  have al: "t mod 4096 = 0" "n mod 4096 = 0" "n \<noteq> t"
    using used_aligned pt_okD(3) [OF ok vp(1) p(2)] n(1,2) vp(1) p(2) by blast+
  have nsuf: "\<not> suffix (i # p) p" using suffix_length_le by fastforce
  have tp: "table_at ?s p = Some t" using table_at_other [OF ok vp(1) p(2) vp(2,1) nsuf] p(2) by simp
  have ip: "table_at ?s (i # p) = Some n" using tp v ent_set_ent [OF al(1,1) vp(2,2)] by simp
  have en: "ent ?s n j = ent s n j" if "j < 512" for j
    using ent_set_ent [OF al(1,2) vp(2) that] al(3) by simp
  show T: "table_at ?s q = (if q = i # p then Some n else if suffix (i # p) q then None else table_at s q)" if "vpath q" for q
    using that
  proof (induction q)
    case (Cons j q)
    then have q: "vpath q" "j < 512" "length q < 3" by (auto simp: vpath_Cons)
    consider "j # q = i # p" | "q = i # p" | "q \<noteq> i # p" "suffix (i # p) q" | "\<not> suffix (i # p) (j # q)"
      by (auto simp: suffix_one_more)
    then show ?case
    proof cases
      case 2
      then have "length p < 2" using q(3) by simp
      with n(3) en [OF q(2)] q(2) have "\<not> has (ent ?s n j) PTE_P" by simp
      moreover have "j # q \<noteq> i # p" "suffix (i # p) (j # q)" using 2 by (auto simp: suffix_Cons dest: arg_cong [of _ _ length])
      ultimately show ?thesis using 2 ip by (simp add: follow_def)
    next
      case 3
      then have "table_at ?s q = None" using Cons.IH [OF q(1)] by simp
      moreover have "j # q \<noteq> i # p" using 3(2) nsuf by auto
      ultimately show ?thesis using 3(2) by (simp add: suffix_Cons)
    next
      case 4
      then show ?thesis using table_at_other [OF ok vp(1) p(2) vp(2) Cons.prems] by auto
    qed (use ip in simp)
  qed (use nsuf in \<open>auto simp: suffix_def\<close>)
  show "leaf_at ?s (i # p) j = ent s n j" if "j < 512"
    using en [OF that] by (simp only: leaf_at_def ip option.case)
  show "pt_ok ?s"
    unfolding pt_ok_def set_ent_sel
  proof (intro conjI allI impI)
    show "pmm_wf (pt_pmm s)" "page0_used (pt_pmm s)" using pt_okD(1,2) [OF ok] .
    show "used_page ?s u" if "vpath q" "table_at ?s q = Some u" for q u
      using that T [OF that(1)] n(1) pt_okD(3) [OF ok that(1)] by (auto simp: used_page_def split: if_splits)
    show "q = r" if "vpath q" "vpath r" "table_at ?s q = Some u" "table_at ?s r = Some u" for q r u
      using that T [OF that(1)] T [OF that(2)] n(2) pt_okD(4) [OF ok that(1,2)] by (auto split: if_splits)
    show "ent ?s u k AND 0x1FF000 = 0"
      if q: "vpath q" "length q = 2" "table_at ?s q = Some u" "k < 512" "has (ent ?s u k) PTE_P" "has (ent ?s u k) PTE_PS" for q u k
    proof (cases "q = i # p")
      case True
      then have "u = n" "length p < 2" using q(2,3) ip by auto
      then show ?thesis using n(3) en q(4,5) by simp
    next
      case False
      then have u: "table_at s q = Some u" using T [OF q(1)] q(3) by (auto split: if_splits)
      have ua: "u mod 4096 = 0" using used_aligned pt_okD(3) [OF ok q(1) u] by blast
      show ?thesis
      proof (cases "u = t \<and> k = i")
        case True
        then have "q = p" using pt_okD(4) [OF ok q(1) vp(1) u] p(2) by simp
        then have "p \<noteq> []" using q(2) by auto
        then have "\<not> has v PTE_PS" using v by (auto simp: follow_def split: if_splits)
        then show ?thesis using q(6) True ent_set_ent [OF al(1,1) vp(2,2)] by simp
      next
        case False
        then have "ent ?s u k = ent s u k" using ent_set_ent [OF al(1) ua vp(2) q(4)] by auto
        then show ?thesis using pt_okD(5) [OF ok q(1,2) u q(4)] q(5,6) by simp
      qed
    qed
  qed
qed

section \<open>Translation after a write\<close>

definition full :: "u64 \<Rightarrow> nat list" where
  "full w = [pt_idx 0 w, pt_idx 1 w, pt_idx 2 w, pt_idx 3 w]"

lemma vpath_full: "vpath [pt_idx a w]" "vpath [pt_idx a w, pt_idx b w]" "vpath [pt_idx a w, pt_idx b w, pt_idx c w]"
  by (simp_all add: vpath_Cons)

lemma v2p_other:
  assumes ok: "pt_ok s" and p: "vpath p" "table_at s p = Some t" "i < 512" and w: "\<not> suffix (i # p) (full w)"
  shows "paging_virt_to_phys w (set_ent t i v s) = paging_virt_to_phys w s"
proof -
  let ?s = "set_ent t i v s"
  have L: "leaf_at ?s q j = leaf_at s q j" if "vpath q" "j < 512" "\<not> suffix (i # p) (j # q)" for q j
    using leaf_at_set [OF ok p that(1,2)] table_at_other [OF ok p that(1)] that(3) by (auto simp: suffix_one_more)
  show ?thesis
    unfolding v2p_paths set_ent_sel using w L [OF vpath_full(1)] L [OF vpath_full(2)] L [OF vpath_full(3)]
    by (simp add: full_def suffix_one_more)
qed

text \<open>The effect of entering a level: the next table exists, and no address is translated differently.\<close>

definition entered :: "paging \<Rightarrow> paging \<Rightarrow> nat list \<Rightarrow> nat option \<Rightarrow> bool" where
  "entered s s' p r \<longleftrightarrow> pt_ok s' \<and> (\<forall>t. r = Some t \<longrightarrow> table_at s' p = Some t) \<and> g_pml4 s' = g_pml4 s
     \<and> (\<forall>w. paging_virt_to_phys w s' = paging_virt_to_phys w s) \<and> (\<forall>t. used_page s t \<longrightarrow> used_page s' t)
     \<and> card (free_set (pt_pmm s)) \<le> Suc (card (free_set (pt_pmm s'))) \<and> g_total_pages (pt_pmm s') = g_total_pages (pt_pmm s)"

lemma entered_refl: "pt_ok s \<Longrightarrow> entered s s p None"
  by (simp add: entered_def)

lemma alloc_total: "alloc_table s = (n, s') \<Longrightarrow> g_total_pages (pt_pmm s') = g_total_pages (pt_pmm s)"
  by (auto simp: alloc_table_def pmm_alloc_page_def take_page_def Let_def split: if_splits option.splits)

lemma alloc_table_count:
  assumes W: "pmm_wf (pt_pmm s)" "page0_used (pt_pmm s)" and a: "alloc_table s = (n, s')"
  shows "card (free_set (pt_pmm s)) = (if n = 0 then 0 else Suc (card (free_set (pt_pmm s'))))"
proof (cases "free_set (pt_pmm s) = {}")
  case True
  then show ?thesis using a alloc_page_full [of "pt_pmm s"] by (auto simp: alloc_table_def)
next
  case False
  define p where "p = Min (free_set (pt_pmm s))"
  have p: "p \<in> free_set (pt_pmm s)" unfolding p_def using False by (intro Min_in finite_free_set)
  then have nz: "p \<noteq> 0" using W(2) unfolding page0_used_iff by metis
  have "pmm_alloc_page (pt_pmm s) = (p * 4096, take_page p (pt_pmm s))"
    using alloc_page_some [OF W(1) False] by (simp add: p_def)
  then have "n = p * 4096" "pt_pmm s' = take_page p (pt_pmm s)" using a nz by (auto simp: alloc_table_def)
  then show ?thesis
    using pmm_wf_take(2) [OF W(1) p] card_Suc_Diff1 [OF finite_free_set p] nz by simp
qed

lemma short_path:
  assumes "length p < 3"
  shows "p = [] \<or> (\<exists>a. p = [a]) \<or> (\<exists>a b. p = [a, b])"
proof (cases p)
  case (Cons a q)
  then show ?thesis using assms by (cases q) auto
qed simp

text \<open>An entry of a table of level 2 or 1 that is no leaf, or any entry of the PML4, that is empty.\<close>

lemma v2p_link:
  assumes ok: "pt_ok s" and p: "vpath (i # p)" "table_at s p = Some t" "\<not> has (ent s t i) PTE_P"
    and n: "used_page s n" "\<forall>q. vpath q \<longrightarrow> table_at s q \<noteq> Some n" "\<forall>j<512. \<not> has (ent s n j) PTE_P"
    and v: "follow (p \<noteq> []) v = Some n"
  shows "paging_virt_to_phys w (set_ent t i v s) = paging_virt_to_phys w s"
proof (cases "suffix (i # p) (full w)")
  case False
  then show ?thesis using v2p_other [OF ok _ p(2)] p(1) by (simp add: vpath_Cons)
next
  case True
  let ?s = "set_ent t i v s"
  have vp: "vpath p" "i < 512" using p(1) by (auto simp: vpath_Cons)
  have old: "follow (p \<noteq> []) (ent s t i) = None" using p(3) by (simp add: follow_def)
  note L = link_ok [OF ok p(1,2) n(1,2) _ old v]
  have T: "table_at ?s q = (if q = i # p then Some n else if suffix (i # p) q then None else table_at s q)" if "vpath q" for q
    using L(1) n(3) that by blast
  have N: "\<not> has (leaf_at ?s (i # p) j) PTE_P" if "j < 512" for j using L(3) n(3) that by simp
  have "\<not> suffix (i # p) p" using suffix_length_le [of "i # p" p] by auto
  then have "table_at ?s p = table_at s p" using T [OF vp(1)] by auto
  then have lv: "leaf_at ?s p i = v"
    using leaf_at_set [OF ok vp(1) p(2) vp(2) vp(1) vp(2), of v] by simp
  have ns: "p \<noteq> [] \<Longrightarrow> \<not> has v PTE_PS" using v by (auto simp: follow_def split: if_splits)
  have lo: "\<not> has (leaf_at s p i) PTE_P" using p(2,3) by (simp add: leaf_at_def)
  have None_at: "leaf_at st q j = 0" if "table_at st q = None" for st q j using that by (simp add: leaf_at_def)
  have under: "table_at s (i # p) = None" using p(2) old by simp
  have "length p < 3" using p(1) by (simp add: vpath_def)
  then consider "p = []" | a where "p = [a]" | a b where "p = [a, b]"
    using short_path by blast
  then show ?thesis
  proof cases
    case 1
    then have i: "i = pt_idx 3 w" using True by (auto simp: full_def suffix_one_more)
    have "paging_virt_to_phys w s = 0" using under 1 i by (simp add: v2p_paths None_at Let_def)
    moreover have "paging_virt_to_phys w ?s = 0"
      using N 1 i T [OF vpath_full(2), of 2 w 3] T [OF vpath_full(3), of 1 w 2 3]
      by (simp add: v2p_paths None_at Let_def suffix_one_more)
    ultimately show ?thesis by simp
  next
    case 2
    then have i: "i = pt_idx 2 w" "a = pt_idx 3 w" using True by (auto simp: full_def suffix_one_more)
    have "paging_virt_to_phys w s = 0" using under lo 2 i by (simp add: v2p_paths None_at Let_def)
    moreover have "paging_virt_to_phys w ?s = 0"
      using N lv ns 2 i T [OF vpath_full(3), of 1 w 2 3]
      by (simp add: v2p_paths None_at Let_def suffix_one_more)
    ultimately show ?thesis by simp
  next
    case 3
    then have i: "i = pt_idx 1 w" "a = pt_idx 2 w" "b = pt_idx 3 w" using True by (auto simp: full_def suffix_one_more)
    have q: "vpath [b]" "a < 512" using vp(1) 3 by (auto simp: vpath_Cons)
    have e3: "leaf_at ?s [b] a = leaf_at s [b] a"
      using leaf_at_set [OF ok vp(1) p(2) vp(2) q, of v] T [OF q(1)] 3 by (auto simp: suffix_one_more)
    have "\<not> (has (leaf_at s [b] a) PTE_P \<and> has (leaf_at s [b] a) PTE_PS)"
      using p(2) 3 by (auto simp: leaf_at_def follow_def split: option.splits if_splits)
    then show ?thesis
      using None_at [OF under] lo N lv ns e3 3 i by (auto simp: v2p_paths Let_def)
  qed
qed

lemma set_ent_pt_ok:
  assumes ok: "pt_ok s" and p: "vpath p" "table_at s p = Some t" "i < 512"
    and same: "\<And>q. vpath q \<Longrightarrow> table_at (set_ent t i v s) q = table_at s q"
    and v: "length p = 2 \<Longrightarrow> has v PTE_P \<Longrightarrow> has v PTE_PS \<Longrightarrow> v AND 0x1FF000 = 0"
  shows "pt_ok (set_ent t i v s)"
  unfolding pt_ok_def set_ent_sel
proof (intro conjI allI impI)
  show "pmm_wf (pt_pmm s)" "page0_used (pt_pmm s)" using pt_okD(1,2) [OF ok] .
  show "used_page (set_ent t i v s) u" if "vpath q" "table_at (set_ent t i v s) q = Some u" for q u
    using pt_okD(3) [OF ok that(1)] that(2) same [OF that(1)] by (simp add: used_page_def)
  show "q = r" if "vpath q" "vpath r" "table_at (set_ent t i v s) q = Some u" "table_at (set_ent t i v s) r = Some u" for q r u
    using pt_okD(4) [OF ok that(1,2)] that(3,4) same [OF that(1)] same [OF that(2)] by simp
  show "ent (set_ent t i v s) u k AND 0x1FF000 = 0"
    if q: "vpath q" "length q = 2" "table_at (set_ent t i v s) q = Some u" "k < 512"
      "has (ent (set_ent t i v s) u k) PTE_P" "has (ent (set_ent t i v s) u k) PTE_PS" for q u k
  proof -
    have u: "table_at s q = Some u" using q(3) same [OF q(1)] by simp
    then have "leaf_at s q k = ent s u k" "leaf_at (set_ent t i v s) q k = ent (set_ent t i v s) u k"
      using q(3) by (simp_all add: leaf_at_def)
    then have e: "ent (set_ent t i v s) u k = (if q = p \<and> k = i then v else ent s u k)"
      using leaf_at_set [OF ok p q(1,4) same [OF q(1)]] by (auto split: if_splits)
    show ?thesis
      using v q(2,5,6) pt_okD(5) [OF ok q(1,2) u q(4)] unfolding e by (auto split: if_splits)
  qed
qed

lemma v2p_flags:
  assumes ok: "pt_ok s" and p: "vpath (i # p)" "table_at s p = Some t"
    and same: "\<And>q. vpath q \<Longrightarrow> table_at (set_ent t i v s) q = table_at s q"
    and nl: "\<not> (p \<noteq> [] \<and> has (ent s t i) PTE_P \<and> has (ent s t i) PTE_PS)" "\<not> (p \<noteq> [] \<and> has v PTE_P \<and> has v PTE_PS)"
  shows "paging_virt_to_phys w (set_ent t i v s) = paging_virt_to_phys w s"
proof -
  have vp: "vpath p" "i < 512" "length p < 3" using p(1) by (auto simp: vpath_Cons)
  note L = leaf_at_set [OF ok vp(1) p(2) vp(2) _ _ same]
  have lo: "leaf_at s p i = ent s t i" using p(2) by (simp add: leaf_at_def)
  let ?s = "set_ent t i v s"
  note E = L [OF vpath_full(1) pt_idx_less vpath_full(1), of 3 w 2] L [OF vpath_full(2) pt_idx_less vpath_full(2), of 2 w 3 1]
    L [OF vpath_full(3) pt_idx_less vpath_full(3), of 1 w 2 3 0]
  consider "p = []" | a where "p = [a]" | a b where "p = [a, b]" using short_path [OF vp(3)] by blast
  then show ?thesis
  proof cases
    case 1
    then show ?thesis using E by (simp add: v2p_decide)
  next
    case 2
    have "decide (leaf_at ?s [pt_idx 3 w] (pt_idx 2 w)) e2 e1 w = decide (leaf_at s [pt_idx 3 w] (pt_idx 2 w)) e2 e1 w" for e2 e1
      using nl lo E(1) 2 by (cases "[pt_idx 3 w] = p \<and> pt_idx 2 w = i") (auto intro: decide_table simp: large_def)
    then show ?thesis using E(2,3) 2 by (simp add: v2p_decide)
  next
    case 3
    have "decide e3 (leaf_at ?s [pt_idx 2 w, pt_idx 3 w] (pt_idx 1 w)) e1 w
        = decide e3 (leaf_at s [pt_idx 2 w, pt_idx 3 w] (pt_idx 1 w)) e1 w" for e3 e1
      using nl lo E(2) 3 by (cases "[pt_idx 2 w, pt_idx 3 w] = p \<and> pt_idx 1 w = i") (auto intro: decide_table simp: large_def)
    then show ?thesis using E(1,3) 3 by (simp add: v2p_decide)
  qed
qed

lemma new_table_entered:
  assumes ok: "pt_ok s" and p: "vpath (i # p)" "table_at s p = Some t" "\<not> has (ent s t i) PTE_P"
    and user: "user = 0 \<or> user = PTE_U" and r: "new_table t i user s = (r, s')"
  shows "entered s s' (i # p) r"
proof -
  obtain n s1 where a: "alloc_table s = (n, s1)" by (cases "alloc_table s") simp
  have vp: "vpath p" "i < 512" using p(1) by (auto simp: vpath_Cons)
  show ?thesis
  proof (cases "n = 0")
    case True
    then show ?thesis
      using r a alloc_table_fail [of s s1] ok by (simp add: new_table_def entered_refl)
  next
    case False
    note F = alloc_table_fresh [OF pt_okD(1,2) [OF ok] a False] and K = alloc_table_ok [OF ok a False]
    have K5: "\<forall>q. vpath q \<longrightarrow> table_at s1 q \<noteq> Some n" using K(5) by blast
    let ?v = "of_nat n OR PTE_P OR PTE_W OR user :: u64"
    have al: "n mod 4096 = 0" "n < 18446744073709551616"
      using used_aligned [OF F(1)] used_page_limit [OF F(8,1)] by simp_all
    have "(PTE_P OR PTE_W OR user) AND NOT 0xFFF = 0" using user by auto
    then have tv: "tbl ?v = n" using tbl_page [OF al] by (simp add: or.assoc)
    have t1: "table_at s1 p = Some t" "used_page s t" using K(1) [OF vp(1)] p(2) pt_okD(3) [OF ok vp(1) p(2)] by simp_all
    have e: "ent s1 t i = ent s t i" using F(4) [OF t1(2) vp(2)] .
    have nb: "bit ?v 0" "\<not> bit ?v 7"
    proof -
      have "\<not> bit (of_nat n :: u64) 7"
      proof -
        have "n div 2 ^ 7 mod 2 = 0"
        proof -
          obtain m where "n = 4096 * m" using al(1) by (metis mod_0_imp_dvd dvdE)
          then show ?thesis by simp
        qed
        then have "\<not> bit n 7" by (simp add: bit_iff_odd even_iff_mod_2_eq_zero)
        then show ?thesis by (simp add: bit_of_nat_iff)
      qed
      then show "bit ?v 0" "\<not> bit ?v 7" using user by (auto simp: bit_simps)
    qed
    then have fv: "follow (p \<noteq> []) ?v = Some n" by (simp add: follow_def has_flags tv)
    have old: "follow (p \<noteq> []) (ent s1 t i) = None" using p(3) e by (simp add: follow_def)
    have z: "\<forall>j<512. \<not> has (ent s1 n j) PTE_P" using F(5) by simp
    note L = link_ok [OF K(2) p(1) t1(1) F(1) K5 _ old fv]
    have s': "s' = set_ent t i ?v s1" "r = Some (tbl (ent s' t i))"
      using r a False by (auto simp: new_table_def Let_def)
    have ta: "t mod 4096 = 0" using used_aligned [OF t1(2)] .
    have "ent s' t i = ?v" using ent_set_ent [OF ta ta vp(2,2)] by (simp add: s'(1))
    then have rn: "r = Some n" using s'(2) tv by simp
    have "table_at s' (i # p) = Some n" using L(1) [OF _ p(1)] z s'(1) by simp
    moreover have "pt_ok s'" using L(2) z s'(1) by simp
    moreover have "paging_virt_to_phys w s' = paging_virt_to_phys w s" for w
      using v2p_link [OF K(2) p(1) t1(1) _ F(1) K5 z fv] p(3) e K(4) s'(1) by simp
    moreover have "used_page s' u" if "used_page s u" for u using F(3) [OF that] by (simp add: s'(1) used_page_def)
    ultimately show ?thesis using F(6) rn alloc_table_count [OF pt_okD(1,2) [OF ok] a] alloc_total [OF a] False by (simp add: entered_def s'(1))
  qed
qed

lemma grant_user_entered:
  assumes ok: "pt_ok s" and p: "vpath (i # p)" "table_at s p = Some t" "has (ent s t i) PTE_P" "p \<noteq> [] \<Longrightarrow> \<not> has (ent s t i) PTE_PS"
    and r: "grant_user t i user s = (r, s')"
  shows "entered s s' (i # p) r"
proof -
  have vp: "vpath p" "i < 512" using p(1) by (auto simp: vpath_Cons)
  let ?v = "ent s t i OR PTE_U"
  have tv: "tbl ?v = tbl (ent s t i)" by (rule tbl_cong) (simp add: bit.conj_disj_distrib2)
  have fv: "follow (p \<noteq> []) ?v = follow (p \<noteq> []) (ent s t i)"
    using tv by (simp add: follow_def has_flags bit_simps)
  have fo: "follow (p \<noteq> []) (ent s t i) = Some (tbl (ent s t i))" using p(3,4) by (auto simp: follow_def)
  have ta: "t mod 4096 = 0" using used_aligned [OF pt_okD(3) [OF ok vp(1) p(2)]] .
  note T = table_at_same [OF ok vp(1) p(2) vp(2) fv]
  show ?thesis
  proof (cases "user = 0")
    case True
    then show ?thesis using r ok p(2) fo by (auto simp: grant_user_def entered_def)
  next
    case False
    then have s': "s' = set_ent t i ?v s" "r = Some (tbl ?v)"
      using r ent_set_ent [OF ta ta vp(2,2)] by (simp_all add: grant_user_def)
    have nl: "p = [] \<or> \<not> has ?v PTE_PS" using p(4) by (auto simp: has_flags bit_simps)
    have "pt_ok s'" unfolding s'(1)
      by (rule set_ent_pt_ok [OF ok vp(1) p(2) vp(2) T]) (use nl in auto)
    moreover have "paging_virt_to_phys w s' = paging_virt_to_phys w s" for w
      unfolding s'(1) by (rule v2p_flags [OF ok p(1,2) T]) (use p(4) nl in auto)
    moreover have "table_at s' (i # p) = Some (tbl ?v)" using T [OF p(1)] p(2) fo tv s'(1) by simp
    ultimately show ?thesis by (auto simp: entered_def s' used_page_def)
  qed
qed

section \<open>Splitting a large page\<close>

lemma idx0_word: "of_nat (pt_idx 0 w * 4096) = w AND (0x1FF000 :: u64)"
proof -
  have "of_nat (pt_idx 0 w * 4096) = push_bit 12 (drop_bit 12 w AND 0x1FF)"
    by (simp add: pt_idx_def push_bit_eq_mult)
  also have "push_bit 12 (drop_bit 12 w AND m) = w AND push_bit 12 m" for m :: u64
    by (rule bit_word_eqI) (auto simp: bit_simps)
  finally show ?thesis by simp
qed

lemma split_word:
  assumes "e AND 0x1FF000 = (0 :: u64)"
  shows "((((e AND PTE_ADDR) + of_nat (pt_idx 0 w * 4096)) OR split_flags e OR PTE_P) AND PTE_ADDR) OR (w AND 0xFFF)
    = (e AND 0x000FFFFFFFE00000) OR (w AND 0x1FFFFF)"
proof -
  have d: "(e AND PTE_ADDR) AND (w AND 0x1FF000) = 0"
  proof -
    have "(e AND PTE_ADDR) AND (w AND 0x1FF000) = (e AND 0x1FF000) AND (PTE_ADDR AND w)" by (simp add: ac_simps)
    then show ?thesis using assms by simp
  qed
  have a: "(e AND PTE_ADDR) + (w AND 0x1FF000) = (e AND PTE_ADDR) OR (w AND 0x1FF000)"
    by (rule disjunctive_add_eq_or [OF d])
  have f: "split_flags e AND PTE_ADDR = 0"
  proof -
    have "split_flags e AND PTE_ADDR = e AND (0x80000000000001EF AND NOT PTE_PS AND PTE_ADDR)"
      by (simp add: split_flags_def ac_simps)
    then show ?thesis by simp
  qed
  have e: "e AND PTE_ADDR = e AND 0x000FFFFFFFE00000"
  proof -
    have "e AND PTE_ADDR = (e AND 0x000FFFFFFFE00000) OR (e AND 0x1FF000)"
      by (simp flip: bit.conj_disj_distrib)
    then show ?thesis using assms by simp
  qed
  have w: "(w AND 0x1FF000) OR (w AND 0xFFF) = w AND 0x1FFFFF"
    by (simp flip: bit.conj_disj_distrib)
  have m: "(w AND 0x1FF000) AND PTE_ADDR = w AND 0x1FF000" by (simp add: and.assoc)
  have "(((e AND PTE_ADDR) OR (w AND 0x1FF000)) OR (split_flags e OR PTE_P)) AND PTE_ADDR
      = (e AND PTE_ADDR) OR (w AND 0x1FF000)"
    unfolding bit.conj_disj_distrib2 m f by (simp add: and.assoc)
  then show ?thesis unfolding idx0_word a by (simp add: or.assoc e w)
qed

text \<open>Writes to a page that is no table.\<close>

lemma outside_tables:
  assumes ok: "pt_ok s" and m: "pt_pmm s' = pt_pmm s" "g_pml4 s' = g_pml4 s"
    and e: "\<forall>q u j. vpath q \<longrightarrow> table_at s q = Some u \<longrightarrow> j < 512 \<longrightarrow> ent s' u j = ent s u j"
  shows "vpath q \<Longrightarrow> table_at s' q = table_at s q" "pt_ok s'" "paging_virt_to_phys w s' = paging_virt_to_phys w s"
proof -
  show t: "table_at s' q = table_at s q" if "vpath q" for q
    using that by (induction q) (auto simp: m vpath_Cons e split: option.split)
  have l: "leaf_at s' q j = leaf_at s q j" if "vpath q" "j < 512" for q j
    using that by (auto simp: leaf_at_def t e split: option.split)
  show "paging_virt_to_phys w s' = paging_virt_to_phys w s"
    unfolding v2p_decide by (simp add: l vpath_full m)
  show "pt_ok s'"
    unfolding pt_ok_def
  proof (intro conjI allI impI)
    show "pmm_wf (pt_pmm s')" "page0_used (pt_pmm s')" using pt_okD(1,2) [OF ok] m by simp_all
  qed (use t e pt_okD(3-5) [OF ok] m in \<open>auto simp: used_page_def\<close>)
qed

lemma fold_set_ent:
  assumes n: "n mod 4096 = 0" and k: "k \<le> 512" and that: "u mod 4096 = 0" "i < 512"
  shows "ent (fold (\<lambda>j. set_ent n j (f j)) [0..<k] s) u i = (if u = n \<and> i < k then f i else ent s u i)"
  using k
proof (induction k)
  case (Suc k)
  then show ?case using ent_set_ent [OF n that(1) _ that(2), of k "f k"] by (auto simp: less_Suc_eq)
qed simp

lemma fold_set_ent_sel [simp]:
  "pt_pmm (fold (\<lambda>j. set_ent n (g j) (f j)) js s) = pt_pmm s" "g_pml4 (fold (\<lambda>j. set_ent n (g j) (f j)) js s) = g_pml4 s"
  by (induction js arbitrary: s) simp_all

lemma not_bit_page: "n mod 4096 = 0 \<Longrightarrow> k < 12 \<Longrightarrow> \<not> bit (of_nat n :: u64) k"
proof -
  assume a: "n mod 4096 = 0" "k < 12"
  then have "take_bit 12 n = 0" by (simp add: take_bit_eq_mod)
  then have "\<not> bit n k" using a(2) by (metis bit_0_eq bit_take_bit_iff bot_apply bot_bool_def)
  then show ?thesis by (simp add: bit_of_nat_iff)
qed

lemma split_large_entered:
  assumes ok: "pt_ok s" and p: "vpath (i # p)" "length p = 2" "table_at s p = Some t"
    and e: "has (ent s t i) PTE_P" "has (ent s t i) PTE_PS"
    and user: "user = 0 \<or> user = PTE_U" and r: "split_large t i user s = (r, s')"
  shows "entered s s' (i # p) r"
proof -
  obtain n s1 where a: "alloc_table s = (n, s1)" by (cases "alloc_table s") simp
  have vp: "vpath p" "i < 512" using p(1) by (auto simp: vpath_Cons)
  show ?thesis
  proof (cases "n = 0")
    case True
    then show ?thesis using r a alloc_table_fail [of s s1] ok by (simp add: split_large_def entered_refl Let_def)
  next
    case False
    note F = alloc_table_fresh [OF pt_okD(1,2) [OF ok] a False] and K = alloc_table_ok [OF ok a False]
    let ?big = "ent s t i"
    define f where "f = (\<lambda>j. ((?big AND PTE_ADDR) + of_nat (j * 4096)) OR split_flags ?big OR PTE_P)"
    define s2 where "s2 = fold (\<lambda>j. set_ent n j (f j)) [0..<512] s1"
    define v where "v = of_nat n OR PTE_P OR PTE_W OR (split_flags ?big AND PTE_U) OR user"
    have al: "n mod 4096 = 0" "n < 18446744073709551616"
      using used_aligned [OF F(1)] used_page_limit [OF F(8,1)] by simp_all
    have s2e: "ent s2 u j = (if u = n then f j else ent s1 u j)" if "u mod 4096 = 0" "j < 512" for u j
      unfolding s2_def using fold_set_ent [OF al(1) order_refl that, of f s1] that(2) by simp
    have m2: "pt_pmm s2 = pt_pmm s1" "g_pml4 s2 = g_pml4 s1" by (simp_all add: s2_def)
    have e2: "ent s2 u j = ent s1 u j" if "vpath q" "table_at s1 q = Some u" "j < 512" for q u j
      using s2e [of u j] used_aligned [OF pt_okD(3) [OF K(2) that(1,2)]] K(5) [OF that(1)] that by auto
    have e2': "\<forall>q u j. vpath q \<longrightarrow> table_at s1 q = Some u \<longrightarrow> j < 512 \<longrightarrow> ent s2 u j = ent s1 u j" using e2 by blast
    note X = outside_tables [OF K(2) m2 e2']
    have t2: "table_at s2 p = Some t" "ent s2 t i = ?big"
      using X(1) [OF vp(1)] K(1) [OF vp(1)] p(3) e2 [OF vp(1) _ vp(2)] F(4) [OF pt_okD(3) [OF ok vp(1) p(3)] vp(2)] by simp_all
    have "(PTE_P OR PTE_W OR (split_flags ?big AND PTE_U) OR user) AND NOT 0xFFF = 0"
    proof -
      have "(split_flags ?big AND PTE_U) AND NOT 0xFFF = split_flags ?big AND (PTE_U AND NOT 0xFFF)" by (simp only: and.assoc)
      then show ?thesis using user by (auto simp: bit.conj_disj_distrib2)
    qed
    then have tv: "tbl v = n" using tbl_page [OF al] by (simp add: v_def or.assoc)
    have "bit v 0" "\<not> bit v 7" using user not_bit_page [OF al(1), of 7] by (auto simp: v_def bit_simps)
    then have fv: "follow (p \<noteq> []) v = Some n" and nl: "\<not> large v" by (simp_all add: follow_def has_flags tv large_def)
    have old: "follow (p \<noteq> []) (ent s2 t i) = None" using e p(2) t2(2) by (auto simp: follow_def)
    have un: "used_page s2 n" using F(1) m2 by (simp add: used_page_def)
    have nn: "\<forall>q. vpath q \<longrightarrow> table_at s2 q \<noteq> Some n" using X(1) K(5) by simp
    note L = link_ok [OF X(2) p(1) t2(1) un nn _ old fv]
    have s': "s' = set_ent t i v s2" "r = Some (tbl (ent s' t i))"
      using r a False unfolding split_large_def by (auto simp: Let_def f_def s2_def v_def)
    have ta: "t mod 4096 = 0" using used_aligned [OF pt_okD(3) [OF ok vp(1) p(3)]] .
    have "ent s' t i = v" using ent_set_ent [OF ta ta vp(2,2)] by (simp add: s'(1))
    then have rn: "r = Some n" using s'(2) tv by simp
    have T: "table_at s' q = (if q = i # p then Some n else if suffix (i # p) q then None else table_at s2 q)" if "vpath q" for q
      using L(1) [OF _ that] p(2) s'(1) by simp
    have "paging_virt_to_phys w s' = paging_virt_to_phys w s2" for w
    proof (cases "suffix (i # p) (full w)")
      case False
      then show ?thesis unfolding s'(1) using v2p_other [OF X(2) vp(1) t2(1) vp(2)] by simp
    next
      case True
      obtain b c where pp: "p = [b, c]" using p(2) by (auto simp: length_Suc_conv numeral_2_eq_2)
      then have i: "i = pt_idx 1 w" "b = pt_idx 2 w" "c = pt_idx 3 w" using True by (auto simp: full_def suffix_one_more)
      have q: "vpath [c]" "b < 512" using vp(1) pp by (auto simp: vpath_Cons)
      have np: "\<not> suffix (i # p) p" using suffix_length_le [of "i # p" p] by auto
      have "leaf_at s' [c] b = leaf_at s2 [c] b"
        using leaf_at_set [OF X(2) vp(1) t2(1) vp(2) q, of v] T [OF q(1)] pp s'(1) by (auto simp: suffix_one_more)
      moreover have "leaf_at s' p i = v"
        using leaf_at_set [OF X(2) vp(1) t2(1) vp(2) vp(1) vp(2), of v] T [OF vp(1)] np s'(1) by auto
      moreover have "leaf_at s' (i # p) (pt_idx 0 w) = f (pt_idx 0 w)"
        using L(3) [OF _ pt_idx_less] p(2) s2e [OF al(1) pt_idx_less] s'(1) by simp
      moreover have "leaf_at s2 p i = ?big" using t2 by (simp add: leaf_at_def)
      moreover have "\<not> large (leaf_at s2 [c] b)"
        using t2(1) pp by (auto simp: leaf_at_def follow_def large_def split: option.splits if_splits)
      moreover have "has (f (pt_idx 0 w)) PTE_P" by (simp add: f_def has_flags bit_simps)
      moreover have "large ?big" using e by (simp add: large_def)
      moreover have "(f (pt_idx 0 w) AND PTE_ADDR) OR (w AND 0xFFF) = (?big AND 0x000FFFFFFFE00000) OR (w AND 0x1FFFFF)"
        unfolding f_def by (rule split_word [OF pt_okD(5) [OF ok vp(1) p(2,3) vp(2) e]])
      ultimately show ?thesis
        using nl pp i F(6) m2 s'(1) unfolding v2p_decide by (simp add: decide_def)
    qed
    then have "paging_virt_to_phys w s' = paging_virt_to_phys w s" for w using X(3) K(4) by simp
    moreover have "table_at s' (i # p) = Some n" using T [OF p(1)] by simp
    moreover have "pt_ok s'" using L(2) p(2) s'(1) by simp
    moreover have "used_page s' u" if "used_page s u" for u using F(3) [OF that] m2 by (simp add: s'(1) used_page_def)
    ultimately show ?thesis using F(6) rn m2 alloc_table_count [OF pt_okD(1,2) [OF ok] a] alloc_total [OF a] False by (simp add: entered_def s'(1))
  qed
qed

section \<open>Writing a leaf\<close>

lemma path_not_large:
  assumes "table_at s [i2, i3, i4] = Some t"
  shows "\<not> large (leaf_at s [i4] i3)" "\<not> large (leaf_at s [i3, i4] i2)"
  using assms by (auto simp: leaf_at_def follow_def large_def split: option.splits if_splits)

lemma leaf_write:
  fixes v virt :: u64 and s s' :: paging and t :: nat
  assumes ok: "pt_ok s" and t: "table_at s [pt_idx 1 virt, pt_idx 2 virt, pt_idx 3 virt] = Some t"
  defines "s' \<equiv> set_ent t (pt_idx 0 virt) v s"
  shows "pt_ok s'" "vpath q \<Longrightarrow> table_at s' q = table_at s q"
    "paging_virt_to_phys w s' =
      (if full w = full virt then (if has v PTE_P then (v AND PTE_ADDR) OR (w AND 0xFFF) else 0) else paging_virt_to_phys w s)"
proof -
  let ?p = "[pt_idx 1 virt, pt_idx 2 virt, pt_idx 3 virt]"
  have vp: "vpath ?p" by (rule vpath_full)
  have ns: "\<not> suffix (pt_idx 0 virt # ?p) q" if "vpath q" for q
    using that suffix_length_le [of "pt_idx 0 virt # ?p" q] by (auto simp: vpath_def)
  show T: "table_at s' q = table_at s q" if "vpath q" for q
    unfolding s'_def by (rule table_at_other [OF ok vp t pt_idx_less that ns [OF that]])
  show "pt_ok s'"
    unfolding s'_def by (rule set_ent_pt_ok [OF ok vp t pt_idx_less]) (use T in \<open>simp_all add: s'_def\<close>)
  have L: "leaf_at s' q j = (if q = ?p \<and> j = pt_idx 0 virt then v else leaf_at s q j)" if "vpath q" "j < 512" for q j
    using leaf_at_set [OF ok vp t pt_idx_less that] T [OF that(1)] by (simp add: s'_def)
  have pm: "g_pml4 s \<noteq> 0" using pt_okD(3) [OF ok vpath_Nil] by (auto simp: used_page_def)
  show "paging_virt_to_phys w s' =
      (if full w = full virt then (if has v PTE_P then (v AND PTE_ADDR) OR (w AND 0xFFF) else 0) else paging_virt_to_phys w s)"
  proof (cases "full w = full virt")
    case True
    then have "pt_idx 0 w = pt_idx 0 virt" "pt_idx 1 w = pt_idx 1 virt" "pt_idx 2 w = pt_idx 2 virt" "pt_idx 3 w = pt_idx 3 virt"
      by (simp_all add: full_def)
    then show ?thesis
      using path_not_large [OF t] pm True L [OF vpath_full(1) pt_idx_less] L [OF vpath_full(2) pt_idx_less] L [OF vpath_full(3) pt_idx_less]
      by (simp add: v2p_decide decide_def s'_def)
  next
    case False
    then show ?thesis
      using L [OF vpath_full(1) pt_idx_less] L [OF vpath_full(2) pt_idx_less] L [OF vpath_full(3) pt_idx_less]
      by (auto simp: v2p_decide s'_def full_def)
  qed
qed

text \<open>The bits of an address that select its page.\<close>

definition page_bits :: "u64 \<Rightarrow> u64" where
  "page_bits w = w AND 0x0000FFFFFFFFF000"

lemma idx_word:
  assumes "k \<le> 3"
  shows "pt_idx k v = pt_idx k w \<longleftrightarrow> v AND push_bit (12 + 9 * k) 0x1FF = w AND push_bit (12 + 9 * k) 0x1FF"
proof -
  let ?n = "12 + 9 * k"
  have m: "(0x1FF :: u64) = mask 9" by (simp add: mask_eq_exp_minus_1)
  have p: "x AND push_bit ?n (mask 9) = push_bit ?n (drop_bit ?n x AND mask 9)" for x :: u64
    by (rule bit_word_eqI) (auto simp: bit_simps)
  have d: "drop_bit ?n (push_bit ?n (x AND mask 9)) = x AND mask 9" for x :: u64
    by (rule bit_word_eqI) (use assms in \<open>auto simp: bit_simps\<close>)
  have "pt_idx k v = pt_idx k w \<longleftrightarrow> drop_bit ?n v AND mask 9 = drop_bit ?n w AND mask 9"
    unfolding pt_idx_def m by (rule word_unat_eq_iff [symmetric])
  also have "\<dots> \<longleftrightarrow> push_bit ?n (drop_bit ?n v AND mask 9) = push_bit ?n (drop_bit ?n w AND mask 9)"
    by (metis d)
  finally show ?thesis unfolding m p .
qed

lemma full_eq: "full v = full w \<longleftrightarrow> page_bits v = page_bits w"
proof -
  have split: "page_bits x = (x AND 0x1FF000) OR (x AND 0x3FE00000) OR (x AND 0x7FC0000000) OR (x AND 0xFF8000000000)" for x
    by (simp add: page_bits_def flip: bit.conj_disj_distrib)
  have parts: "page_bits x AND 0x1FF000 = x AND 0x1FF000" "page_bits x AND 0x3FE00000 = x AND 0x3FE00000"
    "page_bits x AND 0x7FC0000000 = x AND 0x7FC0000000" "page_bits x AND 0xFF8000000000 = x AND 0xFF8000000000" for x
    by (simp_all add: page_bits_def and.assoc)
  have "full v = full w \<longleftrightarrow> v AND 0x1FF000 = w AND 0x1FF000 \<and> v AND 0x3FE00000 = w AND 0x3FE00000
      \<and> v AND 0x7FC0000000 = w AND 0x7FC0000000 \<and> v AND 0xFF8000000000 = w AND 0xFF8000000000"
    unfolding full_def using idx_word [of 0 v w] idx_word [of 1 v w] idx_word [of 2 v w] idx_word [of 3 v w] by simp
  also have "\<dots> \<longleftrightarrow> page_bits v = page_bits w" using split [of v] split [of w] parts [of v] parts [of w] by metis
  finally show ?thesis .
qed

section \<open>Mapping a page\<close>

text \<open>The state a walk that goes on is in, without the page budget.\<close>

definition unmoved :: "paging \<Rightarrow> paging \<Rightarrow> bool" where
  "unmoved s s' \<longleftrightarrow> pt_ok s' \<and> g_pml4 s' = g_pml4 s \<and> (\<forall>w. paging_virt_to_phys w s' = paging_virt_to_phys w s)
     \<and> (\<forall>t. used_page s t \<longrightarrow> used_page s' t) \<and> g_total_pages (pt_pmm s') = g_total_pages (pt_pmm s)"

lemma entered_unmoved: "entered s s1 p r \<Longrightarrow> unmoved s s1"
  "unmoved s s1 \<Longrightarrow> unmoved s1 s2 \<Longrightarrow> unmoved s s2"
  by (auto simp: entered_def unmoved_def)

lemma enter_levels:
  assumes ok: "pt_ok s" and user: "user = 0 \<or> user = PTE_U"
  shows "enter_pml4 (g_pml4 s) i user s = (r, s') \<Longrightarrow> i < 512 \<Longrightarrow> entered s s' [i] r"
    "enter_pdpt t j user s = (r, s') \<Longrightarrow> table_at s [i] = Some t \<Longrightarrow> i < 512 \<Longrightarrow> j < 512 \<Longrightarrow> entered s s' [j, i] r"
    "enter_pd t k user s = (r, s') \<Longrightarrow> table_at s [j, i] = Some t \<Longrightarrow> i < 512 \<Longrightarrow> j < 512 \<Longrightarrow> k < 512 \<Longrightarrow> entered s s' [k, j, i] r"
proof -
  show "entered s s' [i] r" if "enter_pml4 (g_pml4 s) i user s = (r, s')" "i < 512"
    using that new_table_entered [OF ok, of i "[]"] grant_user_entered [OF ok, of i "[]"] user
    by (auto simp: enter_pml4_def vpath_Cons split: if_splits)
  show "entered s s' [j, i] r" if "enter_pdpt t j user s = (r, s')" "table_at s [i] = Some t" "i < 512" "j < 512"
  proof -
    have v: "vpath [j, i]" using that by (simp add: vpath_Cons)
    show ?thesis
      using that(1) new_table_entered [OF ok v that(2) _ user] grant_user_entered [OF ok v that(2)] entered_refl [OF ok]
      by (auto simp: enter_pdpt_def split: if_splits)
  qed
  show "entered s s' [k, j, i] r" if "enter_pd t k user s = (r, s')" "table_at s [j, i] = Some t" "i < 512" "j < 512" "k < 512"
  proof -
    have v: "vpath [k, j, i]" using that by (simp add: vpath_Cons)
    show ?thesis
      using that(1) new_table_entered [OF ok v that(2) _ user] grant_user_entered [OF ok v that(2)]
        split_large_entered [OF ok v _ that(2) _ _ user]
      by (auto simp: enter_pd_def split: if_splits)
  qed
qed

text \<open>A user page of 4 KiB is mapped at the address.\<close>

definition user_leaf :: "paging \<Rightarrow> u64 \<Rightarrow> bool" where
  "user_leaf s virt \<longleftrightarrow>
    (let e = leaf_at s [pt_idx 1 virt, pt_idx 2 virt, pt_idx 3 virt] (pt_idx 0 virt) in has e PTE_P \<and> has e PTE_U)"

lemma map_4k_spec:
  assumes ok: "pt_ok s" and phys: "phys AND NOT 0x000FFFFFFFFFFFFF = 0" and m: "paging_map_4k virt phys flags s = (r, s')"
  shows "pt_ok s' \<and> g_pml4 s' = g_pml4 s \<and> (r = 0 \<or> r = -1)
    \<and> (\<forall>w. paging_virt_to_phys w s' =
          (if r = 0 \<and> page_bits w = page_bits virt then phys OR (w AND 0xFFF) else paging_virt_to_phys w s))
    \<and> (\<forall>t. used_page s t \<longrightarrow> used_page s' t) \<and> g_total_pages (pt_pmm s') = g_total_pages (pt_pmm s)
    \<and> (r = 0 \<longrightarrow> (user_leaf s' virt \<longleftrightarrow> has flags PTE_U))"
proof -
  have pm: "g_pml4 s \<noteq> 0" using pt_okD(3) [OF ok vpath_Nil] by (auto simp: used_page_def)
  define user where "user = (if has flags PTE_U then PTE_U else 0 :: u64)"
  have user: "user = 0 \<or> user = PTE_U" by (simp add: user_def)
  have bad: ?thesis if "unmoved s s'" "r = -1" using that by (auto simp: unmoved_def)
  show ?thesis
  proof (cases "virt AND 0xFFF \<noteq> 0 \<or> phys AND 0xFFF \<noteq> 0")
    case True
    then show ?thesis using m pm ok by (auto simp: paging_map_4k_def)
  next
    case False
    obtain r1 s1 where e1: "enter_pml4 (g_pml4 s) (pt_idx 3 virt) user s = (r1, s1)" by fastforce
    note E1 = enter_levels(1) [OF ok user e1 pt_idx_less]
    show ?thesis
    proof (cases r1)
      case None
      then show ?thesis using m pm False e1 entered_unmoved(1) [OF E1] bad by (simp add: paging_map_4k_def user_def [symmetric])
    next
      case (Some pdpt)
      obtain r2 s2 where e2: "enter_pdpt pdpt (pt_idx 2 virt) user s1 = (r2, s2)" by fastforce
      have ok1: "pt_ok s1" "table_at s1 [pt_idx 3 virt] = Some pdpt" using E1 Some by (auto simp: entered_def)
      note E2 = enter_levels(2) [OF ok1(1) user e2 ok1(2) pt_idx_less pt_idx_less] and r1 = Some
      note E02 = entered_unmoved(2) [OF entered_unmoved(1) [OF E1] entered_unmoved(1) [OF E2]]
      show ?thesis
      proof (cases r2)
        case None
        then show ?thesis using m pm False e1 e2 r1 E02 bad by (simp add: paging_map_4k_def user_def [symmetric])
      next
        case (Some pd)
        obtain r3 s3 where e3: "enter_pd pd (pt_idx 1 virt) user s2 = (r3, s3)" by fastforce
        have ok2: "pt_ok s2" "table_at s2 [pt_idx 2 virt, pt_idx 3 virt] = Some pd" using E2 Some by (auto simp: entered_def)
        note E3 = enter_levels(3) [OF ok2(1) user e3 ok2(2) pt_idx_less pt_idx_less pt_idx_less] and r2 = Some
        note E03 = entered_unmoved(2) [OF E02 entered_unmoved(1) [OF E3]]
        show ?thesis
        proof (cases r3)
          case None
          then show ?thesis using m pm False e1 e2 e3 r1 r2 E03 bad by (simp add: paging_map_4k_def user_def [symmetric])
        next
          case (Some pt)
          let ?v = "(phys AND PTE_ADDR) OR (flags AND 0x8000000000000FFF) OR PTE_P"
          have s': "r = 0" "s' = set_ent pt (pt_idx 0 virt) ?v s3"
            using m pm False e1 e2 e3 r1 r2 Some by (simp_all add: paging_map_4k_def user_def [symmetric])
          have ok3: "pt_ok s3" "table_at s3 [pt_idx 1 virt, pt_idx 2 virt, pt_idx 3 virt] = Some pt"
            using E3 Some by (auto simp: entered_def)
          note W = leaf_write [OF ok3, where v = ?v]
          have "?v AND PTE_ADDR = phys"
          proof -
            have f: "(flags AND 0x8000000000000FFF) AND PTE_ADDR = 0" by (simp add: and.assoc)
            have "phys = phys AND (NOT 0x000FFFFFFFFFFFFF OR PTE_ADDR OR 0xFFF)" by simp
            also have "\<dots> = phys AND PTE_ADDR" using phys False by (simp only: bit.conj_disj_distrib) simp
            finally have p: "phys AND PTE_ADDR = phys" by simp
            show ?thesis unfolding bit.conj_disj_distrib2 f by (simp add: and.assoc p)
          qed
          moreover have hp: "has ?v PTE_P" by (simp add: has_flags bit_simps)
          moreover have "user_leaf s' virt \<longleftrightarrow> has flags PTE_U"
          proof -
            have "leaf_at s' [pt_idx 1 virt, pt_idx 2 virt, pt_idx 3 virt] (pt_idx 0 virt) = ?v"
              using leaf_at_set [OF ok3(1) vpath_full(3) ok3(2) pt_idx_less vpath_full(3) pt_idx_less W(2) [OF vpath_full(3)]] s'(2) by simp
            moreover have "has ?v PTE_U \<longleftrightarrow> has flags PTE_U" by (auto simp: has_flags bit_simps)
            ultimately show ?thesis using hp by (simp only: user_leaf_def Let_def simp_thms)
          qed
          ultimately show ?thesis
            using W(1,3) E03 s' by (auto simp: unmoved_def full_eq used_page_def)
        qed
      qed
    qed
  qed
qed

lemma enter_None:
  assumes ok: "pt_ok s"
  shows "enter_pml4 t i user s = (None, s') \<Longrightarrow> free_set (pt_pmm s) = {}"
    "enter_pdpt t i user s = (None, s') \<Longrightarrow> \<not> large (ent s t i) \<Longrightarrow> free_set (pt_pmm s) = {}"
    "enter_pd t i user s = (None, s') \<Longrightarrow> free_set (pt_pmm s) = {}"
proof -
  obtain k s1 where a: "alloc_table s = (k, s1)" by (cases "alloc_table s") simp
  have n: "k = 0 \<Longrightarrow> free_set (pt_pmm s) = {}"
    using alloc_table_count [OF pt_okD(1,2) [OF ok] a] finite_free_set [of "pt_pmm s"] by simp
  show "enter_pml4 t i user s = (None, s') \<Longrightarrow> free_set (pt_pmm s) = {}"
    using n by (auto simp: a enter_pml4_def new_table_def grant_user_def Let_def split: if_splits)
  show "enter_pdpt t i user s = (None, s') \<Longrightarrow> \<not> large (ent s t i) \<Longrightarrow> free_set (pt_pmm s) = {}"
    using n by (auto simp: a enter_pdpt_def new_table_def grant_user_def large_def Let_def split: if_splits)
  show "enter_pd t i user s = (None, s') \<Longrightarrow> free_set (pt_pmm s) = {}"
    using n by (auto simp: a enter_pd_def new_table_def grant_user_def split_large_def Let_def split: if_splits)
qed

lemma enter_pml4_next:
  assumes ok: "pt_ok s" and user: "user = 0 \<or> user = PTE_U" and i: "i < 512" "j < 512"
    and e: "enter_pml4 (g_pml4 s) i user s = (Some t, s')"
  shows "ent s' t j = 0 \<or> ent s' t j = leaf_at s [i] j"
proof -
  note E = enter_levels(1) [OF ok user e i(1)]
  have t: "table_at s' [i] = Some t" and ok': "pt_ok s'" and g: "g_pml4 s' = g_pml4 s" using E by (auto simp: entered_def)
  have v: "vpath [i]" using i by (simp add: vpath_Cons)
  have al: "t mod 4096 = 0" "g_pml4 s mod 4096 = 0" "t \<noteq> g_pml4 s"
    using used_aligned [OF pt_okD(3) [OF ok' v t]] used_aligned [OF pt_okD(3) [OF ok vpath_Nil, of "g_pml4 s"]]
      pt_okD(4) [OF ok' v vpath_Nil t] g by auto
  note S = ent_set_ent [OF al(2,1) i(1,2)]
  show ?thesis
  proof (cases "has (ent s (g_pml4 s) i) PTE_P")
    case True
    then have e': "s' = s \<or> s' = set_ent (g_pml4 s) i (ent s (g_pml4 s) i OR PTE_U) s"
        "t = tbl (ent s' (g_pml4 s) i)"
      using e by (auto simp: enter_pml4_def grant_user_def Let_def split: if_splits)
    have "tbl (ent s (g_pml4 s) i OR PTE_U) = tbl (ent s (g_pml4 s) i)"
      by (rule tbl_cong) (simp add: bit.conj_disj_distrib2)
    then have "t = tbl (ent s (g_pml4 s) i)" using e' ent_set_ent [OF al(2,2) i(1,1)] by auto
    then have "leaf_at s [i] j = ent s t j" using True by (simp add: leaf_at_def follow_def)
    moreover have "ent s' t j = ent s t j" using e'(1) S al(3) by auto
    ultimately show ?thesis by simp
  next
    case False
    obtain n s1 where a: "alloc_table s = (n, s1)" by (cases "alloc_table s") simp
    then have n: "n \<noteq> 0" "s' = set_ent (g_pml4 s) i (of_nat n OR PTE_P OR PTE_W OR user) s1"
      using e False by (auto simp: enter_pml4_def new_table_def Let_def split: if_splits)
    note F = alloc_table_fresh [OF pt_okD(1,2) [OF ok] a n(1)]
    have "t = n"
    proof -
      have "(PTE_P OR PTE_W OR user) AND NOT 0xFFF = 0" using user by auto
      then have "tbl (of_nat n OR PTE_P OR PTE_W OR user) = n"
        using tbl_page [OF used_aligned [OF F(1)] used_page_limit [OF F(8,1)]] by (simp add: or.assoc)
      then show ?thesis
        using e False a n ent_set_ent [OF al(2,2) i(1,1)] by (simp add: enter_pml4_def new_table_def Let_def)
    qed
    then show ?thesis using F(5) [OF i(2)] S al(3) n(2) by simp
  qed
qed

lemma map_4k_returns:
  assumes ok: "pt_ok s" and al: "virt AND 0xFFF = 0" "phys AND 0xFFF = 0" and mem: "3 \<le> card (free_set (pt_pmm s))"
    and nl: "\<not> large (leaf_at s [pt_idx 3 virt] (pt_idx 2 virt))"
  shows "fst (paging_map_4k virt phys flags s) = 0"
proof -
  have pm: "g_pml4 s \<noteq> 0" using pt_okD(3) [OF ok vpath_Nil] by (auto simp: used_page_def)
  define user where "user = (if has flags PTE_U then PTE_U else 0 :: u64)"
  have user: "user = 0 \<or> user = PTE_U" by (simp add: user_def)
  obtain r1 s1 where e1: "enter_pml4 (g_pml4 s) (pt_idx 3 virt) user s = (r1, s1)" by fastforce
  note E1 = enter_levels(1) [OF ok user e1 pt_idx_less]
  obtain pdpt where r1: "r1 = Some pdpt" using enter_None(1) [OF ok] e1 mem by (cases r1) auto
  have ok1: "pt_ok s1" "table_at s1 [pt_idx 3 virt] = Some pdpt" "2 \<le> card (free_set (pt_pmm s1))"
    using E1 r1 mem by (auto simp: entered_def)
  have nl1: "\<not> large (ent s1 pdpt (pt_idx 2 virt))"
    using enter_pml4_next [OF ok user pt_idx_less pt_idx_less e1 [unfolded r1], of 2 virt] nl by (auto simp: large_def)
  obtain r2 s2 where e2: "enter_pdpt pdpt (pt_idx 2 virt) user s1 = (r2, s2)" by fastforce
  note E2 = enter_levels(2) [OF ok1(1) user e2 ok1(2) pt_idx_less pt_idx_less]
  obtain pd where r2: "r2 = Some pd" using enter_None(2) [OF ok1(1)] e2 nl1 ok1(3) by (cases r2) auto
  have ok2: "pt_ok s2" "1 \<le> card (free_set (pt_pmm s2))" using E2 ok1(3) by (auto simp: entered_def)
  obtain r3 s3 where e3: "enter_pd pd (pt_idx 1 virt) user s2 = (r3, s3)" by fastforce
  obtain pt where "r3 = Some pt" using enter_None(3) [OF ok2(1)] e3 ok2(2) by (cases r3) auto
  then show ?thesis
    using pm al e1 e2 e3 r1 r2 by (auto simp: paging_map_4k_def user_def [symmetric])
qed

end
