(* ===== verification/Paging_Maps.thy ===== *)
theory Paging_Maps
  imports Paging_Props
begin

text \<open>
  What \<open>paging_map_4k\<close>, \<open>paging_unmap_4k\<close> and \<open>paging_init_identity\<close> do to the translation
  \<open>paging_virt_to_phys\<close> of every address. Unmapping also gives back the tables that become
  empty; the invariant \<open>pt_ok\<close> of \<open>Paging_Props\<close> holds afterwards.
\<close>

section \<open>Giving back a page that is no table\<close>

lemma tables_pmm [simp]: "table_at (s\<lparr>pt_pmm := m\<rparr>) q = table_at s q" "ent (s\<lparr>pt_pmm := m\<rparr>) t i = ent s t i"
proof -
  show e: "ent (s\<lparr>pt_pmm := m\<rparr>) t i = ent s t i" for t i by (simp add: ent_def)
  show "table_at (s\<lparr>pt_pmm := m\<rparr>) q = table_at s q" by (induction q) (simp_all add: e split: option.split)
qed

lemma v2p_pmm [simp]: "paging_virt_to_phys w (s\<lparr>pt_pmm := m\<rparr>) = paging_virt_to_phys w s"
  by (simp add: paging_virt_to_phys_def ent_def Let_def)

lemma release_pt_ok:
  assumes ok: "pt_ok s" and m: "pmm_wf m" "g_total_pages m = g_total_pages (pt_pmm s)"
    "free_set m \<subseteq> insert (pg div 4096) (free_set (pt_pmm s))"
    and pg: "0 < pg" "pg mod 4096 = 0" "\<forall>q. vpath q \<longrightarrow> table_at s q \<noteq> Some pg"
  shows "pt_ok (s\<lparr>pt_pmm := m\<rparr>)"
proof -
  have nz: "pg div 4096 \<noteq> 0" using pg(1,2) by auto
  have "page0_used m" using pt_okD(2) [OF ok] m(2,3) nz by (auto simp: page0_used_iff)
  moreover have "used_page (s\<lparr>pt_pmm := m\<rparr>) t" if "vpath q" "table_at s q = Some t" for q t
  proof -
    have u: "used_page s t" and "t \<noteq> pg" using pt_okD(3) [OF ok that] pg(3) that by auto
    then have "t div 4096 \<noteq> pg div 4096" using pg(2) by (auto simp: used_page_def)
    then show ?thesis using u m(2,3) by (auto simp: used_page_def)
  qed
  ultimately show ?thesis
    using pt_okD(4,5) [OF ok] m(1) unfolding pt_ok_def by simp
qed

lemma free_page_ok:
  assumes ok: "pt_ok s" and pg: "0 < pg" "pg mod 4096 = 0" "\<forall>q. vpath q \<longrightarrow> table_at s q \<noteq> Some pg"
  shows "pt_ok (free_page pg s)"
  unfolding free_page_def
  by (rule release_pt_ok [OF ok _ _ _ pg]) (use free_page_cases [OF pt_okD(1) [OF ok], of pg] in auto)

lemma deref_ok:
  assumes ok: "pt_ok s" and pg: "0 < pg" "pg mod 4096 = 0" "\<forall>q. vpath q \<longrightarrow> table_at s q \<noteq> Some pg"
  shows "pt_ok (s\<lparr>pt_pmm := pmm_page_deref pg (pt_pmm s)\<rparr>)"
proof (cases "pg div 4096 < g_total_pages (pt_pmm s)")
  case True
  show ?thesis
    by (rule release_pt_ok [OF ok _ _ _ pg])
      (use page_deref_cases [OF pt_okD(1) [OF ok] True refl] in \<open>auto split: if_splits\<close>)
next
  case False
  then show ?thesis using ok by (simp add: pmm_page_deref_def)
qed

section \<open>Removing an empty table\<close>

lemma unlink_table:
  assumes ok: "pt_ok s" and p: "vpath (i # p)" "table_at s p = Some t" "table_at s (i # p) = Some n"
    and empty: "\<forall>j<512. \<not> has (ent s n j) PTE_P"
  shows "pt_ok (set_ent t i 0 s)" "\<forall>q. vpath q \<longrightarrow> table_at (set_ent t i 0 s) q \<noteq> Some n"
    "paging_virt_to_phys w (set_ent t i 0 s) = paging_virt_to_phys w s"
    "vpath q \<Longrightarrow> \<not> suffix (i # p) q \<Longrightarrow> table_at (set_ent t i 0 s) q = table_at s q"
proof -
  let ?s = "set_ent t i 0 s"
  have vp: "vpath p" "i < 512" using p(1) by (auto simp: vpath_Cons)
  have ta: "t mod 4096 = 0" using used_aligned [OF pt_okD(3) [OF ok vp(1) p(2)]] .
  have np: "\<not> suffix (i # p) p" using suffix_length_le [of "i # p" p] by auto
  show other: "table_at ?s q = table_at s q" if "vpath q" "\<not> suffix (i # p) q" for q
    by (rule table_at_other [OF ok vp(1) p(2) vp(2) that])
  have z: "ent ?s t i = 0" using ent_set_ent [OF ta ta vp(2,2)] by simp
  have none: "table_at ?s q = None" if "suffix (i # p) q" for q
    using that
  proof (induction q)
    case (Cons j q)
    then show ?case using other [OF vp(1) np] p(2) z by (auto simp: suffix_one_more follow_def)
  qed simp
  have T: "table_at s q = Some u" if "vpath q" "table_at ?s q = Some u" for q u
    using that none [of q] other [of q] by (cases "suffix (i # p) q") auto
  have ent': "ent ?s u k = (if u = t \<and> k = i then 0 else ent s u k)" if "vpath q" "table_at ?s q = Some u" "k < 512" for q u k
    using ent_set_ent [OF ta used_aligned [OF pt_okD(3) [OF ok that(1) T [OF that(1,2)]]] vp(2) that(3)] .
  show ok': "pt_ok ?s"
    unfolding pt_ok_def set_ent_sel
  proof (intro conjI allI impI)
    show "pmm_wf (pt_pmm s)" "page0_used (pt_pmm s)" using pt_okD(1,2) [OF ok] .
    show "used_page ?s u" if "vpath q" "table_at ?s q = Some u" for q u
      using pt_okD(3) [OF ok that(1) T [OF that]] by (simp add: used_page_def)
    show "q = r" if "vpath q" "vpath r" "table_at ?s q = Some u" "table_at ?s r = Some u" for q r u
      using pt_okD(4) [OF ok that(1,2) T [OF that(1,3)] T [OF that(2,4)]] .
    show "ent ?s u k AND 0x1FF000 = 0"
      if q: "vpath q" "length q = 2" "table_at ?s q = Some u" "k < 512" "has (ent ?s u k) PTE_P" "has (ent ?s u k) PTE_PS" for q u k
      using pt_okD(5) [OF ok q(1,2) T [OF q(1,3)] q(4)] q(5,6) ent' [OF q(1,3,4)] by (auto split: if_splits)
  qed
  show nn: "\<forall>q. vpath q \<longrightarrow> table_at ?s q \<noteq> Some n"
    using T pt_okD(4) [OF ok _ p(1) _ p(3)] none [of "i # p"] by fastforce
  let ?v = "ent s t i"
  have fv: "follow (p \<noteq> []) ?v = Some n" using p(2,3) by simp
  have un: "used_page ?s n" using pt_okD(3) [OF ok p(1,3)] by (simp add: used_page_def)
  have nt: "n \<noteq> t" using pt_okD(4) [OF ok p(1) vp(1) p(3)] p(2) by auto
  have e: "\<forall>j<512. \<not> has (ent ?s n j) PTE_P"
    using empty ent_set_ent [OF ta used_aligned [OF pt_okD(3) [OF ok p(1,3)]] vp(2)] nt by simp
  have "set_ent t i ?v ?s = s" by (simp add: set_ent_def ent_def)
  then show "paging_virt_to_phys w ?s = paging_virt_to_phys w s"
    using v2p_link [OF ok' p(1) _ _ un nn e fv, where w = w] other [OF vp(1) np] p(2) z by simp
qed

section \<open>Unmapping\<close>

lemma walk_pt_tables:
  "walk_pt virt s = Some (pdpt, pd, pt) \<longleftrightarrow>
    g_pml4 s \<noteq> 0 \<and> table_at s [pt_idx 3 virt] = Some pdpt \<and> table_at s [pt_idx 2 virt, pt_idx 3 virt] = Some pd
    \<and> table_at s [pt_idx 1 virt, pt_idx 2 virt, pt_idx 3 virt] = Some pt"
  by (auto simp: walk_pt_def follow_def Let_def split: if_splits)

lemma table_count_0: "table_count_present t s = 0 \<longleftrightarrow> (\<forall>i<512. \<not> has (ent s t i) PTE_P)"
  by (auto simp: table_count_present_def filter_empty_conv)

lemma set_free_commute: "set_ent t i v (free_page n s) = free_page n (set_ent t i v s)"
  by (simp add: set_ent_def free_page_def)

lemma free_page_sel [simp]: "ent (free_page n s) t i = ent s t i" "table_at (free_page n s) q = table_at s q"
  "paging_virt_to_phys w (free_page n s) = paging_virt_to_phys w s" "g_pml4 (free_page n s) = g_pml4 s"
  by (simp_all add: free_page_def)

text \<open>One round of giving back an empty table: the parent entry is cleared, the page freed.\<close>

lemma drop_table:
  assumes ok: "pt_ok s" and p: "vpath (i # p)" "table_at s p = Some t" "table_at s (i # p) = Some n"
    and empty: "table_count_present n s = 0"
  shows "pt_ok (set_ent t i 0 (free_page n s))"
    "paging_virt_to_phys w (set_ent t i 0 (free_page n s)) = paging_virt_to_phys w s"
    "vpath q \<Longrightarrow> \<not> suffix (i # p) q \<Longrightarrow> table_at (set_ent t i 0 (free_page n s)) q = table_at s q"
proof -
  note U = unlink_table [OF ok p empty [unfolded table_count_0]]
  have n: "used_page s n" by (rule pt_okD(3) [OF ok p(1,3)])
  show "pt_ok (set_ent t i 0 (free_page n s))"
    unfolding set_free_commute by (rule free_page_ok [OF U(1) _ _ U(2)]) (use n in \<open>auto simp: used_page_def\<close>)
  show "paging_virt_to_phys w (set_ent t i 0 (free_page n s)) = paging_virt_to_phys w s"
    unfolding set_free_commute by (simp add: U(3))
  show "vpath q \<Longrightarrow> \<not> suffix (i # p) q \<Longrightarrow> table_at (set_ent t i 0 (free_page n s)) q = table_at s q"
    unfolding set_free_commute using U(4) by simp
qed

lemma unmap_4k_cases:
  assumes ok: "pt_ok s" and u: "paging_unmap_4k virt s = (r, s')"
    and own: "\<forall>q. vpath q \<longrightarrow> table_at s q \<noteq> Some (unat (paging_virt_to_phys (page_bits virt) s))"
      "paging_virt_to_phys (page_bits virt) s \<noteq> 0"
  shows "pt_ok s' \<and> r = (if user_leaf s virt then 0 else -1) \<and> (r = -1 \<longrightarrow> s' = s)
    \<and> (\<forall>w. paging_virt_to_phys w s' =
          (if r = 0 \<and> page_bits w = page_bits virt then 0 else paging_virt_to_phys w s))"
proof (cases "walk_pt virt s")
  case None
  have "table_at s [pt_idx 1 virt, pt_idx 2 virt, pt_idx 3 virt] = None"
  proof (rule ccontr)
    assume "\<not> ?thesis"
    moreover have "g_pml4 s \<noteq> 0" using pt_okD(3) [OF ok vpath_Nil] by (auto simp: used_page_def)
    ultimately have "\<exists>a b c. walk_pt virt s = Some (a, b, c)" unfolding walk_pt_tables by (auto split: option.splits)
    with None show False by simp
  qed
  then have "\<not> user_leaf s virt" by (simp only: user_leaf_def leaf_at_def option.case Let_def not_has_zero) simp
  then show ?thesis using u ok None by (simp add: paging_unmap_4k_def)
next
  case (Some tabs)
  obtain pdpt pd pt where tb: "tabs = (pdpt, pd, pt)" by (cases tabs) auto
  let ?i4 = "pt_idx 3 virt" and ?i3 = "pt_idx 2 virt" and ?i2 = "pt_idx 1 virt" and ?i1 = "pt_idx 0 virt"
  have T: "g_pml4 s \<noteq> 0" "table_at s [?i4] = Some pdpt" "table_at s [?i3, ?i4] = Some pd" "table_at s [?i2, ?i3, ?i4] = Some pt"
    using Some [unfolded tb walk_pt_tables] by blast+
  let ?pte = "ent s pt ?i1"
  have ul: "user_leaf s virt \<longleftrightarrow> has ?pte PTE_P \<and> has ?pte PTE_U"
    unfolding user_leaf_def leaf_at_def T(4) by (simp add: Let_def)
  show ?thesis
  proof (cases "\<not> has ?pte PTE_P \<or> \<not> has ?pte PTE_U")
    case True
    then show ?thesis using u ok Some tb ul by (auto simp: paging_unmap_4k_def Let_def split: if_splits)
  next
    case False
    define pg where "pg = unat (?pte AND PTE_ADDR)"
    have "full (page_bits virt) = full virt" by (simp add: full_eq page_bits_def and.assoc)
    then have idx: "pt_idx 0 (page_bits virt) = ?i1" "pt_idx 1 (page_bits virt) = ?i2" "pt_idx 2 (page_bits virt) = ?i3"
      "pt_idx 3 (page_bits virt) = ?i4" by (simp_all add: full_def)
    have "page_bits virt AND 0xFFF = 0" by (simp add: page_bits_def and.assoc)
    then have "paging_virt_to_phys (page_bits virt) s = ?pte AND PTE_ADDR"
      using path_not_large [OF T(4)] T False unfolding v2p_decide idx by (simp add: decide_def leaf_at_def)
    then have pg: "\<forall>q. vpath q \<longrightarrow> table_at s q \<noteq> Some pg" "0 < pg" using own by (simp_all add: pg_def unat_gt_0)
    have pa: "pg mod 4096 = 0"
    proof -
      have "?pte AND PTE_ADDR = (?pte AND PTE_ADDR) AND NOT (2 ^ 12 - 1)" by (simp add: and.assoc)
      then have "pg = unat (?pte AND PTE_ADDR) div 2 ^ 12 * 2 ^ 12" unfolding pg_def by (metis unat_and_not_mask)
      then show ?thesis by simp
    qed
    define s1 where "s1 = s\<lparr>pt_pmm := pmm_page_deref pg (pt_pmm s)\<rparr>"
    have ok1: "pt_ok s1" unfolding s1_def by (rule deref_ok [OF ok pg(2) pa pg(1)])
    have t1: "table_at s1 [?i2, ?i3, ?i4] = Some pt" using T by (simp only: s1_def tables_pmm)
    define s2 where "s2 = set_ent pt ?i1 0 s1"
    note W = leaf_write [OF ok1 t1, where v = 0, folded s2_def]
    have v2: "paging_virt_to_phys w s2 = (if page_bits w = page_bits virt then 0 else paging_virt_to_phys w s)" for w
      using W(3) [of w] by (auto simp: full_eq s1_def)
    have T2: "table_at s2 q = table_at s q" if "vpath q" for q using W(2) [OF that] by (simp add: s1_def)
    have vp: "vpath [?i4]" "vpath [?i3, ?i4]" "vpath [?i2, ?i3, ?i4]" by (rule vpath_full)+
    have res: "paging_unmap_4k virt s =
        (if table_count_present pt s2 \<noteq> 0 then (0, s2)
         else let s3 = set_ent pd ?i2 0 (free_page pt s2) in
              if table_count_present pd s3 \<noteq> 0 then (0, s3)
              else let s4 = set_ent pdpt ?i3 0 (free_page pd s3) in
                   if table_count_present pdpt s4 \<noteq> 0 then (0, s4)
                   else (0, set_ent (g_pml4 s) ?i4 0 (free_page pdpt s4)))"
      using Some tb False by (simp add: paging_unmap_4k_def Let_def s2_def s1_def pg_def)
    show ?thesis
    proof (cases "table_count_present pt s2 = 0")
      case False
      then show ?thesis using u res W(1) v2 ul \<open>\<not> (_ \<or> _)\<close> by auto
    next
      case e1: True
      define s3 where "s3 = set_ent pd ?i2 0 (free_page pt s2)"
      note D3 = drop_table [OF W(1) vp(3) T2 [OF vp(2), unfolded T(3)] T2 [OF vp(3), unfolded T(4)] e1, folded s3_def]
      have t3: "table_at s3 [?i3, ?i4] = Some pd" "table_at s3 [?i4] = Some pdpt" "table_at s3 [] = Some (g_pml4 s)"
        using D3(3) [OF vp(2)] D3(3) [OF vp(1)] T2 [OF vp(2)] T2 [OF vp(1)] T D3(3) [OF vpath_Nil] T2 [OF vpath_Nil]
        by (simp_all add: suffix_one_more del: table_at.simps(2))
      show ?thesis
      proof (cases "table_count_present pd s3 = 0")
        case False
        then have "(r, s') = (0, s3)" using u res e1 unfolding Let_def s3_def by simp
        then show ?thesis using D3(1,2) v2 ul \<open>\<not> (_ \<or> _)\<close> by simp
      next
        case e2: True
        define s4 where "s4 = set_ent pdpt ?i3 0 (free_page pd s3)"
        note D4 = drop_table [OF D3(1) vp(2) t3(2,1) e2, folded s4_def]
        have t4: "table_at s4 [?i4] = Some pdpt" "table_at s4 [] = Some (g_pml4 s)"
          using D4(3) [OF vp(1)] t3 D4(3) [OF vpath_Nil] by (simp_all add: suffix_one_more del: table_at.simps(2))
        show ?thesis
        proof (cases "table_count_present pdpt s4 = 0")
          case False
          then have "(r, s') = (0, s4)" using u res e1 e2 unfolding Let_def s3_def s4_def by simp
          then show ?thesis using D4(1,2) D3(2) v2 ul \<open>\<not> (_ \<or> _)\<close> by simp
        next
          case e3: True
          note D5 = drop_table [OF D4(1) vp(1) t4(2,1) e3]
          moreover have "(r, s') = (0, set_ent (g_pml4 s) ?i4 0 (free_page pdpt s4))"
            using u res e1 e2 e3 unfolding Let_def s3_def s4_def by simp
          ultimately show ?thesis using D4(2) D3(2) v2 ul \<open>\<not> (_ \<or> _)\<close> by simp
        qed
      qed
    qed
  qed
qed

section \<open>The identity map\<close>

lemma fresh_root:
  assumes W: "pmm_wf (pt_pmm s)" "page0_used (pt_pmm s)" and a: "alloc_table s = (n, s1)" "n \<noteq> 0"
  shows "pt_ok (s1\<lparr>g_pml4 := n\<rparr>)" "i < 512 \<Longrightarrow> leaf_at (s1\<lparr>g_pml4 := n\<rparr>) [] i = 0"
proof -
  note F = alloc_table_fresh [OF W a]
  let ?s = "s1\<lparr>g_pml4 := n\<rparr>"
  have e: "ent ?s n i = 0" if "i < 512" for i using F(5) [OF that] by (simp add: ent_def)
  have T: "table_at ?s q = (if q = [] then Some n else None)" if "vpath q" for q
    using that by (induction q) (auto simp: vpath_Cons e follow_def)
  show "i < 512 \<Longrightarrow> leaf_at ?s [] i = 0" by (simp add: leaf_at_def e)
  show "pt_ok ?s"
    unfolding pt_ok_def using F(1,8,9) by (auto simp: T used_page_def split: if_splits)
qed

text \<open>A fresh table below an empty entry, with what it does to all entries.\<close>

definition link_word :: "nat \<Rightarrow> u64" where
  "link_word n = of_nat n OR PTE_P OR PTE_W"

lemma link_fresh:
  assumes ok: "pt_ok s" and p: "vpath (i # p)" "table_at s p = Some t" "\<not> has (leaf_at s p i) PTE_P"
    and a: "alloc_table s = (n, s1)" "n \<noteq> 0"
  defines "s' \<equiv> set_ent t i (link_word n) s1"
  shows "pt_ok s'" "table_at s' (i # p) = Some n" "j < 512 \<Longrightarrow> leaf_at s' (i # p) j = 0"
    "vpath q \<Longrightarrow> \<not> suffix (i # p) q \<Longrightarrow> table_at s' q = table_at s q"
    "vpath q \<Longrightarrow> j < 512 \<Longrightarrow> \<not> suffix (i # p) q \<Longrightarrow> leaf_at s' q j = (if q = p \<and> j = i then link_word n else leaf_at s q j)"
    "\<not> large (link_word n)" "g_pml4 s' = g_pml4 s"
proof -
  note F = alloc_table_fresh [OF pt_okD(1,2) [OF ok] a] and K = alloc_table_ok [OF ok a]
  have vp: "vpath p" "i < 512" using p(1) by (auto simp: vpath_Cons)
  have al: "n mod 4096 = 0" "n < 18446744073709551616"
    using used_aligned [OF F(1)] used_page_limit [OF F(8,1)] by simp_all
  have "(PTE_P OR PTE_W) AND NOT 0xFFF = (0 :: u64)" by simp
  then have tv: "tbl (link_word n) = n" using tbl_page [OF al] by (simp add: link_word_def or.assoc)
  have "bit (link_word n) 0" "\<not> bit (link_word n) 7" using not_bit_page [OF al(1), of 7] by (auto simp: link_word_def bit_simps)
  then have fv: "follow (p \<noteq> []) (link_word n) = Some n" and nl: "\<not> large (link_word n)"
    by (simp_all add: follow_def has_flags tv large_def)
  have t1: "table_at s1 p = Some t" using K(1) [OF vp(1)] p(2) by simp
  have "leaf_at s1 p i = leaf_at s p i" using K(3) [OF vp] .
  then have old: "follow (p \<noteq> []) (ent s1 t i) = None" using p(3) t1 by (simp add: follow_def leaf_at_def)
  have K5: "\<forall>q. vpath q \<longrightarrow> table_at s1 q \<noteq> Some n" using K(5) by blast
  have z: "\<forall>j<512. \<not> has (ent s1 n j) PTE_P" using F(5) by simp
  note L = link_ok [OF K(2) p(1) t1 F(1) K5 _ old fv]
  show "pt_ok s'" "table_at s' (i # p) = Some n" unfolding s'_def using L(1) [OF _ p(1)] L(2) z by simp_all
  show "j < 512 \<Longrightarrow> leaf_at s' (i # p) j = 0" unfolding s'_def using L(3) z F(5) by simp
  show T: "vpath q \<Longrightarrow> \<not> suffix (i # p) q \<Longrightarrow> table_at s' q = table_at s q" for q
    unfolding s'_def using L(1) z K(1) by auto
  show "leaf_at s' q j = (if q = p \<and> j = i then link_word n else leaf_at s q j)" if "vpath q" "j < 512" "\<not> suffix (i # p) q"
    using leaf_at_set [OF K(2) vp(1) t1 vp(2) that(1,2), of "link_word n"] T [OF that(1,3)] K(1,3) that by (simp add: s'_def)
  show "\<not> large (link_word n)" by (rule nl)
  show "g_pml4 s' = g_pml4 s" using F(6) by (simp add: s'_def)
qed

definition big_word :: "nat \<Rightarrow> u64" where
  "big_word m = of_nat (m * LARGE_PAGE_SIZE) OR PTE_P OR PTE_W OR PTE_PS"

lemma large_big_word: "large (big_word m)"
  by (simp add: large_def has_flags big_word_def bit_simps)

lemma big_word_low: "big_word m AND 0x1FF000 = 0"
proof -
  have "of_nat (m * LARGE_PAGE_SIZE) = push_bit 21 (of_nat m :: u64)" by (simp add: push_bit_eq_mult)
  moreover have "push_bit 21 x AND mask 21 = 0" for x :: u64 by (rule bit_word_eqI) (auto simp: bit_simps)
  ultimately have "of_nat (m * LARGE_PAGE_SIZE) AND (mask 21 :: u64) = 0" by simp
  then have "of_nat (m * LARGE_PAGE_SIZE) AND (mask 21 AND 0x1FF000 :: u64) = 0" by (simp add: and.assoc [symmetric])
  then have "of_nat (m * LARGE_PAGE_SIZE) AND (0x1FF000 :: u64) = 0" by (simp add: mask_eq_exp_minus_1)
  then show ?thesis by (simp add: big_word_def bit.conj_disj_distrib2 or.assoc)
qed

lemma big_word_translates:
  assumes "unat w < 2 ^ 39" "unat w div LARGE_PAGE_SIZE = m"
  shows "(big_word m AND 0x000FFFFFFFE00000) OR (w AND 0x1FFFFF) = w"
proof -
  have "unat (w AND NOT (2 ^ 21 - 1)) = m * LARGE_PAGE_SIZE" using assms(2) by (simp only: unat_and_not_mask) simp
  moreover have "of_nat (unat (w AND NOT 0x1FFFFF)) = w AND NOT 0x1FFFFF" by simp
  ultimately have m: "of_nat (m * LARGE_PAGE_SIZE) = w AND NOT 0x1FFFFF" by simp
  have "unat (take_bit 39 w) = unat w" unfolding unsigned_take_bit_eq using assms(1) by (simp add: take_bit_eq_mod)
  then have "take_bit 39 w = w" by (simp add: word_unat_eq_iff)
  then have w: "w AND 0x7FFFFFFFFF = w" by (simp add: take_bit_eq_mask mask_eq_exp_minus_1)
  have "(w AND NOT 0x1FFFFF) AND 0x000FFFFFFFE00000 = w AND 0x000FFFFFFFE00000" by (simp add: and.assoc)
  also have "\<dots> = (w AND 0x7FFFFFFFFF) AND 0x000FFFFFFFE00000" unfolding w ..
  also have "\<dots> = w AND 0x7FFFE00000" by (simp add: and.assoc)
  finally have 1: "big_word m AND 0x000FFFFFFFE00000 = w AND 0x7FFFE00000"
    unfolding big_word_def m bit.conj_disj_distrib2 or.assoc by simp
  have "(w AND 0x7FFFE00000) OR (w AND 0x1FFFFF) = w AND 0x7FFFFFFFFF" by (simp flip: bit.conj_disj_distrib)
  then show ?thesis unfolding 1 using w by simp
qed

lemma fill_pd_spec:
  fixes k l n c pd :: nat and s :: paging
  assumes ok: "pt_ok s" and p: "vpath [k, 0]" "table_at s [k, 0] = Some pd" "\<forall>i<512. leaf_at s [k, 0] i = 0"
  defines "c \<equiv> min 512 (n - l)"
  shows "pt_ok (fill_pd pd l n s)" "vpath q \<Longrightarrow> table_at (fill_pd pd l n s) q = table_at s q"
    "vpath q \<Longrightarrow> i < 512 \<Longrightarrow> leaf_at (fill_pd pd l n s) q i = (if q = [k, 0] \<and> i < c then big_word (l + i) else leaf_at s q i)"
    "g_pml4 (fill_pd pd l n s) = g_pml4 s"
proof -
  have f: "fill_pd pd l n s = fold (\<lambda>i. set_ent pd i (big_word (l + i))) [0..<c] s"
    by (simp add: fill_pd_def c_def big_word_def)
  define F where "F = (\<lambda>d. fold (\<lambda>i. set_ent pd i (big_word (l + i))) [0..<d] s)"
  have main: "pt_ok (F d) \<and> (\<forall>q. vpath q \<longrightarrow> table_at (F d) q = table_at s q)
      \<and> (\<forall>q i. vpath q \<longrightarrow> i < 512 \<longrightarrow>
           leaf_at (F d) q i = (if q = [k, 0] \<and> i < d then big_word (l + i) else leaf_at s q i))" if "d \<le> 512" for d
    using that
  proof (induction d)
    case 0
    then show ?case using ok by (simp add: F_def)
  next
    case (Suc d)
    then have IH: "pt_ok (F d)" "\<And>q. vpath q \<Longrightarrow> table_at (F d) q = table_at s q"
      "\<And>q i. vpath q \<Longrightarrow> i < 512 \<Longrightarrow>
           leaf_at (F d) q i = (if q = [k, 0] \<and> i < d then big_word (l + i) else leaf_at s q i)" by simp_all
    have d: "d < 512" using Suc.prems by simp
    have t: "table_at (F d) [k, 0] = Some pd" using IH(2) [OF p(1)] p(2) by simp
    have "leaf_at (F d) [k, 0] d = 0" using IH(3) [OF p(1) d] p(3) d by simp
    then have e: "ent (F d) pd d = 0" using t by (simp only: leaf_at_def option.case)
    have S: "F (Suc d) = set_ent pd d (big_word (l + d)) (F d)" by (simp add: F_def)
    have fv: "follow ([k, 0] \<noteq> []) (big_word (l + d)) = follow ([k, 0] \<noteq> []) (ent (F d) pd d)"
      using large_big_word [of "l + d"] e by (simp add: follow_def large_def)
    note T = table_at_same [OF IH(1) p(1) t d fv]
    have "pt_ok (F (Suc d))"
      unfolding S by (rule set_ent_pt_ok [OF IH(1) p(1) t d T]) (simp_all add: big_word_low)
    moreover have "leaf_at (F (Suc d)) q i = (if q = [k, 0] \<and> i < Suc d then big_word (l + i) else leaf_at s q i)"
      if "vpath q" "i < 512" for q i
      unfolding S using leaf_at_set [OF IH(1) p(1) t d that T [OF that(1)]] IH(3) [OF that] by (auto simp: less_Suc_eq)
    ultimately show ?case using T IH(2) unfolding S by simp
  qed
  have "c \<le> 512" by (simp add: c_def)
  note M = main [OF this, unfolded F_def, folded f]
  show "pt_ok (fill_pd pd l n s)" "vpath q \<Longrightarrow> table_at (fill_pd pd l n s) q = table_at s q"
    "vpath q \<Longrightarrow> i < 512 \<Longrightarrow> leaf_at (fill_pd pd l n s) q i = (if q = [k, 0] \<and> i < c then big_word (l + i) else leaf_at s q i)"
    using M by blast+
  show "g_pml4 (fill_pd pd l n s) = g_pml4 s" unfolding f by (rule fold_set_ent_sel)
qed

text \<open>The state of the loop after \<open>k\<close> page directories.\<close>

definition ident :: "paging \<Rightarrow> nat \<Rightarrow> nat \<Rightarrow> nat \<Rightarrow> bool" where
  "ident s pdpt n k \<longleftrightarrow> pt_ok s \<and> table_at s [0] = Some pdpt
     \<and> (\<forall>i<512. 0 < i \<longrightarrow> leaf_at s [] i = 0) \<and> (\<forall>j<512. k \<le> j \<longrightarrow> leaf_at s [0] j = 0)
     \<and> (\<forall>j<k. \<not> large (leaf_at s [0] j) \<and> (\<forall>i<512. leaf_at s [j, 0] i = (if 512 * j + i < n then big_word (512 * j + i) else 0)))"

lemma ident_step:
  assumes id: "ident s pdpt n k" and k: "k < 512" and a: "alloc_table s = (pd, s1)" "pd \<noteq> 0"
  shows "ident (fill_pd pd (512 * k) n (set_ent pdpt k (of_nat pd OR PTE_P OR PTE_W) s1)) pdpt n (Suc k)"
    "g_pml4 (fill_pd pd (512 * k) n (set_ent pdpt k (of_nat pd OR PTE_P OR PTE_W) s1)) = g_pml4 s"
proof -
  have I: "pt_ok s" "table_at s [0] = Some pdpt" "\<forall>i<512. 0 < i \<longrightarrow> leaf_at s [] i = 0" "\<forall>j<512. k \<le> j \<longrightarrow> leaf_at s [0] j = 0"
    "\<forall>j<k. \<not> large (leaf_at s [0] j) \<and> (\<forall>i<512. leaf_at s [j, 0] i = (if 512 * j + i < n then big_word (512 * j + i) else 0))"
    using id by (simp_all add: ident_def)
  have v: "vpath [k, 0]" "vpath [0]" using k by (simp_all add: vpath_Cons)
  have z: "\<not> has (leaf_at s [0] k) PTE_P" using I(4) k by simp
  define s2 where "s2 = set_ent pdpt k (link_word pd) s1"
  note L = link_fresh [OF I(1) v(1) I(2) z a, folded s2_def]
  have z2: "\<forall>i<512. leaf_at s2 [k, 0] i = 0" using L(3) by simp
  note Fl = fill_pd_spec [OF L(1) v(1) L(2) z2, where l = "512 * k" and n = n]
  let ?s = "fill_pd pd (512 * k) n s2"
  have other: "leaf_at ?s q i = (if q = [0] \<and> i = k then link_word pd else leaf_at s q i)"
    if "vpath q" "i < 512" "\<not> suffix [k, 0] q" for q i
    using Fl(3) [OF that(1,2)] L(5) [OF that] that(3) by auto
  have new: "leaf_at ?s [k, 0] i = (if 512 * k + i < n then big_word (512 * k + i) else 0)" if "i < 512" for i
    using Fl(3) [OF v(1) that] z2 that by (auto simp: min_def)
  have "ident ?s pdpt n (Suc k)"
    unfolding ident_def
  proof (intro conjI allI impI)
    show "pt_ok ?s" by (rule Fl(1))
    show "table_at ?s [0] = Some pdpt" using Fl(2) [OF v(2)] L(4) [OF v(2)] I(2) by (simp add: suffix_one_more del: table_at.simps(2))
    show "leaf_at ?s [] i = 0" if "i < 512" "0 < i" for i using other [OF vpath_Nil that(1)] I(3) that by (simp add: suffix_def)
    show "leaf_at ?s [0] j = 0" if "j < 512" "Suc k \<le> j" for j using other [OF v(2) that(1)] I(4) that by (simp add: suffix_one_more)
    show "\<not> large (leaf_at ?s [0] j)" if "j < Suc k" for j
      using other [OF v(2), of j] I(5) that k L(6) by (auto simp: suffix_one_more less_Suc_eq)
    show "leaf_at ?s [j, 0] i = (if 512 * j + i < n then big_word (512 * j + i) else 0)" if "j < Suc k" "i < 512" for j i
    proof (cases "j = k")
      case False
      then have "vpath [j, 0]" "j < k" using that k by (auto simp: vpath_Cons)
      then show ?thesis using other [of "[j, 0]" i] I(5) that by (auto simp: suffix_one_more)
    qed (use new that in simp)
  qed
  then show "ident (fill_pd pd (512 * k) n (set_ent pdpt k (of_nat pd OR PTE_P OR PTE_W) s1)) pdpt n (Suc k)"
    by (simp add: s2_def link_word_def or.assoc)
  show "g_pml4 (fill_pd pd (512 * k) n (set_ent pdpt k (of_nat pd OR PTE_P OR PTE_W) s1)) = g_pml4 s"
    using Fl(4) L(7) by (simp add: s2_def link_word_def or.assoc)
qed

lemma fill_pd_pmm [simp]: "pt_pmm (fill_pd pd l n s) = pt_pmm s"
  by (simp add: fill_pd_def)

lemma init_pds_spec:
  assumes "ident s pdpt n k" "k + length ks \<le> 512" "ks = [k..<k + length ks]" "512 * (k + length ks) < n + 512 \<or> ks = []"
    "init_pds pdpt n ks (512 * k) s = (ok, s')"
  shows "(ok \<longrightarrow> ident s' pdpt n (k + length ks) \<and> g_pml4 s' = g_pml4 s
        \<and> card (free_set (pt_pmm s')) + length ks = card (free_set (pt_pmm s)) \<and> g_total_pages (pt_pmm s') = g_total_pages (pt_pmm s)) \<and> (length ks \<le> card (free_set (pt_pmm s)) \<longrightarrow> ok)"
  using assms
proof (induction ks arbitrary: k s)
  case Nil
  then show ?case by simp
next
  case (Cons pdi ks)
  have kk: "pdi = k" "ks = [Suc k..<Suc k + length ks]" using Cons.prems(3) by (auto simp: upt_rec split: if_splits)
  obtain pd s1 where a: "alloc_table s = (pd, s1)" by (cases "alloc_table s") simp
  have ok: "pt_ok s" using Cons.prems(1) by (simp add: ident_def)
  note N = alloc_table_count [OF pt_okD(1,2) [OF ok] a]
  show ?case
  proof (cases "pd = 0")
    case True
    then show ?thesis using Cons.prems(5) a N by simp
  next
    case False
    define s3 where "s3 = fill_pd pd (512 * k) n (set_ent pdpt k (of_nat pd OR PTE_P OR PTE_W) s1)"
    have k: "k < 512" using Cons.prems(2) by simp
    note S = ident_step [OF Cons.prems(1) k a False, folded s3_def]
    have big: "ks \<noteq> [] \<Longrightarrow> 512 \<le> n - 512 * k" using Cons.prems(4) by (cases ks) auto
    have r: "init_pds pdpt n ks (512 * k + min 512 (n - 512 * k)) s3 = (ok, s')"
      using Cons.prems(5) a False kk(1) by (simp add: s3_def Let_def)
    have fs: "card (free_set (pt_pmm s)) = Suc (card (free_set (pt_pmm s3)))" "g_total_pages (pt_pmm s3) = g_total_pages (pt_pmm s)"
      using N False alloc_total [OF a] by (simp_all add: s3_def)
    show ?thesis
    proof (cases "ks = []")
      case True
      then show ?thesis using r S fs by simp
    next
      case False
      then have "init_pds pdpt n ks (512 * Suc k) s3 = (ok, s')" using r big by (simp add: min_def add.commute)
      from Cons.IH [OF S(1) _ kk(2) _ this] show ?thesis using Cons.prems(2,4) S(2) fs by auto
    qed
  qed
qed

lemma small_idx:
  assumes "unat w < 2 ^ 48"
  shows "pt_idx 3 w = unat w div 2 ^ 39" "pt_idx 2 w = unat w div 2 ^ 30 mod 512" "pt_idx 1 w = unat w div 2 ^ 21 mod 512"
  using assms by (simp_all add: pt_idx_div)

text \<open>What the tables of the loop translate.\<close>

lemma ident_translates:
  assumes id: "ident s pdpt n k" and n: "n \<le> 512 * k" "k \<le> 512" and w: "unat w < 2 ^ 48"
  shows "paging_virt_to_phys w s = (if unat w < n * LARGE_PAGE_SIZE then w else 0)"
proof -
  have ok: "pt_ok s" using id by (simp add: ident_def)
  have pm: "g_pml4 s \<noteq> 0" using pt_okD(3) [OF ok vpath_Nil] by (auto simp: used_page_def)
  have none: "leaf_at s q j = 0" if "table_at s q = None" for q j using that by (simp add: leaf_at_def)
  have dead: "table_at s (j # q) = None" if "\<not> has (leaf_at s q j) PTE_P" for q j
    using that by (auto simp: leaf_at_def follow_def split: option.splits)
  show ?thesis
  proof (cases "unat w < 2 ^ 39")
    case False
    then have "0 < pt_idx 3 w" using w by (simp add: small_idx div_greater_zero_iff)
    then have d: "table_at s [pt_idx 3 w] = None" using id by (intro dead) (simp add: ident_def)
    then have "table_at s [pt_idx 2 w, pt_idx 3 w] = None" "table_at s [pt_idx 1 w, pt_idx 2 w, pt_idx 3 w] = None" by simp_all
    then have "paging_virt_to_phys w s = 0" using d by (simp only: v2p_decide none) (simp add: decide_def large_def)
    moreover have "n * LARGE_PAGE_SIZE \<le> 2 ^ 39" using n by simp
    ultimately show ?thesis using False by simp
  next
    case True
    let ?j = "unat w div 2 ^ 30" and ?i = "unat w div 2 ^ 21 mod 512"
    have idx: "pt_idx 3 w = 0" "pt_idx 2 w = ?j" "pt_idx 1 w = ?i" using True small_idx [OF w] by simp_all
    have jl: "?j < 512" using True by (simp add: div_less_iff_less_mult)
    have m: "512 * ?j + ?i = unat w div LARGE_PAGE_SIZE"
    proof -
      have "unat w div 2 ^ 30 = unat w div 2 ^ 21 div 512" by (simp add: div_mult2_eq [symmetric])
      then show ?thesis by simp
    qed
    show ?thesis
    proof (cases "?j < k")
      case True
      then have l: "\<not> large (leaf_at s [0] ?j)"
          "leaf_at s [?j, 0] ?i = (if unat w div LARGE_PAGE_SIZE < n then big_word (unat w div LARGE_PAGE_SIZE) else 0)"
        using id m by (simp_all add: ident_def)
      show ?thesis
      proof (cases "unat w div LARGE_PAGE_SIZE < n")
        case True
        then have "unat w < n * LARGE_PAGE_SIZE" by (simp add: div_less_iff_less_mult)
        then show ?thesis
          using l True pm large_big_word big_word_translates [OF \<open>unat w < 2 ^ 39\<close> refl]
          unfolding v2p_decide idx by (simp add: decide_def)
      next
        case False
        then have "\<not> unat w < n * LARGE_PAGE_SIZE" by (simp add: div_less_iff_less_mult)
        moreover have "leaf_at s [?i, ?j, 0] (pt_idx 0 w) = 0" using l(2) False by (intro none dead) simp
        ultimately show ?thesis using l False unfolding v2p_decide idx by (auto simp: decide_def large_def)
      qed
    next
      case False
      then have z: "leaf_at s [0] ?j = 0" using id jl by (simp add: ident_def)
      then have d: "table_at s [?j, 0] = None" by (intro dead) simp
      then have "leaf_at s [?j, 0] ?i = 0" "leaf_at s [?i, ?j, 0] (pt_idx 0 w) = 0" by (simp_all add: leaf_at_def)
      moreover have "\<not> unat w < n * LARGE_PAGE_SIZE"
      proof -
        have "n * LARGE_PAGE_SIZE \<le> k * 2 ^ 30" using n(1) by simp
        also have "\<dots> \<le> unat w" using False by (simp add: not_less le_div_geq less_eq_div_iff_mult_less_eq)
        finally show ?thesis by simp
      qed
      ultimately show ?thesis using z unfolding v2p_decide idx by (simp add: decide_def large_def)
    qed
  qed
qed

text \<open>The number of page directories \<open>paging_init_identity\<close> uses for a ceiling.\<close>

definition pd_count :: "nat \<Rightarrow> nat" where
  "pd_count c = (align_up c LARGE_PAGE_SIZE div LARGE_PAGE_SIZE + 511) div 512"

lemma init_identity_spec:
  assumes W: "pmm_wf (pt_pmm s)" "page0_used (pt_pmm s)" and c: "0 < c" "c \<le> 2 ^ 39"
    and r: "paging_init_identity c s = (r, s')"
  shows "(r = 0 \<longrightarrow> pt_ok s' \<and> g_cr3 s' = g_pml4 s' \<and> g_kernel_pml4 s' = g_pml4 s' \<and> c \<le> g_mapped_ceiling s'
      \<and> (\<forall>w. unat w < 2 ^ 48 \<longrightarrow> paging_virt_to_phys w s' = (if unat w < g_mapped_ceiling s' then w else 0))
      \<and> card (free_set (pt_pmm s')) + pd_count c + 2 = card (free_set (pt_pmm s))
      \<and> g_total_pages (pt_pmm s') = g_total_pages (pt_pmm s))
    \<and> (pd_count c + 2 \<le> card (free_set (pt_pmm s)) \<longrightarrow> r = 0)"
proof -
  let ?L = "LARGE_PAGE_SIZE"
  define C where "C = align_up c ?L"
  define N where "N = C div ?L"
  have C: "c \<le> C" "C = N * ?L" "N \<le> 262144"
  proof -
    show "c \<le> C" using align_up_ge [of c 21] c by (simp add: C_def)
    show "C = N * ?L" using align_up_dvd [of 21 c] by (simp add: C_def N_def)
    have "C = (c + 2097151) div ?L * ?L" using align_up_pow2 [of c 21] c by (simp add: C_def)
    moreover have "(c + 2097151) div ?L \<le> 262144" using div_le_mono [of "c + 2097151" "2 ^ 39 + 2097151" ?L] c by simp
    ultimately show "N \<le> 262144" by (simp add: N_def)
  qed
  have N0: "0 < N" using C c by (cases N) auto
  define K where "K = (N + 511) div 512"
  have K: "0 < K" "K \<le> 512" "N \<le> 512 * K" "512 * K < N + 512" using C(3) N0 by (simp_all add: K_def) 
  have Kc: "pd_count c = K" by (simp add: pd_count_def K_def N_def C_def)
  obtain pml4 s1 where a1: "alloc_table s = (pml4, s1)" by (cases "alloc_table s") simp
  define s2 where "s2 = s1\<lparr>g_pml4 := pml4\<rparr>"
  obtain pdpt s3 where a2: "alloc_table s2 = (pdpt, s3)" by (cases "alloc_table s2") simp
  define s4 where "s4 = set_ent pml4 0 (of_nat pdpt OR PTE_P OR PTE_W) s3"
  obtain ok s5 where i5: "init_pds pdpt N [0..<K] 0 s4 = (ok, s5)" by (cases "init_pds pdpt N [0..<K] 0 s4") simp
  have cc: "(if C < ?L then ?L else C) = C" using C N0 by simp
  have kk: "(if K = 0 then 1 else K) = K" "(if K > 512 then (512, 512 * 512, 512 * 512 * ?L) else (K, N, C)) = (K, N, C)"
    using K by simp_all
  have "paging_init_identity c s = (if pml4 = 0 then (-1, s2) else if pdpt = 0 then (-1, s3) else if \<not> ok then (-1, s5)
      else (0, s5\<lparr>g_cr3 := pml4, g_kernel_pml4 := pml4, g_mapped_ceiling := C\<rparr>))"
    unfolding paging_init_identity_def Let_def C_def [symmetric] cc a1 prod.case s2_def [symmetric] N_def [symmetric]
      K_def [symmetric] kk a2 s4_def [symmetric] i5 ..
  then have res: "(r, s') = (if pml4 = 0 then (-1, s2) else if pdpt = 0 then (-1, s3) else if \<not> ok then (-1, s5)
      else (0, s5\<lparr>g_cr3 := pml4, g_kernel_pml4 := pml4, g_mapped_ceiling := C\<rparr>))" using r by simp
  note n1 = alloc_table_count [OF W a1]
  show ?thesis
  proof (cases "pml4 = 0")
    case True
    then show ?thesis using res n1 by simp
  next
    case p1: False
    note R = fresh_root [OF W a1 p1, folded s2_def]
    have t2: "table_at s2 [] = Some pml4" "g_pml4 s2 = pml4" by (simp_all add: s2_def)
    note n2 = alloc_table_count [OF pt_okD(1,2) [OF R(1)] a2]
    have f2: "free_set (pt_pmm s2) = free_set (pt_pmm s1)" by (simp add: s2_def)
    show ?thesis
    proof (cases "pdpt = 0")
      case True
      then show ?thesis using res n1 n2 p1 f2 by simp
    next
      case p2: False
      have v: "vpath [0]" by (simp add: vpath_Cons)
      have z: "\<not> has (leaf_at s2 [] 0) PTE_P" using R(2) [of 0] by simp
      have s4': "s4 = set_ent pml4 0 (link_word pdpt) s3" by (simp add: s4_def link_word_def or.assoc)
      note L = link_fresh [OF R(1) v t2(1) z a2 p2, folded s4']
      have id4: "ident s4 pdpt N 0"
        using L R(2) by (auto simp: ident_def suffix_def vpath_Cons)
      have f4: "free_set (pt_pmm s4) = free_set (pt_pmm s3)" by (simp add: s4_def)
      have I: "(ok \<longrightarrow> ident s5 pdpt N K \<and> g_pml4 s5 = g_pml4 s4 \<and> card (free_set (pt_pmm s5)) + K = card (free_set (pt_pmm s4))
            \<and> g_total_pages (pt_pmm s5) = g_total_pages (pt_pmm s4)) \<and> (K \<le> card (free_set (pt_pmm s4)) \<longrightarrow> ok)"
        using init_pds_spec [OF id4, of "[0..<K]" ok s5] i5 K by simp
      show ?thesis
      proof (cases ok)
        case False
        then show ?thesis using res p1 p2 I n1 n2 f2 f4 Kc by simp
      next
        case True
        have s': "r = 0" "s' = s5\<lparr>g_cr3 := pml4, g_kernel_pml4 := pml4, g_mapped_ceiling := C\<rparr>" using res p1 p2 True by simp_all
        have g5: "g_pml4 s5 = pml4" "ident s5 pdpt N K" using I True L(7) t2(2) by simp_all
        have e: "ent s' t i = ent s5 t i" for t i by (simp add: s'(2) ent_def)
        have t: "table_at s' q = table_at s5 q" for q
          by (induction q) (simp_all add: ent_def s'(2) split: option.split)
        have "pt_ok s'" using g5(2) unfolding ident_def pt_ok_def used_page_def t e by (simp add: s'(2))
        moreover have "paging_virt_to_phys w s' = paging_virt_to_phys w s5" for w
          by (simp add: s'(2) paging_virt_to_phys_def ent_def Let_def)
        ultimately show ?thesis
          using ident_translates [OF g5(2) K(3,2)] C g5(1) s' I True n1 n2 f2 f4 p1 p2 Kc alloc_total [OF a1] alloc_total [OF a2]
          by (simp add: s4_def) (simp add: s2_def)
      qed
    qed
  qed
qed

section \<open>Properties\<close>

text \<open>
  C4. Mapping one page changes the translation of that page and of nothing else. For a
  page-aligned physical address of at most 52 bits, a successful \<open>paging_map_4k\<close> makes every
  address of the page translate into the frame, and all other addresses translate as before,
  also those that shared a 2 MiB leaf that was split on the way; a call that fails changes
  no translation, although it may have added tables. The tables stay well-formed: allocated,
  distinct pages. With three free pages and no 1 GiB leaf in the way the call succeeds.
\<close>

theorem map_4k_translates:
  assumes ok: "pt_ok s" and phys: "phys AND NOT 0x000FFFFFFFFFFFFF = 0" and m: "paging_map_4k virt phys flags s = (r, s')"
  shows "pt_ok s' \<and> (r = 0 \<or> r = -1)
    \<and> (\<forall>w. paging_virt_to_phys w s' =
          (if r = 0 \<and> page_bits w = page_bits virt then phys OR (w AND 0xFFF) else paging_virt_to_phys w s))
    \<and> (virt AND 0xFFF = 0 \<and> phys AND 0xFFF = 0 \<and> 3 \<le> card (free_set (pt_pmm s))
         \<and> \<not> large (leaf_at s [pt_idx 3 virt] (pt_idx 2 virt)) \<longrightarrow> r = 0)"
  using map_4k_spec [OF ok phys m] map_4k_returns [OF ok, of virt phys flags] m by auto


text \<open>
  C15. The boot map is the identity. From a well-formed page allocator, a successful
  \<open>paging_init_identity\<close> leaves well-formed tables, loaded as the current and as the kernel's
  address space, under which every address below the mapped ceiling translates to itself and
  every other address of the 48-bit space translates to nothing; the ceiling covers the
  requested one. It succeeds whenever enough pages are free: one page directory for each GiB
  and two more pages.
\<close>

theorem identity_map:
  assumes W: "pmm_wf (pt_pmm s)" "page0_used (pt_pmm s)" and c: "0 < c" "c \<le> 2 ^ 39"
    and r: "paging_init_identity c s = (r, s')"
  shows "(r = 0 \<longrightarrow> pt_ok s' \<and> g_cr3 s' = g_pml4 s' \<and> g_kernel_pml4 s' = g_pml4 s' \<and> c \<le> g_mapped_ceiling s'
      \<and> (\<forall>w. unat w < 2 ^ 48 \<longrightarrow> paging_virt_to_phys w s' = (if unat w < g_mapped_ceiling s' then w else 0)))
    \<and> (pd_count c + 2 \<le> card (free_set (pt_pmm s)) \<longrightarrow> r = 0)"
  using init_identity_spec [OF W c r] by simp

section \<open>Witnesses\<close>

text \<open>Sixteen pages, all free but page 0.\<close>

definition boot_pmm :: pmm where
  "boot_pmm = \<lparr>g_bitmap_phys = 0, g_bitmap = [1, 0], g_refs = replicate 16 0,
     g_total_pages = 16, g_free_pages = 15, g_ceiling = 0x10000\<rparr>"

definition cold :: paging where
  "cold = \<lparr>pt_pmm = boot_pmm, pmem = \<lambda>a. 0, g_mapped_ceiling = 0, g_cr3 = 0, g_pml4 = 0, g_kernel_pml4 = 0\<rparr>"

definition booted :: paging where
  "booted = snd (paging_init_identity 0x10000 cold)"

definition mapped :: paging where
  "mapped = snd (paging_map_4k 0x40001000 0x100000 (PTE_W OR PTE_U) booted)"

lemma boot_free_list: "filter (\<lambda>p. \<not> bm_test boot_pmm p) [0..<g_total_pages boot_pmm] = [1..<16]"
  by (simp add: boot_pmm_def upt_conv_Cons bm_test_def)

lemma boot_free: "card (free_set boot_pmm) = 15"
  unfolding free_set_list boot_free_list by simp

lemma cold_wf: "pmm_wf (pt_pmm cold)" "page0_used (pt_pmm cold)"
  unfolding pmm_wf_def page0_used_def by (simp_all add: cold_def boot_free) (simp_all add: boot_pmm_def bm_test_def)

lemma one_pd: "pd_count 0x10000 = 1"
  by (simp add: pd_count_def align_up_def align_up_u64_def)

lemma booted_eq: "paging_init_identity 0x10000 cold = (0, booted)"
  using init_identity_spec [OF cold_wf, of "0x10000" "fst (paging_init_identity 0x10000 cold)" booted]
  by (simp add: booted_def one_pd cold_def boot_free prod_eq_iff)

lemma booted_free: "card (free_set (pt_pmm booted)) = 12" "g_total_pages (pt_pmm booted) = 16" "pt_ok booted"
  using init_identity_spec [OF cold_wf _ _ booted_eq] one_pd boot_free by (simp_all add: cold_def boot_pmm_def)

lemma booted_ceiling: "g_mapped_ceiling booted = 0x200000"
proof -
  have "fst (paging_init_identity 0x10000 cold) = 0" using booted_eq by simp
  then show ?thesis
    by (auto simp: booted_def paging_init_identity_def align_up_def align_up_u64_def Let_def split: prod.splits if_splits)
qed

lemma booted_translates: "unat w < 2 ^ 48 \<Longrightarrow> paging_virt_to_phys w booted = (if unat w < 0x200000 then w else 0)"
  using init_identity_spec [OF cold_wf _ _ booted_eq] booted_ceiling by simp

lemma booted_no_huge: "\<not> large (leaf_at booted [pt_idx 3 0x40001000] (pt_idx 2 0x40001000))"
proof
  assume "large (leaf_at booted [pt_idx 3 0x40001000] (pt_idx 2 0x40001000))"
  then have "paging_virt_to_phys 0x40001000 booted \<noteq> 0"
    using pt_okD(3) [OF booted_free(3) vpath_Nil]
    by (auto simp: v2p_decide decide_def used_page_def or_eq_0_iff simp del: One_nat_def)
  then show False using booted_translates [of "0x40001000"] by simp
qed

theorem identity_map_witness:
  "paging_init_identity 0x10000 cold = (0, booted) \<and> pt_ok booted \<and> paging_virt_to_phys 0x1FFFFF booted = 0x1FFFFF
    \<and> paging_virt_to_phys 0x200000 booted = 0"
proof -
  have "fst (paging_init_identity 0x10000 cold) = 0"
    using identity_map [OF cold_wf _ _ surjective_pairing, of "0x10000"] by (simp add: one_pd cold_def boot_free)
  then have "paging_init_identity 0x10000 cold = (0, booted)" by (simp add: booted_def prod_eq_iff)
  with identity_map [OF cold_wf _ _ this] booted_ceiling show ?thesis by simp
qed

theorem map_4k_translates_witness:
  "paging_map_4k 0x40001000 0x100000 (PTE_W OR PTE_U) booted = (0, mapped)
    \<and> paging_virt_to_phys 0x40001234 mapped = 0x100234 \<and> paging_virt_to_phys 0x1234 mapped = 0x1234"
proof -
  have "paging_map_4k 0x40001000 0x100000 (PTE_W OR PTE_U) booted
      = (fst (paging_map_4k 0x40001000 0x100000 (PTE_W OR PTE_U) booted), mapped)"
    by (simp add: mapped_def)
  note M = map_4k_translates [OF booted_free(3) _ this]
  have r: "fst (paging_map_4k 0x40001000 0x100000 (PTE_W OR PTE_U) booted) = 0"
    using M booted_no_huge booted_free(1) by simp
  with M have "\<forall>w. paging_virt_to_phys w mapped =
      (if page_bits w = page_bits 0x40001000 then 0x100000 OR (w AND 0xFFF) else paging_virt_to_phys w booted)"
    by simp
  then show ?thesis using r booted_translates [of "0x1234"] by (simp add: prod_eq_iff mapped_def page_bits_def)
qed

lemma mapped_eq: "paging_map_4k 0x40001000 0x100000 (PTE_W OR PTE_U) booted = (0, mapped)"
  using map_4k_returns [OF booted_free(3), of "0x40001000" "0x100000" "PTE_W OR PTE_U"] booted_no_huge booted_free(1)
  by (simp add: mapped_def prod_eq_iff)


end
