(* ===== verification/Vmm.thy ===== *)
theory Vmm
  imports Paging
begin

text \<open>
  Address spaces, \<open>src/kernel/mm/vmm.c\<close>: user mappings, the private PML4 of a task cloned
  from the kernel's template, the copy of an address space at fork and its destruction. The
  functions walk tables by level (3 for the PML4, 0 for a page table); the recursion is on
  the level. Physical memory is the word memory of \<open>Paging\<close>, also for the contents of user
  pages. \<open>task_track_user_page\<close> of \<open>src/kernel/proc/task.c\<close> belongs here because fork calls
  it for every page; the list is \<open>user_pages\<close> of the child up to \<open>user_page_count\<close>, and the
  virtual address the code passes along is not stored.
\<close>

section \<open>User mappings\<close>

text \<open>The offset may wrap past a length near \<open>2 ^ 64\<close>, so the loop need not end.\<close>

partial_function (option) map_user_loop :: "u64 \<Rightarrow> u64 \<Rightarrow> u64 \<Rightarrow> u64 \<Rightarrow> u64 \<Rightarrow> paging \<Rightarrow> (int \<times> paging) option" where
  "map_user_loop virt phys len flags off s =
    (if off < len then
       case paging_map_4k (virt + off) (phys + off) flags s of
         (r, s1) \<Rightarrow> if r \<noteq> 0 then Some (-1, s1) else map_user_loop virt phys len flags (off + 4096) s1
     else Some (0, s))"

definition vmm_map_user :: "u64 \<Rightarrow> u64 \<Rightarrow> u64 \<Rightarrow> bool \<Rightarrow> paging \<Rightarrow> (int \<times> paging) option" where
  "vmm_map_user virt phys len wr s =
    (if len = 0 then Some (-1, s)
     else map_user_loop virt phys len (PTE_P OR PTE_U OR (if wr then PTE_W else 0)) 0 s)"

fun alloc_user_loop :: "u64 \<Rightarrow> nat list \<Rightarrow> bool \<Rightarrow> paging \<Rightarrow> nat \<times> paging" where
  "alloc_user_loop virt [] wr s = (1, s)"
| "alloc_user_loop virt (i # is) wr s =
    (case pmm_alloc_page (pt_pmm s) of
       (phys, m) \<Rightarrow>
         if phys = 0 then (0, s\<lparr>pt_pmm := m\<rparr>)
         else
           let s1 = s\<lparr>pt_pmm := m, pmem := zero_page phys (pmem s)\<rparr> in
           case paging_map_4k (virt + of_nat (i * PAGE_SIZE)) (of_nat phys) (PTE_P OR PTE_U OR (if wr then PTE_W else 0)) s1 of
             (r, s2) \<Rightarrow>
               if r \<noteq> 0 then (0, s2\<lparr>pt_pmm := pmm_free_page phys (pt_pmm s2)\<rparr>)
               else alloc_user_loop virt is wr s2)"

definition vmm_alloc_user_pages :: "u64 \<Rightarrow> nat \<Rightarrow> bool \<Rightarrow> paging \<Rightarrow> nat \<times> paging" where
  "vmm_alloc_user_pages virt npages wr s = (if npages = 0 then (0, s) else alloc_user_loop virt [0..<npages] wr s)"

definition vmm_unmap_user_range :: "u64 \<Rightarrow> u64 \<Rightarrow> paging \<Rightarrow> paging" where
  "vmm_unmap_user_range virt len s =
    fold (\<lambda>va s. snd (paging_unmap_4k va s)) (page_walk (virt AND NOT 0xFFF) (align_up_u64 (virt + len) 4096)) s"

definition vmm_set_prot :: "u64 \<Rightarrow> u64 \<Rightarrow> u64 \<Rightarrow> paging \<Rightarrow> int \<times> paging" where
  "vmm_set_prot virt len prot s = paging_set_prot_range virt len (prot AND 2 \<noteq> 0) s"

section \<open>Copying an address space\<close>

abbreviation (input) TASK_MAX_PAGES :: nat where "TASK_MAX_PAGES \<equiv> 2048"

definition task_track_user_page :: "nat \<Rightarrow> nat list \<Rightarrow> nat list" where
  "task_track_user_page phys pages = (if length pages \<ge> TASK_MAX_PAGES then pages else pages @ [phys])"

text \<open>The state of a copy: memory, and the pages tracked for the child.\<close>

type_synonym copying = "paging \<times> nat list"

definition put_entry :: "nat \<Rightarrow> nat \<Rightarrow> u64 \<Rightarrow> copying \<Rightarrow> copying" where
  "put_entry t i v st = (set_ent t i v (fst st), snd st)"

definition copy_page :: "nat \<Rightarrow> nat \<Rightarrow> (nat \<Rightarrow> u64) \<Rightarrow> nat \<Rightarrow> u64" where
  "copy_page new old m = (\<lambda>a. if new \<le> a \<and> a < new + PAGE_SIZE then m (old + (a - new)) else m a)"

text \<open>A fresh frame with the contents of \<open>old\<close>, entered in the list; 0 if no page is left.\<close>

definition clone_frame :: "nat \<Rightarrow> copying \<Rightarrow> nat \<times> copying" where
  "clone_frame old st =
    (case st of (s, pages) \<Rightarrow>
       case pmm_alloc_page (pt_pmm s) of
         (new, m) \<Rightarrow>
           if new = 0 then (0, s\<lparr>pt_pmm := m\<rparr>, pages)
           else (new, s\<lparr>pt_pmm := m, pmem := copy_page new old (pmem s)\<rparr>, task_track_user_page new pages))"

definition new_level :: "copying \<Rightarrow> nat \<times> copying" where
  "new_level st = (case alloc_table (fst st) of (t, s) \<Rightarrow> (t, s, snd st))"

abbreviation (input) ENTRY_FLAGS :: u64 where "ENTRY_FLAGS \<equiv> PTE_W OR PTE_U OR 0x18"

text \<open>An entry of a page table: kernel leaves are shared, user leaves copied.\<close>

definition copy_leaf :: "u64 \<Rightarrow> copying \<Rightarrow> u64 \<times> copying" where
  "copy_leaf pe st =
    (if \<not> has pe PTE_U then (pe, st)
     else case clone_frame (unat (pe AND PTE_ADDR)) st of
            (new, st1) \<Rightarrow> (if new = 0 then 0 else (of_nat new AND PTE_ADDR) OR (pe AND NOT PTE_ADDR), st1))"

text \<open>A 2 MiB user leaf becomes a table of copied pages.\<close>

definition split_one :: "nat \<Rightarrow> u64 \<Rightarrow> nat \<Rightarrow> copying \<Rightarrow> copying" where
  "split_one child_pt pe j st =
    (case clone_frame (unat ((pe AND PTE_ADDR) + of_nat (j * PAGE_SIZE))) st of
       (new, st1) \<Rightarrow>
         put_entry child_pt j (if new = 0 then 0 else (of_nat new AND PTE_ADDR) OR (pe AND ENTRY_FLAGS) OR PTE_P) st1)"

definition copy_big :: "u64 \<Rightarrow> copying \<Rightarrow> u64 \<times> copying" where
  "copy_big pe st =
    (if \<not> has pe PTE_U then (pe, st)
     else case new_level st of
            (child_pt, st1) \<Rightarrow>
              if child_pt = 0 then (0, st1)
              else (of_nat child_pt OR (pe AND ENTRY_FLAGS) OR PTE_P, fold (split_one child_pt pe) [0..<512] st1))"

text \<open>One round of the loops over 512 entries: the new value is computed for a present entry of
  the parent, and 0 is stored otherwise.\<close>

definition copy_entry :: "(u64 \<Rightarrow> copying \<Rightarrow> u64 \<times> copying) \<Rightarrow> nat \<Rightarrow> nat \<Rightarrow> nat \<Rightarrow> copying \<Rightarrow> copying" where
  "copy_entry entry parent_tab child_tab idx st =
    (let pe = ent (fst st) parent_tab idx in
     if \<not> has pe PTE_P then put_entry child_tab idx 0 st
     else case entry pe st of (v, st1) \<Rightarrow> put_entry child_tab idx v st1)"

text \<open>One level; the result is 0 when no page is left for its table.\<close>

definition fill_level :: "(u64 \<Rightarrow> copying \<Rightarrow> u64 \<times> copying) \<Rightarrow> nat \<Rightarrow> copying \<Rightarrow> u64 \<times> copying" where
  "fill_level entry parent_tab st =
    (case new_level st of
       (child_tab, st1) \<Rightarrow>
         if child_tab = 0 then (0, st1)
         else
           (of_nat child_tab OR PTE_P OR PTE_W, fold (copy_entry entry parent_tab child_tab) [0..<512] st1))"

definition link_next :: "u64 \<Rightarrow> u64 \<times> copying \<Rightarrow> u64 \<times> copying" where
  "link_next pe r = (case r of (v, st) \<Rightarrow> (if v = 0 then 0 else v OR (pe AND ENTRY_FLAGS) OR PTE_P, st))"

primrec copy_pt_level :: "nat \<Rightarrow> nat \<Rightarrow> copying \<Rightarrow> u64 \<times> copying" where
  "copy_pt_level 0 parent_tab st = fill_level copy_leaf parent_tab st"
| "copy_pt_level (Suc l) parent_tab st =
    fill_level (\<lambda>pe st.
        if Suc l = 1 \<and> has pe PTE_PS then copy_big pe st
        else if Suc l = 2 \<and> has pe PTE_PS then (pe, st)
        else link_next pe (copy_pt_level l (unat (pe AND PTE_ADDR)) st))
      parent_tab st"

definition vmm_copy_user_page_tables :: "nat \<Rightarrow> copying \<Rightarrow> nat \<times> copying" where
  "vmm_copy_user_page_tables parent_pml4 st =
    (case new_level st of
       (child_pml4, st1) \<Rightarrow>
         if child_pml4 = 0 then (0, st1)
         else
           (child_pml4,
            fold (copy_entry (\<lambda>pe st.
                case copy_pt_level 2 (unat (pe AND PTE_ADDR)) st of
                  (child, st2) \<Rightarrow> (if child \<noteq> 0 then child OR (pe AND ENTRY_FLAGS) else pe, st2))
              parent_pml4 child_pml4) [0..<512] st1))"

section \<open>Cloning the kernel's address space\<close>

primrec clone_kernel_level :: "nat \<Rightarrow> nat \<Rightarrow> copying \<Rightarrow> u64 \<times> copying" where
  "clone_kernel_level 0 parent_tab st = fill_level (\<lambda>pe st. (pe, st)) parent_tab st"
| "clone_kernel_level (Suc l) parent_tab st =
    fill_level (\<lambda>pe st.
        if (Suc l = 1 \<or> Suc l = 2) \<and> has pe PTE_PS then (pe, st)
        else link_next pe (clone_kernel_level l (unat (pe AND PTE_ADDR)) st))
      parent_tab st"

definition vmm_clone_kernel_pml4 :: "paging \<Rightarrow> nat \<times> paging" where
  "vmm_clone_kernel_pml4 s =
    (case alloc_table s of
       (pml4, s1) \<Rightarrow>
         if pml4 = 0 then (0, s1)
         else
           (pml4,
            fst (fold (copy_entry (\<lambda>pe st.
                case clone_kernel_level 2 (unat (pe AND PTE_ADDR)) st of
                  (child, st2) \<Rightarrow> (if child \<noteq> 0 then child else pe, st2))
              (paging_kernel_pml4 s) pml4) [0..<512] (s1, []))))"

section \<open>Destroying an address space\<close>

primrec destroy_level :: "nat \<Rightarrow> nat \<Rightarrow> paging \<Rightarrow> paging" where
  "destroy_level 0 tab s =
    free_page tab
      (fold (\<lambda>idx s.
          let pe = ent s tab idx in
          if \<not> has pe PTE_P then s
          else set_ent tab idx 0
                 (if has pe PTE_U then s\<lparr>pt_pmm := pmm_page_deref (unat (pe AND PTE_ADDR)) (pt_pmm s)\<rparr> else s))
        [0..<512] s)"
| "destroy_level (Suc l) tab s =
    free_page tab
      (fold (\<lambda>idx s.
          let pe = ent s tab idx in
          if \<not> has pe PTE_P then s
          else if has pe PTE_PS then set_ent tab idx 0 s
          else set_ent tab idx 0 (destroy_level l (unat (pe AND PTE_ADDR)) s))
        [0..<512] s)"

definition vmm_destroy_address_space :: "nat \<Rightarrow> paging \<Rightarrow> paging" where
  "vmm_destroy_address_space pml4 s =
    (if pml4 = 0 \<or> pml4 = paging_kernel_pml4 s then s else destroy_level 3 pml4 s)"

end
