(* ===== verification/Vmm_Props.thy ===== *)
theory Vmm_Props
  imports Vmm Paging_Maps
begin

text \<open>
  Address spaces are private. Copying and cloning only write to pages that were free, so no
  existing translation changes, and with enough memory the new tables mirror the old ones:
  kernel leaves are shared, and at fork every user page is replaced by a fresh page with the
  same contents. The argument is made once for the recursion over levels, as the locale
  \<open>leaf_copier\<close> over what is done with a leaf, and used for both functions.
\<close>

section \<open>States that grow\<close>

abbreviation fre :: "paging \<Rightarrow> nat set" where
  "fre s \<equiv> free_set (pt_pmm s)"

text \<open>Physical addresses have 52 bits, so there are at most \<open>2 ^ 40\<close> pages.\<close>

definition mem_ok :: "paging \<Rightarrow> bool" where
  "mem_ok s \<longleftrightarrow> pmm_wf (pt_pmm s) \<and> page0_used (pt_pmm s) \<and> g_total_pages (pt_pmm s) \<le> 2 ^ 40"

text \<open>Pages were taken, and only they were written.\<close>

definition grown :: "paging \<Rightarrow> paging \<Rightarrow> bool" where
  "grown s s' \<longleftrightarrow> mem_ok s' \<and> fre s' \<subseteq> fre s \<and> g_pml4 s' = g_pml4 s \<and> g_kernel_pml4 s' = g_kernel_pml4 s
     \<and> g_cr3 s' = g_cr3 s \<and> g_total_pages (pt_pmm s') = g_total_pages (pt_pmm s)
     \<and> (\<forall>a. a div 4096 \<notin> fre s - fre s' \<longrightarrow> pmem s' a = pmem s a)"

lemma grown_refl: "mem_ok s \<Longrightarrow> grown s s"
  by (simp add: grown_def)

lemma grown_trans: "grown s s' \<Longrightarrow> grown s' s'' \<Longrightarrow> grown s s''"
  unfolding grown_def by (auto simp: subset_iff)

lemma grown_ok: "grown s s' \<Longrightarrow> mem_ok s'"
  by (simp add: grown_def)

lemma grown_fre: "grown s s' \<Longrightarrow> fre s' \<subseteq> fre s"
  by (simp add: grown_def)

lemma word_page: "t mod 4096 = 0 \<Longrightarrow> i < 512 \<Longrightarrow> (t + 8 * i) div 4096 = t div 4096" for t i :: nat
proof -
  assume "t mod 4096 = 0" "i < 512"
  moreover from this obtain b where "t = 4096 * b" by (metis mod_0_imp_dvd dvdE)
  ultimately show ?thesis by simp
qed

text \<open>A table that is in use, or was not free before, keeps its entries.\<close>

lemma grown_ent:
  assumes "grown s s'" "t mod 4096 = 0" "t div 4096 \<notin> fre s" "i < 512"
  shows "ent s' t i = ent s t i"
  using assms word_page [OF assms(2,4)] by (simp add: grown_def ent_def)

lemma grown_mem: "grown s s' \<Longrightarrow> \<forall>a. a div 4096 \<notin> fre s \<longrightarrow> pmem s' a = pmem s a"
  by (simp add: grown_def)

lemma grown_set_ent:
  assumes g: "grown s s'" and t: "t mod 4096 = 0" "t div 4096 \<in> fre s" "t div 4096 \<notin> fre s'" "i < 512"
  shows "grown s (set_ent t i v s')"
proof -
  have "pmem (set_ent t i v s') a = pmem s' a" if "a div 4096 \<notin> fre s - fre s'" for a
    using that t word_page [OF t(1,4)] by (auto simp: set_ent_def)
  then show ?thesis using g by (simp add: grown_def mem_ok_def set_ent_def)
qed

lemma mem_ok_limit: "mem_ok s \<Longrightarrow> p \<in> fre s \<Longrightarrow> p * 4096 < 2 ^ 52"
  by (auto simp: mem_ok_def free_set_def)

lemma finite_fre [simp]: "finite (fre s)"
  by (rule finite_free_set)

lemma alloc_page_cases:
  assumes "pmm_wf m0" "page0_used m0" "pmm_alloc_page m0 = (n, m)"
  obtains (full) "free_set m0 = {}" "n = 0" "m = m0"
    | (page) p where "p \<in> free_set m0" "p \<noteq> 0" "n = p * 4096" "pmm_wf m" "page0_used m" "free_set m = free_set m0 - {p}"
        "g_total_pages m = g_total_pages m0"
proof (cases "free_set m0 = {}")
  case True
  then show ?thesis using full assms(3) alloc_page_full by simp
next
  case False
  define p where "p = Min (free_set m0)"
  have p: "p \<in> free_set m0" unfolding p_def using False by (intro Min_in finite_free_set)
  then have nz: "p \<noteq> 0" using assms(2) unfolding page0_used_iff by metis
  have e: "n = p * 4096" "m = take_page p m0" using alloc_page_some [OF assms(1) False] assms(3) by (simp_all add: p_def)
  note T = pmm_wf_take [OF assms(1) p, folded e(2)]
  have "page0_used m" using assms(2) T(2,4) by (simp add: page0_used_iff)
  then show ?thesis by (rule page [OF p nz e(1) T(1) _ T(2,4)])
qed

text \<open>A page is taken and filled.\<close>

lemma grown_take:
  assumes ok: "mem_ok s" and p: "p \<in> fre s" "pmm_wf m" "page0_used m" "free_set m = fre s - {p}"
      "g_total_pages m = g_total_pages (pt_pmm s)"
    and f: "\<forall>a. a div 4096 \<noteq> p \<longrightarrow> f a = pmem s a"
  shows "grown s (s\<lparr>pt_pmm := m, pmem := f\<rparr>)"
  using assms by (auto simp: grown_def mem_ok_def)

lemma page_range: "(p * 4096 \<le> a \<and> a < p * 4096 + 4096) = (a div 4096 = p)" for a p :: nat
  by (auto simp: div_nat_eqI)

lemma new_level_cases:
  assumes "mem_ok (fst st)" "new_level st = (n, st')"
  obtains (full) "fre (fst st) = {}" "n = 0" "st' = st"
    | (table) "n mod 4096 = 0" "0 < n" "n div 4096 \<in> fre (fst st)" "fre (fst st') = fre (fst st) - {n div 4096}"
        "grown (fst st) (fst st')" "\<forall>i<512. ent (fst st') n i = 0" "n < 2 ^ 52"
proof -
  have W: "pmm_wf (pt_pmm (fst st))" "page0_used (pt_pmm (fst st))" using assms(1) by (simp_all add: mem_ok_def)
  obtain q m where a: "pmm_alloc_page (pt_pmm (fst st)) = (q, m)" by fastforce
  show ?thesis
  proof (cases rule: alloc_page_cases [OF W a, case_names F T])
    case F
    then show ?thesis using full assms(2) a by (cases st) (simp add: new_level_def alloc_table_def)
  next
    case (T p)
    have e: "n = p * 4096" "st' = ((fst st)\<lparr>pt_pmm := m, pmem := zero_page n (pmem (fst st))\<rparr>, snd st)"
      using assms(2) a T by (auto simp: new_level_def alloc_table_def)
    have "grown (fst st) (fst st')"
      unfolding e(2) fst_conv by (rule grown_take [OF assms(1) T(1,4-7)]) (simp add: zero_page_def e(1) page_range)
    moreover have "\<forall>i<512. ent (fst st') n i = 0" by (simp add: e(2) ent_def zero_page_def)
    ultimately show ?thesis
      using table T mem_ok_limit [OF assms(1) T(1)] by (simp add: e)
  qed
qed

lemma clone_frame_cases:
  assumes "mem_ok (fst st)" "clone_frame old st = (n, st')" "old mod 4096 = 0"
  obtains (full) "fre (fst st) = {}" "n = 0" "fst st' = fst st"
    | (frame) "n mod 4096 = 0" "0 < n" "n div 4096 \<in> fre (fst st)" "fre (fst st') = fre (fst st) - {n div 4096}"
        "grown (fst st) (fst st')" "\<forall>k<4096. pmem (fst st') (n + k) = pmem (fst st) (old + k)" "n < 2 ^ 52"
proof -
  have W: "pmm_wf (pt_pmm (fst st))" "page0_used (pt_pmm (fst st))" using assms(1) by (simp_all add: mem_ok_def)
  obtain q m where a: "pmm_alloc_page (pt_pmm (fst st)) = (q, m)" by fastforce
  show ?thesis
  proof (cases rule: alloc_page_cases [OF W a, case_names F T])
    case F
    have "clone_frame old st = (0, (fst st)\<lparr>pt_pmm := m\<rparr>, snd st)"
      unfolding clone_frame_def by (subst surjective_pairing [of st]) (simp only: prod.case a F(2) if_True refl)
    with assms(2) have "n = 0" "st' = ((fst st)\<lparr>pt_pmm := m\<rparr>, snd st)" by simp_all
    then have "n = 0" "fst st' = fst st" by (simp_all add: F(3))
    then show ?thesis by (rule full [OF F(1)])
  next
    case (T p)
    have q: "q \<noteq> 0" using T(2,3) by simp
    have "clone_frame old st =
        (q, (fst st)\<lparr>pt_pmm := m, pmem := copy_page q old (pmem (fst st))\<rparr>, task_track_user_page q (snd st))"
      unfolding clone_frame_def by (subst surjective_pairing [of st]) (simp only: prod.case a q if_False)
    then have e: "n = p * 4096" "fst st' = (fst st)\<lparr>pt_pmm := m, pmem := copy_page n old (pmem (fst st))\<rparr>"
      using assms(2) T(3) by auto
    have "grown (fst st) (fst st')"
      unfolding e(2) by (rule grown_take [OF assms(1) T(1,4-7)]) (simp add: copy_page_def e(1) page_range)
    moreover have "\<forall>k<4096. pmem (fst st') (n + k) = pmem (fst st) (old + k)" by (simp add: e(2) copy_page_def)
    ultimately show ?thesis
      using frame T mem_ok_limit [OF assms(1) T(1)] by (simp add: e)
  qed
qed

section \<open>Filling the entries of a table\<close>

text \<open>Pages hold what they held, except for some.\<close>

lemma put_entry_fst [simp]: "fst (put_entry t i v st) = set_ent t i v (fst st)" "snd (put_entry t i v st) = snd st"
  by (simp_all add: put_entry_def)

lemma pmem_set_ent: "t mod 4096 = 0 \<Longrightarrow> i < 512 \<Longrightarrow> a div 4096 \<noteq> t div 4096 \<Longrightarrow> pmem (set_ent t i v s) a = pmem s a"
  using word_page [of t i] by (auto simp: set_ent_def)

text \<open>
  The loop over the entries, for any way \<open>entry\<close> of computing one that only takes free pages.
  \<open>Q i H m v\<close> is what \<open>entry\<close> achieves for entry \<open>i\<close>: the value \<open>v\<close> is right in memory \<open>m\<close>,
  using the pages \<open>H\<close>; it may depend on \<open>H\<close> and on pages that are not free at the start.
  The price of an entry is the number of pages it takes.
\<close>

definition shares :: "nat set \<Rightarrow> nat \<Rightarrow> nat \<Rightarrow> (nat \<Rightarrow> nat set) \<Rightarrow> bool" where
  "shares G c n H \<longleftrightarrow> (\<forall>i<n. H i \<subseteq> G - {c div 4096}) \<and> (\<forall>i<n. \<forall>j<n. i \<noteq> j \<longrightarrow> H i \<inter> H j = {})"

definition entry_ok ::
  "(u64 \<Rightarrow> copying \<Rightarrow> u64 \<times> copying) \<Rightarrow> paging \<Rightarrow> u64 \<Rightarrow> nat \<Rightarrow> (nat set \<Rightarrow> (nat \<Rightarrow> u64) \<Rightarrow> u64 \<Rightarrow> bool) \<Rightarrow> bool" where
  "entry_ok entry s0 e price Q \<longleftrightarrow>
     (\<forall>st v st'. grown s0 (fst st) \<longrightarrow> entry e st = (v, st') \<longrightarrow>
        grown (fst st) (fst st')
        \<and> (price \<le> card (fre (fst st)) \<longrightarrow>
             card (fre (fst st')) + price = card (fre (fst st)) \<and> Q (fre (fst st) - fre (fst st')) (pmem (fst st')) v))
     \<and> (\<forall>H m m' v. Q H m v \<longrightarrow> H \<subseteq> fre s0 \<longrightarrow> (\<forall>a. a div 4096 \<notin> fre s0 \<longrightarrow> m a = pmem s0 a) \<longrightarrow>
          (\<forall>a. a div 4096 \<in> H \<union> - fre s0 \<longrightarrow> m' a = m a) \<longrightarrow> Q H m' v)"

lemma fold_entries:
  assumes g1: "grown s0 (fst st1)"
    and c: "c mod 4096 = 0" "c div 4096 \<in> fre s0" "c div 4096 \<notin> fre (fst st1)"
    and t: "t mod 4096 = 0" "t div 4096 \<notin> fre s0"
    and E: "\<forall>i<512. has (ent s0 t i) PTE_P \<longrightarrow> entry_ok entry s0 (ent s0 t i) (k i) (Q i)"
    and n: "n \<le> 512" and st: "st = fold (copy_entry entry t c) [0..<n] st1"
  shows "grown s0 (fst st) \<and> fre (fst st) \<subseteq> fre (fst st1) \<and>
    ((\<Sum>i<n. if has (ent s0 t i) PTE_P then k i else 0) \<le> card (fre (fst st1)) \<longrightarrow>
       card (fre (fst st)) + (\<Sum>i<n. if has (ent s0 t i) PTE_P then k i else 0) = card (fre (fst st1)) \<and>
       (\<exists>H. shares (fre (fst st1) - fre (fst st)) c n H \<and>
          (\<forall>i<n. if has (ent s0 t i) PTE_P then Q i (H i) (pmem (fst st)) (ent (fst st) c i)
                 else ent (fst st) c i = 0)))"
  using n st
proof (induction n arbitrary: st)
  case 0
  then show ?case using g1 by (auto simp: shares_def)
next
  case (Suc n)
  define sn where "sn = fold (copy_entry entry t c) [0..<n] st1"
  have st: "st = copy_entry entry t c n sn" using Suc.prems(2) by (simp add: sn_def)
  have n: "n < 512" using Suc.prems(1) by simp
  note IH = Suc.IH [OF less_imp_le [OF n] sn_def]
  then have gn: "grown s0 (fst sn)" and fn: "fre (fst sn) \<subseteq> fre (fst st1)" by auto
  have e: "ent (fst sn) t n = ent s0 t n" by (rule grown_ent [OF gn t n])
  have cn: "c div 4096 \<notin> fre (fst sn)" using c(3) fn by auto
  have cu: "pmem (set_ent c n v s) a = pmem s a" if "a div 4096 \<noteq> c div 4096" for v s a
    by (rule pmem_set_ent [OF c(1) n that])
  have ec: "ent (set_ent c n v s) c i = (if i = n then v else ent s c i)" if "i < 512" for v s i
    using ent_set_ent [OF c(1) c(1) n that] by auto
  show ?case
  proof (cases "has (ent s0 t n) PTE_P")
    case False
    then have st': "fst st = set_ent c n 0 (fst sn)" by (simp add: st copy_entry_def e)
    have sum: "(\<Sum>i<Suc n. if has (ent s0 t i) PTE_P then k i else 0) = (\<Sum>i<n. if has (ent s0 t i) PTE_P then k i else 0)"
      using False by simp
    show ?thesis
      unfolding sum
    proof (intro conjI impI)
      show "grown s0 (fst st)" unfolding st' by (rule grown_set_ent [OF gn c(1,2) cn n])
      show "fre (fst st) \<subseteq> fre (fst st1)" using fn by (simp add: st')
      assume le: "(\<Sum>i<n. if has (ent s0 t i) PTE_P then k i else 0) \<le> card (fre (fst st1))"
      then show "card (fre (fst st)) + (\<Sum>i<n. if has (ent s0 t i) PTE_P then k i else 0) = card (fre (fst st1))"
        using IH by (simp add: st')
      obtain H where H: "shares (fre (fst st1) - fre (fst sn)) c n H"
        "\<forall>i<n. if has (ent s0 t i) PTE_P then Q i (H i) (pmem (fst sn)) (ent (fst sn) c i) else ent (fst sn) c i = 0"
        using IH le by blast
      have "shares (fre (fst st1) - fre (fst st)) c (Suc n) (H(n := {}))"
        using H(1) by (auto simp: shares_def st' less_Suc_eq)
      moreover have "if has (ent s0 t i) PTE_P then Q i ((H(n := {})) i) (pmem (fst st)) (ent (fst st) c i)
          else ent (fst st) c i = 0" if i: "i < Suc n" for i
      proof (cases "i = n")
        case True
        then show ?thesis using False n by (simp add: st' ec)
      next
        case F: False
        then have i': "i < n" "i < 512" using i n by auto
        have h: "H i \<subseteq> fre s0" "c div 4096 \<notin> H i"
          using H(1) i'(1) grown_fre [OF g1] unfolding shares_def by blast+
        have q: "\<forall>a. a div 4096 \<in> H i \<union> - fre s0 \<longrightarrow> pmem (fst st) a = pmem (fst sn) a"
          using h(2) c(2) by (auto simp: st' intro!: cu)
        have "Q i (H i) (pmem (fst st)) (ent (fst sn) c i)" if p: "has (ent s0 t i) PTE_P"
        proof -
          have "Q i (H i) (pmem (fst sn)) (ent (fst sn) c i)" using H(2) i'(1) p by (auto split: if_splits)
          then show ?thesis using E [rule_format, OF i'(2) p] h(1) q grown_mem [OF gn] unfolding entry_ok_def by blast
        qed
        then show ?thesis using H(2) i' F by (auto simp: st' ec split: if_splits)
      qed
      ultimately show "\<exists>H. shares (fre (fst st1) - fre (fst st)) c (Suc n) H \<and>
          (\<forall>i<Suc n. if has (ent s0 t i) PTE_P then Q i (H i) (pmem (fst st)) (ent (fst st) c i) else ent (fst st) c i = 0)"
        by blast
    qed
  next
    case True
    obtain v s2 where en: "entry (ent s0 t n) sn = (v, s2)" by (rule prod.exhaust)
    then have st': "fst st = set_ent c n v (fst s2)" using True by (simp add: st copy_entry_def e)
    note C = E [rule_format, OF n True, unfolded entry_ok_def]
    have g2: "grown (fst sn) (fst s2)" using C gn en by blast
    have c2: "c div 4096 \<notin> fre (fst s2)" using cn grown_fre [OF g2] by auto
    have sum: "(\<Sum>i<Suc n. if has (ent s0 t i) PTE_P then k i else 0) = (\<Sum>i<n. if has (ent s0 t i) PTE_P then k i else 0) + k n"
      using True by simp
    show ?thesis
      unfolding sum
    proof (intro conjI impI)
      show "grown s0 (fst st)" unfolding st' by (rule grown_set_ent [OF grown_trans [OF gn g2] c(1,2) c2 n])
      show "fre (fst st) \<subseteq> fre (fst st1)" using fn grown_fre [OF g2] by (auto simp: st')
      assume le: "(\<Sum>i<n. if has (ent s0 t i) PTE_P then k i else 0) + k n \<le> card (fre (fst st1))"
      then have I: "card (fre (fst sn)) + (\<Sum>i<n. if has (ent s0 t i) PTE_P then k i else 0) = card (fre (fst st1))"
        using IH by simp
      then have kn: "k n \<le> card (fre (fst sn))" using le by simp
      then have S: "card (fre (fst s2)) + k n = card (fre (fst sn))" "Q n (fre (fst sn) - fre (fst s2)) (pmem (fst s2)) v"
        using C gn en by blast+
      show "card (fre (fst st)) + ((\<Sum>i<n. if has (ent s0 t i) PTE_P then k i else 0) + k n) = card (fre (fst st1))"
        using I S(1) by (simp add: st')
      obtain H where H: "shares (fre (fst st1) - fre (fst sn)) c n H"
        "\<forall>i<n. if has (ent s0 t i) PTE_P then Q i (H i) (pmem (fst sn)) (ent (fst sn) c i) else ent (fst sn) c i = 0"
        using IH le by auto
      define N where "N = fre (fst sn) - fre (fst s2)"
      have pr: "shares (fre (fst st1) - fre (fst st)) c (Suc n) (H(n := N))"
        using H(1) cn fn grown_fre [OF g2] unfolding shares_def N_def st' set_ent_sel
        by (auto simp: less_Suc_eq)
      have "if has (ent s0 t i) PTE_P then Q i ((H(n := N)) i) (pmem (fst st)) (ent (fst st) c i)
          else ent (fst st) c i = 0" if i: "i < Suc n" for i
      proof (cases "i = n")
        case i_n: True
        have "N \<subseteq> fre s0" using grown_fre [OF gn] by (auto simp: N_def)
        moreover have "\<forall>a. a div 4096 \<in> N \<union> - fre s0 \<longrightarrow> pmem (fst st) a = pmem (fst s2) a"
          using cn c(2) by (auto simp: st' N_def intro!: cu)
        ultimately have "Q n N (pmem (fst st)) v"
          using C S(2) grown_mem [OF grown_trans [OF gn g2]] unfolding N_def by blast
        then show ?thesis using True i_n n by (simp add: st' ec)
      next
        case F: False
        then have i': "i < n" "i < 512" using i n by auto
        have h: "H i \<subseteq> fre s0" "c div 4096 \<notin> H i" "H i \<inter> fre (fst sn) = {}"
          using H(1) i'(1) grown_fre [OF g1] unfolding shares_def by blast+
        have en2: "ent (fst s2) c i = ent (fst sn) c i" by (rule grown_ent [OF g2 c(1) cn i'(2)])
        have q: "\<forall>a. a div 4096 \<in> H i \<union> - fre s0 \<longrightarrow> pmem (fst st) a = pmem (fst sn) a"
        proof (intro allI impI)
          fix a assume a: "a div 4096 \<in> H i \<union> - fre s0"
          then have "pmem (fst st) a = pmem (fst s2) a" using h(2) c(2) by (auto simp: st' intro!: cu)
          also have "\<dots> = pmem (fst sn) a" using g2 a h(3) grown_fre [OF gn] unfolding grown_def by blast
          finally show "pmem (fst st) a = pmem (fst sn) a" .
        qed
        have "Q i (H i) (pmem (fst st)) (ent (fst sn) c i)" if p: "has (ent s0 t i) PTE_P"
        proof -
          have "Q i (H i) (pmem (fst sn)) (ent (fst sn) c i)" using H(2) i'(1) p by (auto split: if_splits)
          then show ?thesis using E [rule_format, OF i'(2) p] h(1) q grown_mem [OF gn] unfolding entry_ok_def by blast
        qed
        then show ?thesis using H(2) i' F by (auto simp: st' ec en2 split: if_splits)
      qed
      with pr show "\<exists>H. shares (fre (fst st1) - fre (fst st)) c (Suc n) H \<and>
          (\<forall>i<Suc n. if has (ent s0 t i) PTE_P then Q i (H i) (pmem (fst st)) (ent (fst st) c i) else ent (fst st) c i = 0)"
        by blast
    qed
  qed
qed

section \<open>Copying level by level\<close>

definition big :: "nat \<Rightarrow> u64 \<Rightarrow> bool" where
  "big l e \<longleftrightarrow> (l = 1 \<or> l = 2) \<and> has e PTE_PS"

text \<open>The common shape of the two recursions, for a way of copying a leaf.\<close>

primrec build :: "(nat \<Rightarrow> u64 \<Rightarrow> copying \<Rightarrow> u64 \<times> copying) \<Rightarrow> nat \<Rightarrow> nat \<Rightarrow> copying \<Rightarrow> u64 \<times> copying" where
  "build leaf 0 t st = fill_level (leaf 0) t st"
| "build leaf (Suc l) t st =
    fill_level (\<lambda>e st. if big (Suc l) e then leaf (Suc l) e st else link_next e (build leaf l (unat (e AND PTE_ADDR)) st)) t st"

definition share_leaf :: "nat \<Rightarrow> u64 \<Rightarrow> copying \<Rightarrow> u64 \<times> copying" where
  "share_leaf l e st = (e, st)"

definition fork_leaf :: "nat \<Rightarrow> u64 \<Rightarrow> copying \<Rightarrow> u64 \<times> copying" where
  "fork_leaf l e st = (if l = 0 then copy_leaf e st else if l = 1 then copy_big e st else (e, st))"

lemma clone_is_build: "clone_kernel_level l = build share_leaf l"
proof (induction l)
  case 0
  show ?case by (rule ext)+ (simp add: share_leaf_def [abs_def])
next
  case (Suc l)
  show ?case by (rule ext)+ (simp add: Suc big_def share_leaf_def [of "Suc l"] cong: if_cong)
qed

lemma copy_is_build: "copy_pt_level l = build fork_leaf l"
proof (induction l)
  case 0
  show ?case by (rule ext)+ (simp add: fork_leaf_def [abs_def])
next
  case (Suc l)
  have eq: "(\<lambda>pe st. if Suc l = 1 \<and> has pe PTE_PS then copy_big pe st else if Suc l = 2 \<and> has pe PTE_PS then (pe, st)
        else link_next pe (copy_pt_level l (unat (pe AND PTE_ADDR)) st))
      = (\<lambda>e st. if big (Suc l) e then fork_leaf (Suc l) e st else link_next e (build fork_leaf l (unat (e AND PTE_ADDR)) st))"
    by (rule ext)+ (simp only: Suc big_def fork_leaf_def [of "Suc l"], simp)
  show ?case by (rule ext)+ (simp only: copy_pt_level.simps build.simps eq)
qed

text \<open>
  The tables below a table lie outside the pages \<open>F\<close>, and so do the pages the copy of a leaf
  reads. The price of a table is the number of pages its copy takes. A table mirrors another
  when each entry is copied, with pages of its own.
\<close>

primrec away :: "(nat \<Rightarrow> u64 \<Rightarrow> nat set) \<Rightarrow> nat set \<Rightarrow> nat \<Rightarrow> (nat \<Rightarrow> u64) \<Rightarrow> nat \<Rightarrow> bool" where
  "away keep F 0 m t \<longleftrightarrow> t mod 4096 = 0 \<and> t div 4096 \<notin> F
     \<and> (\<forall>i<512. has (m (t + 8 * i)) PTE_P \<longrightarrow> keep 0 (m (t + 8 * i)) \<inter> F = {})"
| "away keep F (Suc l) m t \<longleftrightarrow> t mod 4096 = 0 \<and> t div 4096 \<notin> F
     \<and> (\<forall>i<512. has (m (t + 8 * i)) PTE_P \<longrightarrow>
          (if big (Suc l) (m (t + 8 * i)) then keep (Suc l) (m (t + 8 * i)) \<inter> F = {}
           else unat (m (t + 8 * i) AND PTE_ADDR) = tbl (m (t + 8 * i)) \<and> away keep F l m (tbl (m (t + 8 * i)))))"

primrec price :: "(nat \<Rightarrow> u64 \<Rightarrow> nat) \<Rightarrow> nat \<Rightarrow> (nat \<Rightarrow> u64) \<Rightarrow> nat \<Rightarrow> nat" where
  "price k 0 m t = Suc (\<Sum>i<512. if has (m (t + 8 * i)) PTE_P then k 0 (m (t + 8 * i)) else 0)"
| "price k (Suc l) m t =
    Suc (\<Sum>i<512. if has (m (t + 8 * i)) PTE_P
                  then (if big (Suc l) (m (t + 8 * i)) then k (Suc l) (m (t + 8 * i)) else price k l m (tbl (m (t + 8 * i))))
                  else 0)"

primrec mirror :: "(nat \<Rightarrow> nat set \<Rightarrow> (nat \<Rightarrow> u64) \<Rightarrow> u64 \<Rightarrow> u64 \<Rightarrow> bool) \<Rightarrow> nat set \<Rightarrow> nat \<Rightarrow> (nat \<Rightarrow> u64) \<Rightarrow> nat \<Rightarrow> nat \<Rightarrow> bool" where
  "mirror R G 0 m t c \<longleftrightarrow> c mod 4096 = 0 \<and> c div 4096 \<in> G
     \<and> (\<exists>H. shares G c 512 H \<and>
          (\<forall>i<512. if has (m (t + 8 * i)) PTE_P then R 0 (H i) m (m (t + 8 * i)) (m (c + 8 * i)) else m (c + 8 * i) = 0))"
| "mirror R G (Suc l) m t c \<longleftrightarrow> c mod 4096 = 0 \<and> c div 4096 \<in> G
     \<and> (\<exists>H. shares G c 512 H \<and>
          (\<forall>i<512. if has (m (t + 8 * i)) PTE_P
                   then (if big (Suc l) (m (t + 8 * i)) then R (Suc l) (H i) m (m (t + 8 * i)) (m (c + 8 * i))
                         else has (m (c + 8 * i)) PTE_P \<and> \<not> has (m (c + 8 * i)) PTE_PS
                              \<and> (has (m (c + 8 * i)) PTE_U \<longleftrightarrow> has (m (t + 8 * i)) PTE_U)
                              \<and> mirror R (H i) l m (tbl (m (t + 8 * i))) (tbl (m (c + 8 * i))))
                   else m (c + 8 * i) = 0))"

lemma away_table: "away keep F l m t \<Longrightarrow> t mod 4096 = 0 \<and> t div 4096 \<notin> F"
  by (cases l) simp_all

lemma away_word: "away keep F l m t \<Longrightarrow> \<forall>a. a div 4096 \<notin> F \<longrightarrow> m' a = m a \<Longrightarrow> i < 512 \<Longrightarrow> m' (t + 8 * i) = m (t + 8 * i)"
  using away_table [of keep F l m t] word_page [of t i] by simp

lemma away_frame:
  "away keep F l m t \<Longrightarrow> \<forall>a. a div 4096 \<notin> F \<longrightarrow> m' a = m a \<Longrightarrow> F' \<subseteq> F \<Longrightarrow> away keep F' l m' t \<and> price k l m' t = price k l m t"
proof (induction l arbitrary: t)
  case 0
  note w = away_word [OF 0(1,2)]
  have "(\<Sum>i<512. if has (m' (t + 8 * i)) PTE_P then k 0 (m' (t + 8 * i)) else 0)
      = (\<Sum>i<512. if has (m (t + 8 * i)) PTE_P then k 0 (m (t + 8 * i)) else 0)"
    by (rule sum.cong) (simp_all add: w)
  then show ?case using 0 w by (auto simp: subset_iff disjoint_iff)
next
  case (Suc l)
  note w = away_word [OF Suc(2,3)]
  have sub: "away keep F' l m' (tbl (m (t + 8 * i))) \<and> price k l m' (tbl (m (t + 8 * i))) = price k l m (tbl (m (t + 8 * i)))"
    if "i < 512" "has (m (t + 8 * i)) PTE_P" "\<not> big (Suc l) (m (t + 8 * i))" for i
    using Suc.IH [OF _ Suc.prems(2,3)] Suc.prems(1) that by auto
  have "(\<Sum>i<512. if has (m' (t + 8 * i)) PTE_P
          then (if big (Suc l) (m' (t + 8 * i)) then k (Suc l) (m' (t + 8 * i)) else price k l m' (tbl (m' (t + 8 * i)))) else 0)
      = (\<Sum>i<512. if has (m (t + 8 * i)) PTE_P
          then (if big (Suc l) (m (t + 8 * i)) then k (Suc l) (m (t + 8 * i)) else price k l m (tbl (m (t + 8 * i)))) else 0)"
    by (rule sum.cong) (auto simp: w sub)
  then have p: "price k (Suc l) m' t = price k (Suc l) m t" by simp
  have "away keep F' (Suc l) m' t"
    unfolding away.simps
  proof (intro conjI allI impI)
    show "t mod 4096 = 0" "t div 4096 \<notin> F'" using Suc.prems by auto
    fix i :: nat assume i: "i < 512" "has (m' (t + 8 * i)) PTE_P"
    have P: "has (m (t + 8 * i)) PTE_P" using i w by simp
    have A: "if big (Suc l) (m (t + 8 * i)) then keep (Suc l) (m (t + 8 * i)) \<inter> F = {}
        else unat (m (t + 8 * i) AND PTE_ADDR) = tbl (m (t + 8 * i)) \<and> away keep F l m (tbl (m (t + 8 * i)))"
      using Suc.prems(1) i(1) P by simp
    show "if big (Suc l) (m' (t + 8 * i)) then keep (Suc l) (m' (t + 8 * i)) \<inter> F' = {}
        else unat (m' (t + 8 * i) AND PTE_ADDR) = tbl (m' (t + 8 * i)) \<and> away keep F' l m' (tbl (m' (t + 8 * i)))"
      using A sub [OF i(1) P] Suc.prems(3) unfolding w [OF i(1)] by (auto split: if_splits)
  qed
  with p show ?case by blast
qed

text \<open>What the copy of a leaf must achieve.\<close>

locale leaf_copier =
  fixes leaf :: "nat \<Rightarrow> u64 \<Rightarrow> copying \<Rightarrow> u64 \<times> copying"
    and keep :: "nat \<Rightarrow> u64 \<Rightarrow> nat set"
    and k :: "nat \<Rightarrow> u64 \<Rightarrow> nat"
    and R :: "nat \<Rightarrow> nat set \<Rightarrow> (nat \<Rightarrow> u64) \<Rightarrow> u64 \<Rightarrow> u64 \<Rightarrow> bool"
  assumes leaf_grows: "mem_ok (fst st) \<Longrightarrow> has e PTE_P \<Longrightarrow> l = 0 \<or> big l e \<Longrightarrow> keep l e \<inter> fre (fst st) = {} \<Longrightarrow>
      leaf l e st = (v, st') \<Longrightarrow> grown (fst st) (fst st')"
    and leaf_copies: "mem_ok (fst st) \<Longrightarrow> has e PTE_P \<Longrightarrow> l = 0 \<or> big l e \<Longrightarrow> keep l e \<inter> fre (fst st) = {} \<Longrightarrow>
      leaf l e st = (v, st') \<Longrightarrow> k l e \<le> card (fre (fst st)) \<Longrightarrow>
      card (fre (fst st')) + k l e = card (fre (fst st)) \<and> R l (fre (fst st) - fre (fst st')) (pmem (fst st')) e v"
    and leaf_frame: "R l H m e v \<Longrightarrow> \<forall>a. a div 4096 \<in> H \<union> keep l e \<longrightarrow> m' a = m a \<Longrightarrow> R l H m' e v"
begin

lemma mirror_frame:
  "mirror R G l m t c \<Longrightarrow> away keep F l m t \<Longrightarrow> \<forall>a. a div 4096 \<in> G \<union> - F \<longrightarrow> m' a = m a \<Longrightarrow> mirror R G l m' t c"
proof (induction l arbitrary: G t c)
  case 0
  have tw: "m' (t + 8 * i) = m (t + 8 * i)" if "i < 512" for i using away_word [OF 0(2) _ that, of m'] 0(3) by blast
  have cw: "m' (c + 8 * i) = m (c + 8 * i)" if "i < 512" for i using 0(1,3) word_page [OF _ that, of c] by simp
  obtain H where H: "shares G c 512 H"
    "\<forall>i<512. if has (m (t + 8 * i)) PTE_P then R 0 (H i) m (m (t + 8 * i)) (m (c + 8 * i)) else m (c + 8 * i) = 0"
    using 0(1) by auto
  have "R 0 (H i) m' (m (t + 8 * i)) (m (c + 8 * i))" if i: "i < 512" "has (m (t + 8 * i)) PTE_P" for i
  proof (rule leaf_frame)
    show "R 0 (H i) m (m (t + 8 * i)) (m (c + 8 * i))" using H(2) i by (auto split: if_splits)
    have "H i \<subseteq> G" "keep 0 (m (t + 8 * i)) \<inter> F = {}" using H(1) i 0(2) by (auto simp: shares_def)
    then show "\<forall>a. a div 4096 \<in> H i \<union> keep 0 (m (t + 8 * i)) \<longrightarrow> m' a = m a" using 0(3) by blast
  qed
  then show ?case using 0(1) H by (auto simp: tw cw intro!: exI [of _ H])
next
  case (Suc l)
  have tw: "m' (t + 8 * i) = m (t + 8 * i)" if "i < 512" for i using away_word [OF Suc(3) _ that, of m'] Suc(4) by blast
  have cw: "m' (c + 8 * i) = m (c + 8 * i)" if "i < 512" for i using Suc(2,4) word_page [OF _ that, of c] by simp
  obtain H where H: "shares G c 512 H"
    "\<forall>i<512. if has (m (t + 8 * i)) PTE_P
       then (if big (Suc l) (m (t + 8 * i)) then R (Suc l) (H i) m (m (t + 8 * i)) (m (c + 8 * i))
             else has (m (c + 8 * i)) PTE_P \<and> \<not> has (m (c + 8 * i)) PTE_PS
                  \<and> (has (m (c + 8 * i)) PTE_U \<longleftrightarrow> has (m (t + 8 * i)) PTE_U)
                  \<and> mirror R (H i) l m (tbl (m (t + 8 * i))) (tbl (m (c + 8 * i))))
       else m (c + 8 * i) = 0"
    using Suc.prems(1) by auto
  have h: "H i \<subseteq> G" if "i < 512" for i using H(1) that by (auto simp: shares_def)
  have r: "R (Suc l) (H i) m' (m (t + 8 * i)) (m (c + 8 * i))"
    if i: "i < 512" "has (m (t + 8 * i)) PTE_P" "big (Suc l) (m (t + 8 * i))" for i
  proof (rule leaf_frame)
    show "R (Suc l) (H i) m (m (t + 8 * i)) (m (c + 8 * i))" using H(2) i by (auto split: if_splits)
    have "keep (Suc l) (m (t + 8 * i)) \<inter> F = {}" using i Suc.prems(2) by auto
    then show "\<forall>a. a div 4096 \<in> H i \<union> keep (Suc l) (m (t + 8 * i)) \<longrightarrow> m' a = m a" using h [OF i(1)] Suc.prems(3) by blast
  qed
  have s: "mirror R (H i) l m' (tbl (m (t + 8 * i))) (tbl (m (c + 8 * i)))"
    if i: "i < 512" "has (m (t + 8 * i)) PTE_P" "\<not> big (Suc l) (m (t + 8 * i))" for i
  proof (rule Suc.IH)
    show "mirror R (H i) l m (tbl (m (t + 8 * i))) (tbl (m (c + 8 * i)))" using H(2) i by (auto split: if_splits)
    show "away keep F l m (tbl (m (t + 8 * i)))" using i Suc.prems(2) by auto
    show "\<forall>a. a div 4096 \<in> H i \<union> - F \<longrightarrow> m' a = m a" using h [OF i(1)] Suc.prems(3) by blast
  qed
  have "\<forall>i<512. if has (m' (t + 8 * i)) PTE_P
       then (if big (Suc l) (m' (t + 8 * i)) then R (Suc l) (H i) m' (m' (t + 8 * i)) (m' (c + 8 * i))
             else has (m' (c + 8 * i)) PTE_P \<and> \<not> has (m' (c + 8 * i)) PTE_PS
                  \<and> (has (m' (c + 8 * i)) PTE_U \<longleftrightarrow> has (m' (t + 8 * i)) PTE_U)
                  \<and> mirror R (H i) l m' (tbl (m' (t + 8 * i))) (tbl (m' (c + 8 * i))))
       else m' (c + 8 * i) = 0"
    using H(2) r s by (simp add: tw cw)
  then show ?case using Suc.prems(1) H(1) unfolding mirror.simps by blast
qed

end

text \<open>The value of an entry that leads to a copied table.\<close>

lemma link_value:
  assumes "c mod 4096 = 0" "c < 2 ^ 52" and v: "v = of_nat c OR PTE_P OR PTE_W OR (e AND ENTRY_FLAGS) OR PTE_P"
  shows "tbl v = c" "has v PTE_P" "\<not> has v PTE_PS" "has v PTE_U \<longleftrightarrow> has e PTE_U"
proof -
  have "(PTE_P OR PTE_W OR (e AND ENTRY_FLAGS) OR PTE_P) AND NOT 0xFFF = (0 :: u64)"
    by (simp add: bit.conj_disj_distrib2 and.assoc)
  then show "tbl v = c" unfolding v using assms(1,2) by (intro tbl_page) simp_all
  show "has v PTE_P" "\<not> has v PTE_PS" "has v PTE_U \<longleftrightarrow> has e PTE_U"
    unfolding v has_flags using not_bit_page [OF assms(1)] by (simp_all add: bit_simps)
qed

lemma root_value:
  assumes "c mod 4096 = 0" "c < 2 ^ 52" and v: "v = of_nat c OR PTE_P OR PTE_W"
  shows "tbl v = c" "has v PTE_P" "\<not> has v PTE_PS" "v \<noteq> 0"
proof -
  have e: "v = of_nat c OR PTE_P OR PTE_W OR (0 AND ENTRY_FLAGS) OR PTE_P" unfolding v by simp
  show "tbl v = c" "has v PTE_P" "\<not> has v PTE_PS" using link_value [OF assms(1,2) e] by simp_all
  then show "v \<noteq> 0" by auto
qed

lemma table_filled:
  assumes ok: "mem_ok (fst st)" and n: "new_level st = (c, st1)" "c \<noteq> 0"
    and t: "t mod 4096 = 0" "t div 4096 \<notin> fre (fst st)"
    and E: "\<forall>i<512. has (ent (fst st) t i) PTE_P \<longrightarrow> entry_ok entry (fst st) (ent (fst st) t i) (k i) (Q i)"
    and st': "st' = fold (copy_entry entry t c) [0..<512] st1"
  shows "grown (fst st) (fst st') \<and> c mod 4096 = 0 \<and> c < 2 ^ 52 \<and> c div 4096 \<in> fre (fst st) - fre (fst st') \<and>
    (Suc (\<Sum>i<512. if has (ent (fst st) t i) PTE_P then k i else 0) \<le> card (fre (fst st)) \<longrightarrow>
       card (fre (fst st')) + Suc (\<Sum>i<512. if has (ent (fst st) t i) PTE_P then k i else 0) = card (fre (fst st)) \<and>
       (\<exists>H. shares (fre (fst st) - fre (fst st')) c 512 H \<and>
          (\<forall>i<512. if has (ent (fst st) t i) PTE_P then Q i (H i) (pmem (fst st')) (ent (fst st') c i)
                   else ent (fst st') c i = 0)))"
proof (cases rule: new_level_cases [OF ok n(1), case_names F T])
  case F
  then show ?thesis using n(2) by simp
next
  case T
  have card: "card (fre (fst st)) = Suc (card (fre (fst st1)))"
    using T(3) card_Suc_Diff1 [OF finite_fre T(3)] by (simp add: T(4))
  have c1: "c div 4096 \<notin> fre (fst st1)" by (simp add: T(4))
  note L = fold_entries [OF T(5) T(1,3) c1 t E order_refl st']
  have f: "fre (fst st') \<subseteq> fre (fst st1)" "fre (fst st1) - fre (fst st') \<subseteq> fre (fst st) - fre (fst st')"
    using L T(4) by auto
  have mono: "shares (fre (fst st1) - fre (fst st')) c 512 H \<Longrightarrow> shares (fre (fst st) - fre (fst st')) c 512 H" for H
    using f(2) unfolding shares_def by blast
  have "c div 4096 \<notin> fre (fst st')" using f(1) c1 by auto
  with L T(1,3,7) show ?thesis unfolding card Suc_le_mono add_Suc_right nat.inject using mono by blast
qed

context leaf_copier
begin

lemma leaf_entry_ok:
  assumes "has e PTE_P" "l = 0 \<or> big l e" "keep l e \<inter> fre s0 = {}" "\<forall>st. entry e st = leaf l e st"
  shows "entry_ok entry s0 e (k l e) (\<lambda>H m v. R l H m e v)"
  unfolding entry_ok_def
proof (intro conjI allI impI)
  fix st v st'
  assume g: "grown s0 (fst st)" and e: "entry e st = (v, st')"
  have o: "mem_ok (fst st)" "keep l e \<inter> fre (fst st) = {}" using grown_ok [OF g] grown_fre [OF g] assms(3) by auto
  have e': "leaf l e st = (v, st')" using e assms(4) by simp
  show "grown (fst st) (fst st')" by (rule leaf_grows [OF o(1) assms(1,2) o(2) e'])
  assume "k l e \<le> card (fre (fst st))"
  from leaf_copies [OF o(1) assms(1,2) o(2) e' this]
  show "card (fre (fst st')) + k l e = card (fre (fst st))" "R l (fre (fst st) - fre (fst st')) (pmem (fst st')) e v" by auto
next
  fix H m m' v
  assume "R l H m e v" "\<forall>a. a div 4096 \<in> H \<union> - fre s0 \<longrightarrow> m' a = m a"
  then show "R l H m' e v" using assms(3) by (intro leaf_frame [of l H m e v m']) blast+
qed

lemma build_spec:
  assumes "mem_ok (fst st)" "away keep (fre (fst st)) l (pmem (fst st)) t" "build leaf l t st = (v, st')"
  shows "grown (fst st) (fst st') \<and>
    (price k l (pmem (fst st)) t \<le> card (fre (fst st)) \<longrightarrow>
       card (fre (fst st')) + price k l (pmem (fst st)) t = card (fre (fst st)) \<and>
       (\<exists>c. v = of_nat c OR PTE_P OR PTE_W \<and> c < 2 ^ 52 \<and> mirror R (fre (fst st) - fre (fst st')) l (pmem (fst st')) t c))"
  using assms
proof (induction l arbitrary: t st v st')
  case 0
  obtain c st1 where n: "new_level st = (c, st1)" by (rule prod.exhaust)
  show ?case
  proof (cases "c = 0")
    case True
    then have "fre (fst st) = {}" "st' = st"
      using 0 n by (cases rule: new_level_cases [OF 0(1) n], simp_all add: fill_level_def)+
    then show ?thesis using 0(1) by (simp add: grown_refl)
  next
    case False
    note t = away_table [OF 0(2)]
    have E: "\<forall>i<512. has (ent (fst st) t i) PTE_P \<longrightarrow>
        entry_ok (leaf 0) (fst st) (ent (fst st) t i) (k 0 (ent (fst st) t i)) (\<lambda>H m v. R 0 H m (ent (fst st) t i) v)"
      using 0(2) by (intro allI impI leaf_entry_ok) (auto simp: ent_def)
    have r: "v = of_nat c OR PTE_P OR PTE_W" "st' = fold (copy_entry (leaf 0) t c) [0..<512] st1"
      using 0(3) n False by (auto simp: fill_level_def)
    note L = table_filled [OF 0(1) n False conjunct1 [OF t] conjunct2 [OF t] E r(2)]
    have tw: "pmem (fst st') (t + 8 * i) = pmem (fst st) (t + 8 * i)" if "i < 512" for i
      using grown_ent [OF conjunct1 [OF L] conjunct1 [OF t] conjunct2 [OF t] that] by (simp add: ent_def)
    show ?thesis
    proof (intro conjI impI)
      show "grown (fst st) (fst st')" using L by blast
      assume "price k 0 (pmem (fst st)) t \<le> card (fre (fst st))"
      with L obtain H where H: "shares (fre (fst st) - fre (fst st')) c 512 H"
        "\<forall>i<512. if has (ent (fst st) t i) PTE_P then R 0 (H i) (pmem (fst st')) (ent (fst st) t i) (ent (fst st') c i)
           else ent (fst st') c i = 0"
        "card (fre (fst st')) + price k 0 (pmem (fst st)) t = card (fre (fst st))"
        unfolding price.simps ent_def by blast
      show "card (fre (fst st')) + price k 0 (pmem (fst st)) t = card (fre (fst st))" by (rule H(3))
      have "mirror R (fre (fst st) - fre (fst st')) 0 (pmem (fst st')) t c"
        using L H(1,2) unfolding mirror.simps ent_def by (auto simp: tw)
      then show "\<exists>c. v = of_nat c OR PTE_P OR PTE_W \<and> c < 2 ^ 52 \<and>
          mirror R (fre (fst st) - fre (fst st')) 0 (pmem (fst st')) t c"
        using r(1) L by blast
    qed
  qed
next
  case (Suc l)
  let ?entry = "\<lambda>e st. if big (Suc l) e then leaf (Suc l) e st else link_next e (build leaf l (unat (e AND PTE_ADDR)) st)"
  obtain c st1 where n: "new_level st = (c, st1)" by (rule prod.exhaust)
  show ?case
  proof (cases "c = 0")
    case True
    then have "fre (fst st) = {}" "st' = st"
      using Suc.prems n by (cases rule: new_level_cases [OF Suc.prems(1) n], simp_all add: fill_level_def)+
    then show ?thesis using Suc.prems(1) by (simp add: grown_refl)
  next
    case False
    note t = away_table [OF Suc.prems(2)]
    define kk where "kk i = (let e = ent (fst st) t i in
        if big (Suc l) e then k (Suc l) e else price k l (pmem (fst st)) (tbl e))" for i
    define Q where "Q i H m v = (let e = ent (fst st) t i in
        if big (Suc l) e then R (Suc l) H m e v
        else has v PTE_P \<and> \<not> has v PTE_PS \<and> (has v PTE_U \<longleftrightarrow> has e PTE_U) \<and> mirror R H l m (tbl e) (tbl v))" for i H m v
    have E: "\<forall>i<512. has (ent (fst st) t i) PTE_P \<longrightarrow> entry_ok ?entry (fst st) (ent (fst st) t i) (kk i) (Q i)"
    proof (intro allI impI)
      fix i :: nat
      assume i: "i < 512" and P: "has (ent (fst st) t i) PTE_P"
      define e where "e = ent (fst st) t i"
      show "entry_ok ?entry (fst st) (ent (fst st) t i) (kk i) (Q i)"
      proof (cases "big (Suc l) e")
        case True
        then have "keep (Suc l) e \<inter> fre (fst st) = {}" using Suc.prems(2) i P by (auto simp: e_def ent_def)
        then have "entry_ok ?entry (fst st) e (k (Suc l) e) (\<lambda>H m v. R (Suc l) H m e v)"
          using True P by (intro leaf_entry_ok) (simp_all add: e_def)
        then show ?thesis using True by (simp add: e_def kk_def Q_def [abs_def] Let_def)
      next
        case False
        then have A: "unat (e AND PTE_ADDR) = tbl e" "away keep (fre (fst st)) l (pmem (fst st)) (tbl e)"
          using Suc.prems(2) i P by (auto simp: e_def ent_def)
        have "entry_ok ?entry (fst st) e (price k l (pmem (fst st)) (tbl e)) (Q i)"
          unfolding entry_ok_def
        proof (intro conjI allI impI)
          fix s v s'
          assume g: "grown (fst st) (fst s)" and en: "?entry e s = (v, s')"
          obtain v0 where b: "build leaf l (tbl e) s = (v0, s')" "v = (if v0 = 0 then 0 else v0 OR (e AND ENTRY_FLAGS) OR PTE_P)"
            using en False A(1) by (auto simp: link_next_def split: prod.splits)
          have fr: "away keep (fre (fst s)) l (pmem (fst s)) (tbl e)"
            "price k l (pmem (fst s)) (tbl e) = price k l (pmem (fst st)) (tbl e)"
            using away_frame [OF A(2), of "pmem (fst s)" "fre (fst s)" k] g by (auto simp: grown_def)
          note B = Suc.IH [OF grown_ok [OF g] fr(1) b(1), unfolded fr(2)]
          show "grown (fst s) (fst s')" using B by blast
          assume "price k l (pmem (fst st)) (tbl e) \<le> card (fre (fst s))"
          then obtain d where d: "card (fre (fst s')) + price k l (pmem (fst st)) (tbl e) = card (fre (fst s))"
            "v0 = of_nat d OR PTE_P OR PTE_W" "d < 2 ^ 52" "mirror R (fre (fst s) - fre (fst s')) l (pmem (fst s')) (tbl e) d"
            using B by blast
          have da: "d mod 4096 = 0" using d(4) by (cases l) simp_all
          have v: "v = of_nat d OR PTE_P OR PTE_W OR (e AND ENTRY_FLAGS) OR PTE_P"
            unfolding b(2) if_not_P [OF root_value(4) [OF da d(3,2)]] unfolding d(2) by (simp only: or.assoc)
          show "card (fre (fst s')) + price k l (pmem (fst st)) (tbl e) = card (fre (fst s))" by (rule d(1))
          show "Q i (fre (fst s) - fre (fst s')) (pmem (fst s')) v"
            using link_value [OF da d(3) v] d(4) False by (simp add: Q_def Let_def flip: e_def)
        next
          fix H m m' v
          assume q: "Q i H m v" "\<forall>a. a div 4096 \<notin> fre (fst st) \<longrightarrow> m a = pmem (fst st) a"
            "\<forall>a. a div 4096 \<in> H \<union> - fre (fst st) \<longrightarrow> m' a = m a"
          have "away keep (fre (fst st)) l m (tbl e)" using away_frame [OF A(2) q(2)] by blast
          then show "Q i H m' v" using q(1,3) False mirror_frame by (auto simp: Q_def Let_def simp flip: e_def)
        qed
        then show ?thesis using False by (simp add: e_def kk_def Let_def)
      qed
    qed
    have r: "v = of_nat c OR PTE_P OR PTE_W" "st' = fold (copy_entry ?entry t c) [0..<512] st1"
      using Suc.prems(3) n False by (auto simp: fill_level_def)
    note L = table_filled [OF Suc.prems(1) n False conjunct1 [OF t] conjunct2 [OF t] E r(2)]
    have tw: "pmem (fst st') (t + 8 * i) = pmem (fst st) (t + 8 * i)" if "i < 512" for i
      using grown_ent [OF conjunct1 [OF L] conjunct1 [OF t] conjunct2 [OF t] that] by (simp add: ent_def)
    have p: "price k (Suc l) (pmem (fst st)) t = Suc (\<Sum>i<512. if has (ent (fst st) t i) PTE_P then kk i else 0)"
      unfolding price.simps kk_def Let_def ent_def ..
    show ?thesis
    proof (intro conjI impI)
      show "grown (fst st) (fst st')" using L by blast
      assume "price k (Suc l) (pmem (fst st)) t \<le> card (fre (fst st))"
      with L obtain H where H: "shares (fre (fst st) - fre (fst st')) c 512 H"
        "\<forall>i<512. if has (ent (fst st) t i) PTE_P then Q i (H i) (pmem (fst st')) (ent (fst st') c i) else ent (fst st') c i = 0"
        "card (fre (fst st')) + price k (Suc l) (pmem (fst st)) t = card (fre (fst st))"
        unfolding p by blast
      show "card (fre (fst st')) + price k (Suc l) (pmem (fst st)) t = card (fre (fst st))" by (rule H(3))
      have "mirror R (fre (fst st) - fre (fst st')) (Suc l) (pmem (fst st')) t c"
        using L H(1,2) unfolding mirror.simps Q_def Let_def ent_def by (auto simp: tw)
      then show "\<exists>c. v = of_nat c OR PTE_P OR PTE_W \<and> c < 2 ^ 52 \<and>
          mirror R (fre (fst st) - fre (fst st')) (Suc l) (pmem (fst st')) t c"
        using r(1) L by blast
    qed
  qed
qed

end

end
