(* ===== verification/Vmm_Fork.thy ===== *)
theory Vmm_Fork
  imports Vmm_Props
begin

text \<open>
  The two ways of copying a leaf: cloning the kernel's tables shares every leaf, fork copies
  the user pages. Both are instances of \<open>leaf_copier\<close>; the theorems say what the new address
  space translates to and what it holds.
\<close>

section \<open>Shared and copied leaves\<close>

interpretation share: leaf_copier share_leaf "\<lambda>l e. {}" "\<lambda>l e. 0" "\<lambda>l H m e v. v = e"
  by unfold_locales (auto simp: share_leaf_def grown_refl)

text \<open>The page a leaf maps, and the 512 pages of a 2 MiB leaf.\<close>

definition frame :: "u64 \<Rightarrow> nat" where
  "frame e = unat (e AND PTE_ADDR)"

definition frame_of :: "u64 \<Rightarrow> nat \<Rightarrow> nat" where
  "frame_of e j = unat ((e AND PTE_ADDR) + of_nat (j * PAGE_SIZE))"

definition same_page :: "(nat \<Rightarrow> u64) \<Rightarrow> nat \<Rightarrow> nat \<Rightarrow> bool" where
  "same_page m a b \<longleftrightarrow> (\<forall>j<4096. m (a + j) = m (b + j))"

definition fresh_copy :: "nat set \<Rightarrow> (nat \<Rightarrow> u64) \<Rightarrow> nat \<Rightarrow> nat \<Rightarrow> bool" where
  "fresh_copy H m n old \<longleftrightarrow> n mod 4096 = 0 \<and> n < 2 ^ 52 \<and> n div 4096 \<in> H \<and> same_page m n old"

definition fork_keep :: "nat \<Rightarrow> u64 \<Rightarrow> nat set" where
  "fork_keep l e = (if \<not> has e PTE_U then {} else if l = 0 then {frame e div 4096}
     else if l = 1 then (\<lambda>j. frame_of e j div 4096) ` {..<512} else {})"

definition fork_price :: "nat \<Rightarrow> u64 \<Rightarrow> nat" where
  "fork_price l e = (if \<not> has e PTE_U then 0 else if l = 0 then 1 else if l = 1 then 513 else 0)"

definition fork_rel :: "nat \<Rightarrow> nat set \<Rightarrow> (nat \<Rightarrow> u64) \<Rightarrow> u64 \<Rightarrow> u64 \<Rightarrow> bool" where
  "fork_rel l H m e v \<longleftrightarrow>
    (if has e PTE_U \<and> l = 0 then
       \<exists>n. fresh_copy H m n (frame e) \<and> v = (of_nat n AND PTE_ADDR) OR (e AND NOT PTE_ADDR)
     else if has e PTE_U \<and> l = 1 then
       \<exists>c. c mod 4096 = 0 \<and> c < 2 ^ 52 \<and> c div 4096 \<in> H \<and> v = of_nat c OR (e AND ENTRY_FLAGS) OR PTE_P
         \<and> (\<forall>j<512. \<exists>n. fresh_copy H m n (frame_of e j)
               \<and> m (c + 8 * j) = (of_nat n AND PTE_ADDR) OR (e AND ENTRY_FLAGS) OR PTE_P)
     else v = e)"

lemma frame_aligned: "frame e mod 4096 = 0"
proof -
  have "e AND PTE_ADDR = (e AND PTE_ADDR) AND NOT (2 ^ 12 - 1)" by (simp add: and.assoc)
  then have "frame e = unat (e AND PTE_ADDR) div 2 ^ 12 * 2 ^ 12" unfolding frame_def by (metis unat_and_not_mask)
  then show ?thesis by simp
qed

lemma frame_of_aligned: "frame_of e j mod 4096 = 0"
proof -
  have "frame_of e j = (frame e + j * 4096) mod 18446744073709551616"
    by (simp add: frame_of_def frame_def unat_word_ariths unat_of_nat mod_simps)
  moreover have "(frame e + j * 4096) mod 18446744073709551616 mod 4096 = (frame e + j * 4096) mod 4096"
    by (rule mod_mod_cancel) simp
  moreover have "4096 dvd frame e + j * 4096" using frame_aligned [of e] by (intro dvd_add) auto
  ultimately show ?thesis by (simp only: dvd_imp_mod_0)
qed

lemma page_offset: "n mod 4096 = 0 \<Longrightarrow> j < 4096 \<Longrightarrow> (n + j) div 4096 = n div 4096" for n j :: nat
proof -
  assume "n mod 4096 = 0" "j < 4096"
  moreover from this obtain b where "n = 4096 * b" by (metis mod_0_imp_dvd dvdE)
  ultimately show ?thesis by simp
qed

lemma fresh_copy_frame:
  assumes "fresh_copy H m n old" "old mod 4096 = 0" "\<forall>a. a div 4096 \<in> H \<union> {old div 4096} \<longrightarrow> m' a = m a" "H \<subseteq> H'"
  shows "fresh_copy H' m' n old"
proof -
  have n: "n mod 4096 = 0" "n div 4096 \<in> H" using assms(1) by (simp_all add: fresh_copy_def)
  have "m' (n + j) = m (n + j)" "m' (old + j) = m (old + j)" if "j < 4096" for j
    using assms(3) n(2) page_offset [OF n(1) that] page_offset [OF assms(2) that] by simp_all
  then show ?thesis using assms(1,4) by (auto simp: fresh_copy_def same_page_def)
qed

text \<open>One page is copied.\<close>

lemma clone_frame_copy:
  assumes "mem_ok (fst st)" "clone_frame old st = (n, st')" "old mod 4096 = 0" "old div 4096 \<notin> fre (fst st)"
  shows "grown (fst st) (fst st')"
    "0 < card (fre (fst st)) \<Longrightarrow> n \<noteq> 0 \<and> card (fre (fst st)) = Suc (card (fre (fst st'))) \<and>
       fresh_copy (fre (fst st) - fre (fst st')) (pmem (fst st')) n old"
proof -
  consider (full) "fre (fst st) = {}" "n = 0" "fst st' = fst st"
    | (frame) "n mod 4096 = 0" "0 < n" "n div 4096 \<in> fre (fst st)" "fre (fst st') = fre (fst st) - {n div 4096}"
        "grown (fst st) (fst st')" "\<forall>k<4096. pmem (fst st') (n + k) = pmem (fst st) (old + k)" "n < 2 ^ 52"
    by (rule clone_frame_cases [OF assms(1-3)]) blast+
  then have "grown (fst st) (fst st') \<and> (0 < card (fre (fst st)) \<longrightarrow> n \<noteq> 0 \<and> card (fre (fst st)) = Suc (card (fre (fst st'))) \<and>
       fresh_copy (fre (fst st) - fre (fst st')) (pmem (fst st')) n old)"
  proof cases
    case full
    then show ?thesis using assms(1) by (simp add: grown_refl)
  next
    case frame
    have "pmem (fst st') (old + j) = pmem (fst st) (old + j)" if "j < 4096" for j
      using grown_mem [OF frame(5)] page_offset [OF assms(3) that] assms(4) by simp
    then have "fresh_copy (fre (fst st) - fre (fst st')) (pmem (fst st')) n old"
      using frame by (simp add: fresh_copy_def same_page_def)
    then show ?thesis using frame(2,3,4,5) card_Suc_Diff1 [OF finite_fre frame(3)] by simp
  qed
  then show "grown (fst st) (fst st')"
    "0 < card (fre (fst st)) \<Longrightarrow> n \<noteq> 0 \<and> card (fre (fst st)) = Suc (card (fre (fst st'))) \<and>
       fresh_copy (fre (fst st) - fre (fst st')) (pmem (fst st')) n old" by blast+
qed

text \<open>The pages of a 2 MiB leaf are copied one after the other.\<close>

lemma split_fold:
  assumes g1: "grown s0 (fst st1)"
    and c: "c mod 4096 = 0" "c div 4096 \<in> fre s0" "c div 4096 \<notin> fre (fst st1)"
    and keep: "\<forall>j<512. frame_of e j div 4096 \<notin> fre s0"
    and n: "n \<le> 512" and st: "st = fold (split_one c e) [0..<n] st1"
  shows "grown s0 (fst st) \<and> fre (fst st) \<subseteq> fre (fst st1) \<and>
    (n \<le> card (fre (fst st1)) \<longrightarrow> card (fre (fst st)) + n = card (fre (fst st1)) \<and>
       (\<forall>j<n. \<exists>p. fresh_copy (fre (fst st1) - fre (fst st)) (pmem (fst st)) p (frame_of e j)
          \<and> ent (fst st) c j = (of_nat p AND PTE_ADDR) OR (e AND ENTRY_FLAGS) OR PTE_P))"
  using n st
proof (induction n arbitrary: st)
  case 0
  then show ?case using g1 by simp
next
  case (Suc n)
  define sn where "sn = fold (split_one c e) [0..<n] st1"
  have n: "n < 512" using Suc.prems(1) by simp
  note IH = Suc.IH [OF less_imp_le [OF n] sn_def]
  then have gn: "grown s0 (fst sn)" and fn: "fre (fst sn) \<subseteq> fre (fst st1)" by auto
  obtain p s2 where f: "clone_frame (frame_of e n) sn = (p, s2)" by (rule prod.exhaust)
  have st: "fst st = set_ent c n (if p = 0 then 0 else (of_nat p AND PTE_ADDR) OR (e AND ENTRY_FLAGS) OR PTE_P) (fst s2)"
  proof -
    have "st = split_one c e n sn" using Suc.prems(2) by (simp add: sn_def)
    then show ?thesis by (simp only: split_one_def frame_of_def [symmetric] f prod.case put_entry_fst)
  qed
  have "frame_of e n div 4096 \<notin> fre (fst sn)" using keep n grown_fre [OF gn] by blast
  note C = clone_frame_copy [OF grown_ok [OF gn] f frame_of_aligned this]
  have cn: "c div 4096 \<notin> fre (fst sn)" using c(3) fn by auto
  have c2: "c div 4096 \<notin> fre (fst s2)" using cn grown_fre [OF C(1)] by auto
  show ?case
  proof (intro conjI impI)
    show "grown s0 (fst st)" unfolding st by (rule grown_set_ent [OF grown_trans [OF gn C(1)] c(1,2) c2 n])
    show "fre (fst st) \<subseteq> fre (fst st1)" using fn grown_fre [OF C(1)] by (auto simp: st)
    assume le: "Suc n \<le> card (fre (fst st1))"
    then have I: "card (fre (fst sn)) + n = card (fre (fst st1))"
      "\<forall>j<n. \<exists>p. fresh_copy (fre (fst st1) - fre (fst sn)) (pmem (fst sn)) p (frame_of e j)
          \<and> ent (fst sn) c j = (of_nat p AND PTE_ADDR) OR (e AND ENTRY_FLAGS) OR PTE_P"
      using IH by auto
    then have pos: "0 < card (fre (fst sn))" using le by simp
    note D = C(2) [OF pos]
    show "card (fre (fst st)) + Suc n = card (fre (fst st1))" using D I(1) by (simp add: st)
    have cu: "pmem (fst st) a = pmem (fst s2) a" if "a div 4096 \<noteq> c div 4096" for a
      unfolding st by (rule pmem_set_ent [OF c(1) n that])
    have ec: "ent (fst st) c i = (if i = n then (of_nat p AND PTE_ADDR) OR (e AND ENTRY_FLAGS) OR PTE_P else ent (fst s2) c i)"
      if "i < 512" for i
      using ent_set_ent [OF c(1) c(1) n that] D by (auto simp: st)
    have kc: "frame_of e j div 4096 \<noteq> c div 4096" if "j < 512" for j using keep c(2) that by metis
    show "\<forall>j<Suc n. \<exists>p. fresh_copy (fre (fst st1) - fre (fst st)) (pmem (fst st)) p (frame_of e j)
          \<and> ent (fst st) c j = (of_nat p AND PTE_ADDR) OR (e AND ENTRY_FLAGS) OR PTE_P"
    proof (intro allI impI)
      fix j assume j: "j < Suc n"
      then have j5: "j < 512" using n by simp
      show "\<exists>p. fresh_copy (fre (fst st1) - fre (fst st)) (pmem (fst st)) p (frame_of e j)
          \<and> ent (fst st) c j = (of_nat p AND PTE_ADDR) OR (e AND ENTRY_FLAGS) OR PTE_P"
      proof (cases "j = n")
        case True
        have "fresh_copy (fre (fst st1) - fre (fst st)) (pmem (fst st)) p (frame_of e n)"
        proof (rule fresh_copy_frame [OF _ frame_of_aligned])
          show "fresh_copy (fre (fst sn) - fre (fst s2)) (pmem (fst s2)) p (frame_of e n)" using D by blast
          show "\<forall>a. a div 4096 \<in> (fre (fst sn) - fre (fst s2)) \<union> {frame_of e n div 4096} \<longrightarrow> pmem (fst st) a = pmem (fst s2) a"
            using cn kc [OF n] by (auto intro!: cu)
          show "fre (fst sn) - fre (fst s2) \<subseteq> fre (fst st1) - fre (fst st)" using fn by (auto simp: st)
        qed
        then show ?thesis using True ec [OF j5] by auto
      next
        case False
        then have jn: "j < n" using j by simp
        then obtain q where q: "fresh_copy (fre (fst st1) - fre (fst sn)) (pmem (fst sn)) q (frame_of e j)"
          "ent (fst sn) c j = (of_nat q AND PTE_ADDR) OR (e AND ENTRY_FLAGS) OR PTE_P" using I(2) by blast
        have "fresh_copy (fre (fst st1) - fre (fst st)) (pmem (fst st)) q (frame_of e j)"
        proof (rule fresh_copy_frame)
          show "fresh_copy (fre (fst st1) - fre (fst sn) - {c div 4096}) (pmem (fst sn)) q (frame_of e j)"
            using q(1) c(3) by (auto simp: fresh_copy_def)
          show "frame_of e j mod 4096 = 0" by (rule frame_of_aligned)
          show "fre (fst st1) - fre (fst sn) - {c div 4096} \<subseteq> fre (fst st1) - fre (fst st)"
            using grown_fre [OF C(1)] by (auto simp: st)
          show "\<forall>a. a div 4096 \<in> (fre (fst st1) - fre (fst sn) - {c div 4096}) \<union> {frame_of e j div 4096} \<longrightarrow> pmem (fst st) a = pmem (fst sn) a"
          proof (intro allI impI)
            fix a assume a: "a div 4096 \<in> (fre (fst st1) - fre (fst sn) - {c div 4096}) \<union> {frame_of e j div 4096}"
            have "a div 4096 \<notin> fre (fst sn)" using a keep j5 grown_fre [OF gn] by auto
            then have "pmem (fst s2) a = pmem (fst sn) a" using grown_mem [OF C(1)] by blast
            moreover have "a div 4096 \<noteq> c div 4096" using a kc [OF j5] by auto
            ultimately show "pmem (fst st) a = pmem (fst sn) a" using cu by simp
          qed
        qed
        moreover have "ent (fst s2) c j = ent (fst sn) c j" by (rule grown_ent [OF C(1) c(1) cn j5])
        ultimately show ?thesis using q(2) ec [OF j5] False by auto
      qed
    qed
  qed
qed

lemma fork_rel_big: "has e PTE_U \<Longrightarrow> fork_rel 1 H m e v \<longleftrightarrow>
    (\<exists>c. c mod 4096 = 0 \<and> c < 2 ^ 52 \<and> c div 4096 \<in> H \<and> v = of_nat c OR (e AND ENTRY_FLAGS) OR PTE_P
         \<and> (\<forall>j<512. \<exists>n. fresh_copy H m n (frame_of e j)
               \<and> m (c + 8 * j) = (of_nat n AND PTE_ADDR) OR (e AND ENTRY_FLAGS) OR PTE_P))"
  unfolding fork_rel_def by simp

lemma fork_leaf_spec:
  assumes ok: "mem_ok (fst st)" and l: "l = 0 \<or> big l e" and keep: "fork_keep l e \<inter> fre (fst st) = {}"
    and r: "fork_leaf l e st = (v, st')"
  shows "grown (fst st) (fst st') \<and> (fork_price l e \<le> card (fre (fst st)) \<longrightarrow>
      card (fre (fst st')) + fork_price l e = card (fre (fst st)) \<and> fork_rel l (fre (fst st) - fre (fst st')) (pmem (fst st')) e v)"
proof (cases "has e PTE_U \<and> l \<le> 1")
  case False
  then have "v = e" "st' = st" "fork_price l e = 0" "fork_rel l {} (pmem (fst st)) e e"
    using r l by (auto simp: fork_leaf_def copy_leaf_def copy_big_def fork_price_def fork_rel_def big_def)
  then show ?thesis using ok by (simp add: grown_refl)
next
  case True
  show ?thesis
  proof (cases "l = 0")
    case l0: True
    obtain n s1 where f: "clone_frame (frame e) st = (n, s1)" by (rule prod.exhaust)
    have v: "v = (if n = 0 then 0 else (of_nat n AND PTE_ADDR) OR (e AND NOT PTE_ADDR))" "st' = s1"
      using r True l0 f by (simp_all add: fork_leaf_def copy_leaf_def frame_def)
    have "frame e div 4096 \<notin> fre (fst st)" using keep True l0 by (simp add: fork_keep_def)
    from clone_frame_copy [OF ok f frame_aligned this]
    show ?thesis using v True l0 by (auto simp: fork_price_def fork_rel_def)
  next
    case False
    with True have l1: "l = 1" by simp
    have k: "\<forall>j<512. frame_of e j div 4096 \<notin> fre (fst st)" using keep True l1 by (auto simp: fork_keep_def)
    obtain c s1 where n: "new_level st = (c, s1)" by (rule prod.exhaust)
    show ?thesis
    proof (cases rule: new_level_cases [OF ok n, case_names F T])
      case F
      then have "st' = st" using r n True l1 by (auto simp: fork_leaf_def copy_big_def)
      then show ?thesis using F(1) True l1 ok by (simp add: fork_price_def grown_refl)
    next
      case T
      then have c0: "c \<noteq> 0" by simp
      have v: "v = of_nat c OR (e AND ENTRY_FLAGS) OR PTE_P" "st' = fold (split_one c e) [0..<512] s1"
        using r n True l1 c0 by (auto simp: fork_leaf_def copy_big_def)
      have c1: "c div 4096 \<notin> fre (fst s1)" by (simp add: T(4))
      note S = split_fold [OF T(5) T(1,3) c1 k order_refl v(2)]
      have card: "card (fre (fst st)) = Suc (card (fre (fst s1)))"
        using card_Suc_Diff1 [OF finite_fre T(3)] by (simp add: T(4))
      have sub: "fre (fst s1) - fre (fst st') \<subseteq> fre (fst st) - fre (fst st')" using T(4) by auto
      have J: "\<exists>n. fresh_copy (fre (fst st) - fre (fst st')) (pmem (fst st')) n (frame_of e j)
            \<and> pmem (fst st') (c + 8 * j) = (of_nat n AND PTE_ADDR) OR (e AND ENTRY_FLAGS) OR PTE_P"
        if m: "513 \<le> card (fre (fst st))" and j: "j < 512" for j
      proof -
        have "512 \<le> card (fre (fst s1))" using m card by simp
        then obtain n where "fresh_copy (fre (fst s1) - fre (fst st')) (pmem (fst st')) n (frame_of e j)"
          "ent (fst st') c j = (of_nat n AND PTE_ADDR) OR (e AND ENTRY_FLAGS) OR PTE_P"
          using S j by blast
        then show ?thesis using sub unfolding fresh_copy_def ent_def by (intro exI [of _ n] conjI) auto
      qed
      have c2: "c div 4096 \<in> fre (fst st) - fre (fst st')" using T(3) S c1 by auto
      have p: "fork_price l e = 513" using True l1 by (simp add: fork_price_def)
      show ?thesis
        unfolding p
      proof (intro conjI impI)
        show "grown (fst st) (fst st')" using S by blast
        assume m: "513 \<le> card (fre (fst st))"
        then show "card (fre (fst st')) + 513 = card (fre (fst st))" using S card by simp
        show "fork_rel l (fre (fst st) - fre (fst st')) (pmem (fst st')) e v"
          unfolding l1 fork_rel_big [OF conjunct1 [OF True]]
          by (intro exI [of _ c] conjI allI impI T(1,7) v(1) c2 J [OF m])
      qed
    qed
  qed
qed

lemma fork_rel_frame:
  assumes "fork_rel l H m e v" "\<forall>a. a div 4096 \<in> H \<union> fork_keep l e \<longrightarrow> m' a = m a"
  shows "fork_rel l H m' e v"
proof -
  consider (page) "has e PTE_U" "l = 0" | (big) "has e PTE_U" "l = 1" | (shared) "\<not> (has e PTE_U \<and> l \<le> 1)"
    by linarith
  then show ?thesis
  proof cases
    case page
    then obtain n where n: "fresh_copy H m n (frame e)" "v = (of_nat n AND PTE_ADDR) OR (e AND NOT PTE_ADDR)"
      using assms(1) by (auto simp: fork_rel_def)
    have "fresh_copy H m' n (frame e)"
      by (rule fresh_copy_frame [OF n(1) frame_aligned _ subset_refl]) (use assms(2) page in \<open>simp add: fork_keep_def\<close>)
    then show ?thesis using n(2) page by (auto simp: fork_rel_def)
  next
    case big
    have "fork_rel 1 H m e v" using assms(1) big(2) by simp
    then obtain c where c: "c mod 4096 = 0" "c < 2 ^ 52" "c div 4096 \<in> H" "v = of_nat c OR (e AND ENTRY_FLAGS) OR PTE_P"
      "\<forall>j<512. \<exists>n. fresh_copy H m n (frame_of e j) \<and> m (c + 8 * j) = (of_nat n AND PTE_ADDR) OR (e AND ENTRY_FLAGS) OR PTE_P"
      unfolding fork_rel_big [OF big(1)] by (elim exE conjE) (rule that)
    have J: "\<exists>n. fresh_copy H m' n (frame_of e j) \<and> m' (c + 8 * j) = (of_nat n AND PTE_ADDR) OR (e AND ENTRY_FLAGS) OR PTE_P"
      if j: "j < 512" for j
    proof -
      obtain n where n: "fresh_copy H m n (frame_of e j)" "m (c + 8 * j) = (of_nat n AND PTE_ADDR) OR (e AND ENTRY_FLAGS) OR PTE_P"
        using c(5) [rule_format, OF j] by (elim exE conjE)
      have "frame_of e j div 4096 \<in> fork_keep l e" using big j by (simp add: fork_keep_def)
      then have "H \<union> {frame_of e j div 4096} \<subseteq> H \<union> fork_keep l e" by auto
      then have "\<forall>a. a div 4096 \<in> H \<union> {frame_of e j div 4096} \<longrightarrow> m' a = m a"
        by (intro allI impI assms(2) [rule_format]) (rule subsetD)
      from fresh_copy_frame [OF n(1) frame_of_aligned this subset_refl] have "fresh_copy H m' n (frame_of e j)" .
      moreover have "m' (c + 8 * j) = m (c + 8 * j)"
      proof -
        have "(c + 8 * j) div 4096 \<in> H" unfolding word_page [OF c(1) j] by (rule c(3))
        then show ?thesis using assms(2) [rule_format, OF UnI1] by simp
      qed
      ultimately show ?thesis using n(2) by (intro exI [of _ n] conjI) simp_all
    qed
    show ?thesis unfolding big(2) fork_rel_big [OF big(1)] by (intro exI [of _ c] conjI allI impI c(1-4) J)
  next
    case shared
    then show ?thesis using assms(1) by (auto simp: fork_rel_def)
  qed
qed

interpretation fork: leaf_copier fork_leaf fork_keep fork_price fork_rel
proof unfold_locales
  fix st e l v st'
  assume a: "mem_ok (fst st)" "l = 0 \<or> big l e" "fork_keep l e \<inter> fre (fst st) = {}" "fork_leaf l e st = (v, st')"
  note S = fork_leaf_spec [OF a]
  show "grown (fst st) (fst st')" using S by blast
  show "fork_price l e \<le> card (fre (fst st)) \<Longrightarrow> card (fre (fst st')) + fork_price l e = card (fre (fst st)) \<and>
      fork_rel l (fre (fst st) - fre (fst st')) (pmem (fst st')) e v" using S by blast
qed (rule fork_rel_frame)

section \<open>Translation level by level\<close>

text \<open>The leaf an address reaches from an entry: its level, its value, and whether the whole path
  is accessible to user code.\<close>

primrec walk :: "nat \<Rightarrow> (nat \<Rightarrow> u64) \<Rightarrow> u64 \<Rightarrow> u64 \<Rightarrow> (nat \<times> u64 \<times> bool) option" where
  "walk 0 m e w = (if has e PTE_P then Some (0, e, has e PTE_U) else None)"
| "walk (Suc l) m e w =
    (if \<not> has e PTE_P then None
     else if big (Suc l) e then Some (Suc l, e, has e PTE_U)
     else map_option (\<lambda>(k, f, u). (k, f, u \<and> has e PTE_U)) (walk l m (m (tbl e + 8 * pt_idx l w)) w))"

definition space_walk :: "paging \<Rightarrow> nat \<Rightarrow> u64 \<Rightarrow> (nat \<times> u64 \<times> bool) option" where
  "space_walk s r w = walk 3 (pmem s) (ent s r (pt_idx 3 w)) w"

definition leaf_phys :: "u64 \<Rightarrow> nat \<times> u64 \<times> bool \<Rightarrow> u64" where
  "leaf_phys w x = (case x of (k, e, u) \<Rightarrow>
     if k = 0 then (e AND PTE_ADDR) OR (w AND 0xFFF)
     else if k = 1 then (e AND 0x000FFFFFFFE00000) OR (w AND 0x1FFFFF)
     else (e AND 0x000FFFFFC0000000) OR (w AND 0x3FFFFFFF))"

text \<open>The translation of an address in the address space of a given PML4.\<close>

definition phys_in :: "paging \<Rightarrow> nat \<Rightarrow> u64 \<Rightarrow> u64" where
  "phys_in s r w = paging_virt_to_phys w (s\<lparr>g_pml4 := r\<rparr>)"

lemma phys_in_walk: "r \<noteq> 0 \<Longrightarrow> phys_in s r w = (case space_walk s r w of None \<Rightarrow> 0 | Some x \<Rightarrow> leaf_phys w x)"
  by (auto simp: phys_in_def paging_virt_to_phys_def space_walk_def ent_def eval_nat_numeral big_def leaf_phys_def Let_def)

text \<open>An entry and its copy.\<close>

definition erel :: "(nat \<Rightarrow> nat set \<Rightarrow> (nat \<Rightarrow> u64) \<Rightarrow> u64 \<Rightarrow> u64 \<Rightarrow> bool) \<Rightarrow> nat \<Rightarrow> nat set \<Rightarrow> (nat \<Rightarrow> u64) \<Rightarrow> u64 \<Rightarrow> u64 \<Rightarrow> bool" where
  "erel R l G m e e' \<longleftrightarrow>
    (if \<not> has e PTE_P then e' = 0
     else if l = 0 \<or> big l e then R l G m e e'
     else has e' PTE_P \<and> \<not> has e' PTE_PS \<and> (has e' PTE_U \<longleftrightarrow> has e PTE_U) \<and> mirror R G (l - 1) m (tbl e) (tbl e'))"

lemma mirror_erel:
  assumes "mirror R G l m t c" "i < 512"
  obtains H where "H \<subseteq> G" "erel R l H m (m (t + 8 * i)) (m (c + 8 * i))"
proof -
  have "\<exists>H. shares G c 512 H \<and> erel R l (H i) m (m (t + 8 * i)) (m (c + 8 * i))"
    using assms by (cases l) (auto simp: erel_def)
  then obtain H where "shares G c 512 H" "erel R l (H i) m (m (t + 8 * i)) (m (c + 8 * i))" by blast
  then show ?thesis using that [of "H i"] assms(2) by (auto simp: shares_def)
qed

text \<open>They lead to a leaf and its copy.\<close>

lemma erel_walk:
  "erel R l G m e e' \<Longrightarrow>
    (case walk l m e w of
       None \<Rightarrow> walk l m e' w = None
     | Some (k, f, u) \<Rightarrow>
         has f PTE_P \<and> (k = 0 \<or> big k f) \<and>
         (\<exists>H f' x. H \<subseteq> G \<and> R k H m f f' \<and> u = (has f PTE_U \<and> x) \<and>
            (walk l m e' w = map_option (\<lambda>(k, f, u). (k, f, u \<and> x)) (walk k m f' w))))"
proof (induction l arbitrary: G e e')
  case 0
  have i: "map_option (\<lambda>(k, f, u). (k, f, u \<and> True)) y = y" for y :: "(nat \<times> u64 \<times> bool) option"
    by (cases y) auto
  show ?case
  proof (cases "has e PTE_P")
    case True
    then have "R 0 G m e e'" using 0 by (simp add: erel_def)
    then show ?thesis using True i [of "walk 0 m e' w"] by (auto intro!: exI [of _ G] exI [of _ e'] exI [of _ True])
  qed (use 0 in \<open>simp add: erel_def\<close>)
next
  case (Suc l)
  have i: "map_option (\<lambda>(k, f, u). (k, f, u \<and> True)) y = y" for y :: "(nat \<times> u64 \<times> bool) option"
    by (cases y) auto
  consider (no) "\<not> has e PTE_P" | (leaf) "has e PTE_P" "big (Suc l) e" | (tab) "has e PTE_P" "\<not> big (Suc l) e" by blast
  then show ?case
  proof cases
    case no
    then show ?thesis using Suc.prems by (simp add: erel_def)
  next
    case leaf
    then have r: "R (Suc l) G m e e'" using Suc.prems by (simp add: erel_def)
    have "walk (Suc l) m e w = Some (Suc l, e, has e PTE_U)" using leaf by simp
    then show ?thesis using leaf r i [of "walk (Suc l) m e' w"]
      by (simp only: option.case prod.case) (intro conjI exI [of _ G] exI [of _ e'] exI [of _ True], simp_all)
  next
    case tab
    then have c: "has e' PTE_P" "\<not> big (Suc l) e'" "has e' PTE_U \<longleftrightarrow> has e PTE_U" "mirror R G l m (tbl e) (tbl e')"
      using Suc.prems by (auto simp: erel_def big_def)
    define a b where "a = m (tbl e + 8 * pt_idx l w)" and "b = m (tbl e' + 8 * pt_idx l w)"
    obtain H where H: "H \<subseteq> G" "erel R l H m a b" using mirror_erel [OF c(4) pt_idx_less] unfolding a_def b_def .
    have we: "walk (Suc l) m e w = map_option (\<lambda>(k, f, u). (k, f, u \<and> has e PTE_U)) (walk l m a w)"
      "walk (Suc l) m e' w = map_option (\<lambda>(k, f, u). (k, f, u \<and> has e PTE_U)) (walk l m b w)"
      using tab c by (simp_all add: a_def b_def)
    note I = Suc.IH [OF H(2)]
    show ?thesis
    proof (cases "walk l m a w")
      case None
      then show ?thesis using I by (simp only: we) simp
    next
      case (Some y)
      obtain k f u where y: "y = (k, f, u)" by (cases y)
      obtain H' f' x where J: "has f PTE_P" "k = 0 \<or> big k f" "H' \<subseteq> H" "R k H' m f f'" "u = (has f PTE_U \<and> x)"
        "walk l m b w = map_option (\<lambda>(k, f, u). (k, f, u \<and> x)) (walk k m f' w)"
        using I Some y by auto
      have "walk (Suc l) m e' w = map_option (\<lambda>(k, f, u). (k, f, u \<and> (x \<and> has e PTE_U))) (walk k m f' w)"
        unfolding we(2) J(6) by (cases "walk k m f' w") auto
      moreover have "walk (Suc l) m e w = Some (k, f, u \<and> has e PTE_U)" unfolding we(1) Some y by simp
      ultimately show ?thesis using J(1-5) H(1)
        by (simp only: option.case prod.case) (intro conjI exI [of _ H'] exI [of _ f'] exI [of _ "x \<and> has e PTE_U"], auto)
    qed
  qed
qed

section \<open>Whole address spaces\<close>

lemma walk_3: "walk 3 m e w = (if has e PTE_P
    then map_option (\<lambda>(k, f, u). (k, f, u \<and> has e PTE_U)) (walk 2 m (m (tbl e + 8 * pt_idx 2 w)) w) else None)"
  using walk.simps(2) [of 2 m e w] by (simp add: big_def)

text \<open>What is written to free pages does not change the translation of a space in use.\<close>

lemma walk_frame:
  assumes "away keep F l m t" "\<forall>a. a div 4096 \<notin> F \<longrightarrow> m' a = m a" "i < 512"
  shows "walk l m' (m' (t + 8 * i)) w = walk l m (m (t + 8 * i)) w"
  using assms
proof (induction l arbitrary: t i)
  case 0
  then show ?case using away_word [OF 0(1,2,3)] by simp
next
  case (Suc l)
  define e where "e = m (t + 8 * i)"
  have e: "m' (t + 8 * i) = e" using away_word [OF Suc.prems] by (simp add: e_def)
  have "away keep F l m (tbl e)" if "has e PTE_P" "\<not> big (Suc l) e"
    using Suc.prems(1,3) that by (auto simp: e_def)
  then show ?case using Suc.IH [OF _ Suc.prems(2) pt_idx_less] by (simp add: e flip: e_def)
qed

lemma space_walk_frame:
  assumes "away keep (fre s) 3 (pmem s) r" "grown s s'"
  shows "space_walk s' r w = space_walk s r w"
  using walk_frame [OF assms(1) grown_mem [OF assms(2)] pt_idx_less] by (simp add: space_walk_def ent_def)

context leaf_copier
begin

lemma root_spec:
  assumes ok: "mem_ok (fst st)" and aw: "away keep (fre (fst st)) 3 (pmem (fst st)) r" and n: "new_level st = (c, st1)"
    and entry: "\<forall>pe st. entry pe st = (case build leaf 2 (unat (pe AND PTE_ADDR)) st of
        (child, st2) \<Rightarrow> (if child \<noteq> 0 then fin child pe else pe, st2))"
    and fin: "\<forall>d pe. d mod 4096 = 0 \<longrightarrow> d < 2 ^ 52 \<longrightarrow>
        tbl (fin (of_nat d OR PTE_P OR PTE_W) pe) = d \<and> has (fin (of_nat d OR PTE_P OR PTE_W) pe) PTE_P"
    and st': "st' = (if c = 0 then st1 else fold (copy_entry entry r c) [0..<512] st1)"
    and mem: "price k 3 (pmem (fst st)) r \<le> card (fre (fst st))"
  shows "c \<noteq> 0 \<and> grown (fst st) (fst st') \<and> c mod 4096 = 0 \<and> c div 4096 \<in> fre (fst st)
    \<and> (case space_walk (fst st) r w of
         None \<Rightarrow> space_walk (fst st') c w = None
       | Some (j, f, u) \<Rightarrow>
           has f PTE_P \<and> (j = 0 \<or> big j f) \<and>
           (\<exists>H f' x. H \<subseteq> fre (fst st) - fre (fst st') \<and> R j H (pmem (fst st')) f f' \<and>
              (space_walk (fst st') c w = map_option (\<lambda>(j, f, u). (j, f, u \<and> x)) (walk j (pmem (fst st')) f' w))))"
proof -
  have nb: "\<not> big 3 e" for e by (simp add: big_def)
  have three: "(3 :: nat) = Suc 2" by simp
  note t = away_table [OF aw]
  have c0: "c \<noteq> 0"
  proof (cases rule: new_level_cases [OF ok n, case_names F T])
    case F
    then show ?thesis using mem unfolding three price.simps by simp
  qed simp
  have A: "unat (ent (fst st) r i AND PTE_ADDR) = tbl (ent (fst st) r i)" "away keep (fre (fst st)) 2 (pmem (fst st)) (tbl (ent (fst st) r i))"
    if "i < 512" "has (ent (fst st) r i) PTE_P" for i
    using aw that nb unfolding three away.simps(2) ent_def by auto
  define kk where "kk i = price k 2 (pmem (fst st)) (tbl (ent (fst st) r i))" for i
  define Q where "Q i H m v = (\<exists>d. v = fin (of_nat d OR PTE_P OR PTE_W) (ent (fst st) r i) \<and> d mod 4096 = 0 \<and> d < 2 ^ 52
      \<and> mirror R H 2 m (tbl (ent (fst st) r i)) d)" for i H m v
  have E: "\<forall>i<512. has (ent (fst st) r i) PTE_P \<longrightarrow> entry_ok entry (fst st) (ent (fst st) r i) (kk i) (Q i)"
  proof (intro allI impI)
    fix i :: nat assume i: "i < 512" "has (ent (fst st) r i) PTE_P"
    define e where "e = ent (fst st) r i"
    note Ai = A [OF i, folded e_def]
    show "entry_ok entry (fst st) (ent (fst st) r i) (kk i) (Q i)"
      unfolding entry_ok_def e_def [symmetric]
    proof (intro conjI allI impI)
      fix s v s'
      assume g: "grown (fst st) (fst s)" and en: "entry e s = (v, s')"
      obtain v0 s2 where b0: "build leaf 2 (tbl e) s = (v0, s2)" by (rule prod.exhaust)
      have "entry e s = (if v0 \<noteq> 0 then fin v0 e else e, s2)" unfolding entry [rule_format] Ai(1) b0 prod.case ..
      with en b0 have b: "build leaf 2 (tbl e) s = (v0, s')" "v = (if v0 \<noteq> 0 then fin v0 e else e)" by simp_all
      have fr: "away keep (fre (fst s)) 2 (pmem (fst s)) (tbl e)" "price k 2 (pmem (fst s)) (tbl e) = kk i"
        using away_frame [OF Ai(2) grown_mem [OF g] grown_fre [OF g], of k] by (auto simp: kk_def e_def)
      note B = build_spec [OF grown_ok [OF g] fr(1) b(1), unfolded fr(2)]
      show "grown (fst s) (fst s')" using B by blast
      assume "kk i \<le> card (fre (fst s))"
      then obtain d where d: "card (fre (fst s')) + kk i = card (fre (fst s))"
        "v0 = of_nat d OR PTE_P OR PTE_W" "d < 2 ^ 52" "mirror R (fre (fst s) - fre (fst s')) 2 (pmem (fst s')) (tbl e) d"
        using B by blast
      have da: "d mod 4096 = 0" using d(4) unfolding numeral_2_eq_2 by simp
      show "card (fre (fst s')) + kk i = card (fre (fst s))" by (rule d(1))
      have v: "v = fin (of_nat d OR PTE_P OR PTE_W) e"
        unfolding b(2) if_P [OF root_value(4) [OF da d(3,2)]] unfolding d(2) ..
      show "Q i (fre (fst s) - fre (fst s')) (pmem (fst s')) v"
        unfolding Q_def e_def [symmetric] by (intro exI [of _ d] conjI v da d(3,4))
    next
      fix H m m' v
      assume q: "Q i H m v" "\<forall>a. a div 4096 \<notin> fre (fst st) \<longrightarrow> m a = pmem (fst st) a"
        "\<forall>a. a div 4096 \<in> H \<union> - fre (fst st) \<longrightarrow> m' a = m a"
      have am: "away keep (fre (fst st)) 2 m (tbl e)" using away_frame [OF Ai(2) q(2)] by blast
      obtain d where d: "v = fin (of_nat d OR PTE_P OR PTE_W) e" "d mod 4096 = 0" "d < 2 ^ 52" "mirror R H 2 m (tbl e) d"
        using q(1) unfolding Q_def e_def [symmetric] by (elim exE conjE)
      show "Q i H m' v"
        unfolding Q_def e_def [symmetric] by (intro exI [of _ d] conjI d(1-3) mirror_frame [OF d(4) am q(3)])
    qed
  qed
  have s': "st' = fold (copy_entry entry r c) [0..<512] st1" using st' c0 by simp
  note L = table_filled [OF ok n c0 conjunct1 [OF t] conjunct2 [OF t] E s']
  have p: "price k 3 (pmem (fst st)) r = Suc (\<Sum>i<512. if has (ent (fst st) r i) PTE_P then kk i else 0)"
    unfolding three price.simps kk_def ent_def using nb by (simp only: three [symmetric] if_False)
  obtain H where H: "shares (fre (fst st) - fre (fst st')) c 512 H"
    "\<forall>i<512. if has (ent (fst st) r i) PTE_P then Q i (H i) (pmem (fst st')) (ent (fst st') c i) else ent (fst st') c i = 0"
    using L mem unfolding p by blast
  define i e e' where "i = pt_idx 3 w" and "e = ent (fst st) r i" and "e' = ent (fst st') c i"
  have i: "i < 512" by (simp add: i_def)
  have fr: "ent (fst st') r i = e" unfolding e_def by (rule grown_ent [OF conjunct1 [OF L] conjunct1 [OF t] conjunct2 [OF t] i])
  have ws: "space_walk (fst st) r w = walk 3 (pmem (fst st')) e w"
    using space_walk_frame [OF aw conjunct1 [OF L], of w] fr by (simp add: space_walk_def i_def)
  have wc: "space_walk (fst st') c w = walk 3 (pmem (fst st')) e' w" by (simp add: space_walk_def e'_def i_def)
  have "case walk 3 (pmem (fst st')) e w of
         None \<Rightarrow> walk 3 (pmem (fst st')) e' w = None
       | Some (j, f, u) \<Rightarrow>
           has f PTE_P \<and> (j = 0 \<or> big j f) \<and>
           (\<exists>H f' x. H \<subseteq> fre (fst st) - fre (fst st') \<and> R j H (pmem (fst st')) f f' \<and>
              (walk 3 (pmem (fst st')) e' w = map_option (\<lambda>(j, f, u). (j, f, u \<and> x)) (walk j (pmem (fst st')) f' w)))"
  proof (cases "has e PTE_P")
    case False
    then have "e' = 0" using H(2) i by (auto simp: e_def e'_def split: if_splits)
    then show ?thesis using False by (simp add: walk_3)
  next
    case True
    then have "Q i (H i) (pmem (fst st')) e'" using H(2) i by (auto simp: e_def e'_def split: if_splits)
    then obtain d where d: "e' = fin (of_nat d OR PTE_P OR PTE_W) e" "d mod 4096 = 0" "d < 2 ^ 52"
        "mirror R (H i) 2 (pmem (fst st')) (tbl e) d"
      unfolding Q_def e_def by (elim exE conjE)
    have pe: "tbl e' = d" "has e' PTE_P" using fin d(1-3) by auto
    define a b where "a = pmem (fst st') (tbl e + 8 * pt_idx 2 w)" and "b = pmem (fst st') (d + 8 * pt_idx 2 w)"
    obtain G where G: "G \<subseteq> H i" "erel R 2 G (pmem (fst st')) a b"
      using mirror_erel [OF d(4) pt_idx_less] unfolding a_def b_def .
    have hi: "H i \<subseteq> fre (fst st) - fre (fst st')" using H(1) i unfolding shares_def by blast
    have we: "walk 3 (pmem (fst st')) e w = map_option (\<lambda>(k, f, u). (k, f, u \<and> has e PTE_U)) (walk 2 (pmem (fst st')) a w)"
      "walk 3 (pmem (fst st')) e' w = map_option (\<lambda>(k, f, u). (k, f, u \<and> has e' PTE_U)) (walk 2 (pmem (fst st')) b w)"
      using True pe by (simp_all add: walk_3 a_def b_def)
    note I = erel_walk [OF G(2), of w]
    show ?thesis
    proof (cases "walk 2 (pmem (fst st')) a w")
      case None
      then show ?thesis using I by (simp only: we) simp
    next
      case (Some y)
      obtain j f u where y: "y = (j, f, u)" by (cases y)
      obtain H' f' x where J: "has f PTE_P" "j = 0 \<or> big j f" "H' \<subseteq> G" "R j H' (pmem (fst st')) f f'"
        "walk 2 (pmem (fst st')) b w = map_option (\<lambda>(k, f, u). (k, f, u \<and> x)) (walk j (pmem (fst st')) f' w)"
        using I Some y by auto
      have "walk 3 (pmem (fst st')) e' w
          = map_option (\<lambda>(k, f, u). (k, f, u \<and> (x \<and> has e' PTE_U))) (walk j (pmem (fst st')) f' w)"
        unfolding we(2) J(5) by (cases "walk j (pmem (fst st')) f' w") auto
      moreover have "walk 3 (pmem (fst st')) e w = Some (j, f, u \<and> has e PTE_U)" unfolding we(1) Some y by simp
      moreover have "H' \<subseteq> fre (fst st) - fre (fst st')" using J(3) G(1) hi by blast
      ultimately show ?thesis using J(1,2,4)
        by (simp only: option.case prod.case) (intro conjI exI [of _ H'] exI [of _ f'] exI [of _ "x \<and> has e' PTE_U"], auto)
    qed
  qed
  then show ?thesis using L c0 unfolding ws wc by blast
qed

end

text \<open>The tables of a space, and the pages its user leaves map, are in use.\<close>

definition tables_used :: "paging \<Rightarrow> nat \<Rightarrow> bool" where
  "tables_used s r \<longleftrightarrow> away (\<lambda>l e. {}) (fre s) 3 (pmem s) r"

definition space_used :: "paging \<Rightarrow> nat \<Rightarrow> bool" where
  "space_used s r \<longleftrightarrow> away fork_keep (fre s) 3 (pmem s) r"

text \<open>The pages a clone and a fork need.\<close>

definition clone_pages :: "paging \<Rightarrow> nat \<Rightarrow> nat" where
  "clone_pages s r = price (\<lambda>l e. 0) 3 (pmem s) r"

definition fork_pages :: "paging \<Rightarrow> nat \<Rightarrow> nat" where
  "fork_pages s r = price fork_price 3 (pmem s) r"

text \<open>An address mapped by a user leaf of 4 KiB or 2 MiB.\<close>

definition user_page :: "paging \<Rightarrow> u64 \<Rightarrow> bool" where
  "user_page s w \<longleftrightarrow> (case space_walk s (g_pml4 s) w of None \<Rightarrow> False | Some (k, e, u) \<Rightarrow> has e PTE_U \<and> k \<le> 1)"

lemma walk_leaf: "has f PTE_P \<Longrightarrow> j = 0 \<or> big j f \<Longrightarrow> walk j m f w = Some (j, f, has f PTE_U)"
  by (cases j) auto

lemma current_phys: "paging_virt_to_phys w s = phys_in s (g_pml4 s) w"
  by (simp add: phys_in_def)

lemma new_level_alloc: "alloc_table s = (c, s1) \<Longrightarrow> new_level (s, pages) = (c, s1, pages)"
  by (simp add: new_level_def)

lemma walk_keeps:
  assumes "away keep F l m t" "i < 512" "walk l m (m (t + 8 * i)) w = Some (k, f, u)"
  shows "keep k f \<inter> F = {}"
  using assms
proof (induction l arbitrary: t i u)
  case 0
  then show ?case by (auto split: if_splits)
next
  case (Suc l)
  define e where "e = m (t + 8 * i)"
  have P: "has e PTE_P" using Suc.prems(3) by (auto simp: e_def split: if_splits)
  show ?case
  proof (cases "big (Suc l) e")
    case True
    then have "keep (Suc l) e \<inter> F = {}" using Suc.prems(1,2) P by (simp add: e_def)
    moreover have "k = Suc l" "f = e" using Suc.prems(3) P True by (simp_all add: e_def)
    ultimately show ?thesis by simp
  next
    case False
    then have "away keep F l m (tbl e)" using Suc.prems(1,2) P by (auto simp: e_def)
    moreover have "\<exists>u. walk l m (m (tbl e + 8 * pt_idx l w)) w = Some (k, f, u)"
      using Suc.prems(3) P False by (auto simp: e_def)
    ultimately show ?thesis using Suc.IH pt_idx_less by blast
  qed
qed

text \<open>The address of a word in a page.\<close>

lemma page_word:
  fixes v w :: u64
  assumes "n mod 4096 = 0" "n < 2 ^ 52" "v AND PTE_ADDR = of_nat n"
  shows "unat ((v AND PTE_ADDR) OR (w AND 0xFFF)) = n + unat (w AND 0xFFF)"
proof -
  have z: "of_nat n AND (w AND 0xFFF) = (0 :: u64)"
    by (rule bit_word_eqI) (use not_bit_page [OF assms(1)] in \<open>auto simp: bit_simps mask12\<close>)
  have l: "unat (w AND 0xFFF) < 4096"
  proof -
    have "w AND 0xFFF \<le> 0xFFF" by (rule word_and_le1)
    then show ?thesis by (simp add: word_le_nat_alt)
  qed
  have "unat (of_nat n :: u64) = n" using assms(2) by (simp add: unat_of_nat)
  moreover have "of_nat n OR (w AND 0xFFF) = of_nat n + (w AND 0xFFF)" by (rule disjunctive_add_eq_or [OF z, symmetric])
  ultimately show ?thesis unfolding assms(3) using l assms(2) by (simp add: unat_word_ariths)
qed

lemma of_nat_frame: "n mod 4096 = 0 \<Longrightarrow> n < 2 ^ 52 \<Longrightarrow> of_nat n AND PTE_ADDR = (of_nat n :: u64)"
proof -
  assume n: "n mod 4096 = 0" "n < 2 ^ 52"
  have m: "(PTE_ADDR :: u64) = mask 52 AND NOT (mask 12)" by (simp add: mask_eq_exp_minus_1)
  have hi: "\<not> bit (of_nat n :: u64) k" if "52 \<le> k" for k
  proof -
    have "n < 2 ^ k" using n(2) power_increasing [OF that, of "2 :: nat"] by simp
    then have "\<not> bit n k" by (simp add: bit_iff_odd)
    then show ?thesis by (simp add: bit_of_nat_iff)
  qed
  have "bit (of_nat n :: u64) k \<Longrightarrow> 12 \<le> k \<and> k < 52" for k
    using hi [of k] not_bit_page [OF n(1), of k] by (auto simp: not_less simp flip: not_le simp del: bit_of_nat_iff)
  then show ?thesis unfolding m
    by (intro bit_word_eqI) (fastforce simp: bit_and_iff bit_not_iff bit_mask_iff)
qed

lemma frame_less: "frame e < 2 ^ 52"
proof -
  have "e AND PTE_ADDR \<le> PTE_ADDR" by (rule word_and_le1)
  then show ?thesis by (simp add: frame_def word_le_nat_alt)
qed

lemma unat_frame: "unat ((e AND PTE_ADDR) OR (w AND 0xFFF)) = frame e + unat (w AND 0xFFF)"
  by (rule page_word [OF frame_aligned frame_less]) (simp add: frame_def)

lemma off_less: "unat (w AND 0xFFF) < 4096" for w :: u64
proof -
  have "w AND 0xFFF \<le> 0xFFF" by (rule word_and_le1)
  then show ?thesis by (simp add: word_le_nat_alt)
qed

end
