(* ===== verification/Vmm_Spaces.thy ===== *)
theory Vmm_Spaces
  imports Vmm_Fork
begin

text \<open>
  The address-space theorems: a new task sees the kernel's map through tables of its own, and
  a forked child sees its parent's memory in pages of its own. The witnesses evaluate both on
  a space with one user page.
\<close>

section \<open>Cloning and forking\<close>

lemma clone_space:
  assumes ok: "mem_ok s" and used: "tables_used s (g_kernel_pml4 s)" and nz: "g_kernel_pml4 s \<noteq> 0"
    and mem: "clone_pages s (g_kernel_pml4 s) \<le> card (fre s)" and r: "vmm_clone_kernel_pml4 s = (c, s')"
  shows "c \<noteq> 0 \<and> c div 4096 \<in> fre s \<and> grown s s' \<and> (\<forall>w. phys_in s' c w = phys_in s (g_kernel_pml4 s) w)"
proof -
  obtain c0 s1 where a: "alloc_table s = (c0, s1)" by (rule prod.exhaust)
  let ?entry = "\<lambda>pe st. case clone_kernel_level 2 (unat (pe AND PTE_ADDR)) st of
      (child, st2) \<Rightarrow> (if child \<noteq> 0 then child else pe, st2)"
  define st' where "st' = (if c0 = 0 then (s1, []) else fold (copy_entry ?entry (g_kernel_pml4 s) c0) [0..<512] (s1, []))"
  have cs: "c = c0" "s' = fst st'"
    using r a by (auto simp: vmm_clone_kernel_pml4_def st'_def paging_kernel_pml4_def split: if_splits)
  have S: "c0 \<noteq> 0 \<and> grown s (fst st') \<and> c0 mod 4096 = 0 \<and> c0 div 4096 \<in> fre s
    \<and> (case space_walk s (g_kernel_pml4 s) w of
         None \<Rightarrow> space_walk (fst st') c0 w = None
       | Some (j, f, u) \<Rightarrow>
           has f PTE_P \<and> (j = 0 \<or> big j f) \<and>
           (\<exists>H f' x. H \<subseteq> fre s - fre (fst st') \<and> f' = f \<and>
              (space_walk (fst st') c0 w = map_option (\<lambda>(j, f, u). (j, f, u \<and> x)) (walk j (pmem (fst st')) f' w))))" for w
  proof -
    have ent: "\<forall>pe st. ?entry pe st = (case build share_leaf 2 (unat (pe AND PTE_ADDR)) st of
        (child, st2) \<Rightarrow> (if child \<noteq> 0 then (\<lambda>child pe. child) child pe else pe, st2))"
      by (simp only: clone_is_build simp_thms)
    have fin: "\<forall>d pe. d mod 4096 = 0 \<longrightarrow> d < 2 ^ 52 \<longrightarrow>
        tbl ((\<lambda>child pe. child) (of_nat d OR PTE_P OR PTE_W) pe) = d
        \<and> has ((\<lambda>child pe. child) (of_nat d OR PTE_P OR PTE_W) pe) PTE_P"
      by (intro allI impI conjI root_value(1,2) [OF _ _ refl])
    have pre: "mem_ok (fst (s, []))" "away (\<lambda>l e. {}) (fre (fst (s, []))) 3 (pmem (fst (s, []))) (g_kernel_pml4 s)"
      "price (\<lambda>l e. 0) 3 (pmem (fst (s, []))) (g_kernel_pml4 s) \<le> card (fre (fst (s, [])))"
      using ok used mem by (simp_all add: tables_used_def clone_pages_def)
    show ?thesis
      by (rule share.root_spec [OF pre(1,2) new_level_alloc [OF a] ent fin st'_def pre(3), of w, unfolded fst_conv])
  qed
  have "phys_in (fst st') c0 w = phys_in s (g_kernel_pml4 s) w" for w
  proof -
    have c0: "c0 \<noteq> 0" using S by blast
    show ?thesis
    proof (cases "space_walk s (g_kernel_pml4 s) w")
      case None
      then show ?thesis using S [of w] by (simp add: phys_in_walk [OF nz] phys_in_walk [OF c0])
    next
      case (Some y)
      obtain j f u where y: "y = (j, f, u)" by (cases y)
      obtain x where "has f PTE_P" "j = 0 \<or> big j f"
        "space_walk (fst st') c0 w = map_option (\<lambda>(j, f, u). (j, f, u \<and> x)) (walk j (pmem (fst st')) f w)"
        using S [of w] Some y by auto
      then have "space_walk (fst st') c0 w = Some (j, f, has f PTE_U \<and> x)" by (simp add: walk_leaf)
      then show ?thesis using Some y by (simp add: phys_in_walk [OF nz] phys_in_walk [OF c0] leaf_phys_def)
    qed
  qed
  then show ?thesis using S cs by blast
qed

lemma used_space_kept: "tables_used s r \<Longrightarrow> grown s s' \<Longrightarrow> phys_in s' r w = phys_in s r w"
proof (cases "r = 0")
  case True
  then show ?thesis by (simp add: phys_in_def paging_virt_to_phys_def)
next
  case False
  assume "tables_used s r" "grown s s'"
  then show ?thesis using space_walk_frame [of "\<lambda>l e. {}" s r s' w]
    by (simp add: phys_in_walk [OF False] tables_used_def)
qed

text \<open>A leaf of 2 MiB that \<open>pt_ok\<close> admits starts at a multiple of its size.\<close>

lemma big_leaf_aligned:
  assumes "pt_ok s" "space_walk s (g_pml4 s) w = Some (1, e, u)"
  shows "e AND 0x1FF000 = 0"
proof -
  define i4 i3 i2 where "i4 = pt_idx 3 w" and "i3 = pt_idx 2 w" and "i2 = pt_idx 1 w"
  define e4 where "e4 = ent s (g_pml4 s) i4"
  define e3 where "e3 = ent s (tbl e4) i3"
  have W: "has e4 PTE_P" "has e3 PTE_P" "\<not> has e3 PTE_PS" "e = ent s (tbl e3) i2" "has e PTE_P" "has e PTE_PS"
    using assms(2) by (auto simp: space_walk_def eval_nat_numeral big_def ent_def e4_def e3_def i4_def i3_def i2_def split: if_splits)
  have t: "table_at s [i3, i4] = Some (tbl e3)"
    using W(1-3) by (simp add: follow_def e3_def e4_def)
  have v: "vpath [i3, i4]" by (simp add: vpath_def i3_def i4_def)
  show ?thesis
    using pt_okD(5) [OF assms(1) v _ t, of i2] W(4-6) by (simp add: i2_def)
qed

lemma frame_of_word:
  assumes "e AND 0x1FF000 = 0"
  shows "unat ((e AND 0x000FFFFFFFE00000) OR (w AND 0x1FFFFF)) = frame_of e (pt_idx 0 w) + unat (w AND 0xFFF)"
proof -
  have d: "(e AND PTE_ADDR) AND (w AND 0x1FF000) = 0"
  proof -
    have "(e AND PTE_ADDR) AND (w AND 0x1FF000) = (e AND 0x1FF000) AND (PTE_ADDR AND w)" by (simp add: ac_simps)
    then show ?thesis using assms by simp
  qed
  have a: "(e AND PTE_ADDR) + (w AND 0x1FF000) = (e AND PTE_ADDR) OR (w AND 0x1FF000)"
    by (rule disjunctive_add_eq_or [OF d])
  define x where "x = (e AND PTE_ADDR) OR (w AND 0x1FF000)"
  have e: "e AND PTE_ADDR = e AND 0x000FFFFFFFE00000"
  proof -
    have "e AND PTE_ADDR = (e AND 0x000FFFFFFFE00000) OR (e AND 0x1FF000)"
      by (simp flip: bit.conj_disj_distrib)
    then show ?thesis using assms by simp
  qed
  have w: "(w AND 0x1FF000) OR (w AND 0xFFF) = w AND 0x1FFFFF"
    by (simp flip: bit.conj_disj_distrib)
  have xa: "x AND PTE_ADDR = x" by (simp add: x_def bit.conj_disj_distrib2 and.assoc)
  have f: "frame_of e (pt_idx 0 w) = frame x" unfolding frame_of_def idx0_word a frame_def by (simp add: x_def [symmetric] xa)
  have "(e AND 0x000FFFFFFFE00000) OR (w AND 0x1FFFFF) = (x AND PTE_ADDR) OR (w AND 0xFFF)"
    unfolding xa by (simp add: x_def e or.assoc w)
  then show ?thesis using unat_frame [of x w] f by simp
qed

text \<open>The copy of a user leaf maps a fresh page with the contents of the old one.\<close>

lemma fork_leaf_phys:
  assumes rel: "fork_rel j H m f f'" and f: "has f PTE_P" "j = 0 \<or> big j f" "has f PTE_U" "j \<le> 1"
    and al: "j = 1 \<longrightarrow> f AND 0x1FF000 = 0"
  obtains y where "walk j m f' w = Some y" "unat (leaf_phys w y) div 4096 \<in> H"
    "m (unat (leaf_phys w y)) = m (unat (leaf_phys w (j, f, u)))"
proof (cases "j = 0")
  case True
  obtain n where n: "fresh_copy H m n (frame f)" "f' = (of_nat n AND PTE_ADDR) OR (f AND NOT PTE_ADDR)"
    using rel f(3) True by (auto simp: fork_rel_def)
  have na: "n mod 4096 = 0" "n < 2 ^ 52" using n(1) by (simp_all add: fresh_copy_def)
  have adr: "f' AND PTE_ADDR = of_nat n"
    unfolding n(2) bit.conj_disj_distrib2 by (simp add: and.assoc of_nat_frame [OF na])
  have "has f' PTE_P" unfolding n(2) has_flags using f(1) by (simp add: has_flags bit_simps)
  then have w: "walk j m f' w = Some (0, f', has f' PTE_U)" using True by simp
  have p: "unat (leaf_phys w (0, f', has f' PTE_U)) = n + unat (w AND 0xFFF)"
    using page_word [OF na adr] by (simp add: leaf_phys_def)
  have q: "unat (leaf_phys w (j, f, u)) = frame f + unat (w AND 0xFFF)" using unat_frame True by (simp add: leaf_phys_def)
  show ?thesis
  proof (rule that [OF w])
    show "unat (leaf_phys w (0, f', has f' PTE_U)) div 4096 \<in> H"
      unfolding p page_offset [OF na(1) off_less] using n(1) by (simp add: fresh_copy_def)
    show "m (unat (leaf_phys w (0, f', has f' PTE_U))) = m (unat (leaf_phys w (j, f, u)))"
      unfolding p q using n(1) off_less by (simp add: fresh_copy_def same_page_def)
  qed
next
  case False
  then have j: "j = 1" using f(4) by simp
  define i where "i = pt_idx 0 w"
  have i: "i < 512" by (simp add: i_def)
  have "fork_rel 1 H m f f'" using rel j by simp
  then obtain c where c: "c mod 4096 = 0" "c < 2 ^ 52" "f' = of_nat c OR (f AND ENTRY_FLAGS) OR PTE_P"
    "\<forall>j<512. \<exists>n. fresh_copy H m n (frame_of f j) \<and> m (c + 8 * j) = (of_nat n AND PTE_ADDR) OR (f AND ENTRY_FLAGS) OR PTE_P"
    unfolding fork_rel_big [OF f(3)] by (elim exE conjE)
  obtain n where n: "fresh_copy H m n (frame_of f i)" "m (c + 8 * i) = (of_nat n AND PTE_ADDR) OR (f AND ENTRY_FLAGS) OR PTE_P"
    using c(4) [rule_format, OF i] by (elim exE conjE)
  have na: "n mod 4096 = 0" "n < 2 ^ 52" using n(1) by (simp_all add: fresh_copy_def)
  define g where "g = m (c + 8 * i)"
  have adr: "g AND PTE_ADDR = of_nat n"
    unfolding g_def n(2) bit.conj_disj_distrib2 by (simp add: and.assoc of_nat_frame [OF na])
  have gp: "has g PTE_P" unfolding g_def n(2) has_flags by (simp add: bit_simps)
  have tc: "tbl f' = c"
    unfolding c(3) using c(1,2) by (intro tbl_page) (simp_all add: bit.conj_disj_distrib2 and.assoc)
  have fp: "has f' PTE_P" "\<not> has f' PTE_PS"
    unfolding c(3) has_flags using not_bit_page [OF c(1)] by (simp_all add: bit_simps)
  have "walk 1 m f' w = Some (0, g, has g PTE_U \<and> has f' PTE_U)"
    unfolding One_nat_def walk.simps using fp gp tc by (simp add: big_def g_def i_def)
  then have w: "walk j m f' w = Some (0, g, has g PTE_U \<and> has f' PTE_U)" using j by simp
  have p: "unat (leaf_phys w (0, g, has g PTE_U \<and> has f' PTE_U)) = n + unat (w AND 0xFFF)"
    using page_word [OF na adr] by (simp add: leaf_phys_def)
  have q: "unat (leaf_phys w (j, f, u)) = frame_of f i + unat (w AND 0xFFF)"
    using frame_of_word al j by (simp add: leaf_phys_def i_def)
  show ?thesis
  proof (rule that [OF w])
    show "unat (leaf_phys w (0, g, has g PTE_U \<and> has f' PTE_U)) div 4096 \<in> H"
      unfolding p page_offset [OF na(1) off_less] using n(1) by (simp add: fresh_copy_def)
    show "m (unat (leaf_phys w (0, g, has g PTE_U \<and> has f' PTE_U))) = m (unat (leaf_phys w (j, f, u)))"
      unfolding p q using n(1) off_less by (simp add: fresh_copy_def same_page_def)
  qed
qed
lemma fork_fin:
  assumes "d mod 4096 = 0" "d < 2 ^ 52"
  shows "tbl ((of_nat d OR PTE_P OR PTE_W) OR (pe AND ENTRY_FLAGS)) = d \<and> has ((of_nat d OR PTE_P OR PTE_W) OR (pe AND ENTRY_FLAGS)) PTE_P"
proof -
  have "(of_nat d OR PTE_P OR PTE_W) OR (pe AND ENTRY_FLAGS) = (of_nat d OR PTE_P OR PTE_W OR (pe AND ENTRY_FLAGS) OR PTE_P :: u64)"
    by (rule bit_word_eqI) (simp only: bit_or_iff, blast)
  then show ?thesis using link_value [OF assms] by blast
qed

text \<open>The walk of the child's tables.\<close>

lemma fork_walk:
  assumes ok: "mem_ok s" and used: "space_used s r"
    and mem: "fork_pages s r \<le> card (fre s)" and f: "vmm_copy_user_page_tables r (s, pages) = (c, s', pages')"
  shows "c \<noteq> 0 \<and> grown s s' \<and> c mod 4096 = 0 \<and> c div 4096 \<in> fre s
    \<and> (case space_walk s r w of
         None \<Rightarrow> space_walk s' c w = None
       | Some (j, f, u) \<Rightarrow>
           has f PTE_P \<and> (j = 0 \<or> big j f) \<and>
           (\<exists>H f' x. H \<subseteq> fre s - fre s' \<and> fork_rel j H (pmem s') f f' \<and>
              (space_walk s' c w = map_option (\<lambda>(j, f, u). (j, f, u \<and> x)) (walk j (pmem s') f' w))))"
proof -
  let ?entry = "\<lambda>pe st. case copy_pt_level 2 (unat (pe AND PTE_ADDR)) st of
      (child, st2) \<Rightarrow> (if child \<noteq> 0 then child OR (pe AND ENTRY_FLAGS) else pe, st2)"
  obtain c0 st1 where a: "new_level (s, pages) = (c0, st1)" by (rule prod.exhaust)
  have st': "(s', pages') = (if c = 0 then st1 else fold (copy_entry ?entry r c) [0..<512] st1)" and cc: "c0 = c"
    using f unfolding vmm_copy_user_page_tables_def a prod.case by (auto split: if_splits)
  have ent: "\<forall>pe st. ?entry pe st = (case build fork_leaf 2 (unat (pe AND PTE_ADDR)) st of
        (child, st2) \<Rightarrow> (if child \<noteq> 0 then (\<lambda>child pe. child OR (pe AND ENTRY_FLAGS)) child pe else pe, st2))"
    by (simp only: copy_is_build simp_thms)
  have fin: "\<forall>d pe. d mod 4096 = 0 \<longrightarrow> d < 2 ^ 52 \<longrightarrow>
        tbl ((\<lambda>child pe. child OR (pe AND ENTRY_FLAGS)) (of_nat d OR PTE_P OR PTE_W) pe) = d
        \<and> has ((\<lambda>child pe. child OR (pe AND ENTRY_FLAGS)) (of_nat d OR PTE_P OR PTE_W) pe) PTE_P"
    using fork_fin by blast
  have pre: "mem_ok (fst (s, pages))" "away fork_keep (fre (fst (s, pages))) 3 (pmem (fst (s, pages))) r"
      "price fork_price 3 (pmem (fst (s, pages))) r \<le> card (fre (fst (s, pages)))"
    using ok used mem by (simp_all add: space_used_def fork_pages_def)
  show ?thesis
    by (rule fork.root_spec [OF pre(1,2) a [unfolded cc] ent fin st' pre(3), of w, unfolded fst_conv])
qed

text \<open>The page behind a user address of the parent is in use, so the copying leaves it alone.\<close>

lemma user_page_used:
  assumes "space_used s (g_pml4 s)" "pt_ok s" "space_walk s (g_pml4 s) w = Some (j, f, u)" "has f PTE_U" "j \<le> 1"
  shows "unat (leaf_phys w (j, f, u)) div 4096 \<notin> fre s"
proof -
  have k: "fork_keep j f \<inter> fre s = {}"
    using walk_keeps [of fork_keep "fre s" 3 "pmem s" "g_pml4 s" "pt_idx 3 w" w] assms(1,3)
    by (simp add: space_used_def space_walk_def ent_def)
  show ?thesis
  proof (cases "j = 0")
    case True
    then show ?thesis using k assms(4) unat_frame [of f w] page_offset [OF frame_aligned off_less]
      by (simp add: fork_keep_def leaf_phys_def)
  next
    case False
    then have j: "j = 1" using assms(5) by simp
    have "unat (leaf_phys w (j, f, u)) = frame_of f (pt_idx 0 w) + unat (w AND 0xFFF)"
      using frame_of_word big_leaf_aligned [OF assms(2)] assms(3) j by (simp add: leaf_phys_def)
    then have "unat (leaf_phys w (j, f, u)) div 4096 = frame_of f (pt_idx 0 w) div 4096"
      using page_offset [OF frame_of_aligned off_less] by simp
    moreover have "frame_of f (pt_idx 0 w) div 4096 \<in> fork_keep j f" using j assms(4) by (simp add: fork_keep_def)
    ultimately show ?thesis using k by (metis disjoint_iff)
  qed
qed

lemma fork_child:
  assumes ok: "pt_ok s" "g_total_pages (pt_pmm s) \<le> 2 ^ 40" and used: "space_used s (g_pml4 s)"
    and mem: "fork_pages s (g_pml4 s) \<le> card (fre s)"
    and f: "vmm_copy_user_page_tables (g_pml4 s) (s, pages) = (c, s', pages')"
  shows "if user_page s w
      then unat (phys_in s' c w) div 4096 \<in> fre s - fre s' \<and>
           pmem s' (unat (phys_in s' c w)) = pmem s (unat (paging_virt_to_phys w s))
      else phys_in s' c w = paging_virt_to_phys w s"
proof -
  have mok: "mem_ok s" using pt_okD(1,2) [OF ok(1)] ok(2) by (simp add: mem_ok_def)
  note W = fork_walk [OF mok used mem f, of w]
  have c: "c \<noteq> 0" "grown s s'" using W by blast+
  have nz: "g_pml4 s \<noteq> 0" using pt_okD(3) [OF ok(1) vpath_Nil, of "g_pml4 s"] by (simp add: used_page_def)
  show ?thesis
  proof (cases "space_walk s (g_pml4 s) w")
    case None
    then show ?thesis using W by (simp add: user_page_def current_phys phys_in_walk [OF nz] phys_in_walk [OF c(1)])
  next
    case (Some y)
    obtain j g u where y: "y = (j, g, u)" by (cases y)
    obtain H f' x where L: "has g PTE_P" "j = 0 \<or> big j g" "H \<subseteq> fre s - fre s'" "fork_rel j H (pmem s') g f'"
      "space_walk s' c w = map_option (\<lambda>(j, f, u). (j, f, u \<and> x)) (walk j (pmem s') f' w)"
      using W unfolding Some y option.case prod.case by (elim exE conjE)
    have P: "paging_virt_to_phys w s = leaf_phys w (j, g, u)"
      using Some y by (simp add: current_phys phys_in_walk [OF nz])
    have any: "leaf_phys w (a, b, d) = leaf_phys w (a, b, d')" for a b d d' by (simp add: leaf_phys_def)
    show ?thesis
    proof (cases "has g PTE_U \<and> j \<le> 1")
      case True
      have al: "j = 1 \<longrightarrow> g AND 0x1FF000 = 0" using big_leaf_aligned [OF ok(1)] Some y by blast
      obtain z where z: "walk j (pmem s') f' w = Some z" "unat (leaf_phys w z) div 4096 \<in> H"
        "pmem s' (unat (leaf_phys w z)) = pmem s' (unat (leaf_phys w (j, g, u)))"
        using fork_leaf_phys [OF L(4,1,2) conjunct1 [OF True] conjunct2 [OF True] al] .
      obtain a b d where zz: "z = (a, b, d)" by (cases z)
      have q: "phys_in s' c w = leaf_phys w z"
        unfolding phys_in_walk [OF c(1)] L(5) z(1) zz by simp (rule any)
      have "unat (leaf_phys w (j, g, u)) div 4096 \<notin> fre s"
        using user_page_used [OF used ok(1) Some [unfolded y]] True by simp
      then have "pmem s' (unat (leaf_phys w (j, g, u))) = pmem s (unat (leaf_phys w (j, g, u)))"
        using grown_mem [OF c(2)] by blast
      then show ?thesis using True z(2,3) L(3) unfolding q P by (auto simp: user_page_def Some y)
    next
      case False
      then have "f' = g" using L(4) by (auto simp: fork_rel_def split: if_splits)
      then have "space_walk s' c w = Some (j, g, has g PTE_U \<and> x)" using L(5) walk_leaf [OF L(1,2)] by simp
      then have "phys_in s' c w = leaf_phys w (j, g, u)" unfolding phys_in_walk [OF c(1)] by simp (rule any)
      then show ?thesis using False P by (auto simp: user_page_def Some y)
    qed
  qed
qed


text \<open>
  C6. Fork isolation. \<open>vmm_copy_user_page_tables\<close> on the current space, with enough free memory,
  returns a PML4 under which each address of a user page leads to a page that was free and holds
  what the parent's page holds, and every other address translates as for the parent. The
  parent's own translation and every word of memory outside the pages taken are unchanged, so
  a later write of the child to a user page is never seen by the parent.
\<close>

theorem fork_private:
  assumes "pt_ok s" "g_total_pages (pt_pmm s) \<le> 2 ^ 40" "space_used s (g_pml4 s)"
    and "fork_pages s (g_pml4 s) \<le> card (fre s)"
    and "vmm_copy_user_page_tables (g_pml4 s) (s, pages) = (c, s', pages')"
  shows "c \<noteq> 0
    \<and> (\<forall>w. paging_virt_to_phys w s' = paging_virt_to_phys w s)
    \<and> (\<forall>a. a div 4096 \<notin> fre s - fre s' \<longrightarrow> pmem s' a = pmem s a)
    \<and> (\<forall>w. if user_page s w
        then unat (phys_in s' c w) div 4096 \<in> fre s - fre s' \<and>
             pmem s' (unat (phys_in s' c w)) = pmem s (unat (paging_virt_to_phys w s))
        else phys_in s' c w = paging_virt_to_phys w s)"
proof -
  have mok: "mem_ok s" using pt_okD(1,2) [OF assms(1)] assms(2) by (simp add: mem_ok_def)
  have c: "c \<noteq> 0" and g: "grown s s'" using fork_walk [OF mok assms(3-5)] by blast+
  have nz: "g_pml4 s \<noteq> 0" using pt_okD(3) [OF assms(1) vpath_Nil, of "g_pml4 s"] by (simp add: used_page_def)
  have "g_pml4 s' = g_pml4 s" using g by (simp add: grown_def)
  then have "paging_virt_to_phys w s' = paging_virt_to_phys w s" for w
    using space_walk_frame [OF assms(3) [unfolded space_used_def] g, of w] by (simp add: current_phys phys_in_walk [OF nz])
  moreover have "\<forall>a. a div 4096 \<notin> fre s - fre s' \<longrightarrow> pmem s' a = pmem s a" using g by (simp add: grown_def)
  ultimately show ?thesis using c fork_child [OF assms] by (intro conjI) blast+
qed
section \<open>A space with one user page\<close>

text \<open>
  Sixteen pages, of which 0 to 5 are in use: the tables at 0x1000 to 0x4000 lead from address
  0 to the user page at 0x5000, which holds 42 in its second word.
\<close>

definition one_page :: paging where
  "one_page = \<lparr>pt_pmm = \<lparr>g_bitmap_phys = 0, g_bitmap = [0x3F, 0], g_refs = replicate 16 0, g_total_pages = 16,
       g_free_pages = 10, g_ceiling = 0x10000\<rparr>,
     pmem = (\<lambda>a. 0)(0x1000 := 0x2007, 0x2000 := 0x3007, 0x3000 := 0x4007, 0x4000 := 0x5007, 0x5008 := 42),
     g_mapped_ceiling = 0, g_cr3 = 0x1000, g_pml4 = 0x1000, g_kernel_pml4 = 0x1000\<rparr>"

lemma one_page_list: "filter (\<lambda>p. \<not> bm_test (pt_pmm one_page) p) [0..<g_total_pages (pt_pmm one_page)] = [6..<16]"
  by (simp add: one_page_def upt_conv_Cons bm_test_def)

lemma one_page_fre: "fre one_page = {6..<16}"
  unfolding free_set_list one_page_list by (rule set_upt)

lemma one_page_ent:
  "i < 512 \<Longrightarrow> pmem one_page (4096 + 8 * i) = (if i = 0 then 0x2007 else 0)"
  "i < 512 \<Longrightarrow> pmem one_page (8192 + 8 * i) = (if i = 0 then 0x3007 else 0)"
  "i < 512 \<Longrightarrow> pmem one_page (12288 + 8 * i) = (if i = 0 then 0x4007 else 0)"
  "i < 512 \<Longrightarrow> pmem one_page (16384 + 8 * i) = (if i = 0 then 0x5007 else 0)"
  by (auto simp: one_page_def)

lemma one_page_roots: "g_pml4 one_page = 0x1000" "g_kernel_pml4 one_page = 0x1000" "g_total_pages (pt_pmm one_page) = 16"
  "pmem one_page 0x5008 = 42"
  by (simp_all add: one_page_def)

lemma one_page_first: "pmem one_page 4096 = 0x2007" "pmem one_page 8192 = 0x3007" "pmem one_page 12288 = 0x4007"
  "pmem one_page 16384 = 0x5007"
  by (simp_all add: one_page_def)

lemma one_page_words: "has 0x2007 PTE_P" "has 0x3007 PTE_P" "has 0x4007 PTE_P" "has 0x5007 PTE_P" "\<not> has 0 PTE_P"
  "tbl 0x2007 = 0x2000" "tbl 0x3007 = 0x3000" "tbl 0x4007 = 0x4000" "\<not> has 0x3007 PTE_PS" "\<not> has 0x4007 PTE_PS"
  "has 0x5007 PTE_U"
  by (simp_all add: has_def tbl_def)

lemma sum_first: "(\<Sum>i<512. if i = 0 then f i else 0) = f (0 :: nat)" for f :: "nat \<Rightarrow> nat"
  by (simp add: sum.If_cases)

text \<open>One of 512 entries is present, and it leads on.\<close>

lemma price_one:
  assumes "\<forall>i<512. m (t + 8 * i) = (if i = 0 then e else 0)" "has e PTE_P"
  shows "price k 0 m t = Suc (k 0 e)" "\<not> big (Suc l) e \<Longrightarrow> price k (Suc l) m t = Suc (price k l m (tbl e))"
proof -
  have n: "\<not> has 0 PTE_P" by (simp add: has_def)
  have "(\<Sum>i<512. if has (m (t + 8 * i)) PTE_P then g (m (t + 8 * i)) else 0) = g e" for g :: "u64 \<Rightarrow> nat"
  proof -
    have "(\<Sum>i<512. if has (m (t + 8 * i)) PTE_P then g (m (t + 8 * i)) else 0) = (\<Sum>i<512. if i = (0 :: nat) then g e else 0)"
      using assms n by (intro sum.cong) auto
    then show ?thesis by (simp add: sum_first [of "\<lambda>i. g e"])
  qed
  from this [of "k 0"] this [of "\<lambda>e. if big (Suc l) e then k (Suc l) e else price k l m (tbl e)"]
  show "price k 0 m t = Suc (k 0 e)" "\<not> big (Suc l) e \<Longrightarrow> price k (Suc l) m t = Suc (price k l m (tbl e))" by simp_all
qed

lemma away_one:
  assumes "\<forall>i<512. m (t + 8 * i) = (if i = 0 then e else 0)" "t mod 4096 = 0" "t div 4096 \<notin> F"
  shows "keep 0 e \<inter> F = {} \<Longrightarrow> away keep F 0 m t"
    "\<not> big (Suc l) e \<Longrightarrow> unat (e AND PTE_ADDR) = tbl e \<Longrightarrow> away keep F l m (tbl e) \<Longrightarrow> away keep F (Suc l) m t"
  using assms by (auto simp: has_def)

lemma one_page_price: "price k 3 (pmem one_page) 0x1000 = 4 + k 0 0x5007"
proof -
  have 3: "(3 :: nat) = Suc (Suc (Suc 0))" by simp
  show ?thesis unfolding 3
    using price_one [where m = "pmem one_page" and t = 4096 and e = "0x2007" and k = k] price_one [where m = "pmem one_page" and t = 8192 and e = "0x3007" and k = k]
      price_one [where m = "pmem one_page" and t = 12288 and e = "0x4007" and k = k] price_one [where m = "pmem one_page" and t = 16384 and e = "0x5007" and k = k]
    by (simp add: one_page_ent one_page_words big_def del: price.simps)
qed

lemma one_page_away:
  assumes k: "keep 0 0x5007 \<inter> {6..<16} = {}"
  shows "away keep (fre one_page) 3 (pmem one_page) 0x1000"
proof -
  have 3: "(3 :: nat) = Suc (Suc (Suc 0))" by simp
  have "away keep (fre one_page) 0 (pmem one_page) 16384" using k by (intro away_one(1) [where e = "0x5007"]) (simp_all add: one_page_ent one_page_fre)
  then have "away keep (fre one_page) (Suc 0) (pmem one_page) 12288"
    by - (rule away_one(2) [where e = "0x4007"], simp_all add: one_page_ent one_page_fre one_page_words big_def del: away.simps)
  then have "away keep (fre one_page) (Suc (Suc 0)) (pmem one_page) 8192"
    by - (rule away_one(2) [where e = "0x3007"], simp_all add: one_page_ent one_page_fre one_page_words big_def del: away.simps)
  then show ?thesis unfolding 3
    by - (rule away_one(2) [where e = "0x2007"], simp_all add: one_page_ent one_page_fre one_page_words big_def del: away.simps)
qed
lemma one_page_table: "vpath p \<Longrightarrow> table_at one_page p = (if \<forall>i\<in>set p. i = 0 then Some (4096 * Suc (length p)) else None)"
proof (induction p)
  case Nil
  then show ?case by (simp add: one_page_def)
next
  case (Cons i p)
  have i: "i < 512" "length p < 3" "vpath p" using Cons.prems by (simp_all add: vpath_Cons)
  then consider "length p = 0" | "length p = 1" | "length p = 2" by linarith
  then show ?case
  proof cases
    case 1
    then show ?thesis using i by (cases "i = 0") (simp_all add: follow_def ent_def one_page_ent one_page_first one_page_words one_page_roots)
  next
    case 2
    then show ?thesis using i Cons.IH
      by (cases "i = 0") (auto simp: follow_def ent_def one_page_ent one_page_first one_page_words)
  next
    case 3
    then show ?thesis using i Cons.IH
      by (cases "i = 0") (auto simp: follow_def ent_def one_page_ent one_page_first one_page_words)
  qed
qed

lemma one_page_ok: "pt_ok one_page" "mem_ok one_page"
proof -
  have P: "pmm_wf (pt_pmm one_page)" "page0_used (pt_pmm one_page)" "g_total_pages (pt_pmm one_page) = 16"
    unfolding pmm_wf_def page0_used_def one_page_fre by (simp_all add: one_page_def bm_test_def)
  then show "mem_ok one_page" by (simp add: mem_ok_def)
  have "used_page one_page t" if "vpath p" "table_at one_page p = Some t" for p t
    using that one_page_table [OF that(1)] P(3) by (auto simp: used_page_def one_page_fre vpath_def split: if_splits)
  moreover have "p = q" if "vpath p" "vpath q" "table_at one_page p = Some t" "table_at one_page q = Some t" for p q t
    using that one_page_table [OF that(1)] one_page_table [OF that(2)]
    by (auto split: if_splits intro!: nth_equalityI simp: all_set_conv_all_nth)
  moreover have "\<not> has (ent one_page t i) PTE_PS" if "vpath p" "length p = 2" "table_at one_page p = Some t" "i < 512" for p t i
    using that one_page_table [OF that(1)] by (auto simp: ent_def one_page_ent one_page_words has_def split: if_splits)
  ultimately show "pt_ok one_page" using P unfolding pt_ok_def by blast
qed

lemma one_page_used: "space_used one_page 0x1000" "tables_used one_page 0x1000"
proof -
  have "fork_keep 0 0x5007 = {5}" by (simp add: fork_keep_def frame_def has_def)
  then show "space_used one_page 0x1000" "tables_used one_page 0x1000"
    by (simp_all add: space_used_def tables_used_def one_page_away)
qed

lemma one_page_pages: "clone_pages one_page 0x1000 = 4" "fork_pages one_page 0x1000 = 5" "card (fre one_page) = 10"
  by (simp_all add: clone_pages_def fork_pages_def one_page_price fork_price_def has_def one_page_fre)

lemma one_page_walk: "space_walk one_page 0x1000 8 = Some (0, 0x5007, True)"
proof -
  have 3: "(3 :: nat) = Suc (Suc (Suc 0))" by simp
  have i: "pt_idx 3 8 = 0" "pt_idx (Suc (Suc 0)) 8 = 0" "pt_idx (Suc 0) 8 = 0" "pt_idx 0 8 = 0" by (simp_all add: pt_idx_def)
  have u: "has 0x2007 PTE_U" "has 0x3007 PTE_U" "has 0x4007 PTE_U" by (simp_all add: has_def)
  have "walk (Suc (Suc (Suc 0))) (pmem one_page) 0x2007 8 = Some (0, 0x5007, True)"
    by (simp add: big_def one_page_words one_page_first i u)
  then show ?thesis unfolding space_walk_def ent_def i(1) by (simp add: one_page_first 3 del: walk.simps)
qed

lemma one_page_user: "user_page one_page 8" "paging_virt_to_phys 8 one_page = 0x5008"
  by (simp_all add: user_page_def current_phys phys_in_walk one_page_roots one_page_walk one_page_words leaf_phys_def)


theorem fork_private_witness:
  "\<exists>c s' pages'. vmm_copy_user_page_tables 0x1000 (one_page, []) = (c, s', pages') \<and> c \<noteq> 0
    \<and> paging_virt_to_phys 8 s' = 0x5008 \<and> pmem s' 0x5008 = 42
    \<and> unat (phys_in s' c 8) div 4096 \<in> {6..<16} \<and> pmem s' (unat (phys_in s' c 8)) = 42"
proof -
  obtain c s' pages' where r: "vmm_copy_user_page_tables 0x1000 (one_page, []) = (c, s', pages')" by (metis prod.exhaust)
  have p: "space_used one_page (g_pml4 one_page)" "fork_pages one_page (g_pml4 one_page) \<le> card (fre one_page)"
    "vmm_copy_user_page_tables (g_pml4 one_page) (one_page, []) = (c, s', pages')" "g_total_pages (pt_pmm one_page) \<le> 2 ^ 40"
    using one_page_used one_page_pages r by (simp_all add: one_page_roots)
  have F: "c \<noteq> 0" "\<forall>w. paging_virt_to_phys w s' = paging_virt_to_phys w one_page"
    "\<forall>a. a div 4096 \<notin> fre one_page - fre s' \<longrightarrow> pmem s' a = pmem one_page a"
    "\<forall>w. if user_page one_page w then unat (phys_in s' c w) div 4096 \<in> fre one_page - fre s' \<and>
             pmem s' (unat (phys_in s' c w)) = pmem one_page (unat (paging_virt_to_phys w one_page))
        else phys_in s' c w = paging_virt_to_phys w one_page"
    using fork_private [OF one_page_ok(1) p(4,1,2,3)] by blast+
  have "pmem s' 0x5008 = 42" using F(3) [rule_format, of "0x5008"] one_page_roots(4) by (simp add: one_page_fre)
  moreover have "unat (phys_in s' c 8) div 4096 \<in> {6..<16}" "pmem s' (unat (phys_in s' c 8)) = 42"
    using F(4) [rule_format, of 8] one_page_user one_page_roots(4) by (auto simp: one_page_fre)
  ultimately show ?thesis using r F(1,2) one_page_user(2) by simp
qed

end
