(* ===== verification/Vfs_Path.thy ===== *)
theory Vfs_Path
  imports Ramfs
begin

text \<open>
  Paths of the virtual file system, \<open>src/kernel/fs/vfs.c\<close>: \<open>vfs_path_resolve\<close>, which turns
  a path and a working directory into an absolute path without \<open>.\<close>, \<open>..\<close> and doubled
  slashes, and \<open>is_tmp_path\<close>, which selects the file system of a path. Buffers of the code
  have a fixed size: the joined path is cut after 255 characters, a component after 63, and
  more than 32 components are refused. The reference is the lexical meaning of a path, a
  list of names walked from the root.
\<close>

section \<open>The code\<close>

abbreviation (input) VFS_PATH_MAX :: nat where "VFS_PATH_MAX \<equiv> 256"

definition is_tmp_path :: "string \<Rightarrow> bool" where
  "is_tmp_path path =
    (let p = dropWhile (\<lambda>c. c = SLASH) path in
     take 3 p = ''tmp'' \<and> (drop 3 p = [] \<or> hd (drop 3 p) = SLASH))"

text \<open>The buffer \<open>tmp\<close>: the path, or the working directory, a slash and the path.\<close>

definition join_path :: "string \<Rightarrow> string \<Rightarrow> string option" where
  "join_path cwd path =
    (if path \<noteq> [] \<and> hd path = SLASH then Some (take (VFS_PATH_MAX - 1) path)
     else
       let c = take (VFS_PATH_MAX - 1) cwd in
       if c = [] \<or> last c \<noteq> SLASH then
         (if length c + 1 \<ge> VFS_PATH_MAX then None
          else let d = c @ [SLASH] in Some (d @ take (VFS_PATH_MAX - 1 - length d) path))
       else Some (c @ take (VFS_PATH_MAX - 1 - length c) path))"

text \<open>One component, and what is left after it and the slashes behind it.\<close>

definition next_comp :: "string \<Rightarrow> string" where
  "next_comp p = take 63 (takeWhile (\<lambda>c. c \<noteq> SLASH) p)"

definition skip_comp :: "string \<Rightarrow> string" where
  "skip_comp p = dropWhile (\<lambda>c. c = SLASH) (drop (length (next_comp p)) p)"

lemma skip_comp_shorter: "p \<noteq> [] \<Longrightarrow> length (skip_comp p) < length p"
proof (cases "next_comp p = []")
  case True
  assume p: "p \<noteq> []"
  with True have "takeWhile (\<lambda>c. c \<noteq> SLASH) p = []" by (simp add: next_comp_def)
  with p obtain q where "p = SLASH # q" by (cases p) (auto split: if_splits)
  then show ?thesis
    using length_dropWhile_le [of "\<lambda>c. c = SLASH" q] by (simp add: skip_comp_def True [simplified] next_comp_def le_imp_less_Suc)
next
  case False
  then have "0 < length (next_comp p)" by simp
  moreover assume "p \<noteq> []"
  ultimately show ?thesis
    using le_less_trans [OF length_dropWhile_le, of "drop (length (next_comp p)) p" "length p" "\<lambda>c. c = SLASH"]
    by (simp add: skip_comp_def)
qed

function collapse :: "string list \<Rightarrow> string \<Rightarrow> string list option" where
  "collapse comps p =
    (if p = [] then Some comps
     else
       let comp = next_comp p; q = skip_comp p in
       if comp = [] \<or> comp = [DOT] then collapse comps q
       else if comp = [DOT, DOT] then collapse (butlast comps) q
       else if length comps \<ge> 32 then None
       else collapse (comps @ [comp]) q)"
  by pat_completeness auto
termination
  by (relation "measure (\<lambda>(comps, p). length p)") (auto simp: skip_comp_shorter)

declare collapse.simps [simp del]

text \<open>Writing the components, each character only while a terminating NUL still fits.\<close>

fun put_chars :: "nat \<Rightarrow> string \<Rightarrow> string \<Rightarrow> string option" where
  "put_chars out_cap out [] = Some out"
| "put_chars out_cap out (c # cs) =
    (if length out + 1 \<ge> out_cap then None else put_chars out_cap (out @ [c]) cs)"

fun put_comps :: "nat \<Rightarrow> string \<Rightarrow> string list \<Rightarrow> string option" where
  "put_comps out_cap out [] = Some out"
| "put_comps out_cap out (c # cs) =
    (case put_chars out_cap out (SLASH # c) of
       None \<Rightarrow> None
     | Some out1 \<Rightarrow> put_comps out_cap out1 cs)"

text \<open>The result is the string left in \<open>out\<close>; \<open>None\<close> is the return value -1. A NULL pointer is \<open>None\<close>.\<close>

definition vfs_path_resolve :: "string option \<Rightarrow> string option \<Rightarrow> nat \<Rightarrow> string option" where
  "vfs_path_resolve cwdp pathp out_cap =
    (case pathp of
       None \<Rightarrow> None
     | Some path \<Rightarrow>
         if out_cap < 2 then None
         else
           let cwd = (case cwdp of None \<Rightarrow> [SLASH] | Some c \<Rightarrow> if c = [] then [SLASH] else c) in
           case join_path cwd path of
             None \<Rightarrow> None
           | Some tmp \<Rightarrow>
               (case collapse [] (dropWhile (\<lambda>c. c = SLASH) tmp) of
                  None \<Rightarrow> None
                | Some comps \<Rightarrow> if comps = [] then Some [SLASH] else put_comps out_cap [] comps))"

section \<open>The lexical meaning of a path\<close>

text \<open>The names between slashes, and the absolute path that spells a list of names.\<close>

function pieces :: "string \<Rightarrow> string list" where
  "pieces p =
    (let q = dropWhile (\<lambda>c. c = SLASH) p in
     if q = [] then [] else takeWhile (\<lambda>c. c \<noteq> SLASH) q # pieces (dropWhile (\<lambda>c. c \<noteq> SLASH) q))"
  by pat_completeness auto
termination
proof (relation "measure length")
  fix p q :: string
  assume q: "q = dropWhile (\<lambda>c. c = SLASH) p" "q \<noteq> []"
  then obtain c r where cr: "q = c # r" by (meson neq_Nil_conv)
  then have "c \<noteq> SLASH" using q hd_dropWhile [of "\<lambda>c. c = SLASH" p] by auto
  then have "length (dropWhile (\<lambda>c. c \<noteq> SLASH) q) < length q"
    using cr length_dropWhile_le [of "\<lambda>c. c \<noteq> SLASH" r] by (simp add: le_imp_less_Suc)
  also have "length q \<le> length p" using q(1) length_dropWhile_le by auto
  finally show "(dropWhile (\<lambda>c. c \<noteq> SLASH) q, p) \<in> measure length" by simp
qed simp

declare pieces.simps [simp del]

definition render :: "string list \<Rightarrow> string" where
  "render cs = (if cs = [] then [SLASH] else concat (map ((#) SLASH) cs))"

text \<open>Walking a list of names from a place, with the limit on the depth.\<close>

fun descend :: "string list \<Rightarrow> string list \<Rightarrow> string list option" where
  "descend cs [] = Some cs"
| "descend cs (c # r) =
    (if c = [DOT] then descend cs r
     else if c = [DOT, DOT] then descend (butlast cs) r
     else if length cs \<ge> 32 then None
     else descend (cs @ [c]) r)"

definition name_ok :: "string \<Rightarrow> bool" where
  "name_ok c \<longleftrightarrow> c \<noteq> [] \<and> c \<noteq> [DOT] \<and> c \<noteq> [DOT, DOT] \<and> SLASH \<notin> set c"

section \<open>Splitting\<close>

lemma pieces_skip: "pieces (dropWhile (\<lambda>c. c = SLASH) p) = pieces p"
  by (subst (1 2) pieces.simps) (simp add: Let_def)

lemma pieces_slash [simp]: "pieces (SLASH # p) = pieces p"
  by (subst (1 2) pieces.simps) simp

lemma pieces_Nil [simp]: "pieces [] = []"
  by (simp add: pieces.simps)

lemma word_split:
  assumes "SLASH \<notin> set w"
  shows "takeWhile (\<lambda>c. c \<noteq> SLASH) w = w" "dropWhile (\<lambda>c. c \<noteq> SLASH) w = []"
    "takeWhile (\<lambda>c. c \<noteq> SLASH) (w @ SLASH # q) = w" "dropWhile (\<lambda>c. c \<noteq> SLASH) (w @ SLASH # q) = SLASH # q"
  using assms by (induction w) auto

lemma pieces_word:
  assumes "w \<noteq> []" "SLASH \<notin> set w"
  shows "pieces w = [w]" "pieces (w @ SLASH # p) = w # pieces p"
proof -
  have w: "dropWhile (\<lambda>c. c = SLASH) (w @ r) = w @ r" for r using assms by (cases w) auto
  note t = word_split [OF assms(2)]
  show "pieces w = [w]"
    using assms(1) by (subst pieces.simps) (simp only: Let_def w [of "[]", simplified] t if_False pieces_Nil)
  show "pieces (w @ SLASH # p) = w # pieces p"
    using assms(1) by (subst pieces.simps) (simp only: Let_def w t if_False pieces_slash append_is_Nil_conv simp_thms)
qed

text \<open>A path is slashes, or slashes and a word, or slashes, a word and a path behind a slash.\<close>

lemma path_cases:
  obtains (slash) q where "p = SLASH # q" | (empty) "p = []"
    | (word) "p \<noteq> []" "SLASH \<notin> set p" | (more) w q where "p = w @ SLASH # q" "w \<noteq> []" "SLASH \<notin> set w"
proof (cases "p = [] \<or> hd p = SLASH")
  case True
  then show ?thesis using that(1,2) by (cases p) auto
next
  case False
  show ?thesis
  proof (cases "SLASH \<in> set p")
    case True
    then obtain w q where wq: "p = w @ SLASH # q" "SLASH \<notin> set w" using split_list_first by metis
    then have "w \<noteq> []" using False by auto
    then show ?thesis using that(4) wq by blast
  next
    case F: False
    then show ?thesis using that(3) False by blast
  qed
qed

lemma pieces_append: "pieces (p @ SLASH # q) = pieces p @ pieces q"
proof (induction "length p" arbitrary: p rule: less_induct)
  case less
  show ?case
  proof (cases p rule: path_cases)
    case (slash r)
    then show ?thesis using less [of r] by simp
  next
    case (more w r)
    then show ?thesis using less [of r] pieces_word(2) [OF more(2,3)] by simp
  qed (simp_all add: pieces_word)
qed

lemma pieces_ok: "c \<in> set (pieces p) \<Longrightarrow> c \<noteq> [] \<and> SLASH \<notin> set c"
proof (induction "length p" arbitrary: p rule: less_induct)
  case less
  show ?case
  proof (cases p rule: path_cases)
    case (slash r)
    then show ?thesis using less(1) [of r] less(2) by auto
  next
    case (more w r)
    then show ?thesis using less(1) [of r] less(2) pieces_word(2) [OF more(2,3)] by auto
  qed (use less(2) in \<open>simp_all add: pieces_word\<close>)
qed

lemma collapse_Nil [simp]: "collapse cs [] = Some cs"
  by (simp add: collapse.simps)

lemma collapse_step:
  assumes "p \<noteq> []" "next_comp p = w" "w \<noteq> []"
  shows "collapse cs p = (if w = [DOT] then collapse cs (skip_comp p)
    else if w = [DOT, DOT] then collapse (butlast cs) (skip_comp p)
    else if length cs \<ge> 32 then None else collapse (cs @ [w]) (skip_comp p))"
  by (subst collapse.simps) (simp only: Let_def assms if_False simp_thms)

text \<open>The loop of the code on a path whose components fit is the walk over its pieces.\<close>

lemma collapse_pieces:
  assumes "\<forall>c \<in> set (pieces p). length c \<le> 63"
  shows "collapse comps (dropWhile (\<lambda>c. c = SLASH) p) = descend comps (pieces p)"
  using assms
proof (induction "length p" arbitrary: p comps rule: less_induct)
  case less
  show ?case
  proof (cases p rule: path_cases)
    case (slash r)
    then show ?thesis using less by simp
  next
    case empty
    then show ?thesis by simp
  next
    case word
    note t = word_split(1) [OF word(2)]
    have d: "dropWhile (\<lambda>c. c = SLASH) p = p" using word by (cases p) auto
    have "length p \<le> 63" using less(2) pieces_word(1) [OF word] by simp
    then have c: "next_comp p = p" "skip_comp p = []" by (simp_all only: next_comp_def skip_comp_def t) simp_all
    then show ?thesis by (simp only: d collapse_step [OF word(1) c(1) word(1)] pieces_word(1) [OF word] c descend.simps collapse_Nil)
  next
    case (more w r)
    note t = word_split(3) [OF more(3), of r, folded more(1)]
    have d: "dropWhile (\<lambda>c. c = SLASH) p = p" using more by (cases w) auto
    have "length w \<le> 63" using less(2) pieces_word(2) [OF more(2,3)] more(1) by simp
    then have c: "next_comp p = w" "skip_comp p = dropWhile (\<lambda>c. c = SLASH) r"
      by (simp_all only: next_comp_def skip_comp_def t) (simp_all add: more(1))
    have "collapse cs (skip_comp p) = descend cs (pieces r)" for cs
      unfolding c(2) using less(1) [of r cs] less(2) more pieces_word(2) [OF more(2,3)] by simp
    moreover have "p \<noteq> []" using more by simp
    moreover have "pieces p = w # pieces r" using pieces_word(2) [OF more(2,3)] more(1) by simp
    ultimately show ?thesis by (simp only: d collapse_step [OF _ c(1) more(2)] descend.simps simp_thms)
  qed
qed

section \<open>Rendering\<close>

lemma put_chars_eq: "put_chars n out cs = (if cs = [] \<or> length out + length cs < n then Some (out @ cs) else None)"
  by (induction cs arbitrary: out) auto

lemma put_comps_eq:
  "put_comps n out cs = (let r = out @ concat (map ((#) SLASH) cs) in if cs = [] \<or> length r < n then Some r else None)"
  by (induction cs arbitrary: out) (auto simp: put_chars_eq Let_def simp del: put_chars.simps)

lemma write_comps: "2 \<le> n \<Longrightarrow>
    (if cs = [] then Some [SLASH] else put_comps n [] cs) = (if length (render cs) < n then Some (render cs) else None)"
  by (simp add: put_comps_eq render_def Let_def)

lemma pieces_render: "\<forall>c \<in> set cs. c \<noteq> [] \<and> SLASH \<notin> set c \<Longrightarrow> pieces (render cs) = cs"
proof -
  assume ok: "\<forall>c \<in> set cs. c \<noteq> [] \<and> SLASH \<notin> set c"
  have "pieces (concat (map ((#) SLASH) cs)) = cs" using ok
  proof (induction cs)
    case (Cons c cs)
    then show ?case
    proof (cases cs)
      case Nil
      then show ?thesis using Cons by (simp add: pieces_word)
    next
      case (Cons d ds)
      then show ?thesis using Cons.IH Cons.prems by (simp add: pieces_word)
    qed
  qed simp
  then show ?thesis by (simp add: render_def)
qed

lemma descend_append: "descend cs (xs @ ys) = (case descend cs xs of None \<Rightarrow> None | Some ds \<Rightarrow> descend ds ys)"
  by (induction cs xs rule: descend.induct) auto

lemma descend_names: "list_all name_ok cs \<Longrightarrow> length (as @ cs) \<le> 32 \<Longrightarrow> descend as cs = Some (as @ cs)"
  by (induction cs arbitrary: as) (auto simp: name_ok_def)

lemma descend_ok:
  assumes "descend cs xs = Some ds" "list_all name_ok cs" "length cs \<le> 32" "\<forall>x \<in> set xs. x \<noteq> [] \<and> SLASH \<notin> set x"
  shows "list_all name_ok ds \<and> length ds \<le> 32"
  using assms
proof (induction cs xs rule: descend.induct)
  case (2 cs c r)
  have "list_all name_ok (butlast cs)" using 2(5) by (auto simp: list_all_iff dest: in_set_butlastD)
  moreover have "c \<noteq> [DOT] \<Longrightarrow> c \<noteq> [DOT, DOT] \<Longrightarrow> name_ok c" using 2(7) by (simp add: name_ok_def)
  ultimately show ?case using 2 by (auto split: if_splits)
qed simp

section \<open>The whole function\<close>

definition full_path :: "string \<Rightarrow> string \<Rightarrow> string" where
  "full_path cwd path = (if path \<noteq> [] \<and> hd path = SLASH then path else cwd @ SLASH # path)"

lemma join_full:
  assumes "length (full_path cwd path) \<le> 255"
  obtains tmp where "join_path cwd path = Some tmp" "pieces tmp = pieces (full_path cwd path)"
proof (cases "path \<noteq> [] \<and> hd path = SLASH")
  case True
  then show ?thesis using assms that by (simp add: join_path_def full_path_def)
next
  case False
  have l: "length cwd + length path \<le> 254" using assms False by (simp add: full_path_def)
  show ?thesis
  proof (cases "cwd = [] \<or> last cwd \<noteq> SLASH")
    case True
    then show ?thesis using that [of "cwd @ SLASH # path"] l False by (simp add: join_path_def full_path_def)
  next
    case F: False
    then obtain c where "cwd = c @ [SLASH]" by (metis append_butlast_last_id)
    then show ?thesis using that [of "cwd @ path"] l False F by (simp add: join_path_def full_path_def pieces_append)
  qed
qed

lemma resolve_lexical:
  assumes "length (full_path cwd path) \<le> 255" "\<forall>c \<in> set (pieces (full_path cwd path)). length c \<le> 63" "2 \<le> cap"
  shows "vfs_path_resolve (Some cwd) (Some path) cap =
    (case descend [] (pieces (full_path cwd path)) of
       None \<Rightarrow> None
     | Some cs \<Rightarrow> if length (render cs) < cap then Some (render cs) else None)"
proof -
  define c where "c = (if cwd = [] then [SLASH] else cwd)"
  show ?thesis
  proof (cases "length (full_path c path) \<le> 255")
    case True
    obtain tmp where t: "join_path c path = Some tmp" "pieces tmp = pieces (full_path c path)"
      using join_full [OF True] .
    have "pieces (full_path c path) = pieces (full_path cwd path)" by (simp add: c_def full_path_def)
    then have "collapse [] (dropWhile (\<lambda>c. c = SLASH) tmp) = descend [] (pieces (full_path cwd path))"
      using collapse_pieces [of tmp "[]"] t(2) assms(2) by simp
    then show ?thesis using assms(3) t(1) write_comps [OF assms(3)]
      by (auto simp: vfs_path_resolve_def c_def Let_def split: option.split)
  next
    case False
    then have c: "cwd = []" "c = [SLASH]" "\<not> (path \<noteq> [] \<and> hd path = SLASH)"
      using assms(1) by (auto simp: c_def full_path_def split: if_splits)
    then have l: "length path = 254"
      using False [unfolded full_path_def if_not_P [OF c(3)] c(2)] assms(1) [unfolded full_path_def if_not_P [OF c(3)] c(1)] by simp
    have "join_path c path = Some (SLASH # path)" using c l by (simp add: join_path_def)
    moreover have "collapse [] (dropWhile (\<lambda>c. c = SLASH) (SLASH # path)) = descend [] (pieces (full_path cwd path))"
      using collapse_pieces [of "SLASH # path" "[]"] c assms(2) by (simp add: full_path_def)
    ultimately show ?thesis using assms(3) c write_comps [OF assms(3)]
      by (auto simp: vfs_path_resolve_def Let_def split: option.split)
  qed
qed

lemma next_comp_ok: "length (next_comp p) \<le> 63" "SLASH \<notin> set (next_comp p)"
  by (auto simp: next_comp_def dest: in_set_takeD set_takeWhileD)

definition short_names :: "string list \<Rightarrow> bool" where
  "short_names cs \<longleftrightarrow> list_all name_ok cs \<and> (\<forall>c \<in> set cs. length c \<le> 63) \<and> length cs \<le> 32"

lemma collapse_ok: "collapse cs p = Some ds \<Longrightarrow> short_names cs \<Longrightarrow> short_names ds"
proof (induction cs p rule: collapse.induct)
  case (1 cs p)
  show ?case
  proof (cases "p = []")
    case True
    then show ?thesis using 1 by simp
  next
    case False
    have b: "short_names (butlast cs)"
      using 1(5) by (auto simp: short_names_def list_all_iff dest: in_set_butlastD)
    have a: "length cs < 32 \<Longrightarrow> next_comp p \<noteq> [] \<Longrightarrow> next_comp p \<noteq> [DOT] \<Longrightarrow> next_comp p \<noteq> [DOT, DOT]
        \<Longrightarrow> short_names (cs @ [next_comp p])"
      using 1(5) next_comp_ok by (auto simp: short_names_def name_ok_def)
    note c = 1(4) [unfolded collapse.simps [of cs p]]
    show ?thesis
      using 1(1-3) [OF False refl refl] c 1(5) a b False by (auto simp: Let_def not_le split: if_splits)
  qed
qed

lemma resolve_names:
  assumes "vfs_path_resolve cwdp pathp cap = Some out"
  obtains cs where "out = render cs" "short_names cs" "length out < cap"
proof -
  obtain path where p: "pathp = Some path" "2 \<le> cap"
    using assms by (auto simp: vfs_path_resolve_def split: option.splits if_splits)
  define cwd where "cwd = (case cwdp of None \<Rightarrow> [SLASH] | Some c \<Rightarrow> if c = [] then [SLASH] else c)"
  obtain tmp cs where j: "join_path cwd path = Some tmp" and c: "collapse [] (dropWhile (\<lambda>c. c = SLASH) tmp) = Some cs"
    and o: "(if cs = [] then Some [SLASH] else put_comps cap [] cs) = Some out"
    using assms p by (auto simp: vfs_path_resolve_def cwd_def Let_def split: option.splits)
  have "short_names cs" using collapse_ok [OF c] by (simp add: short_names_def)
  moreover have "out = render cs \<and> length out < cap" using o write_comps [OF p(2)] by (auto split: if_splits)
  ultimately show ?thesis using that by blast
qed

lemma render_absolute: "render cs = SLASH # tl (render cs)"
  by (cases cs) (simp_all add: render_def)

lemma resolve_fixed:
  assumes "short_names cs" "length (render cs) < cap" "length (render cs) \<le> 255" "2 \<le> cap"
  shows "vfs_path_resolve (Some cwd) (Some (render cs)) cap = Some (render cs)"
proof -
  have f: "full_path cwd (render cs) = render cs" using render_absolute [of cs] by (metis full_path_def list.sel(1) list.simps(3))
  have p: "pieces (render cs) = cs"
    using assms(1) by (intro pieces_render) (auto simp: short_names_def list_all_iff name_ok_def)
  have "descend [] cs = Some cs" using descend_names [of cs "[]"] assms(1) by (simp add: short_names_def)
  then show ?thesis using resolve_lexical [of cwd "render cs" cap] assms f p by (simp add: short_names_def)
qed

text \<open>The file system of a spelled-out path is decided by its first name.\<close>

lemma tmp_render:
  assumes "list_all name_ok cs"
  shows "is_tmp_path (render cs) \<longleftrightarrow> cs \<noteq> [] \<and> hd cs = ''tmp''"
proof (cases cs)
  case Nil
  then show ?thesis by (simp add: is_tmp_path_def render_def)
next
  case (Cons c r)
  then have c: "c \<noteq> []" "SLASH \<notin> set c" using assms by (auto simp: name_ok_def)
  define t where "t = concat (map ((#) SLASH) r)"
  have t: "t = [] \<or> hd t = SLASH" by (cases r) (simp_all add: t_def)
  have p: "dropWhile (\<lambda>c. c = SLASH) (render cs) = c @ t" using c by (cases c) (auto simp: Cons render_def t_def)
  have "take 3 (c @ t) = ''tmp'' \<and> (drop 3 (c @ t) = [] \<or> hd (drop 3 (c @ t)) = SLASH) \<longleftrightarrow> c = ''tmp''"
  proof
    assume a: "take 3 (c @ t) = ''tmp'' \<and> (drop 3 (c @ t) = [] \<or> hd (drop 3 (c @ t)) = SLASH)"
    have "\<not> length c < 3"
    proof
      assume "length c < 3"
      then have n: "take 3 (c @ t) ! length c = (c @ t) ! length c" by (rule nth_take)
      have "length (take 3 (c @ t)) = 3" using a by simp
      then have "t \<noteq> []" using \<open>length c < 3\<close> by auto
      then have "(c @ t) ! length c = SLASH" using t by (cases t) simp_all
      moreover have "take 3 (c @ t) ! length c \<in> set (take 3 (c @ t))"
        using \<open>length (take 3 (c @ t)) = 3\<close> \<open>length c < 3\<close> by (metis nth_mem)
      ultimately have "SLASH \<in> set (take 3 (c @ t))" using n by (simp only:)
      moreover have "SLASH \<notin> set ''tmp''" by simp
      ultimately show False using a by (simp only:)
    qed
    then have c3: "take 3 c = ''tmp''" "drop 3 (c @ t) = drop 3 c @ t" using a by simp_all
    have "drop 3 c = []"
    proof (rule ccontr)
      assume d: "drop 3 c \<noteq> []"
      then have "hd (drop 3 c) = SLASH" using a c3 by simp
      then show False using d c(2) by (metis hd_in_set in_set_dropD)
    qed
    then show "c = ''tmp''" using c3(1) by (metis append_Nil2 append_take_drop_id)
  next
    assume "c = ''tmp''"
    then show "take 3 (c @ t) = ''tmp'' \<and> (drop 3 (c @ t) = [] \<or> hd (drop 3 (c @ t)) = SLASH)" using t by simp
  qed
  then show ?thesis by (simp only: is_tmp_path_def Let_def p) (simp add: Cons)
qed

text \<open>The dispatch agrees with the memory file system on which paths belong to it.\<close>

lemma tmp_path_stripped: "is_tmp_path p \<longleftrightarrow> strip_tmp_prefix p \<noteq> None"
  by (simp add: is_tmp_path_def strip_tmp_prefix_def Let_def)

section \<open>Properties\<close>


text \<open>
  C32. Whatever the arguments, a path that \<open>vfs_path_resolve\<close> returns is in normal form: it
  spells at most 32 names of 1 to 63 characters, none of them \<open>.\<close> or \<open>..\<close> or with a slash,
  and it fits the buffer with its NUL. Resolving it again, from any directory, gives it back,
  and \<open>is_tmp_path\<close> sends it to the memory file system exactly when its first name is \<open>tmp\<close>,
  which are the paths the memory file system accepts.
\<close>

theorem path_resolve_normal:
  assumes r: "vfs_path_resolve cwdp pathp cap = Some out" and cap: "cap \<le> 256"
  shows "\<exists>cs. out = render cs \<and> list_all name_ok cs \<and> (\<forall>c \<in> set cs. length c \<le> 63) \<and> length cs \<le> 32
    \<and> length out < cap \<and> (\<forall>cwd. vfs_path_resolve (Some cwd) (Some out) cap = Some out)
    \<and> (is_tmp_path out \<longleftrightarrow> cs \<noteq> [] \<and> hd cs = ''tmp'') \<and> (is_tmp_path out \<longleftrightarrow> strip_tmp_prefix out \<noteq> None)"
proof -
  obtain cs where cs: "out = render cs" "short_names cs" "length out < cap" using resolve_names [OF r] .
  have "2 \<le> cap" using r by (auto simp: vfs_path_resolve_def split: option.splits if_splits)
  then show ?thesis
    using cs cap resolve_fixed [OF cs(2)] tmp_render tmp_path_stripped by (auto simp: short_names_def intro!: exI [of _ cs])
qed

section \<open>Witnesses\<close>

lemma demo_pieces: "pieces ''home/../tmp/./x'' = [''home'', ''..'', ''tmp'', ''.'', ''x'']"
  by (simp add: pieces.simps)


theorem path_resolve_normal_witness:
  "\<exists>cs. ''/tmp/x'' = render cs \<and> list_all name_ok cs
    \<and> vfs_path_resolve (Some ''/dev'') (Some ''/tmp/x'') 256 = Some ''/tmp/x'' \<and> is_tmp_path ''/tmp/x''"
proof -
  have "vfs_path_resolve (Some ''/home'') (Some ''../tmp/./x'') 256 = Some ''/tmp/x''"
    using resolve_lexical [of "''/home''" "''../tmp/./x''" 256] by (simp add: full_path_def demo_pieces render_def)
  from path_resolve_normal [OF this] show ?thesis by (auto simp: is_tmp_path_def)
qed

end
