(* ===== verification/Kstate.thy ===== *)
theory Kstate
  imports Vfs_Path Pipe Vmm NetStack Ps2
begin

text \<open>
  The state the process layer works on: the task table of \<open>src/kernel/proc/task.c\<close>, the
  descriptor tables and mounts of \<open>src/kernel/fs/vfs.c\<close>, the static variables of
  \<open>src/kernel/proc/syscall.c\<close> and, as parts of it, the states of the components below:
  the kernel objects and the memory file system (this record extends theirs), the network
  stack, the page tables, the timer, the keyboard and the serial line of
  \<open>src/libk/serial.c\<close>.

  A task pointer is the index of its slot in \<open>g_tasks\<close>, \<open>None\<close> is NULL. A file pointer is an
  address: 1, 2 and 3 are the static console files, other addresses are on the kernel heap.
  The private pointer of a socket file is the index in the static socket table plus one.

  The disk file system is the parameter \<open>fs_ops\<close>: a table of operations on the whole state.
\<close>

section \<open>Tasks\<close>

datatype task_state = TASK_UNUSED | TASK_READY | TASK_RUNNING | TASK_ZOMBIE

record task_regs =
  r15 :: u64
  r14 :: u64
  r13 :: u64
  r12 :: u64
  r11 :: u64
  r10 :: u64
  r9 :: u64
  r8 :: u64
  rdi :: u64
  rsi :: u64
  rbp :: u64
  rbx :: u64
  rdx :: u64
  rcx :: u64
  rax :: u64
  rip :: u64
  rflags :: u64
  rsp :: u64

definition zero_regs :: task_regs where
  "zero_regs = \<lparr>r15 = 0, r14 = 0, r13 = 0, r12 = 0, r11 = 0, r10 = 0, r9 = 0, r8 = 0, rdi = 0, rsi = 0,
     rbp = 0, rbx = 0, rdx = 0, rcx = 0, rax = 0, rip = 0, rflags = 0, rsp = 0\<rparr>"

record helix_sigaction =
  sa_handler :: u64
  sa_flags :: u64
  sa_restorer :: u64
  sa_mask :: u64

abbreviation (input) SIG_DFL :: u64 where "SIG_DFL \<equiv> 0"
abbreviation (input) SIG_IGN :: u64 where "SIG_IGN \<equiv> 1"
abbreviation (input) HELIX_NSIG :: nat where "HELIX_NSIG \<equiv> 32"
abbreviation (input) TASK_MAX :: nat where "TASK_MAX \<equiv> 8"
abbreviation (input) TASK_NAME_MAX :: nat where "TASK_NAME_MAX \<equiv> 16"
abbreviation (input) VFS_FD_MAX :: nat where "VFS_FD_MAX \<equiv> 16"

definition default_action :: helix_sigaction where
  "default_action = \<lparr>sa_handler = SIG_DFL, sa_flags = 0, sa_restorer = 0, sa_mask = 0\<rparr>"

text \<open>\<open>user_pages\<close> is the array up to \<open>user_page_count\<close>.\<close>

record task =
  pid :: int
  t_parent :: "nat option"
  t_state :: task_state
  exit_code :: int
  term_sig :: int
  t_name :: string
  cwd :: string
  regs :: task_regs
  user_stack_top :: u64
  kernel_stack :: nat
  kernel_stack_top :: nat
  t_pml4 :: nat
  fds :: "nat list"
  brk_start :: u64
  brk_curr :: u64
  user_pages :: "nat list"
  sig_pending :: u64
  sig_blocked :: u64
  sighand :: "helix_sigaction list"

definition zero_task :: task where
  "zero_task = \<lparr>pid = 0, t_parent = None, t_state = TASK_UNUSED, exit_code = 0, term_sig = 0, t_name = [], cwd = [],
     regs = zero_regs, user_stack_top = 0, kernel_stack = 0, kernel_stack_top = 0, t_pml4 = 0,
     fds = replicate VFS_FD_MAX 0, brk_start = 0, brk_curr = 0, user_pages = [], sig_pending = 0, sig_blocked = 0,
     sighand = replicate HELIX_NSIG default_action\<rparr>"

section \<open>The kernel\<close>

text \<open>
  \<open>serial_in\<close> holds the characters that wait at the serial port, \<open>serial_out\<close> those sent,
  oldest first. \<open>fs_base\<close> is the model-specific register of that name. A mounted table of
  operations is named by the constructor of \<open>vfs_ops\<close> for it.
\<close>

record 'n kst = rfs +
  knet :: "'n tcp_state"
  kpg :: paging
  ktimer :: timer
  kps2 :: ps2
  serial_in :: bytes
  serial_out :: bytes
  g_tasks :: "task list"
  g_current :: "nat option"
  g_next_pid :: int
  g_active_pml4 :: nat
  g_syscall_kstack :: nat
  tss_rsp0 :: nat
  g_exit_all_hook :: bool
  g_root_ops :: "vfs_ops option"
  g_tmp_ops :: "vfs_ops option"
  g_kernel_fds :: "nat list"
  g_cons :: "nat \<Rightarrow> vfs_file"
  g_user_line :: bytes
  fb_bump :: u64
  anon_bump :: u64
  anon_bump2 :: u64
  g_lfsr_state :: u64
  fs_base :: u64

type_synonym ('n, 'a) ks = "('n, 'a) kst_scheme"

text \<open>
  The table of the disk file system. An operation that would follow a wild pointer has no
  result. \<open>op_read\<close> yields the return value, the count stored through \<open>out_n\<close> and the bytes
  stored in the buffer; \<open>op_getdents64\<close> yields the pieces stored, each at its offset in the
  buffer, and \<open>op_fstat\<close> the bytes stored.
\<close>

record 's fs_ops =
  op_open :: "string \<Rightarrow> nat \<Rightarrow> 's \<Rightarrow> (int \<times> nat \<times> 's) option"
  op_read :: "nat \<Rightarrow> nat \<Rightarrow> 's \<Rightarrow> (int \<times> nat \<times> bytes \<times> 's) option"
  op_write :: "nat \<Rightarrow> bytes \<Rightarrow> 's \<Rightarrow> (int \<times> nat \<times> 's) option"
  op_close :: "nat \<Rightarrow> 's \<Rightarrow> (int \<times> 's) option"
  op_readdir_root :: "'s \<Rightarrow> int \<times> (string \<times> nat) list"
  op_getdents64 :: "nat \<Rightarrow> nat \<Rightarrow> 's \<Rightarrow> (int \<times> (nat \<times> bytes) list \<times> 's) option"
  op_fstat :: "nat \<Rightarrow> 's \<Rightarrow> (int \<times> bytes \<times> 's) option"
  op_mkdir :: "string \<Rightarrow> int \<Rightarrow> 's \<Rightarrow> int \<times> 's"
  op_unlink :: "string \<Rightarrow> 's \<Rightarrow> int \<times> 's"
  op_rmdir :: "string \<Rightarrow> 's \<Rightarrow> int \<times> 's"
  op_rename :: "string \<Rightarrow> string \<Rightarrow> 's \<Rightarrow> int \<times> 's"

section \<open>Pointers\<close>

abbreviation (input) g_cons_in :: nat where "g_cons_in \<equiv> 1"
abbreviation (input) g_cons_out :: nat where "g_cons_out \<equiv> 2"
abbreviation (input) g_cons_err :: nat where "g_cons_err \<equiv> 3"

definition is_static :: "nat \<Rightarrow> bool" where
  "is_static f \<longleftrightarrow> f = g_cons_in \<or> f = g_cons_out \<or> f = g_cons_err"

definition file_at :: "nat \<Rightarrow> ('n, 'a) ks \<Rightarrow> vfs_file option" where
  "file_at f s = (if is_static f then Some (g_cons s f) else files s f)"

definition put_file :: "nat \<Rightarrow> vfs_file \<Rightarrow> ('n, 'a) ks \<Rightarrow> ('n, 'a) ks" where
  "put_file f vf s = (if is_static f then s\<lparr>g_cons := (g_cons s)(f := vf)\<rparr> else s\<lparr>files := (files s)(f \<mapsto> vf)\<rparr>)"

abbreviation (input) task_at :: "('n, 'a) ks \<Rightarrow> nat \<Rightarrow> task" where
  "task_at s t \<equiv> g_tasks s ! t"

definition upd_task :: "nat \<Rightarrow> (task \<Rightarrow> task) \<Rightarrow> ('n, 'a) ks \<Rightarrow> ('n, 'a) ks" where
  "upd_task t f s = s\<lparr>g_tasks := (g_tasks s)[t := f (task_at s t)]\<rparr>"

definition task_current :: "('n, 'a) ks \<Rightarrow> nat option" where
  "task_current s = g_current s"

text \<open>\<open>(int)x\<close> of a 64-bit argument.\<close>

definition as_int :: "u64 \<Rightarrow> int" where
  "as_int x = sint (ucast x :: u32)"

section \<open>The serial line\<close>

definition serial_putchar :: "u8 \<Rightarrow> ('n, 'a) ks \<Rightarrow> ('n, 'a) ks" where
  "serial_putchar c s = s\<lparr>serial_out := serial_out s @ (if c = 10 then [13, 10] else [c])\<rparr>"

definition serial_write :: "bytes \<Rightarrow> ('n, 'a) ks \<Rightarrow> ('n, 'a) ks" where
  "serial_write cs s = fold serial_putchar cs s"

definition serial_puts :: "bytes \<Rightarrow> ('n, 'a) ks \<Rightarrow> ('n, 'a) ks" where
  "serial_puts cs s = fold serial_putchar cs s"

definition serial_poll_char :: "('n, 'a) ks \<Rightarrow> (u8 \<times> ('n, 'a) ks) option" where
  "serial_poll_char s = (case serial_in s of [] \<Rightarrow> None | c # cs \<Rightarrow> Some (c, s\<lparr>serial_in := cs\<rparr>))"

section \<open>Rewriting\<close>

lemma task_at_upd [simp]: "length (g_tasks (upd_task t f s)) = length (g_tasks s)"
  by (simp add: upd_task_def)

lemma upd_task_sel [simp]:
  "files (upd_task t f s) = files s" "g_cons (upd_task t f s) = g_cons s" "g_current (upd_task t f s) = g_current s"
  "kpg (upd_task t f s) = kpg s" "knet (upd_task t f s) = knet s" "g_kernel_fds (upd_task t f s) = g_kernel_fds s"
  "file_at a (upd_task t f s) = file_at a s" "g_next_pid (upd_task t f s) = g_next_pid s"
  by (simp_all add: upd_task_def file_at_def)

lemma upd_task_at: "t < length (g_tasks s) \<Longrightarrow> g_tasks (upd_task t f s) ! u = (if u = t then f (g_tasks s ! t) else g_tasks s ! u)"
  by (simp add: upd_task_def)

lemma put_file_sel [simp]:
  "g_tasks (put_file a vf s) = g_tasks s" "g_current (put_file a vf s) = g_current s" "kpg (put_file a vf s) = kpg s"
  "g_kernel_fds (put_file a vf s) = g_kernel_fds s" "g_next_pid (put_file a vf s) = g_next_pid s"
  by (simp_all add: put_file_def)

lemma file_at_put: "file_at b (put_file a vf s) = (if b = a then Some vf else file_at b s)"
  by (simp add: file_at_def put_file_def)

end
