(* ===== verification/Signals.thy ===== *)
theory Signals
  imports Kstate
begin

text \<open>
  Signals, \<open>src/kernel/proc/signal.c\<close>: the pending and blocked masks of a task, the default
  actions and the choice between dying, ignoring and dropping. \<open>signal_deliver_current\<close>
  ends tasks and therefore follows in \<open>Task\<close>. A handler in user memory is never called; the
  code drops the signal.
\<close>

abbreviation (input) SIGINT :: int where "SIGINT \<equiv> 2"
abbreviation (input) SIGKILL :: int where "SIGKILL \<equiv> 9"
abbreviation (input) SIGCHLD :: int where "SIGCHLD \<equiv> 17"
abbreviation (input) SIGCONT :: int where "SIGCONT \<equiv> 18"
abbreviation (input) SIGSTOP :: int where "SIGSTOP \<equiv> 19"
abbreviation (input) SIGTSTP :: int where "SIGTSTP \<equiv> 20"

definition sigbit :: "int \<Rightarrow> u64" where
  "sigbit sig = push_bit (nat sig) 1"

definition sig_default_terminate :: "int \<Rightarrow> bool" where
  "sig_default_terminate sig = (\<not> (sig = SIGCHLD \<or> sig = SIGCONT \<or> sig = SIGSTOP \<or> sig = SIGTSTP))"

definition signal_task_init :: "task \<Rightarrow> task" where
  "signal_task_init t =
    t\<lparr>sig_pending := 0, sig_blocked := 0, term_sig := 0, sighand := replicate HELIX_NSIG default_action\<rparr>"

definition signal_send :: "nat option \<Rightarrow> int \<Rightarrow> ('n, 'a) ks \<Rightarrow> ('n, 'a) ks" where
  "signal_send tp sig s =
    (case tp of
       None \<Rightarrow> s
     | Some t \<Rightarrow>
         if sig < 1 \<or> sig \<ge> int HELIX_NSIG then s
         else if t_state (task_at s t) = TASK_UNUSED \<or> t_state (task_at s t) = TASK_ZOMBIE then s
         else upd_task t (\<lambda>tk. tk\<lparr>sig_pending := sig_pending tk OR sigbit sig\<rparr>) s)"

definition signal_on_exit :: "nat \<Rightarrow> ('n, 'a) ks \<Rightarrow> ('n, 'a) ks" where
  "signal_on_exit t s =
    (case t_parent (task_at s t) of
       None \<Rightarrow> s
     | Some p \<Rightarrow>
         if t_state (task_at s p) = TASK_UNUSED \<or> t_state (task_at s p) = TASK_ZOMBIE then s
         else signal_send (Some p) SIGCHLD s)"

text \<open>Whether the task must die.\<close>

definition signal_apply_one :: "task \<Rightarrow> int \<Rightarrow> bool" where
  "signal_apply_one t sig =
    (let handler = (if sig > 0 \<and> sig < int HELIX_NSIG then sa_handler (sighand t ! nat sig) else SIG_DFL) in
     if sig = SIGKILL then True
     else if handler = SIG_IGN then False
     else if handler = SIG_DFL then
       (if sig = SIGCHLD \<or> sig = SIGCONT then False else sig_default_terminate sig)
     else False)"

text \<open>The signals the delivery looks at, and whether it takes one.\<close>

definition deliverable :: "task \<Rightarrow> int \<Rightarrow> bool" where
  "deliverable t sig \<longleftrightarrow> sig_pending t AND sigbit sig \<noteq> 0 \<and> (sig = SIGKILL \<or> sig_blocked t AND sigbit sig = 0)"

section \<open>Masks\<close>

lemma sigbit_bit: "sig_pending t AND sigbit sig \<noteq> 0 \<longleftrightarrow> bit (sig_pending t) (nat sig)" if "sig < 64"
proof -
  have "x AND sigbit sig = 0 \<longleftrightarrow> \<not> bit x (nat sig)" for x :: u64
  proof
    show "\<not> bit x (nat sig)" if "x AND sigbit sig = 0"
    proof
      assume "bit x (nat sig)"
      then have "bit (x AND sigbit sig) (nat sig)"
        using \<open>sig < 64\<close> by (auto simp: sigbit_def bit_simps dest: bit_imp_le_length)
      with that show False by simp
    qed
    show "x AND sigbit sig = 0" if "\<not> bit x (nat sig)"
      using that by (intro bit_word_eqI) (auto simp: sigbit_def bit_simps)
  qed
  then show ?thesis by simp
qed

end
