(* ===== verification/Vfs.thy ===== *)
theory Vfs
  imports Signals
begin

text \<open>
  The virtual file system, \<open>src/kernel/fs/vfs.c\<close>: the console files, the two mounts, the
  dispatch of the file operations to the file systems, and the descriptor tables. The
  operations of a file are chosen by its \<open>f_ops\<close>; those of the disk file system are the
  parameter \<open>F\<close>. A result \<open>None\<close> is an access through a wild pointer.
\<close>

abbreviation (input) POLLIN :: int where "POLLIN \<equiv> 1"
abbreviation (input) POLLOUT :: int where "POLLOUT \<equiv> 4"
abbreviation (input) POLLNVAL :: int where "POLLNVAL \<equiv> 32"

section \<open>The console\<close>

definition cons_open :: "string \<Rightarrow> nat \<Rightarrow> ('n, 'a) ks \<Rightarrow> (int \<times> nat \<times> ('n, 'a) ks) option" where
  "cons_open path flags s = Some (-1, 0, s)"

definition cons_read :: "nat \<Rightarrow> nat \<Rightarrow> ('n, 'a) ks \<Rightarrow> (int \<times> nat \<times> bytes \<times> ('n, 'a) ks) option" where
  "cons_read f len s =
    (if len = 0 then Some (0, 0, [], s)
     else
       case serial_poll_char s of
         None \<Rightarrow> Some (-11, 0, [], s)
       | Some (c, s1) \<Rightarrow>
           if c = 3 then
             Some (-11, 0, [], case task_current s1 of None \<Rightarrow> s1 | Some t \<Rightarrow> signal_send (Some t) SIGINT s1)
           else Some (0, 1, [if c = 13 then 10 else c], s1))"

definition cons_write :: "nat \<Rightarrow> bytes \<Rightarrow> ('n, 'a) ks \<Rightarrow> (int \<times> nat \<times> ('n, 'a) ks) option" where
  "cons_write f src s = Some (0, length src, fold serial_putchar src s)"

definition cons_close :: "nat \<Rightarrow> ('n, 'a) ks \<Rightarrow> (int \<times> ('n, 'a) ks) option" where
  "cons_close f s = Some (0, s)"

definition cons_files :: "nat \<Rightarrow> vfs_file" where
  "cons_files f = zero_file\<lparr>f_ops := ConsOps, is_console := (if f = g_cons_in then 2 else 1),
     writable := (f \<noteq> g_cons_in)\<rparr>"

text \<open>The prefix is \<open>"[user] "\<close>.\<close>

definition user_line_flush :: "('n, 'a) ks \<Rightarrow> ('n, 'a) ks" where
  "user_line_flush s =
    (if g_user_line s = [] then s
     else (serial_write (g_user_line s) (serial_puts [91, 117, 115, 101, 114, 93, 32] s))\<lparr>g_user_line := []\<rparr>)"

section \<open>Descriptor tables and mounts\<close>

definition fd_table :: "('n, 'a) ks \<Rightarrow> nat list" where
  "fd_table s = (case task_current s of Some t \<Rightarrow> fds (task_at s t) | None \<Rightarrow> g_kernel_fds s)"

definition set_fd :: "nat option \<Rightarrow> nat \<Rightarrow> nat \<Rightarrow> ('n, 'a) ks \<Rightarrow> ('n, 'a) ks" where
  "set_fd tp i f s =
    (case tp of
       Some t \<Rightarrow> upd_task t (\<lambda>tk. tk\<lparr>fds := (fds tk)[i := f]\<rparr>) s
     | None \<Rightarrow> s\<lparr>g_kernel_fds := (g_kernel_fds s)[i := f]\<rparr>)"

definition vfs_init :: "('n, 'a) ks \<Rightarrow> int \<times> ('n, 'a) ks" where
  "vfs_init s = (0, s\<lparr>g_root_ops := None, g_tmp_ops := None, g_user_line := [],
     g_kernel_fds := (replicate VFS_FD_MAX 0)[0 := g_cons_in, 1 := g_cons_out, 2 := g_cons_err]\<rparr>)"

definition vfs_mount_root :: "vfs_ops \<Rightarrow> ('n, 'a) ks \<Rightarrow> int \<times> ('n, 'a) ks" where
  "vfs_mount_root tab s = (0, s\<lparr>g_root_ops := Some tab\<rparr>)"

definition vfs_mount_tmp :: "vfs_ops \<Rightarrow> ('n, 'a) ks \<Rightarrow> ('n, 'a) ks" where
  "vfs_mount_tmp tab s = s\<lparr>g_tmp_ops := Some tab\<rparr>"

section \<open>Opening\<close>

text \<open>The \<open>open\<close> entry of a table; a socket has no table.\<close>

definition ops_open :: "('n, 'a) ks fs_ops \<Rightarrow> vfs_ops \<Rightarrow> string \<Rightarrow> nat \<Rightarrow> ('n, 'a) ks \<Rightarrow> (int \<times> nat \<times> ('n, 'a) ks) option" where
  "ops_open F tab path flags s =
    (case tab of
       ConsOps \<Rightarrow> cons_open path flags s
     | RamfsOps \<Rightarrow> ramfs_open path flags s
     | PipeOps \<Rightarrow> (case pipe_open path (int flags) s of (r, s1) \<Rightarrow> Some (r, 0, s1))
     | FatOps \<Rightarrow> op_open F path flags s
     | NoOps \<Rightarrow> Some (-1, 0, s))"

text \<open>The file system of a path.\<close>

definition mount_of :: "string \<Rightarrow> ('n, 'a) ks \<Rightarrow> vfs_ops option" where
  "mount_of path s = (if is_tmp_path path then g_tmp_ops s else g_root_ops s)"

definition vfs_open_flags :: "('n, 'a) ks fs_ops \<Rightarrow> string option \<Rightarrow> nat \<Rightarrow> ('n, 'a) ks \<Rightarrow> (int \<times> nat \<times> ('n, 'a) ks) option" where
  "vfs_open_flags F pathp flags s =
    (case pathp of
       None \<Rightarrow> Some (-1, 0, s)
     | Some path \<Rightarrow>
         (case mount_of path s of
            None \<Rightarrow> Some (-1, 0, s)
          | Some tab \<Rightarrow> ops_open F tab path flags s))"

definition vfs_open :: "('n, 'a) ks fs_ops \<Rightarrow> string option \<Rightarrow> ('n, 'a) ks \<Rightarrow> (int \<times> nat \<times> ('n, 'a) ks) option" where
  "vfs_open F pathp s = vfs_open_flags F pathp VFS_O_RDONLY s"

section \<open>File operations\<close>

definition vfs_read :: "('n, 'a) ks fs_ops \<Rightarrow> nat \<Rightarrow> nat \<Rightarrow> ('n, 'a) ks \<Rightarrow> (int \<times> nat \<times> bytes \<times> ('n, 'a) ks) option" where
  "vfs_read F f len s =
    (if f = 0 then Some (-1, 0, [], s)
     else
       case file_at f s of
         None \<Rightarrow> None
       | Some vf \<Rightarrow>
           (case f_ops vf of
              ConsOps \<Rightarrow> cons_read f len s
            | RamfsOps \<Rightarrow> ramfs_read f len s
            | PipeOps \<Rightarrow> map_option (\<lambda>(r, bs, s1). (r, length bs, bs, s1)) (pipe_read f len s)
            | FatOps \<Rightarrow> op_read F f len s
            | NoOps \<Rightarrow> Some (-1, 0, [], s)))"

definition vfs_write :: "('n, 'a) ks fs_ops \<Rightarrow> nat \<Rightarrow> bytes \<Rightarrow> ('n, 'a) ks \<Rightarrow> (int \<times> nat \<times> ('n, 'a) ks) option" where
  "vfs_write F f src s =
    (if f = 0 then Some (-1, 0, s)
     else
       case file_at f s of
         None \<Rightarrow> None
       | Some vf \<Rightarrow>
           (case f_ops vf of
              ConsOps \<Rightarrow> cons_write f src s
            | RamfsOps \<Rightarrow> ramfs_write f src s
            | PipeOps \<Rightarrow> pipe_write f src s
            | FatOps \<Rightarrow> op_write F f src s
            | NoOps \<Rightarrow> Some (-1, 0, s)))"

definition vfs_close :: "('n, 'a) ks fs_ops \<Rightarrow> nat \<Rightarrow> ('n, 'a) ks \<Rightarrow> (int \<times> ('n, 'a) ks) option" where
  "vfs_close F f s =
    (if f = 0 then Some (-1, s)
     else
       case file_at f s of
         None \<Rightarrow> None
       | Some vf \<Rightarrow>
           if is_console vf \<noteq> 0 then Some (0, s)
           else
             (case f_ops vf of
                ConsOps \<Rightarrow> cons_close f s
              | RamfsOps \<Rightarrow> ramfs_close f s
              | PipeOps \<Rightarrow> pipe_close f s
              | FatOps \<Rightarrow> op_close F f s
              | NoOps \<Rightarrow> Some (-1, s)))"

definition vfs_path_is_dir :: "('n, 'a) ks fs_ops \<Rightarrow> string option \<Rightarrow> ('n, 'a) ks \<Rightarrow> (bool \<times> ('n, 'a) ks) option" where
  "vfs_path_is_dir F pathp s =
    (case pathp of
       None \<Rightarrow> Some (False, s)
     | Some path \<Rightarrow>
         if path = [SLASH] then Some (True, s)
         else
           case vfs_open_flags F (Some path) VFS_O_RDONLY s of
             None \<Rightarrow> None
           | Some (r, f, s1) \<Rightarrow>
               if r \<noteq> 0 then Some (False, s1)
               else
                 case file_at f s1 of
                   None \<Rightarrow> None
                 | Some vf \<Rightarrow> map_option (\<lambda>(r, s2). (is_dir vf, s2)) (vfs_close F f s1))"

definition vfs_mkdir :: "('n, 'a) ks fs_ops \<Rightarrow> string option \<Rightarrow> int \<Rightarrow> ('n, 'a) ks \<Rightarrow> int \<times> ('n, 'a) ks" where
  "vfs_mkdir F pathp mode s =
    (case pathp of
       None \<Rightarrow> (-1, s)
     | Some path \<Rightarrow>
         (case mount_of path s of
            Some RamfsOps \<Rightarrow> ramfs_mkdir_op path s
          | Some FatOps \<Rightarrow> op_mkdir F path mode s
          | _ \<Rightarrow> (-1, s)))"

definition vfs_unlink :: "('n, 'a) ks fs_ops \<Rightarrow> string option \<Rightarrow> ('n, 'a) ks \<Rightarrow> int \<times> ('n, 'a) ks" where
  "vfs_unlink F pathp s =
    (case pathp of
       None \<Rightarrow> (-1, s)
     | Some path \<Rightarrow>
         if is_tmp_path path then (if g_tmp_ops s = Some RamfsOps then ramfs_unlink_op path s else (-1, s))
         else op_unlink F path s)"

definition vfs_rmdir :: "('n, 'a) ks fs_ops \<Rightarrow> string option \<Rightarrow> ('n, 'a) ks \<Rightarrow> int \<times> ('n, 'a) ks" where
  "vfs_rmdir F pathp s =
    (case pathp of
       None \<Rightarrow> (-1, s)
     | Some path \<Rightarrow>
         if is_tmp_path path then (if g_tmp_ops s = Some RamfsOps then ramfs_rmdir_op path s else (-1, s))
         else op_rmdir F path s)"

definition vfs_rename :: "('n, 'a) ks fs_ops \<Rightarrow> string option \<Rightarrow> string option \<Rightarrow> ('n, 'a) ks \<Rightarrow> (int \<times> ('n, 'a) ks) option" where
  "vfs_rename F oldp newp s =
    (case (oldp, newp) of
       (Some old, Some new) \<Rightarrow>
         if is_tmp_path old \<and> is_tmp_path new then
           (if g_tmp_ops s = Some RamfsOps then ramfs_rename_op old new s else Some (-1, s))
         else if is_tmp_path old \<or> is_tmp_path new then Some (-1, s)
         else Some (op_rename F old new s)
     | _ \<Rightarrow> Some (-1, s))"

definition vfs_read_all :: "('n, 'a) ks fs_ops \<Rightarrow> string option \<Rightarrow> nat \<Rightarrow> ('n, 'a) ks \<Rightarrow> (int \<times> nat \<times> bytes \<times> ('n, 'a) ks) option" where
  "vfs_read_all F pathp cap s =
    (case vfs_open F pathp s of
       None \<Rightarrow> None
     | Some (r, f, s1) \<Rightarrow>
         if r \<noteq> 0 then Some (-1, 0, [], s1)
         else
           case vfs_read F f cap s1 of
             None \<Rightarrow> None
           | Some (r1, n, bs, s2) \<Rightarrow>
               map_option (\<lambda>(r2, s3). if r1 \<noteq> 0 then (-1, 0, bs, s3) else (0, n, bs, s3)) (vfs_close F f s2))"

definition vfs_root_list :: "('n, 'a) ks fs_ops \<Rightarrow> ('n, 'a) ks \<Rightarrow> int \<times> (string \<times> nat) list" where
  "vfs_root_list F s =
    (case g_root_ops s of
       Some FatOps \<Rightarrow> op_readdir_root F s
     | Some RamfsOps \<Rightarrow> (0, ramfs_readdir_tmp s)
     | _ \<Rightarrow> (-1, []))"

text \<open>
  The bytes of \<open>struct linux_dirent64\<close> and of \<open>struct helix_stat\<close>, little endian. The padding
  behind the name of a directory entry is not written.
\<close>

primrec le_bytes :: "nat \<Rightarrow> nat \<Rightarrow> bytes" where
  "le_bytes 0 x = []"
| "le_bytes (Suc n) x = of_nat (x mod 256) # le_bytes n (x div 256)"

definition dirent_bytes :: "linux_dirent64 \<Rightarrow> bytes" where
  "dirent_bytes e =
    le_bytes 8 (d_ino e) @ le_bytes 8 (d_off e) @ le_bytes 2 (d_reclen e) @ [of_nat (d_type e)]
    @ map (\<lambda>c. of_nat (of_char c)) (d_name e) @ [0]"

fun dirent_stores :: "nat \<Rightarrow> linux_dirent64 list \<Rightarrow> (nat \<times> bytes) list" where
  "dirent_stores off [] = []"
| "dirent_stores off (e # es) = (off, dirent_bytes e) # dirent_stores (off + d_reclen e) es"

definition stat_bytes :: "helix_stat \<Rightarrow> bytes" where
  "stat_bytes st =
    le_bytes 16 0 @ le_bytes 8 (st_nlink st) @ le_bytes 4 (st_mode st) @ le_bytes 12 0 @ le_bytes 8 0
    @ le_bytes 8 (st_size st) @ le_bytes 8 (st_blksize st) @ le_bytes 80 0"

definition vfs_getdents64 :: "('n, 'a) ks fs_ops \<Rightarrow> nat \<Rightarrow> nat \<Rightarrow> ('n, 'a) ks \<Rightarrow>
    (int \<times> (nat \<times> bytes) list \<times> ('n, 'a) ks) option" where
  "vfs_getdents64 F f len s =
    (if f = 0 then Some (-38, [], s)
     else
       case file_at f s of
         None \<Rightarrow> None
       | Some vf \<Rightarrow>
           (case f_ops vf of
              RamfsOps \<Rightarrow> map_option (\<lambda>(r, es, s1). (r, dirent_stores 0 es, s1)) (ramfs_getdents64 f len s)
            | PipeOps \<Rightarrow> Some (pipe_getdents f len, [], s)
            | FatOps \<Rightarrow> op_getdents64 F f len s
            | _ \<Rightarrow> Some (-38, [], s)))"

definition vfs_fstat :: "('n, 'a) ks fs_ops \<Rightarrow> nat \<Rightarrow> ('n, 'a) ks \<Rightarrow> (int \<times> bytes \<times> ('n, 'a) ks) option" where
  "vfs_fstat F f s =
    (if f = 0 then Some (-38, [], s)
     else
       case file_at f s of
         None \<Rightarrow> None
       | Some vf \<Rightarrow>
           (case f_ops vf of
              RamfsOps \<Rightarrow> map_option (\<lambda>st. (0, stat_bytes st, s)) (ramfs_fstat f s)
            | PipeOps \<Rightarrow> Some (pipe_fstat f, [], s)
            | FatOps \<Rightarrow> op_fstat F f s
            | _ \<Rightarrow> Some (-38, [], s)))"

text \<open>No table has a \<open>poll\<close> entry, so the default applies. \<open>events\<close> is the mask the caller asks for.\<close>

definition vfs_poll_one :: "nat \<Rightarrow> int \<Rightarrow> ('n, 'a) ks \<Rightarrow> int option" where
  "vfs_poll_one f events s =
    (if f = 0 then Some POLLNVAL
     else
       map_option (\<lambda>vf.
           (if is_console vf = 2 then POLLIN
            else if is_console vf = 1 then POLLOUT
            else if is_dir vf then POLLIN
            else if is_socket vf = 2 then POLLIN OR POLLOUT
            else if f_size vf = 0 then POLLOUT else POLLIN OR POLLOUT) AND events)
         (file_at f s))"

section \<open>Descriptors\<close>

definition fd_init_task_stdio :: "('n, 'a) ks \<Rightarrow> ('n, 'a) ks" where
  "fd_init_task_stdio s =
    (case task_current s of
       None \<Rightarrow> s
     | Some t \<Rightarrow>
         fold (\<lambda>(i, f) s. if fds (task_at s t) ! i = 0 then set_fd (Some t) i f s else s)
           [(0, g_cons_in), (1, g_cons_out), (2, g_cons_err)] s)"

definition fd_install :: "nat \<Rightarrow> ('n, 'a) ks \<Rightarrow> (int \<times> ('n, 'a) ks) option" where
  "fd_install f s =
    (case find (\<lambda>i. fd_table s ! i = 0) [0..<VFS_FD_MAX] of
       None \<Rightarrow> Some (-1, s)
     | Some i \<Rightarrow>
         (case file_at f s of
            None \<Rightarrow> None
          | Some vf \<Rightarrow> Some (int i, put_file f (vf\<lparr>refcount := 1\<rparr>) (set_fd (task_current s) i f s))))"

definition fd_get :: "int \<Rightarrow> ('n, 'a) ks \<Rightarrow> nat" where
  "fd_get fd s = (if fd < 0 \<or> fd \<ge> int VFS_FD_MAX then 0 else fd_table s ! nat fd)"

definition fd_hold :: "nat \<Rightarrow> ('n, 'a) ks \<Rightarrow> ('n, 'a) ks option" where
  "fd_hold f s =
    (if f = 0 then Some s
     else map_option (\<lambda>vf. put_file f (vf\<lparr>refcount := refcount vf + 1\<rparr>) s) (file_at f s))"

text \<open>The socket a file stands for.\<close>

definition sock_of :: "vfs_file \<Rightarrow> nat option" where
  "sock_of vf = (if fs_priv vf = 0 then None else Some (fs_priv vf - 1))"

definition fd_close :: "('n, 'a) ks fs_ops \<Rightarrow> int \<Rightarrow> ('n, 'a) ks \<Rightarrow> (int \<times> ('n, 'a) ks) option" where
  "fd_close F fd s =
    (if fd < 0 \<or> fd \<ge> int VFS_FD_MAX then Some (-1, s)
     else
       let f = fd_table s ! nat fd in
       if f = 0 then Some (-1, s)
       else
         case file_at f s of
           None \<Rightarrow> None
         | Some vf \<Rightarrow>
             if is_console vf \<noteq> 0 then Some (0, s)
             else
               let vf1 = vf\<lparr>refcount := refcount vf - 1\<rparr>;
                   s1 = put_file f vf1 (set_fd (task_current s) (nat fd) 0 s)
               in if refcount vf1 > 0 then Some (0, s1)
                  else if is_socket vf1 \<noteq> 0 then
                    Some (0, free_file f (s1\<lparr>knet :=
                      (if is_socket vf1 = 2 then tcp_free (sock_of vf1) (knet s1) else net_sock_free (sock_of vf1) (knet s1))\<rparr>))
                  else vfs_close F f s1)"

text \<open>The line buffer has 256 characters.\<close>

definition line_put :: "u8 \<Rightarrow> ('n, 'a) ks \<Rightarrow> ('n, 'a) ks" where
  "line_put c s =
    (let s1 = (if length (g_user_line s) + 1 \<ge> 256 then user_line_flush s else s);
         s2 = s1\<lparr>g_user_line := g_user_line s1 @ [c]\<rparr>
     in if c = 10 then user_line_flush s2 else s2)"

definition vfs_console_write :: "nat \<Rightarrow> bytes \<Rightarrow> ('n, 'a) ks \<Rightarrow> (int \<times> ('n, 'a) ks) option" where
  "vfs_console_write f buf s =
    (if f = 0 then Some (-1, s)
     else
       case file_at f s of
         None \<Rightarrow> None
       | Some vf \<Rightarrow>
           if is_console vf = 0 \<or> is_console vf = 2 then Some (-1, s)
           else Some (as_int (of_nat (length buf)), fold line_put buf s))"

end
