(* ===== verification/Vfs_Laws.thy ===== *)
theory Vfs_Laws
  imports Vfs Ramfs_Data
begin

text \<open>
  What the file systems promise the layer above, and what the layer makes of it. The locale
  \<open>file_system\<close> states the contract of an operation table on the files of one kind: opening
  yields a fresh file, closing removes one, and no operation touches a file it was not given
  or the process state. The memory file system keeps the contract; for the disk it is the
  hypothesis of the theorems on system calls.
\<close>

section \<open>The invariant of the file layer\<close>

definition files_ok :: "'a rfs_scheme \<Rightarrow> bool" where
  "files_ok s \<longleftrightarrow> ramfs_ok s \<and> pipe_sys_ok s"

lemma files_okD: "files_ok s \<Longrightarrow> ramfs_ok s" "files_ok s \<Longrightarrow> pipe_sys_ok s" "files_ok s \<Longrightarrow> kobj_ok s"
  by (simp_all add: files_ok_def ramfs_okD)

text \<open>A file on the heap is not one of the static files.\<close>

lemma heap_address: "kobj_ok s \<Longrightarrow> a \<in> objects s \<Longrightarrow> 8 \<le> a"
  by (erule kobj_ok_live, assumption) (auto simp: live_def)

lemma not_static: "kobj_ok s \<Longrightarrow> files s f = Some vf \<Longrightarrow> \<not> is_static f"
  using heap_address [of s f] by (force simp: objects_def is_static_def)

text \<open>What a file is, apart from its position and size.\<close>

definition ident :: "vfs_file \<Rightarrow> vfs_ops \<times> nat \<times> nat \<times> bool \<times> bool \<times> nat \<times> int" where
  "ident vf = (f_ops vf, fs_priv vf, is_console vf, is_dir vf, writable vf, is_socket vf, refcount vf)"

definition same_files :: "(nat \<rightharpoonup> vfs_file) \<Rightarrow> (nat \<rightharpoonup> vfs_file) \<Rightarrow> bool" where
  "same_files m m' \<longleftrightarrow> (\<forall>f. map_option ident (m' f) = map_option ident (m f))"

lemma same_files_refl [simp]: "same_files m m"
  by (simp add: same_files_def)

lemma same_filesD:
  assumes "same_files m m'" "m f = Some vf"
  obtains vf' where "m' f = Some vf'" "f_ops vf' = f_ops vf" "fs_priv vf' = fs_priv vf" "is_console vf' = is_console vf"
    "is_dir vf' = is_dir vf" "writable vf' = writable vf" "is_socket vf' = is_socket vf" "refcount vf' = refcount vf"
proof -
  have "map_option ident (m' f) = Some (ident vf)" using assms by (simp add: same_files_def)
  then show ?thesis using that by (auto simp: ident_def)
qed

lemma same_files_dom: "same_files m m' \<Longrightarrow> m' f = None \<longleftrightarrow> m f = None"
  unfolding same_files_def by (metis map_option_is_None)

lemma same_files_upd: "m f = Some vf \<Longrightarrow> ident vf' = ident vf \<Longrightarrow> same_files m (m(f \<mapsto> vf'))"
  by (simp add: same_files_def)

text \<open>The part of the state that file operations leave alone: the tasks, tables and other components.\<close>

definition same_proc :: "('n, 'a) ks \<Rightarrow> ('n, 'a) ks \<Rightarrow> bool" where
  "same_proc s s' \<longleftrightarrow> rfs.more s' = rfs.more s"

lemma same_proc_refl [simp]: "same_proc s s"
  by (simp add: same_proc_def)

lemma same_procD:
  assumes "same_proc s s'"
  shows "g_tasks s' = g_tasks s" "g_current s' = g_current s" "g_next_pid s' = g_next_pid s"
    "g_kernel_fds s' = g_kernel_fds s" "g_cons s' = g_cons s" "knet s' = knet s" "kpg s' = kpg s"
    "g_root_ops s' = g_root_ops s" "g_tmp_ops s' = g_tmp_ops s" "ktimer s' = ktimer s" "kps2 s' = kps2 s"
  using assms by (cases s, cases s', simp add: same_proc_def)+

section \<open>The contract of a file system\<close>

locale file_system =
  fixes tag :: vfs_ops
    and F :: "('n, 'a) ks fs_ops"
  assumes open_law: "files_ok s \<Longrightarrow> \<exists>r f s'. op_open F path flags s = Some (r, f, s') \<and> files_ok s' \<and> same_proc s s'
      \<and> (if r = 0 then \<exists>vf. files s f = None \<and> files s' = (files s)(f \<mapsto> vf) \<and> f_ops vf = tag \<and> is_console vf = 0 \<and> is_socket vf = 0
         else files s' = files s)"
    and read_law: "files_ok s \<Longrightarrow> files s f = Some vf \<Longrightarrow> f_ops vf = tag \<Longrightarrow>
      \<exists>r n bs s'. op_read F f len s = Some (r, n, bs, s') \<and> files_ok s' \<and> same_proc s s' \<and> same_files (files s) (files s')
        \<and> length bs \<le> len"
    and write_law: "files_ok s \<Longrightarrow> files s f = Some vf \<Longrightarrow> f_ops vf = tag \<Longrightarrow> length src < 2 ^ 63 \<Longrightarrow>
      \<exists>r n s'. op_write F f src s = Some (r, n, s') \<and> files_ok s' \<and> same_proc s s' \<and> same_files (files s) (files s')"
    and close_law: "files_ok s \<Longrightarrow> files s f = Some vf \<Longrightarrow> f_ops vf = tag \<Longrightarrow>
      \<exists>r s'. op_close F f s = Some (r, s') \<and> files_ok s' \<and> same_proc s s' \<and> files s' = (files s)(f := None)"
    and getdents_law: "files_ok s \<Longrightarrow> files s f = Some vf \<Longrightarrow> f_ops vf = tag \<Longrightarrow>
      \<exists>r st s'. op_getdents64 F f len s = Some (r, st, s') \<and> files_ok s' \<and> same_proc s s' \<and> same_files (files s) (files s')
        \<and> (\<forall>(off, bs)\<in>set st. off + length bs \<le> len)"
    and fstat_law: "files_ok s \<Longrightarrow> files s f = Some vf \<Longrightarrow> f_ops vf = tag \<Longrightarrow>
      \<exists>r bs s'. op_fstat F f s = Some (r, bs, s') \<and> files_ok s' \<and> same_proc s s' \<and> same_files (files s) (files s')
        \<and> length bs \<le> 144"
    and dir_law: "files_ok s \<Longrightarrow> s' \<in> {snd (op_mkdir F p mode s), snd (op_unlink F p s), snd (op_rmdir F p s), snd (op_rename F p q s)} \<Longrightarrow>
      files_ok s' \<and> same_proc s s' \<and> files s' = files s"

section \<open>The memory file system keeps the contract\<close>

text \<open>Its operations change the heap, the files and the nodes only.\<close>

definition rframe :: "'a rfs_scheme \<Rightarrow> 'a rfs_scheme \<Rightarrow> bool" where
  "rframe s s' \<longleftrightarrow> pipes s' = pipes s \<and> rfs.more s' = rfs.more s"

lemma rframe_simps [simp]:
  "rframe s s" "rframe s (s'\<lparr>g_nodes := ns\<rparr>) = rframe s s'" "rframe s (s'\<lparr>kheap := h\<rparr>) = rframe s s'"
  "rframe s (s'\<lparr>files := fl\<rparr>) = rframe s s'" "rframe s (s'\<lparr>rfiles := rl\<rparr>) = rframe s s'" "rframe s (s'\<lparr>bufs := b\<rparr>) = rframe s s'"
  "rframe s (s'\<lparr>g_tmp_root := r\<rparr>) = rframe s s'"
  by (simp_all add: rframe_def)

lemma rframe_free [simp]:
  "rframe s (free_file f s') = rframe s s'" "rframe s (free_rfile f s') = rframe s s'" "rframe s (free_buf f s') = rframe s s'"
  by (simp_all add: free_file_def free_rfile_def free_buf_def)

lemma rframe_dirs:
  "rframe s (snd (ramfs_mkdir_op p s))" "rframe s (snd (ramfs_unlink_op p s))" "rframe s (snd (ramfs_rmdir_op p s))"
  "rframe s (snd (ramfs_create_file p s))"
  by (auto simp: ramfs_mkdir_op_def ramfs_mkdir_def ramfs_create_file_def ramfs_unlink_op_def ramfs_rmdir_op_def
      node_release_def Let_def split: option.split prod.split)

lemma files_dirs:
  "files (snd (ramfs_mkdir_op p s)) = files s" "files (snd (ramfs_unlink_op p s)) = files s"
  "files (snd (ramfs_rmdir_op p s)) = files s" "files (snd (ramfs_create_file p s)) = files s"
  by (auto simp: ramfs_mkdir_op_def ramfs_mkdir_def ramfs_create_file_def ramfs_unlink_op_def ramfs_rmdir_op_def
      node_release_def free_buf_def Let_def split: option.split prod.split)

lemma rframe_rename: "ramfs_rename_op p q s = Some (r, s') \<Longrightarrow> rframe s s' \<and> files s' = files s"
  by (auto simp: ramfs_rename_op_def Let_def split: option.splits prod.splits if_splits bool.splits)
lemma read_frame:
  assumes "ramfs_read f len s = Some (r, n, bs, s')"
  shows "rframe s s' \<and> same_files (files s) (files s') \<and> length bs \<le> len"
  using assms
  by (auto simp: ramfs_read_def Let_def same_files_upd ident_def split: option.splits if_splits)

lemma reserve_frame: "ramfs_reserve i need s = Some (b, s') \<Longrightarrow> rframe s s' \<and> files s' = files s"
  by (auto simp: ramfs_reserve_def Let_def free_buf_def split: option.splits if_splits prod.splits)

lemma write_frame:
  assumes "ramfs_write f src s = Some (r, n, s')"
  shows "rframe s s' \<and> same_files (files s) (files s')"
  using assms
  by (auto simp: ramfs_write_def Let_def ident_def split: option.splits if_splits bool.splits prod.splits
      dest!: reserve_frame intro!: same_files_upd)

lemma getdents_frame:
  assumes "ramfs_getdents64 f len s = Some (r, es, s')"
  shows "rframe s s' \<and> same_files (files s) (files s')"
  using assms by (auto simp: ramfs_getdents64_def same_files_upd ident_def split: option.splits if_splits)

text \<open>The entries fit into the buffer.\<close>

lemma length_dirent: "length (d_name e) + 27 \<le> d_reclen e + 7 \<Longrightarrow> length (dirent_bytes e) \<le> d_reclen e"
proof -
  have l: "length (le_bytes n x) = n" for n x by (induction n arbitrary: x) auto
  show "length (d_name e) + 27 \<le> d_reclen e + 7 \<Longrightarrow> length (dirent_bytes e) \<le> d_reclen e" by (simp add: dirent_bytes_def l)
qed

lemma dirent_reclen_fits: "length name + 20 \<le> dirent_reclen name"
  unfolding dirent_reclen_def by linarith

lemma getdents_loop_fits:
  assumes "getdents_loop ns par len is seen idx pos = Some (es, tot, k)"
  shows "\<forall>(off, bs)\<in>set (dirent_stores pos es). off + length bs \<le> len"
  using assms
proof (induction ns par len "is" seen idx pos arbitrary: es tot k rule: getdents_loop.induct)
  case (2 ns par len i "is" seen idx pos)
  show ?case
  proof (cases "\<not> n_used (ns ! i) \<or> n_parent (ns ! i) \<noteq> par \<or> seen < idx \<or> len < pos + dirent_reclen (n_name (ns ! i))")
    case True
    then show ?thesis using 2 by (auto simp: Let_def split: if_splits)
  next
    case False
    define rl where "rl = dirent_reclen (n_name (ns ! i))"
    define e where "e = \<lparr>d_ino = i + 1, d_off = idx + 1, d_reclen = rl, d_type = (if n_is_dir (ns ! i) then 4 else 8), d_name = n_name (ns ! i)\<rparr>"
    obtain es' t' k' where r: "getdents_loop ns par len is (seen + 1) (idx + 1) (pos + rl) = Some (es', t', k')" "es = e # es'"
      using 2(4) False by (auto simp: Let_def e_def rl_def)
    have "length (dirent_bytes e) \<le> rl"
      using length_dirent [of e] dirent_reclen_fits [of "n_name (ns ! i)"] by (simp add: e_def rl_def)
    moreover have "pos + rl \<le> len" using False by (simp add: rl_def)
    moreover have "\<forall>(off, bs)\<in>set (dirent_stores (pos + rl) es'). off + length bs \<le> len"
      using 2(3) [OF _ _ rl_def _] False r(1) by (simp add: rl_def)
    ultimately show ?thesis by (auto simp: r(2) e_def)
  qed
qed simp
lemma create_heap: "kheap (snd (ramfs_create_file p s)) = kheap s"
  by (auto simp: ramfs_create_file_def Let_def split: option.split prod.split)

text \<open>The file a successful \<open>open\<close> returns is the second block it allocates.\<close>

lemma open_frame:
  assumes "ramfs_open path flags s = Some (r, f, s')"
  shows "rframe s s' \<and> (if r = 0 then
      \<exists>vf rf h3 h4. kmalloc 16 (kheap s) = (rf, h3) \<and> rf \<noteq> 0 \<and> kmalloc 56 h3 = (f, h4) \<and> f \<noteq> 0
        \<and> files s' = (files s)(f \<mapsto> vf) \<and> f_ops vf = RamfsOps \<and> is_console vf = 0 \<and> is_socket vf = 0
    else files s' = files s)"
proof (cases "strip_tmp_prefix path")
  case None
  then show ?thesis using assms by (auto simp: ramfs_open_def)
next
  case (Some rel)
  define look where "look = (\<lambda>st :: 'a rfs_scheme. map_option fst (resolve (g_nodes st) (g_tmp_root st) rel False))"
  define fs where "fs = (if rel = [] then (Some (g_tmp_root s), s) else case look s of Some i \<Rightarrow> (Some i, s)
      | None \<Rightarrow> if has_flag flags VFS_O_CREAT then
                 case ramfs_create_file path s of (r, s1) \<Rightarrow> if r < 0 then (None, s1) else (look s1, s1)
               else (None, s))"
  note names = fs_def [unfolded look_def, symmetric] and strip = Some
  obtain found s1 where fs: "fs = (found, s1)" by (rule prod.exhaust)
  have c: "kheap (snd fs) = kheap s" "files (snd fs) = files s" "rframe s (snd fs)"
    using create_heap [of path s] files_dirs(4) [of path s] rframe_dirs(4) [of s path]
    by (auto simp: fs_def split: option.split prod.split)
  note A = assms [unfolded ramfs_open_def strip option.case Let_def names fs prod.case]
  show ?thesis using A c unfolding fs snd_conv
    by (auto simp: zero_file_def free_rfile_def split: option.splits if_splits prod.splits)
qed
text \<open>Pipes do not see the other files.\<close>

lemma pipe_ok_same:
  assumes "pipe_sys_ok s" "kobj_ok s'" "pipes s' = pipes s" "same_files (files s) (files s')"
  shows "pipe_sys_ok s'"
proof -
  have e: "\<exists>vf'. files s' a = Some vf' \<and> f_ops vf' = PipeOps \<and> fs_priv vf' = b \<and> writable vf' = w"
    if q: "files s a = Some vf" "f_ops vf = PipeOps" "fs_priv vf = b" "writable vf = w" for a b vf w
  proof -
    obtain vf' where "files s' a = Some vf'" "f_ops vf' = f_ops vf" "fs_priv vf' = fs_priv vf" "writable vf' = writable vf"
      by (rule same_filesD [OF assms(4) q(1)])
    then show ?thesis using q by simp
  qed
  have d: "\<exists>vf. files s a = Some vf \<and> f_ops vf = f_ops vf' \<and> fs_priv vf = fs_priv vf' \<and> writable vf = writable vf'"
    if "files s' a = Some vf'" for a vf'
  proof -
    have "map_option ident (files s a) = Some (ident vf')" using assms(4) that by (metis same_files_def option.map(2))
    then show ?thesis by (auto simp: ident_def)
  qed
  show ?thesis unfolding pipe_sys_ok_def assms(3)
  proof (intro conjI allI impI assms(2))
    fix a p assume p: "pipes s a = Some p"
    show "pipe_wf p" using assms(1) p unfolding pipe_sys_ok_def by blast
    fix w assume w: "end_of w p \<noteq> 0"
    obtain vf where "files s (end_of w p) = Some vf" "f_ops vf = PipeOps" "fs_priv vf = a" "writable vf = w"
      using assms(1) p w unfolding pipe_sys_ok_def by blast
    then show "\<exists>vf. files s' (end_of w p) = Some vf \<and> f_ops vf = PipeOps \<and> fs_priv vf = a \<and> writable vf = w" by (rule e)
  next
    fix f vf' assume f: "files s' f = Some vf' \<and> f_ops vf' = PipeOps"
    then have "files s' f = Some vf'" "f_ops vf' = PipeOps" by simp_all
    with d [OF this(1)] obtain vf where v: "files s f = Some vf" "f_ops vf = PipeOps" "fs_priv vf = fs_priv vf'" "writable vf = writable vf'"
      by auto
    obtain p where "pipes s (fs_priv vf) = Some p" "end_of (writable vf) p = f" by (rule pipe_sys_okD [OF assms(1) v(1,2)])
    then show "\<exists>p. pipes s (fs_priv vf') = Some p \<and> end_of (writable vf') p = f" using v(3,4) by simp
  qed
qed

lemma pipe_ok_other:
  assumes "pipe_sys_ok s" "kobj_ok s'" "pipes s' = pipes s" "files s' = (files s)(f := x)"
    "\<forall>vf. x = Some vf \<longrightarrow> f_ops vf \<noteq> PipeOps" "\<forall>vf. files s f = Some vf \<longrightarrow> f_ops vf \<noteq> PipeOps"
  shows "pipe_sys_ok s'"
  unfolding pipe_sys_ok_def assms(3)
proof (intro conjI allI impI assms(2))
  fix a p assume p: "pipes s a = Some p"
  show "pipe_wf p" using assms(1) p unfolding pipe_sys_ok_def by blast
  fix w assume w: "end_of w p \<noteq> 0"
  obtain vf where v: "files s (end_of w p) = Some vf" "f_ops vf = PipeOps" "fs_priv vf = a" "writable vf = w"
    using assms(1) p w unfolding pipe_sys_ok_def by blast
  then have "end_of w p \<noteq> f" using assms(6) by auto
  then show "\<exists>vf. files s' (end_of w p) = Some vf \<and> f_ops vf = PipeOps \<and> fs_priv vf = a \<and> writable vf = w"
    using v by (auto simp: assms(4))
next
  fix g vf assume g: "files s' g = Some vf \<and> f_ops vf = PipeOps"
  then have "files s g = Some vf" "f_ops vf = PipeOps" using assms(4,5) by (auto split: if_splits)
  then show "\<exists>p. pipes s (fs_priv vf) = Some p \<and> end_of (writable vf) p = g"
    using pipe_sys_okD [OF assms(1)] by metis
qed

lemma two_blocks:
  assumes "kobj_ok s" "kmalloc 16 (kheap s) = (rf, h3)" "rf \<noteq> 0" "kmalloc 56 h3 = (f, h4)" "f \<noteq> 0"
  shows "files s f = None"
proof (rule ccontr)
  note h = kobj_ok_heap [OF assms(1)]
  assume "files s f \<noteq> None"
  then have "f \<in> objects s" by (auto simp: objects_def)
  then obtain m where "(f, m) \<in> live (kheap s)" by (rule kobj_ok_live [OF assms(1)])
  then have "(f, m) \<in> live h3" using kh.alloc_blocks_mono [OF h _ assms(2)] by auto
  moreover have "heap_inv h3" using kh.alloc_inv [OF h _ assms(2)] by simp
  ultimately show False using kh.alloc_fresh(2) [OF _ _ assms(4,5), of f m] by simp
qed

text \<open>The operation table of the memory file system.\<close>

definition ramfs_table :: "('n, 'a) ks fs_ops" where
  "ramfs_table = \<lparr>op_open = ramfs_open, op_read = ramfs_read, op_write = ramfs_write, op_close = ramfs_close,
     op_readdir_root = (\<lambda>s. (0, ramfs_readdir_tmp s)),
     op_getdents64 = (\<lambda>f len s. map_option (\<lambda>(r, es, s1). (r, dirent_stores 0 es, s1)) (ramfs_getdents64 f len s)),
     op_fstat = (\<lambda>f s. map_option (\<lambda>st. (0, stat_bytes st, s)) (ramfs_fstat f s)),
     op_mkdir = (\<lambda>p mode. ramfs_mkdir_op p), op_unlink = ramfs_unlink_op, op_rmdir = ramfs_rmdir_op,
     op_rename = (\<lambda>p q s. case ramfs_rename_op p q s of None \<Rightarrow> (-1, s) | Some x \<Rightarrow> x)\<rparr>"

lemma files_ok_same:
  assumes "files_ok s" "ramfs_ok s'" "rframe s s'" "same_files (files s) (files s')"
  shows "files_ok s' \<and> same_proc s s'"
  using assms pipe_ok_same [OF files_okD(2) [OF assms(1)] ramfs_okD(1) [OF assms(2)]]
  by (auto simp: files_ok_def rframe_def same_proc_def)

lemma length_stat: "length (stat_bytes st) = 144"
proof -
  have l: "length (le_bytes n x) = n" for n x by (induction n arbitrary: x) auto
  show ?thesis by (simp add: stat_bytes_def l)
qed

lemma fstat_returns:
  assumes "ramfs_ok s" "files s f = Some vf" "f_ops vf = RamfsOps"
  shows "\<exists>st. ramfs_fstat f s = Some st"
proof -
  obtain rf where "rfiles s (fs_priv vf) = Some rf" "fs_priv vf \<noteq> 0" "rf_node rf < 64" by (rule ramfs_handle [OF assms])
  then show ?thesis using assms ramfs_okD(2) [OF assms(1)] by (simp add: ramfs_fstat_def)
qed
interpretation ramfs: file_system RamfsOps "ramfs_table :: ('n, 'a) ks fs_ops"
proof unfold_locales
  fix s :: "('n, 'a) ks" and path flags
  assume ok: "files_ok s"
  obtain r f s' where o: "ramfs_open path flags s = Some (r, f, s')" "ramfs_ok s'" using open_ok [OF files_okD(1) [OF ok]] by blast
  note fr = open_frame [OF o(1)]
  have p: "pipes s' = pipes s" "same_proc s s'" using fr by (simp_all add: rframe_def same_proc_def)
  show "\<exists>r f s'. op_open ramfs_table path flags s = Some (r, f, s') \<and> files_ok s' \<and> same_proc s s' \<and>
      (if r = 0 then \<exists>vf. files s f = None \<and> files s' = (files s)(f \<mapsto> vf) \<and> f_ops vf = RamfsOps \<and> is_console vf = 0 \<and> is_socket vf = 0
       else files s' = files s)"
  proof (cases "r = 0")
    case True
    obtain vf rf h3 h4 where v: "kmalloc 16 (kheap s) = (rf, h3)" "rf \<noteq> 0" "kmalloc 56 h3 = (f, h4)" "f \<noteq> 0"
      "files s' = (files s)(f \<mapsto> vf)" "f_ops vf = RamfsOps" "is_console vf = 0" "is_socket vf = 0" using fr True by auto
    have n: "files s f = None" by (rule two_blocks [OF files_okD(3) [OF ok] v(1-4)])
    have "pipe_sys_ok s'"
      by (rule pipe_ok_other [OF files_okD(2) [OF ok] ramfs_okD(1) [OF o(2)] p(1) v(5)]) (use n v(6) in auto)
    then show ?thesis using o p True n v(5-8) by (auto simp: ramfs_table_def files_ok_def)
  next
    case False
    then have "files s' = files s" using fr by simp
    then show ?thesis using o p False files_ok_same [OF ok o(2)] fr by (auto simp: ramfs_table_def)
  qed
next
  fix s :: "('n, 'a) ks" and f vf len
  assume a: "files_ok s" "files s f = Some vf" "f_ops vf = RamfsOps"
  obtain r n bs s' where r: "ramfs_read f len s = Some (r, n, bs, s')" "ramfs_ok s'" using read_ok [OF files_okD(1) [OF a(1)] a(2,3)] by blast
  with read_frame [OF r(1)] files_ok_same [OF a(1) r(2)]
  show "\<exists>r n bs s'. op_read ramfs_table f len s = Some (r, n, bs, s') \<and> files_ok s' \<and> same_proc s s' \<and> same_files (files s) (files s') \<and> length bs \<le> len"
    by (auto simp: ramfs_table_def)
next
  fix s :: "('n, 'a) ks" and f vf and src :: bytes
  assume a: "files_ok s" "files s f = Some vf" "f_ops vf = RamfsOps" and l: "length src < 2 ^ 63"
  obtain r n s' where r: "ramfs_write f src s = Some (r, n, s')" "ramfs_ok s'"
    using write_ok [OF files_okD(1) [OF a(1)] a(2,3), of src] l by auto
  with write_frame [OF r(1)] files_ok_same [OF a(1) r(2)]
  show "\<exists>r n s'. op_write ramfs_table f src s = Some (r, n, s') \<and> files_ok s' \<and> same_proc s s' \<and> same_files (files s) (files s')"
    by (auto simp: ramfs_table_def)
next
  fix s :: "('n, 'a) ks" and f vf
  assume a: "files_ok s" "files s f = Some vf" "f_ops vf = RamfsOps"
  obtain s' where c: "ramfs_close f s = Some (0, s')" "ramfs_ok s'" using ramfs_close_ok [OF files_okD(1) [OF a(1)] a(2,3)] by blast
  then have fr: "rframe s s'" "files s' = (files s)(f := None)"
    using a(2) by (auto simp: ramfs_close_def free_file_def free_rfile_def split: if_splits)
  have "pipe_sys_ok s'"
    by (rule pipe_ok_other [OF files_okD(2) [OF a(1)] ramfs_okD(1) [OF c(2)] _ fr(2)]) (use fr(1) a(2,3) in \<open>auto simp: rframe_def\<close>)
  then show "\<exists>r s'. op_close ramfs_table f s = Some (r, s') \<and> files_ok s' \<and> same_proc s s' \<and> files s' = (files s)(f := None)"
    using c fr by (auto simp: ramfs_table_def files_ok_def rframe_def same_proc_def)
next
  fix s :: "('n, 'a) ks" and f vf len
  assume a: "files_ok s" "files s f = Some vf" "f_ops vf = RamfsOps"
  obtain r es s' where g: "ramfs_getdents64 f len s = Some (r, es, s')" "ramfs_ok s'" using getdents_ok [OF files_okD(1) [OF a(1)] a(2,3)] by blast
  have "\<forall>(off, bs)\<in>set (dirent_stores 0 es). off + length bs \<le> len"
    using g(1) by (auto simp: ramfs_getdents64_def split: option.splits if_splits dest!: getdents_loop_fits)
  with g getdents_frame [OF g(1)] files_ok_same [OF a(1) g(2)]
  show "\<exists>r st s'. op_getdents64 ramfs_table f len s = Some (r, st, s') \<and> files_ok s' \<and> same_proc s s' \<and> same_files (files s) (files s')
      \<and> (\<forall>(off, bs)\<in>set st. off + length bs \<le> len)"
    by (auto simp: ramfs_table_def)
next
  fix s :: "('n, 'a) ks" and f vf
  assume a: "files_ok s" "files s f = Some vf" "f_ops vf = RamfsOps"
  show "\<exists>r bs s'. op_fstat ramfs_table f s = Some (r, bs, s') \<and> files_ok s' \<and> same_proc s s' \<and> same_files (files s) (files s') \<and> length bs \<le> 144"
    using fstat_returns [OF files_okD(1) [OF a(1)] a(2,3)] a(1) by (auto simp: ramfs_table_def length_stat)
next
  fix s s' :: "('n, 'a) ks" and p q :: string and mode :: int
  assume ok: "files_ok s"
    and s': "s' \<in> {snd (op_mkdir ramfs_table p mode s), snd (op_unlink ramfs_table p s), snd (op_rmdir ramfs_table p s), snd (op_rename ramfs_table p q s)}"
  note r = files_okD(1) [OF ok]
  obtain x s1 where n: "ramfs_rename_op p q s = Some (x, s1)" "ramfs_ok s1" using rename_ok [OF r] by blast
  have "ramfs_ok s' \<and> rframe s s' \<and> files s' = files s"
    using s' n rframe_rename [OF n(1)] rframe_dirs [of s p] files_dirs [of p s] remove_ok [OF r, of p] mkdir_ok [OF r, of p]
    by (auto simp: ramfs_table_def ramfs_mkdir_op_def split: prod.splits)
  then show "files_ok s' \<and> same_proc s s' \<and> files s' = files s" using files_ok_same [OF ok, of s'] by simp
qed

end
