(* ===== verification/Vfs_Props.thy ===== *)
theory Vfs_Props
  imports Vfs_Laws
begin

text \<open>
  The file operations of the layer, from the contracts below it: on every open file they
  return, keep the invariant and change no other file. The disk is the locale \<open>disk\<close>.
\<close>

section \<open>The open files\<close>

text \<open>The static files are consoles and no other file is; exactly sockets have no operations.\<close>

definition vfs_ok :: "('n, 'a) ks \<Rightarrow> bool" where
  "vfs_ok s \<longleftrightarrow> files_ok s
     \<and> (\<forall>f vf. files s f = Some vf \<longrightarrow> is_console vf = 0 \<and> f_ops vf \<noteq> ConsOps \<and> (is_socket vf \<noteq> 0 \<longleftrightarrow> f_ops vf = NoOps))
     \<and> (\<forall>f. is_static f \<longrightarrow> f_ops (g_cons s f) = ConsOps \<and> is_console (g_cons s f) \<noteq> 0)"

lemma vfs_okD:
  assumes "vfs_ok s"
  shows "files_ok s" "files s f = Some vf \<Longrightarrow> is_console vf = 0"
    "files s f = Some vf \<Longrightarrow> f_ops vf \<noteq> ConsOps" "files s f = Some vf \<Longrightarrow> is_socket vf \<noteq> 0 \<longleftrightarrow> f_ops vf = NoOps"
    "is_static f \<Longrightarrow> f_ops (g_cons s f) = ConsOps" "is_static f \<Longrightarrow> is_console (g_cons s f) \<noteq> 0"
  using assms by (auto simp: vfs_ok_def)

lemma vfs_ok_static: "vfs_ok s \<Longrightarrow> files s f = Some vf \<Longrightarrow> \<not> is_static f"
  using not_static files_okD(3) vfs_okD(1) by blast

lemma vfs_ok_file_at: "vfs_ok s \<Longrightarrow> files s f = Some vf \<Longrightarrow> file_at f s = Some vf"
  using vfs_ok_static by (auto simp: file_at_def)

lemma file_at_cases:
  assumes "vfs_ok s" "file_at f s = Some vf"
  obtains (static) "is_static f" "vf = g_cons s f" "is_console vf \<noteq> 0" "f_ops vf = ConsOps"
    | (heap) "\<not> is_static f" "files s f = Some vf" "is_console vf = 0" "f_ops vf \<noteq> ConsOps"
  using assms vfs_okD [OF assms(1)] by (auto simp: file_at_def split: if_splits)

text \<open>The invariant of the files survives a step that keeps what the files are, adds one or drops one.\<close>

lemma vfs_ok_same:
  assumes "vfs_ok s" "files_ok s'" "same_proc s s'" "same_files (files s) (files s')"
  shows "vfs_ok s'"
proof -
  have "\<exists>vf. files s f = Some vf \<and> ident vf = ident vf'" if "files s' f = Some vf'" for f vf'
  proof -
    have "map_option ident (files s f) = Some (ident vf')" using assms(4) that by (metis same_files_def option.map(2))
    then show ?thesis by auto
  qed
  then show ?thesis using assms(1-3) same_procD(5) [OF assms(3)] by (fastforce simp: vfs_ok_def ident_def)
qed

lemma vfs_ok_add:
  assumes "vfs_ok s" "files_ok s'" "g_cons s' = g_cons s" "files s' = (files s)(f \<mapsto> vf)"
    "is_console vf = 0" "f_ops vf \<noteq> ConsOps" "is_socket vf \<noteq> 0 \<longleftrightarrow> f_ops vf = NoOps"
  shows "vfs_ok s'"
  using assms by (auto simp: vfs_ok_def)

lemma vfs_ok_del:
  assumes "vfs_ok s" "files_ok s'" "g_cons s' = g_cons s" "files s' = (files s)(f := None)"
  shows "vfs_ok s'"
  using assms by (auto simp: vfs_ok_def)

section \<open>Pipes in the file layer\<close>

definition pframe :: "'a rfs_scheme \<Rightarrow> 'a rfs_scheme \<Rightarrow> bool" where
  "pframe s s' \<longleftrightarrow> g_nodes s' = g_nodes s \<and> g_tmp_root s' = g_tmp_root s \<and> rfs.more s' = rfs.more s \<and> rfiles s' = rfiles s \<and> bufs s' = bufs s"

lemma pframe_simps [simp]:
  "pframe s s" "pframe s (s'\<lparr>kheap := h\<rparr>) = pframe s s'" "pframe s (s'\<lparr>files := fl\<rparr>) = pframe s s'" "pframe s (s'\<lparr>pipes := pl\<rparr>) = pframe s s'"
  "pframe s (free_file f s') = pframe s s'" "pframe s (free_pipe f s') = pframe s s'"
  by (simp_all add: pframe_def free_file_def free_pipe_def)

lemma pipe_frames:
  "pipe_read f len s = Some (r, bs, s') \<Longrightarrow> pframe s s' \<and> files s' = files s \<and> length bs \<le> len"
  "pipe_write f src s = Some (r', n, s') \<Longrightarrow> pframe s s' \<and> files s' = files s"
  "pipe_close f s = Some (r'', s') \<Longrightarrow> pframe s s'"
proof -
  have l: "length (fst (pipe_read_loop len p)) \<le> len" for p :: helix_pipe
    by (induction len arbitrary: p) (auto split: option.split prod.split simp: prod_eq_iff)
  show "pframe s s' \<and> files s' = files s \<and> length bs \<le> len" if "pipe_read f len s = Some (r, bs, s')"
    using that l by (auto simp: pipe_read_def Let_def split: option.splits if_splits prod.splits) (metis fst_conv)+
  show "pframe s s' \<and> files s' = files s" if "pipe_write f src s = Some (r', n, s')"
    using that by (auto simp: pipe_write_def Let_def split: option.splits if_splits prod.splits)
  show "pframe s s'" if "pipe_close f s = Some (r'', s')"
    using that by (auto simp: pipe_close_def Let_def split: option.splits if_splits)
qed

lemma ramfs_ok_pipes:
  assumes "ramfs_ok s" "kobj_ok s'" "pframe s s'" "\<forall>f vf. files s' f = Some vf \<longrightarrow> f_ops vf = RamfsOps \<longrightarrow> files s f = Some vf"
  shows "ramfs_ok s'"
proof -
  have "handles_ok (files s') (rfiles s)" using ramfs_okD(6) [OF assms(1)] assms(4) unfolding handles_ok_def by blast
  then show ?thesis using assms by (simp add: ramfs_ok_def pframe_def)
qed

text \<open>The operations on an open pipe.\<close>

lemma pipe_laws:
  fixes s :: "('n, 'a) ks"
  assumes "vfs_ok s" "files s f = Some vf" "f_ops vf = PipeOps"
  shows "\<exists>r bs s'. pipe_read f len s = Some (r, bs, s') \<and> vfs_ok s' \<and> same_proc s s' \<and> files s' = files s \<and> length bs \<le> len"
    "\<exists>r n s'. pipe_write f src s = Some (r, n, s') \<and> vfs_ok s' \<and> same_proc s s' \<and> files s' = files s"
    "\<exists>r s'. pipe_close f s = Some (r, s') \<and> vfs_ok s' \<and> same_proc s s' \<and> files s' = (files s)(f := None)"
proof -
  note ok = vfs_okD(1) [OF assms(1)]
  note pok = files_okD(2) [OF ok] and rok = files_okD(1) [OF ok]
  obtain p where p: "pipes s (fs_priv vf) = Some p" by (rule pipe_sys_okD [OF pok assms(2,3)])
  have k: "kobj_ok s'" if "pipe_sys_ok s'" for s' :: "('n, 'a) ks" using that by (simp add: pipe_sys_ok_def)
  show "\<exists>r bs s'. pipe_read f len s = Some (r, bs, s') \<and> vfs_ok s' \<and> same_proc s s' \<and> files s' = files s \<and> length bs \<le> len"
  proof -
    obtain r bs s' where r: "pipe_read f len s = Some (r, bs, s')" "pipe_sys_ok s'" using pipe_read_result [OF pok assms(2,3) p] by blast
    note fr = pipe_frames(1) [OF r(1)]
    have "ramfs_ok s'" by (rule ramfs_ok_pipes [OF rok k [OF r(2)]]) (use fr in auto)
    then have "files_ok s'" "same_proc s s'" using r(2) fr by (auto simp: files_ok_def pframe_def same_proc_def)
    then show ?thesis using r(1) fr vfs_ok_same [OF assms(1), of s'] by auto
  qed
  show "\<exists>r n s'. pipe_write f src s = Some (r, n, s') \<and> vfs_ok s' \<and> same_proc s s' \<and> files s' = files s"
  proof -
    obtain r n s' where r: "pipe_write f src s = Some (r, n, s')" "pipe_sys_ok s'" using pipe_write_result [OF pok assms(2,3) p] by blast
    note fr = pipe_frames(2) [OF r(1)]
    have "ramfs_ok s'" by (rule ramfs_ok_pipes [OF rok k [OF r(2)]]) (use fr in auto)
    then have "files_ok s'" "same_proc s s'" using r(2) fr by (auto simp: files_ok_def pframe_def same_proc_def)
    then show ?thesis using r(1) fr vfs_ok_same [OF assms(1), of s'] by auto
  qed
  show "\<exists>r s'. pipe_close f s = Some (r, s') \<and> vfs_ok s' \<and> same_proc s s' \<and> files s' = (files s)(f := None)"
  proof -
    obtain s' where r: "pipe_close f s = Some (0, s')" "pipe_sys_ok s'" "files s' = (files s)(f := None)"
      using pipe_close_result [OF pok assms(2,3) p] by blast
    note fr = pipe_frames(3) [OF r(1)]
    have "ramfs_ok s'" by (rule ramfs_ok_pipes [OF rok k [OF r(2)]]) (use fr r(3) in \<open>auto split: if_splits\<close>)
    then have "files_ok s'" "same_proc s s'" using r(2) fr by (auto simp: files_ok_def pframe_def same_proc_def)
    then show ?thesis using r same_procD(5) vfs_ok_del [OF assms(1), of s' f] by auto
  qed
qed

section \<open>The operations of the layer\<close>

text \<open>What a file operation leaves alone; reading the console may send the task a signal.\<close>

definition quiet :: "task \<Rightarrow> task" where
  "quiet t = t\<lparr>sig_pending := 0\<rparr>"

definition calm :: "('n, 'a) ks \<Rightarrow> ('n, 'a) ks \<Rightarrow> bool" where
  "calm s s' \<longleftrightarrow> map quiet (g_tasks s') = map quiet (g_tasks s) \<and> g_current s' = g_current s \<and> g_next_pid s' = g_next_pid s
     \<and> g_kernel_fds s' = g_kernel_fds s \<and> g_cons s' = g_cons s \<and> knet s' = knet s \<and> kpg s' = kpg s
     \<and> g_root_ops s' = g_root_ops s \<and> g_tmp_ops s' = g_tmp_ops s"

lemma calm_refl [simp]: "calm s s"
  by (simp add: calm_def)

lemma calm_trans: "calm s s1 \<Longrightarrow> calm s1 s2 \<Longrightarrow> calm s s2"
  by (simp add: calm_def)

lemma same_proc_calm: "same_proc s s' \<Longrightarrow> calm s s'"
  using same_procD [of s s'] by (simp add: calm_def)

lemma calm_signal: "calm s (signal_send tp sig s)"
proof -
  have "map quiet ((g_tasks s)[t := (task_at s t)\<lparr>sig_pending := x\<rparr>]) = map quiet (g_tasks s)" for t x
    by (cases "t < length (g_tasks s)") (auto intro!: nth_equalityI simp: nth_list_update quiet_def)
  then show ?thesis by (simp add: calm_def signal_send_def upd_task_def split: option.split)
qed

lemma serial_putchar_frame: "same_files (files s) (files (fold serial_putchar bs s)) \<and> calm s (fold serial_putchar bs s)
    \<and> vfs_ok (fold serial_putchar bs s) = vfs_ok s"
proof (induction bs arbitrary: s)
  case (Cons b bs)
  have "vfs_ok (serial_putchar b s) = vfs_ok s" "calm s (serial_putchar b s)" "files (serial_putchar b s) = files s"
    by (simp_all add: serial_putchar_def vfs_ok_def files_ok_def ramfs_ok_def pipe_sys_ok_def kobj_ok_def needs_def holds_def separate_def calm_def)
  then show ?case using Cons [of "serial_putchar b s"] calm_trans by auto
qed simp

text \<open>The effect of opening: a fresh file, or none.\<close>

definition opened :: "int \<Rightarrow> nat \<Rightarrow> ('n, 'a) ks \<Rightarrow> ('n, 'a) ks \<Rightarrow> bool" where
  "opened r f s s' \<longleftrightarrow> (if r = 0 then \<exists>vf. files s f = None \<and> files s' = (files s)(f \<mapsto> vf) \<and> \<not> is_static f \<and> f \<noteq> 0
       \<and> is_console vf = 0 \<and> is_socket vf = 0
     else files s' = files s)"

lemma heap_file: "files_ok s \<Longrightarrow> files s f = Some vf \<Longrightarrow> \<not> is_static f \<and> f \<noteq> 0"
  using heap_address [OF files_okD(3), of s f] by (force simp: objects_def is_static_def)

lemma opened_ok:
  assumes "vfs_ok s" "files_ok s'" "same_proc s s'" "tg \<noteq> ConsOps" "tg \<noteq> NoOps"
    and x: "if r = 0 then \<exists>vf. files s f = None \<and> files s' = (files s)(f \<mapsto> vf) \<and> f_ops vf = tg \<and> is_console vf = 0 \<and> is_socket vf = 0
      else files s' = files s"
  shows "vfs_ok s' \<and> opened r f s s'"
proof (cases "r = 0")
  case True
  then obtain vf where v: "files s f = None" "files s' = (files s)(f \<mapsto> vf)" "f_ops vf = tg" "is_console vf = 0" "is_socket vf = 0"
    using x by auto
  have "vfs_ok s'" by (rule vfs_ok_add [OF assms(1,2) same_procD(5) [OF assms(3)] v(2)]) (use v assms(4,5) in auto)
  then show ?thesis using True v heap_file [OF assms(2), of f vf] by (auto simp: opened_def)
next
  case False
  then show ?thesis using x vfs_ok_same [OF assms(1-3)] by (simp add: opened_def)
qed

locale disk = file_system FatOps F for F :: "('n, 'a) ks fs_ops"
begin

lemma vfs_close_law:
  assumes "vfs_ok s" "file_at f s = Some vf" "f \<noteq> 0"
  shows "\<exists>r s'. vfs_close F f s = Some (r, s') \<and> vfs_ok s' \<and> same_proc s s'
    \<and> files s' = (if is_static f \<or> f_ops vf = NoOps then files s else (files s)(f := None))"
proof (cases rule: file_at_cases [OF assms(1,2), case_names static heap])
  case static
  then show ?thesis using assms by (simp add: vfs_close_def)
next
  case heap
  note ok = vfs_okD(1) [OF assms(1)]
  show ?thesis
  proof (cases "f_ops vf")
    case RamfsOps
    obtain r s' where r: "ramfs_close f s = Some (r, s')" "files_ok s'" "same_proc s s'" "files s' = (files s)(f := None)"
      using ramfs.close_law [OF ok heap(2) RamfsOps] by (auto simp: ramfs_table_def)
    then show ?thesis using assms heap RamfsOps vfs_ok_del [OF assms(1) r(2) same_procD(5) [OF r(3)] r(4)] by (simp add: vfs_close_def)
  next
    case PipeOps
    then show ?thesis using assms heap pipe_laws(3) [OF assms(1) heap(2) PipeOps] by (simp add: vfs_close_def)
  next
    case FatOps
    obtain r s' where r: "op_close F f s = Some (r, s')" "files_ok s'" "same_proc s s'" "files s' = (files s)(f := None)"
      using close_law [OF ok heap(2) FatOps] by auto
    then show ?thesis using assms heap FatOps vfs_ok_del [OF assms(1) r(2) same_procD(5) [OF r(3)] r(4)] by (simp add: vfs_close_def)
  qed (use assms heap in \<open>simp_all add: vfs_close_def\<close>)
qed

lemma vfs_read_law:
  assumes "vfs_ok s" "file_at f s = Some vf" "f \<noteq> 0"
  shows "\<exists>r n bs s'. vfs_read F f len s = Some (r, n, bs, s') \<and> vfs_ok s' \<and> calm s s' \<and> same_files (files s) (files s') \<and> length bs \<le> len"
proof (cases rule: file_at_cases [OF assms(1,2), case_names static heap])
  case static
  have k: "vfs_ok (s\<lparr>serial_in := x\<rparr>) = vfs_ok s" "vfs_ok (signal_send tp sig s1) = vfs_ok s1" "calm s (s\<lparr>serial_in := x\<rparr>)" for x tp sig and s1 :: "('n, 'a) ks"
    by (simp_all add: vfs_ok_def files_ok_def ramfs_ok_def pipe_sys_ok_def kobj_ok_def needs_def holds_def separate_def calm_def
        signal_send_def upd_task_def split: option.split)
  show ?thesis using assms static k calm_trans [OF k(3) calm_signal]
    by (auto simp: vfs_read_def cons_read_def serial_poll_char_def split: list.split option.split) (auto simp: signal_send_def)
next
  case heap
  note ok = vfs_okD(1) [OF assms(1)]
  show ?thesis
  proof (cases "f_ops vf")
    case RamfsOps
    then show ?thesis using assms heap ramfs.read_law [OF ok heap(2) RamfsOps, of len] same_proc_calm vfs_ok_same [OF assms(1)]
      by (fastforce simp: vfs_read_def ramfs_table_def)
  next
    case PipeOps
    then show ?thesis using assms heap pipe_laws(1) [OF assms(1) heap(2) PipeOps, of len] same_proc_calm
      by (fastforce simp: vfs_read_def)
  next
    case FatOps
    then show ?thesis using assms heap read_law [OF ok heap(2) FatOps, of len] same_proc_calm vfs_ok_same [OF assms(1)]
      by (fastforce simp: vfs_read_def)
  qed (use assms heap in \<open>simp_all add: vfs_read_def\<close>)
qed

lemma vfs_write_law:
  assumes "vfs_ok s" "file_at f s = Some vf" "f \<noteq> 0" "length src < 2 ^ 63"
  shows "\<exists>r n s'. vfs_write F f src s = Some (r, n, s') \<and> vfs_ok s' \<and> calm s s' \<and> same_files (files s) (files s')"
proof (cases rule: file_at_cases [OF assms(1,2), case_names static heap])
  case static
  then show ?thesis using assms serial_putchar_frame [of s src] by (auto simp: vfs_write_def cons_write_def)
next
  case heap
  note ok = vfs_okD(1) [OF assms(1)]
  show ?thesis
  proof (cases "f_ops vf")
    case RamfsOps
    then show ?thesis using assms heap ramfs.write_law [OF ok heap(2) RamfsOps assms(4)] same_proc_calm vfs_ok_same [OF assms(1)]
      by (fastforce simp: vfs_write_def ramfs_table_def)
  next
    case PipeOps
    then show ?thesis using assms heap pipe_laws(2) [OF assms(1) heap(2) PipeOps, of src] same_proc_calm
      by (fastforce simp: vfs_write_def)
  next
    case FatOps
    then show ?thesis using assms heap write_law [OF ok heap(2) FatOps assms(4)] same_proc_calm vfs_ok_same [OF assms(1)]
      by (fastforce simp: vfs_write_def)
  qed (use assms heap in \<open>simp_all add: vfs_write_def\<close>)
qed

lemma vfs_open_law:
  assumes "vfs_ok s"
  shows "\<exists>r f s'. vfs_open_flags F pathp flags s = Some (r, f, s') \<and> vfs_ok s' \<and> same_proc s s' \<and> opened r f s s'"
proof -
  note ok = vfs_okD(1) [OF assms]
  have R: "\<exists>r f s'. ramfs_open p flags s = Some (r, f, s') \<and> vfs_ok s' \<and> same_proc s s' \<and> opened r f s s'" for p
  proof -
    obtain r f s' where o: "ramfs_open p flags s = Some (r, f, s')" "files_ok s'" "same_proc s s'"
      "if r = 0 then \<exists>vf. files s f = None \<and> files s' = (files s)(f \<mapsto> vf) \<and> f_ops vf = RamfsOps \<and> is_console vf = 0 \<and> is_socket vf = 0
       else files s' = files s"
      using ramfs.open_law [OF ok, of p flags] by (auto simp: ramfs_table_def)
    then show ?thesis using opened_ok [OF assms o(2,3) _ _ o(4)] by simp
  qed
  have D: "\<exists>r f s'. op_open F p flags s = Some (r, f, s') \<and> vfs_ok s' \<and> same_proc s s' \<and> opened r f s s'" for p
  proof -
    obtain r f s' where o: "op_open F p flags s = Some (r, f, s')" "files_ok s'" "same_proc s s'"
      "if r = 0 then \<exists>vf. files s f = None \<and> files s' = (files s)(f \<mapsto> vf) \<and> f_ops vf = FatOps \<and> is_console vf = 0 \<and> is_socket vf = 0
       else files s' = files s"
      using open_law [OF ok, of p flags] by auto
    then show ?thesis using opened_ok [OF assms o(2,3) _ _ o(4)] by simp
  qed
  have N: "vfs_ok s \<and> same_proc s s \<and> opened (-1) 0 s s" using assms by (simp add: opened_def)
  show ?thesis
  proof (cases pathp)
    case None
    then show ?thesis using N by (simp add: vfs_open_flags_def)
  next
    case (Some path)
    show ?thesis
    proof (cases "mount_of path s")
      case None
      then show ?thesis using N Some by (simp add: vfs_open_flags_def)
    next
      case (Some tab)
      then show ?thesis using N R [of path] D [of path] \<open>pathp = Some path\<close>
        by (cases tab) (simp_all add: vfs_open_flags_def ops_open_def cons_open_def pipe_open_def)
    qed
  qed
qed

lemma vfs_getdents_law:
  assumes "vfs_ok s" "file_at f s = Some vf" "f \<noteq> 0"
  shows "\<exists>r st s'. vfs_getdents64 F f len s = Some (r, st, s') \<and> vfs_ok s' \<and> calm s s' \<and> same_files (files s) (files s')
    \<and> (\<forall>(off, bs)\<in>set st. off + length bs \<le> len)"
proof (cases rule: file_at_cases [OF assms(1,2), case_names static heap])
  case static
  then show ?thesis using assms by (simp add: vfs_getdents64_def)
next
  case heap
  note ok = vfs_okD(1) [OF assms(1)]
  show ?thesis
  proof (cases "f_ops vf")
    case RamfsOps
    obtain r es s' where o: "ramfs_getdents64 f len s = Some (r, es, s')" "files_ok s'" "same_proc s s'" "same_files (files s) (files s')"
      "\<forall>(off, bs)\<in>set (dirent_stores 0 es). off + length bs \<le> len"
      using ramfs.getdents_law [OF ok heap(2) RamfsOps, of len] by (auto simp: ramfs_table_def)
    then show ?thesis using assms heap RamfsOps same_proc_calm [OF o(3)] vfs_ok_same [OF assms(1) o(2-4)] by (simp add: vfs_getdents64_def)
  next
    case FatOps
    obtain r st s' where o: "op_getdents64 F f len s = Some (r, st, s')" "files_ok s'" "same_proc s s'" "same_files (files s) (files s')"
      "\<forall>(off, bs)\<in>set st. off + length bs \<le> len"
      using getdents_law [OF ok heap(2) FatOps, of len] by auto
    then show ?thesis using assms heap FatOps same_proc_calm [OF o(3)] vfs_ok_same [OF assms(1) o(2-4)] by (simp add: vfs_getdents64_def)
  qed (use assms heap in \<open>simp_all add: vfs_getdents64_def\<close>)
qed

lemma vfs_fstat_law:
  assumes "vfs_ok s" "file_at f s = Some vf" "f \<noteq> 0"
  shows "\<exists>r bs s'. vfs_fstat F f s = Some (r, bs, s') \<and> vfs_ok s' \<and> calm s s' \<and> same_files (files s) (files s') \<and> length bs \<le> 144"
proof (cases rule: file_at_cases [OF assms(1,2), case_names static heap])
  case static
  then show ?thesis using assms by (simp add: vfs_fstat_def)
next
  case heap
  note ok = vfs_okD(1) [OF assms(1)]
  show ?thesis
  proof (cases "f_ops vf")
    case RamfsOps
    then show ?thesis using assms heap fstat_returns [OF files_okD(1) [OF ok] heap(2) RamfsOps] by (auto simp: vfs_fstat_def length_stat)
  next
    case FatOps
    obtain r bs s' where o: "op_fstat F f s = Some (r, bs, s')" "files_ok s'" "same_proc s s'" "same_files (files s) (files s')" "length bs \<le> 144"
      using fstat_law [OF ok heap(2) FatOps] by auto
    then show ?thesis using assms heap FatOps same_proc_calm [OF o(3)] vfs_ok_same [OF assms(1) o(2-4)] by (simp add: vfs_fstat_def)
  qed (use assms heap in \<open>simp_all add: vfs_fstat_def\<close>)
qed

text \<open>A file that was just opened is closed again: nothing is left of it.\<close>

lemma close_opened:
  assumes "vfs_ok s'" "opened 0 f s s'"
  shows "\<exists>r s2. vfs_close F f s' = Some (r, s2) \<and> vfs_ok s2 \<and> same_proc s' s2 \<and> files s2 = files s"
proof -
  obtain vf where v: "files s f = None" "files s' = (files s)(f \<mapsto> vf)" "\<not> is_static f" "f \<noteq> 0" "is_console vf = 0" "is_socket vf = 0"
    using assms(2) by (auto simp: opened_def)
  have a: "file_at f s' = Some vf" using v(2,3) by (simp add: file_at_def)
  have "f_ops vf \<noteq> NoOps" using vfs_okD(4) [OF assms(1), of f vf] v(2,6) by simp
  then show ?thesis using vfs_close_law [OF assms(1) a v(4)] v(1-3) by (auto simp: fun_upd_idem)
qed

lemma vfs_path_is_dir_law:
  assumes "vfs_ok s"
  shows "\<exists>b s'. vfs_path_is_dir F pathp s = Some (b, s') \<and> vfs_ok s' \<and> same_proc s s' \<and> files s' = files s"
proof (cases "pathp = None \<or> pathp = Some [SLASH]")
  case True
  then show ?thesis using assms by (auto simp: vfs_path_is_dir_def)
next
  case False
  then obtain path where p: "pathp = Some path" "path \<noteq> [SLASH]" by auto
  obtain r f s1 where o: "vfs_open_flags F (Some path) 0 s = Some (r, f, s1)" "vfs_ok s1" "same_proc s s1" "opened r f s s1"
    using vfs_open_law [OF assms] by blast
  show ?thesis
  proof (cases "r = 0")
    case True
    then obtain vf where v: "file_at f s1 = Some vf" using o(4) by (auto simp: opened_def file_at_def)
    obtain r2 s2 where c: "vfs_close F f s1 = Some (r2, s2)" "vfs_ok s2" "same_proc s1 s2" "files s2 = files s"
      using close_opened [OF o(2)] o(4) True by blast
    then show ?thesis using p o v True by (simp add: vfs_path_is_dir_def same_proc_def)
  next
    case False
    then show ?thesis using p o by (auto simp: vfs_path_is_dir_def opened_def)
  qed
qed

lemma vfs_dir_law:
  assumes "vfs_ok s"
  shows "vfs_ok (snd (vfs_mkdir F p mode s)) \<and> same_proc s (snd (vfs_mkdir F p mode s)) \<and> files (snd (vfs_mkdir F p mode s)) = files s"
    "vfs_ok (snd (vfs_unlink F p s)) \<and> same_proc s (snd (vfs_unlink F p s)) \<and> files (snd (vfs_unlink F p s)) = files s"
    "vfs_ok (snd (vfs_rmdir F p s)) \<and> same_proc s (snd (vfs_rmdir F p s)) \<and> files (snd (vfs_rmdir F p s)) = files s"
proof -
  note ok = vfs_okD(1) [OF assms]
  define good where "good s1 \<longleftrightarrow> vfs_ok s1 \<and> same_proc s s1 \<and> files s1 = files s" for s1
  have R: "good (snd (ramfs_mkdir_op q s))" "good (snd (ramfs_unlink_op q s))" "good (snd (ramfs_rmdir_op q s))" for q
    using ramfs.dir_law [OF ok, of _ q 0 q] vfs_ok_same [OF assms] by (simp_all add: ramfs_table_def good_def)
  have D: "good (snd (op_mkdir F q mode s))" "good (snd (op_unlink F q s))" "good (snd (op_rmdir F q s))" for q
    using dir_law [OF ok, of _ q mode q] vfs_ok_same [OF assms] by (simp_all add: good_def)
  have N: "good s" using assms by (simp add: good_def)
  have "good (snd (vfs_mkdir F p mode s))"
    using R(1) D(1) N by (simp add: vfs_mkdir_def split: option.split vfs_ops.split)
  moreover have "good (snd (vfs_unlink F p s))"
    using R(2) D(2) N by (simp add: vfs_unlink_def split: option.split)
  moreover have "good (snd (vfs_rmdir F p s))"
    using R(3) D(3) N by (simp add: vfs_rmdir_def split: option.split)
  ultimately show "vfs_ok (snd (vfs_mkdir F p mode s)) \<and> same_proc s (snd (vfs_mkdir F p mode s)) \<and> files (snd (vfs_mkdir F p mode s)) = files s"
    "vfs_ok (snd (vfs_unlink F p s)) \<and> same_proc s (snd (vfs_unlink F p s)) \<and> files (snd (vfs_unlink F p s)) = files s"
    "vfs_ok (snd (vfs_rmdir F p s)) \<and> same_proc s (snd (vfs_rmdir F p s)) \<and> files (snd (vfs_rmdir F p s)) = files s"
    by (simp_all add: good_def)
qed

lemma vfs_rename_law:
  assumes "vfs_ok s"
  shows "\<exists>r s'. vfs_rename F p q s = Some (r, s') \<and> vfs_ok s' \<and> same_proc s s' \<and> files s' = files s"
proof -
  note ok = vfs_okD(1) [OF assms]
  have R: "\<exists>r s'. ramfs_rename_op a b s = Some (r, s') \<and> vfs_ok s' \<and> same_proc s s' \<and> files s' = files s" for a b
  proof -
    obtain r s' where n: "ramfs_rename_op a b s = Some (r, s')" using rename_ok [OF files_okD(1) [OF ok]] by blast
    then show ?thesis using ramfs.dir_law [OF ok, of s' a 0 b] vfs_ok_same [OF assms, of s'] by (auto simp: ramfs_table_def)
  qed
  have D: "vfs_ok (snd (op_rename F a b s)) \<and> same_proc s (snd (op_rename F a b s)) \<and> files (snd (op_rename F a b s)) = files s" for a b
    using dir_law [OF ok, of "snd (op_rename F a b s)" a 0 b] vfs_ok_same [OF assms, of "snd (op_rename F a b s)"] by auto
  have E: "\<exists>r s'. Some (op_rename F a b s) = Some (r, s') \<and> vfs_ok s' \<and> same_proc s s' \<and> files s' = files s" for a b
    using D [of a b] by (cases "op_rename F a b s") simp
  have N: "\<exists>r s'. Some (-1 :: int, s) = Some (r, s') \<and> vfs_ok s' \<and> same_proc s s' \<and> files s' = files s" using assms by simp
  show ?thesis
  proof (cases "p = None \<or> q = None")
    case True
    then show ?thesis using N by (auto simp: vfs_rename_def split: option.split)
  next
    case False
    then obtain a b where "p = Some a" "q = Some b" by auto
    then show ?thesis using N R [of a b] E [of a b] by (simp add: vfs_rename_def)
  qed
qed

lemma vfs_read_all_law:
  assumes "vfs_ok s"
  shows "\<exists>r n bs s'. vfs_read_all F p cap s = Some (r, n, bs, s') \<and> vfs_ok s' \<and> calm s s' \<and> dom (files s') = dom (files s)"
proof -
  obtain r f s1 where o: "vfs_open_flags F p 0 s = Some (r, f, s1)" "vfs_ok s1" "same_proc s s1" "opened r f s s1"
    using vfs_open_law [OF assms] by blast
  show ?thesis
  proof (cases "r = 0")
    case True
    then obtain vf where v: "file_at f s1 = Some vf" "f \<noteq> 0" "files s f = None" "files s1 = (files s)(f \<mapsto> vf)" "\<not> is_static f" "is_socket vf = 0"
      using o(4) by (auto simp: opened_def file_at_def)
    obtain r1 n bs s2 where rd: "vfs_read F f cap s1 = Some (r1, n, bs, s2)" "vfs_ok s2" "calm s1 s2" "same_files (files s1) (files s2)"
      using vfs_read_law [OF o(2) v(1,2)] by blast
    have "files s1 f = Some vf" using v(4) by simp
    then obtain vf2 where v2: "files s2 f = Some vf2" "is_socket vf2 = is_socket vf" by (rule same_filesD [OF rd(4)])
    have n: "f_ops vf2 \<noteq> NoOps" using vfs_okD(4) [OF rd(2) v2(1)] v2(2) v(6) by simp
    obtain r3 s3 where c: "vfs_close F f s2 = Some (r3, s3)" "vfs_ok s3" "same_proc s2 s3" "files s3 = (files s2)(f := None)"
      using vfs_close_law [OF rd(2) vfs_ok_file_at [OF rd(2) v2(1)] v(2)] v(5) n by auto
    have "files s3 g = None \<longleftrightarrow> files s g = None" for g
      using c(4) v(3,4) same_files_dom [OF rd(4), of g] by (cases "g = f") simp_all
    then have "dom (files s3) = dom (files s)" by (simp add: dom_def)
    then show ?thesis
      using o rd(1) c True calm_trans [OF same_proc_calm [OF o(3)] calm_trans [OF rd(3) same_proc_calm [OF c(3)]]]
      by (auto simp: vfs_read_all_def vfs_open_def)
  next
    case False
    then show ?thesis using o same_proc_calm [OF o(3)] by (simp add: vfs_read_all_def vfs_open_def opened_def)
  qed
qed

end

end
