(* ===== verification/Task.thy ===== *)
theory Task
  imports Vfs
begin

text \<open>
  Tasks and the cooperative scheduler, \<open>src/kernel/proc/task.c\<close>, and the delivery of signals,
  \<open>signal_deliver_current\<close> of \<open>src/kernel/proc/signal.c\<close>. Creating a task and forking return
  the slot, \<open>None\<close> for NULL; the new state is returned on every path.

  Ending the last task leaves for the idle loop and never returns. The result type says so:
  \<open>Ret\<close> carries the value and the state of a call that returns, \<open>Idle\<close> the state in which the
  exit hook (if one was set) and the idle loop run, \<open>Wild\<close> stands for an access through a wild
  pointer.
\<close>

datatype ('r, 's) run = Wild | Idle 's | Ret 'r 's

section \<open>The table\<close>

definition task_set_exit_all_hook :: "bool \<Rightarrow> ('n, 'a) ks \<Rightarrow> ('n, 'a) ks" where
  "task_set_exit_all_hook hook s = s\<lparr>g_exit_all_hook := hook\<rparr>"

definition task_init :: "('n, 'a) ks \<Rightarrow> ('n, 'a) ks" where
  "task_init s = s\<lparr>g_tasks := replicate TASK_MAX zero_task, g_current := None, g_next_pid := 1,
     g_active_pml4 := paging_cr3 (kpg s)\<rparr>"

definition task_count_alive :: "('n, 'a) ks \<Rightarrow> nat" where
  "task_count_alive s =
    length (filter (\<lambda>i. t_state (task_at s i) = TASK_READY \<or> t_state (task_at s i) = TASK_RUNNING) [0..<TASK_MAX])"

definition alloc_slot :: "('n, 'a) ks \<Rightarrow> nat option" where
  "alloc_slot s = find (\<lambda>i. t_state (task_at s i) = TASK_UNUSED) [0..<TASK_MAX]"

definition set_state :: "nat \<Rightarrow> task_state \<Rightarrow> ('n, 'a) ks \<Rightarrow> ('n, 'a) ks" where
  "set_state t st s = upd_task t (\<lambda>tk. tk\<lparr>t_state := st\<rparr>) s"

definition pmm_take :: "('n, 'a) ks \<Rightarrow> nat \<times> ('n, 'a) ks" where
  "pmm_take s = (case pmm_alloc_page (pt_pmm (kpg s)) of (p, m) \<Rightarrow> (p, s\<lparr>kpg := (kpg s)\<lparr>pt_pmm := m\<rparr>\<rparr>))"

definition pmm_give :: "nat \<Rightarrow> ('n, 'a) ks \<Rightarrow> ('n, 'a) ks" where
  "pmm_give p s = s\<lparr>kpg := free_page p (kpg s)\<rparr>"

definition task_create :: "string option \<Rightarrow> u64 \<Rightarrow> u64 \<Rightarrow> ('n, 'a) ks \<Rightarrow> nat option \<times> ('n, 'a) ks" where
  "task_create name entry user_sp s =
    (case alloc_slot s of
       None \<Rightarrow> (None, s)
     | Some t \<Rightarrow>
         let new = signal_task_init (zero_task\<lparr>pid := g_next_pid s, t_state := TASK_READY, cwd := [SLASH]\<rparr>);
             named = (case name of None \<Rightarrow> new | Some nm \<Rightarrow> new\<lparr>t_name := take (TASK_NAME_MAX - 1) nm\<rparr>);
             s1 = upd_task t (\<lambda>_. named) s\<lparr>g_next_pid := g_next_pid s + 1\<rparr>;
             (kphys, s2) = pmm_take s1
         in if kphys = 0 then (None, set_state t TASK_UNUSED s2)
            else
              let s3 = upd_task t (\<lambda>tk. tk\<lparr>kernel_stack := kphys, kernel_stack_top := kphys + PAGE_SIZE\<rparr>) s2;
                  (pml4, pg) = vmm_clone_kernel_pml4 (kpg s3);
                  s4 = upd_task t (\<lambda>tk. tk\<lparr>t_pml4 := pml4\<rparr>) (s3\<lparr>kpg := pg\<rparr>)
              in if pml4 = 0 then (None, set_state t TASK_UNUSED (pmm_give kphys s4))
                 else
                   (Some t,
                    upd_task t (\<lambda>tk. tk\<lparr>user_stack_top := user_sp,
                        regs := (regs tk)\<lparr>rip := entry, rsp := user_sp, rflags := 0x200, rax := 0\<rparr>\<rparr>) s4))"

section \<open>Scheduling\<close>

definition task_activate :: "nat option \<Rightarrow> ('n, 'a) ks \<Rightarrow> ('n, 'a) ks" where
  "task_activate np s =
    (case np of
       None \<Rightarrow> s
     | Some n \<Rightarrow>
         let p = t_pml4 (task_at s n);
             s1 = (if p \<noteq> 0 \<and> p \<noteq> g_active_pml4 s then s\<lparr>kpg := paging_set_pml4 p (kpg s), g_active_pml4 := p\<rparr> else s)
         in s1\<lparr>g_syscall_kstack := kernel_stack_top (task_at s n), tss_rsp0 := kernel_stack_top (task_at s n)\<rparr>)"

text \<open>Round robin from the slot after \<open>except\<close>.\<close>

definition pick_next :: "nat option \<Rightarrow> ('n, 'a) ks \<Rightarrow> nat option" where
  "pick_next except s =
    (let start = (case except of None \<Rightarrow> 0 | Some e \<Rightarrow> e + 1) in
     map_option (\<lambda>k. (start + k) mod TASK_MAX)
       (find (\<lambda>k. t_state (task_at s ((start + k) mod TASK_MAX)) = TASK_READY) [0..<TASK_MAX]))"

definition task_yield :: "('n, 'a) ks \<Rightarrow> ('n, 'a) ks" where
  "task_yield s =
    (case g_current s of
       None \<Rightarrow> s
     | Some t \<Rightarrow>
         (case pick_next (Some t) s of
            None \<Rightarrow> s
          | Some n \<Rightarrow>
              if n = t then s
              else task_activate (Some n) (set_state n TASK_RUNNING (set_state t TASK_READY s)\<lparr>g_current := Some n\<rparr>)))"

text \<open>The state in which user mode is entered; \<open>None\<close> is the panic when there is no task.\<close>

definition task_start_user :: "('n, 'a) ks \<Rightarrow> ('n, 'a) ks option" where
  "task_start_user s =
    (case pick_next None s of
       None \<Rightarrow> None
     | Some t \<Rightarrow>
         Some (fd_init_task_stdio (task_activate (Some t) (set_state t TASK_RUNNING s\<lparr>g_current := Some t\<rparr>))))"

definition sched_switch_to :: "nat option \<Rightarrow> ('n, 'a) ks \<Rightarrow> ('n, 'a) ks" where
  "sched_switch_to np s =
    (case np of
       None \<Rightarrow> s
     | Some n \<Rightarrow>
         let s1 = (case g_current s of
                     Some c \<Rightarrow> if t_state (task_at s c) = TASK_RUNNING then set_state c TASK_READY s else s
                   | None \<Rightarrow> s)
         in task_activate (Some n) (set_state n TASK_RUNNING s1\<lparr>g_current := Some n\<rparr>))"

section \<open>Ending a task\<close>

text \<open>
  \<open>net_sock_free\<close> applied to the private pointer of a file. On a TCP socket it clears the
  4180 bytes of a UDP socket: the fields before the receive queue and its first three
  segments.
\<close>

definition clear_ts_prefix :: "helix_tcp_sock \<Rightarrow> helix_tcp_sock" where
  "clear_ts_prefix ts =
    ts\<lparr>ts_used := False, ts_state := CLOSED, laddr_be := 0, lport_be := 0, ts_bound := False, raddr_be := 0,
       rport_be := 0, snd_una := 0, snd_nxt := 0, snd_wnd := 0, rcv_nxt := 0, iss := 0,
       rxq := (rxq ts)[0 := zero_rseg, 1 := zero_rseg, 2 := zero_rseg]\<rparr>"

definition sock_free_udp :: "vfs_file \<Rightarrow> ('n, 'a) ks \<Rightarrow> ('n, 'a) ks" where
  "sock_free_udp vf s =
    (if is_socket vf = 2 then
       case sock_of vf of
         None \<Rightarrow> s
       | Some i \<Rightarrow> s\<lparr>knet := put_ts i (clear_ts_prefix (sock_at (knet s) i)) (knet s)\<rparr>
     else s\<lparr>knet := net_sock_free (sock_of vf) (knet s)\<rparr>)"

text \<open>The body of the loops over the descriptors at exit and when a task is reaped.\<close>

definition drop_fd :: "('n, 'a) ks fs_ops \<Rightarrow> nat \<Rightarrow> nat \<Rightarrow> ('n, 'a) ks \<Rightarrow> ('n, 'a) ks option" where
  "drop_fd F t i s =
    (let f = fds (task_at s t) ! i in
     if f = 0 then Some s
     else
       case file_at f s of
         None \<Rightarrow> None
       | Some vf \<Rightarrow>
           if is_console vf \<noteq> 0 then Some s
           else
             let vf1 = vf\<lparr>refcount := refcount vf - 1\<rparr>;
                 s1 = put_file f vf1 (set_fd (Some t) i 0 s)
             in if refcount vf1 > 0 then Some s1
                else if is_socket vf1 \<noteq> 0 then Some (free_file f (sock_free_udp vf1 s1))
                else map_option snd (vfs_close F f s1))"

fun drop_fds :: "('n, 'a) ks fs_ops \<Rightarrow> nat \<Rightarrow> nat list \<Rightarrow> ('n, 'a) ks \<Rightarrow> ('n, 'a) ks option" where
  "drop_fds F t [] s = Some s"
| "drop_fds F t (i # is) s = (case drop_fd F t i s of None \<Rightarrow> None | Some s1 \<Rightarrow> drop_fds F t is s1)"

definition destroy_space :: "nat \<Rightarrow> ('n, 'a) ks \<Rightarrow> ('n, 'a) ks" where
  "destroy_space t s =
    upd_task t (\<lambda>tk. tk\<lparr>t_pml4 := 0, user_pages := []\<rparr>)
      (s\<lparr>kpg := vmm_destroy_address_space (t_pml4 (task_at s t)) (kpg s)\<rparr>)"

definition leave_for_kernel :: "('n, 'a) ks \<Rightarrow> ('n, 'a) ks" where
  "leave_for_kernel s =
    (if g_active_pml4 s \<noteq> paging_kernel_pml4 (kpg s)
     then s\<lparr>kpg := paging_set_pml4 (paging_kernel_pml4 (kpg s)) (kpg s), g_active_pml4 := paging_kernel_pml4 (kpg s)\<rparr>
     else s)"

definition task_exit_current :: "('n, 'a) ks fs_ops \<Rightarrow> int \<Rightarrow> ('n, 'a) ks \<Rightarrow> (unit, ('n, 'a) ks) run" where
  "task_exit_current F code s =
    (case g_current s of
       None \<Rightarrow> Ret () s
     | Some t \<Rightarrow>
         let s1 = upd_task t (\<lambda>tk. tk\<lparr>exit_code := code, t_state := TASK_ZOMBIE\<rparr>) s;
             s2 = signal_on_exit t s1
         in case drop_fds F t [0..<VFS_FD_MAX] s2 of
              None \<Rightarrow> Wild
            | Some s3 \<Rightarrow>
                (case pick_next (Some t) s3 of
                   None \<Rightarrow> Idle (destroy_space t (leave_for_kernel s3)\<lparr>g_current := None, g_exit_all_hook := False\<rparr>)
                 | Some n \<Rightarrow>
                     Ret () (destroy_space t (task_activate (Some n) (set_state n TASK_RUNNING s3\<lparr>g_current := Some n\<rparr>)))))"

section \<open>User pages and fork\<close>

definition task_free_user_pages :: "nat option \<Rightarrow> ('n, 'a) ks \<Rightarrow> ('n, 'a) ks" where
  "task_free_user_pages tp s =
    (case tp of
       None \<Rightarrow> s
     | Some t \<Rightarrow>
         upd_task t (\<lambda>tk. tk\<lparr>user_pages := []\<rparr>)
           (fold (\<lambda>p s. if p \<noteq> 0 then pmm_give p s else s) (user_pages (task_at s t)) s))"

fun hold_fds :: "nat list \<Rightarrow> ('n, 'a) ks \<Rightarrow> ('n, 'a) ks option" where
  "hold_fds [] s = Some s"
| "hold_fds (f # fs) s = (case fd_hold f s of None \<Rightarrow> None | Some s1 \<Rightarrow> hold_fds fs s1)"

definition task_fork :: "nat option \<Rightarrow> ('n, 'a) ks \<Rightarrow> (nat option \<times> ('n, 'a) ks) option" where
  "task_fork parentp s =
    (case parentp of
       None \<Rightarrow> Some (None, s)
     | Some p \<Rightarrow>
         (case alloc_slot s of
            None \<Rightarrow> Some (None, s)
          | Some c \<Rightarrow>
              let s1 = upd_task c (\<lambda>_. (task_at s p)\<lparr>pid := g_next_pid s, t_parent := Some p, t_state := TASK_READY,
                         exit_code := 0, term_sig := 0, sig_pending := 0, user_pages := [], t_pml4 := 0\<rparr>)
                       s\<lparr>g_next_pid := g_next_pid s + 1\<rparr>;
                  (kphys, s2) = pmm_take s1
              in if kphys = 0 then Some (None, set_state c TASK_UNUSED s2)
                 else
                   let s3 = upd_task c (\<lambda>tk. tk\<lparr>kernel_stack := kphys, kernel_stack_top := kphys + PAGE_SIZE\<rparr>)
                         (s2\<lparr>kpg := (kpg s2)\<lparr>pmem := copy_page kphys (kernel_stack (task_at s2 p)) (pmem (kpg s2))\<rparr>\<rparr>)
                   in case hold_fds (fds (task_at s3 c)) s3 of
                        None \<Rightarrow> None
                      | Some s4 \<Rightarrow>
                          (case vmm_copy_user_page_tables (paging_cr3 (kpg s4)) (kpg s4, user_pages (task_at s4 c)) of
                             (child_pml4, pg, pages) \<Rightarrow>
                               let s5 = upd_task c (\<lambda>tk. tk\<lparr>user_pages := pages\<rparr>) (s4\<lparr>kpg := pg\<rparr>)
                               in if child_pml4 = 0 then Some (None, set_state c TASK_UNUSED (pmm_give kphys s5))
                                  else Some (Some c, upd_task c (\<lambda>tk. tk\<lparr>t_pml4 := child_pml4\<rparr>) s5))))"

section \<open>Waiting for children\<close>

definition task_find_child :: "nat option \<Rightarrow> int \<Rightarrow> ('n, 'a) ks \<Rightarrow> nat option" where
  "task_find_child parentp want s =
    (case parentp of
       None \<Rightarrow> None
     | Some p \<Rightarrow>
         find (\<lambda>i. t_state (task_at s i) \<noteq> TASK_UNUSED \<and> t_parent (task_at s i) = Some p
                 \<and> (want = 0 \<or> pid (task_at s i) = want)) [0..<TASK_MAX])"

definition task_child_exited :: "nat option \<Rightarrow> int \<Rightarrow> ('n, 'a) ks \<Rightarrow> int" where
  "task_child_exited parentp want s =
    (case task_find_child parentp want s of
       None \<Rightarrow> -1
     | Some c \<Rightarrow> if t_state (task_at s c) = TASK_ZOMBIE then 1 else 0)"

definition task_reap :: "('n, 'a) ks fs_ops \<Rightarrow> nat option \<Rightarrow> ('n, 'a) ks \<Rightarrow> ('n, 'a) ks option" where
  "task_reap F tp s =
    (case tp of
       None \<Rightarrow> Some s
     | Some t \<Rightarrow>
         let k = kernel_stack (task_at s t);
             s1 = upd_task t (\<lambda>tk. tk\<lparr>kernel_stack := 0\<rparr>) (if k \<noteq> 0 then pmm_give k s else s)
         in map_option (set_state t TASK_UNUSED) (drop_fds F t [0..<VFS_FD_MAX] s1))"

definition task_getpid :: "('n, 'a) ks \<Rightarrow> int" where
  "task_getpid s = (case task_current s of Some t \<Rightarrow> pid (task_at s t) | None \<Rightarrow> 0)"

definition task_find_by_pid :: "int \<Rightarrow> ('n, 'a) ks \<Rightarrow> nat option" where
  "task_find_by_pid want s =
    (if want \<le> 0 then None
     else find (\<lambda>i. t_state (task_at s i) \<noteq> TASK_UNUSED \<and> pid (task_at s i) = want) [0..<TASK_MAX])"

text \<open>The children a \<open>wait\<close> looks at; the loop stops at the first zombie.\<close>

definition waited :: "nat \<Rightarrow> int \<Rightarrow> ('n, 'a) ks \<Rightarrow> nat list" where
  "waited p want s =
    filter (\<lambda>i. t_state (task_at s i) \<noteq> TASK_UNUSED \<and> t_parent (task_at s i) = Some p
              \<and> \<not> (want > 0 \<and> pid (task_at s i) \<noteq> want)) [0..<TASK_MAX]"

text \<open>The return value, the status stored (none when no child was reaped), the state.\<close>

definition task_wait :: "('n, 'a) ks fs_ops \<Rightarrow> int \<Rightarrow> ('n, 'a) ks \<Rightarrow> (int \<times> int option \<times> ('n, 'a) ks) option" where
  "task_wait F want0 s =
    (case task_current s of
       None \<Rightarrow> Some (-1, None, s)
     | Some p \<Rightarrow>
         let want = (if want0 < -1 then - want0 else if want0 < 0 then 0 else want0) in
         case find (\<lambda>i. t_state (task_at s i) = TASK_ZOMBIE) (waited p want s) of
           Some v \<Rightarrow>
             map_option (\<lambda>s1. (pid (task_at s v), Some ((exit_code (task_at s v) AND 0xFF) * 256), s1)) (task_reap F (Some v) s)
         | None \<Rightarrow> Some (if waited p want s = [] then -1 else 0, None, s))"

section \<open>Delivering signals\<close>

fun deliver_loop :: "('n, 'a) ks fs_ops \<Rightarrow> nat \<Rightarrow> u64 \<Rightarrow> int list \<Rightarrow> ('n, 'a) ks \<Rightarrow> (unit, ('n, 'a) ks) run" where
  "deliver_loop F t pend [] s = Ret () s"
| "deliver_loop F t pend (sig # sigs) s =
    (if pend AND sigbit sig = 0 then deliver_loop F t pend sigs s
     else if sig \<noteq> SIGKILL \<and> sig_blocked (task_at s t) AND sigbit sig \<noteq> 0 then deliver_loop F t pend sigs s
     else
       let s1 = upd_task t (\<lambda>tk. tk\<lparr>sig_pending := sig_pending tk AND NOT (sigbit sig)\<rparr>) s in
       if signal_apply_one (task_at s1 t) sig
       then task_exit_current F sig (upd_task t (\<lambda>tk. tk\<lparr>term_sig := sig\<rparr>) s1)
       else deliver_loop F t pend sigs s1)"

definition signal_deliver_current :: "('n, 'a) ks fs_ops \<Rightarrow> ('n, 'a) ks \<Rightarrow> (unit, ('n, 'a) ks) run" where
  "signal_deliver_current F s =
    (case task_current s of
       None \<Rightarrow> Ret () s
     | Some t \<Rightarrow>
         if t_state (task_at s t) \<noteq> TASK_RUNNING then Ret () s
         else if sig_pending (task_at s t) = 0 then Ret () s
         else deliver_loop F t (sig_pending (task_at s t)) (map int [1..<HELIX_NSIG]) s)"

end
