(* ===== verification/Task_Props.thy ===== *)
theory Task_Props
  imports Task
begin

text \<open>
  The scheduler: the invariant of the task table and its preservation by every operation that
  changes it, round-robin fairness, and what the delivery of signals does.
\<close>

section \<open>The task table\<close>

text \<open>
  Live tasks have different pids below the next one, exactly the current task is running, and
  the arrays of a task have their sizes.
\<close>

definition task_wf :: "task \<Rightarrow> bool" where
  "task_wf t \<longleftrightarrow> length (fds t) = VFS_FD_MAX \<and> length (sighand t) = HELIX_NSIG"

definition sched_ok :: "('n, 'a) ks \<Rightarrow> bool" where
  "sched_ok s \<longleftrightarrow> length (g_tasks s) = TASK_MAX
     \<and> (\<forall>t<TASK_MAX. task_wf (task_at s t))
     \<and> (\<forall>t<TASK_MAX. t_state (task_at s t) = TASK_RUNNING \<longleftrightarrow> g_current s = Some t)
     \<and> (\<forall>t. g_current s = Some t \<longrightarrow> t < TASK_MAX)
     \<and> 0 < g_next_pid s
     \<and> (\<forall>t<TASK_MAX. t_state (task_at s t) \<noteq> TASK_UNUSED \<longrightarrow> 0 < pid (task_at s t) \<and> pid (task_at s t) < g_next_pid s)
     \<and> (\<forall>t<TASK_MAX. \<forall>u<TASK_MAX. t_state (task_at s t) \<noteq> TASK_UNUSED \<longrightarrow> t_state (task_at s u) \<noteq> TASK_UNUSED \<longrightarrow>
          pid (task_at s t) = pid (task_at s u) \<longrightarrow> t = u)"

lemma sched_okD:
  assumes "sched_ok s"
  shows "length (g_tasks s) = 8" "t < 8 \<Longrightarrow> task_wf (task_at s t)"
    "t < 8 \<Longrightarrow> t_state (task_at s t) = TASK_RUNNING \<longleftrightarrow> g_current s = Some t"
    "g_current s = Some t \<Longrightarrow> t < 8" "0 < g_next_pid s"
    "t < 8 \<Longrightarrow> t_state (task_at s t) \<noteq> TASK_UNUSED \<Longrightarrow> 0 < pid (task_at s t) \<and> pid (task_at s t) < g_next_pid s"
    "t < 8 \<Longrightarrow> u < 8 \<Longrightarrow> t_state (task_at s t) \<noteq> TASK_UNUSED \<Longrightarrow> t_state (task_at s u) \<noteq> TASK_UNUSED \<Longrightarrow>
       pid (task_at s t) = pid (task_at s u) \<Longrightarrow> t = u"
  using assms by (simp_all add: sched_ok_def)

text \<open>The view of the table the invariant depends on.\<close>

definition view :: "task \<Rightarrow> task_state \<times> int \<times> bool" where
  "view t = (t_state t, pid t, task_wf t)"

lemma sched_ok_view:
  assumes "map view (g_tasks s') = map view (g_tasks s)" "g_current s' = g_current s" "g_next_pid s' = g_next_pid s"
  shows "sched_ok s' = sched_ok s"
proof -
  have l: "length (g_tasks s') = length (g_tasks s)" using assms(1) by (metis length_map)
  have v: "view (task_at s' t) = view (task_at s t)" if "t < length (g_tasks s)" for t
    using assms(1) that by (metis l nth_map)
  have v: "t_state (task_at s' t) = t_state (task_at s t) \<and> pid (task_at s' t) = pid (task_at s t) \<and> task_wf (task_at s' t) = task_wf (task_at s t)"
    if "t < length (g_tasks s)" for t using v [OF that] by (simp add: view_def)
  show ?thesis
  proof (cases "length (g_tasks s) = 8")
    case True
    then show ?thesis using v by (simp add: sched_ok_def l assms(2,3))
  qed (simp add: sched_ok_def l)
qed

lemma view_upd:
  assumes "view (f (task_at s t)) = view (task_at s t)"
  shows "map view (g_tasks (upd_task t f s)) = map view (g_tasks s)"
  using assms by (simp add: upd_task_def map_update) (metis list_update_beyond list_update_id map_update not_le)

text \<open>Giving a slot a state: to one that stops, to one that starts.\<close>

lemma sched_ok_upd [helix_inv]:
  assumes "sched_ok s" "view (f (task_at s t)) = view (task_at s t)"
  shows "sched_ok (upd_task t f s)"
  using assms(1) sched_ok_view [OF view_upd [of f s t, OF assms(2)]] by simp

text \<open>Operations that leave the task table alone.\<close>

lemma sched_ok_cong:
  assumes "g_tasks s' = g_tasks s" "g_current s' = g_current s" "g_next_pid s' = g_next_pid s"
  shows "sched_ok s' = sched_ok s"
  using assms by (simp add: sched_ok_def)

lemma find_Some_nth:
  assumes "find P xs = Some x"
  shows "x \<in> set xs" "P x"
  using assms by (auto simp: find_Some_iff)

lemma task_activate_sel [simp]:
  "g_tasks (task_activate n s) = g_tasks s" "g_current (task_activate n s) = g_current s"
  "g_next_pid (task_activate n s) = g_next_pid s" "files (task_activate n s) = files s" "g_cons (task_activate n s) = g_cons s"
  "g_kernel_fds (task_activate n s) = g_kernel_fds s"
  by (simp_all add: task_activate_def Let_def split: option.split)

lemma signal_send_view: "map view (g_tasks (signal_send tp sig s)) = map view (g_tasks s)"
  by (simp add: signal_send_def view_upd view_def task_wf_def split: option.split)

lemma signal_send_sel [simp]:
  "g_current (signal_send tp sig s) = g_current s" "g_next_pid (signal_send tp sig s) = g_next_pid s"
  "files (signal_send tp sig s) = files s" "g_kernel_fds (signal_send tp sig s) = g_kernel_fds s"
  "length (g_tasks (signal_send tp sig s)) = length (g_tasks s)"
  by (simp_all add: signal_send_def split: option.split)

lemma signal_send_ok [helix_inv]: "sched_ok s \<Longrightarrow> sched_ok (signal_send tp sig s)"
  by (subst sched_ok_view [OF signal_send_view]) simp_all

lemma signal_on_exit_view: "map view (g_tasks (signal_on_exit t s)) = map view (g_tasks s)"
  by (simp add: signal_on_exit_def signal_send_view split: option.split)

lemma signal_on_exit_sel [simp]:
  "g_current (signal_on_exit t s) = g_current s" "g_next_pid (signal_on_exit t s) = g_next_pid s"
  "length (g_tasks (signal_on_exit t s)) = length (g_tasks s)"
  by (simp_all add: signal_on_exit_def split: option.split)

section \<open>Yielding\<close>

lemma pick_next_ready:
  assumes "pick_next e s = Some n"
  shows "n < 8" "t_state (task_at s n) = TASK_READY"
  using assms by (auto simp: pick_next_def Let_def dest: find_Some_nth)

text \<open>The current task changes to one that was ready.\<close>

lemma switch_ok:
  assumes "sched_ok s" "g_current s = Some t" "n < 8" "t_state (task_at s n) = TASK_READY" "st \<noteq> TASK_RUNNING" "st \<noteq> TASK_UNUSED"
  shows "sched_ok (task_activate (Some n) (set_state n TASK_RUNNING (set_state t st s)\<lparr>g_current := Some n\<rparr>))"
proof -
  note O = sched_okD [OF assms(1)]
  have t: "t < 8" "t_state (task_at s t) = TASK_RUNNING" using O(4) [OF assms(2)] O(3) assms(2) by blast+
  have nt: "n \<noteq> t" using t(2) assms(4) by auto
  define s' where "s' = task_activate (Some n) (set_state n TASK_RUNNING (set_state t st s)\<lparr>g_current := Some n\<rparr>)"
  have at: "task_at s' u = (task_at s u)\<lparr>t_state := if u = n then TASK_RUNNING else if u = t then st else t_state (task_at s u)\<rparr>" if "u < 8" for u
    using O(1) t(1) assms(3) nt that by (auto simp: s'_def set_state_def upd_task_def)
  have c: "g_current s' = Some n" "g_next_pid s' = g_next_pid s" "length (g_tasks s') = 8"
    using O(1) by (simp_all add: s'_def set_state_def)
  have ne: "t_state (task_at s' u) \<noteq> TASK_UNUSED \<longleftrightarrow> t_state (task_at s u) \<noteq> TASK_UNUSED" "pid (task_at s' u) = pid (task_at s u)"
    "task_wf (task_at s' u) = task_wf (task_at s u)"
    if "u < 8" for u using at [OF that] assms(4,6) t(2) by (auto simp: task_wf_def)
  show ?thesis unfolding s'_def [symmetric]
    unfolding sched_ok_def
  proof (intro conjI allI impI)
    fix u :: nat assume u: "u < 8"
    show "t_state (task_at s' u) = TASK_RUNNING \<longleftrightarrow> g_current s' = Some u"
      using at [OF u] O(3) [OF u] c(1) assms(2,5) nt by auto
  qed (use c ne O assms(3) in \<open>auto\<close>)
qed

lemma task_yield_ok [helix_inv]: "sched_ok s \<Longrightarrow> sched_ok (task_yield s)"
  using switch_ok [of s _ _ TASK_READY] by (auto simp: task_yield_def pick_next_ready split: option.split)
text \<open>How far a slot is ahead of another in the round.\<close>

definition ahead :: "nat \<Rightarrow> nat \<Rightarrow> nat" where
  "ahead t i = (i + 8 - t) mod 8"

lemma ahead_alt: "t < 8 \<Longrightarrow> i < 8 \<Longrightarrow> ahead t i = (if t \<le> i then i - t else i + 8 - t)"
  by (auto simp: ahead_def mod_if)

lemma pick_next_first:
  assumes "t < 8" "i < 8" "t_state (task_at s i) = TASK_READY" "i \<noteq> t"
  obtains n where "pick_next (Some t) s = Some n" "n < 8" "n \<noteq> t" "0 < ahead t n" "ahead t n \<le> ahead t i"
proof -
  define P where "P k \<longleftrightarrow> t_state (task_at s ((t + 1 + k) mod 8)) = TASK_READY" for k
  define k where "k = ahead t i - 1"
  have a: "0 < ahead t i" "ahead t i < 8" "(t + ahead t i) mod 8 = i"
    using assms(1,2,4) by (auto simp: ahead_def mod_if)
  then have k: "k < 7" "(t + 1 + k) mod 8 = i" by (auto simp: k_def)
  then have "P k" using assms(3) by (simp add: P_def)
  then obtain j where j: "find P [0..<8] = Some j" using k(1) by (cases "find P [0..<8]") (auto simp: find_None_iff)
  then have "P j" "j < 8" "\<forall>l<j. \<not> P l" by (auto simp: find_Some_iff)
  then have jk: "j \<le> k" using \<open>P k\<close> by (meson not_less)
  define n where "n = (t + 1 + j) mod 8"
  have "pick_next (Some t) s = Some n" using j by (simp add: pick_next_def P_def [abs_def] n_def)
  moreover have "ahead t n = Suc j" using assms(1) jk k(1) by (auto simp: ahead_def n_def mod_if)
  moreover have "n < 8" by (simp add: n_def)
  moreover have "n \<noteq> t" using \<open>ahead t n = Suc j\<close> assms(1) by (auto simp: ahead_def)
  ultimately show ?thesis using that jk a(1) by (simp add: k_def)
qed
lemma ahead_less: "t < 8 \<Longrightarrow> n < 8 \<Longrightarrow> i < 8 \<Longrightarrow> 0 < ahead t n \<Longrightarrow> ahead t n \<le> ahead t i \<Longrightarrow> ahead n i < ahead t i"
  by (auto simp: ahead_alt split: if_splits)

lemma yield_progress:
  assumes "sched_ok s" "g_current s = Some t" "i < 8" "t_state (task_at s i) = TASK_READY"
  shows "\<exists>n. g_current (task_yield s) = Some n \<and> n < 8 \<and> ahead n i < ahead t i
    \<and> (n = i \<or> t_state (task_at (task_yield s) i) = TASK_READY)"
proof -
  note O = sched_okD [OF assms(1)]
  have t: "t < 8" "t_state (task_at s t) = TASK_RUNNING" using O(4) [OF assms(2)] O(3) assms(2) by blast+
  then have it: "i \<noteq> t" using assms(4) by auto
  obtain n where n: "pick_next (Some t) s = Some n" "n < 8" "n \<noteq> t" "0 < ahead t n" "ahead t n \<le> ahead t i"
    by (rule pick_next_first [OF t(1) assms(3,4) it])
  have "task_at (task_yield s) i = task_at s i" if "n \<noteq> i"
    using n(1,3) that it O(1) assms(2) by (simp add: task_yield_def set_state_def upd_task_def)
  moreover have "g_current (task_yield s) = Some n" using n(1,3) assms(2) by (simp add: task_yield_def)
  ultimately show ?thesis
    using n(2) ahead_less [OF t(1) n(2) assms(3) n(4,5)] assms(4) by (cases "n = i") (simp_all add: exI [of _ n])
qed

text \<open>
  C7. Round robin. From any reachable table, a ready task runs after at most as many yields
  as its slot is ahead of the running one in the round, so after at most seven, whatever the
  other tasks are.
\<close>

theorem ready_task_runs:
  assumes "sched_ok s" "g_current s = Some t" "i < TASK_MAX" "t_state (task_at s i) = TASK_READY"
  shows "\<exists>k\<le>ahead t i. g_current ((task_yield ^^ k) s) = Some i \<and> t_state (task_at ((task_yield ^^ k) s) i) = TASK_RUNNING
    \<and> ahead t i \<le> 7"
proof -
  have "\<exists>k\<le>ahead t i. g_current ((task_yield ^^ k) s) = Some i \<and> sched_ok ((task_yield ^^ k) s)"
    using assms
  proof (induction "ahead t i" arbitrary: s t rule: less_induct)
    case less
    obtain n where n: "g_current (task_yield s) = Some n" "n < 8" "ahead n i < ahead t i"
      "n = i \<or> t_state (task_at (task_yield s) i) = TASK_READY"
      using yield_progress [OF less.prems] by blast
    note ok = task_yield_ok [OF less.prems(1)]
    show ?case
    proof (cases "n = i")
      case True
      then show ?thesis using n(1,3) ok by (intro exI [of _ 1]) auto
    next
      case False
      then obtain k where "k \<le> ahead n i" "g_current ((task_yield ^^ k) (task_yield s)) = Some i" "sched_ok ((task_yield ^^ k) (task_yield s))"
        using less.hyps [OF n(3) ok n(1) less.prems(3)] n(4) by blast
      then show ?thesis using n(3) by (intro exI [of _ "Suc k"]) (simp add: funpow_swap1)
    qed
  qed
  then show ?thesis using assms(3) sched_okD(3) by (fastforce simp: ahead_def)
qed

end
