(* ===== verification/Fd_Props.thy ===== *)
theory Fd_Props
  imports Vfs_Props Task_Props
begin

text \<open>
  Descriptors. A file is referenced by the slots of the kernel's table and of the tables of
  all tasks that are not unused; the invariant says that every slot leads to a file and that a
  file's reference count is at least the number of its slots, so no file is released while a
  slot still leads to it. Every operation on descriptors and tasks keeps it.
\<close>

section \<open>Counting references\<close>

definition task_refs :: "task \<Rightarrow> nat \<Rightarrow> nat" where
  "task_refs t a = (if t_state t = TASK_UNUSED then 0 else count_list (fds t) a)"

definition refs :: "('n, 'a) ks \<Rightarrow> nat \<Rightarrow> nat" where
  "refs s a = count_list (g_kernel_fds s) a + (\<Sum>t<TASK_MAX. task_refs (task_at s t) a)"

definition tasks_wf :: "('n, 'a) ks \<Rightarrow> bool" where
  "tasks_wf s \<longleftrightarrow> length (g_tasks s) = TASK_MAX \<and> (\<forall>t<TASK_MAX. task_wf (task_at s t))"

definition fd_ok :: "('n, 'a) ks \<Rightarrow> bool" where
  "fd_ok s \<longleftrightarrow> vfs_ok s \<and> tasks_wf s \<and> length (g_kernel_fds s) = VFS_FD_MAX
     \<and> (\<forall>a. a \<noteq> 0 \<longrightarrow> 0 < refs s a \<longrightarrow> is_static a \<or> (\<exists>vf. files s a = Some vf \<and> int (refs s a) \<le> refcount vf))"

definition kinv :: "('n, 'a) ks \<Rightarrow> bool" where
  "kinv s \<longleftrightarrow> sched_ok s \<and> fd_ok s"

lemma kinvD: "kinv s \<Longrightarrow> sched_ok s" "kinv s \<Longrightarrow> fd_ok s" "kinv s \<Longrightarrow> vfs_ok s"
  by (simp_all add: kinv_def fd_ok_def)

lemma fd_okD:
  assumes "fd_ok s"
  shows "vfs_ok s" "tasks_wf s" "length (g_kernel_fds s) = 16"
    "a \<noteq> 0 \<Longrightarrow> 0 < refs s a \<Longrightarrow> is_static a \<or> (\<exists>vf. files s a = Some vf \<and> int (refs s a) \<le> refcount vf)"
    "files s a = Some vf \<Longrightarrow> 0 < refs s a \<Longrightarrow> int (refs s a) \<le> refcount vf"
proof -
  show v: "vfs_ok s" "tasks_wf s" "length (g_kernel_fds s) = 16" using assms unfolding fd_ok_def by blast+
  have m: "\<forall>a. a \<noteq> 0 \<longrightarrow> 0 < refs s a \<longrightarrow> is_static a \<or> (\<exists>vf. files s a = Some vf \<and> int (refs s a) \<le> refcount vf)"
    using assms unfolding fd_ok_def by (elim conjE)
  then show "is_static a \<or> (\<exists>vf. files s a = Some vf \<and> int (refs s a) \<le> refcount vf)" if "a \<noteq> 0" "0 < refs s a"
    using that by blast
  show "int (refs s a) \<le> refcount vf" if q: "files s a = Some vf" "0 < refs s a"
  proof -
    have "\<not> is_static a \<and> a \<noteq> 0" by (rule heap_file [OF vfs_okD(1) [OF v(1)] q(1)])
    then show ?thesis using m [rule_format, of a] q by simp
  qed
qed

lemma tasks_wfD: "tasks_wf s \<Longrightarrow> length (g_tasks s) = 8" "tasks_wf s \<Longrightarrow> t < 8 \<Longrightarrow> task_wf (task_at s t)"
  by (simp_all add: tasks_wf_def)

text \<open>A step that adds no slot and keeps the counts of the files with slots keeps the invariant.\<close>

lemma fd_ok_step:
  assumes "fd_ok s" "vfs_ok s'" "tasks_wf s'" "length (g_kernel_fds s') = 16" "\<And>a. a \<noteq> 0 \<Longrightarrow> refs s' a \<le> refs s a"
    "\<And>a. a \<noteq> 0 \<Longrightarrow> 0 < refs s' a \<Longrightarrow> map_option refcount (files s' a) = map_option refcount (files s a)"
  shows "fd_ok s'"
proof -
  have "is_static a \<or> (\<exists>vf. files s' a = Some vf \<and> int (refs s' a) \<le> refcount vf)" if q: "a \<noteq> 0" "0 < refs s' a" for a
  proof -
    note le = assms(5) [OF q(1)]
    have "is_static a \<or> (\<exists>vf. files s a = Some vf \<and> int (refs s a) \<le> refcount vf)" using fd_okD(4) [OF assms(1) q(1)] le q(2) by simp
    then show ?thesis using assms(6) [OF q] le by fastforce
  qed
  then show ?thesis using assms(2-4) by (simp add: fd_ok_def)
qed

lemma count_list_update:
  "i < length xs \<Longrightarrow> count_list (xs[i := v]) a + (if xs ! i = a then 1 else 0) = count_list xs a + (if v = a then 1 else 0)"
proof (induction xs arbitrary: i)
  case (Cons x xs)
  show ?case
  proof (cases i)
    case (Suc j)
    then have "j < length xs" using Cons.prems by simp
    from Cons.IH [OF this] Suc show ?thesis by (cases "xs ! j = a"; cases "v = a") simp_all
  qed simp
qed simp

lemma count_list_nth: "i < length xs \<Longrightarrow> 0 < count_list xs (xs ! i)"
  by (metis count_list_0_iff gr0I nth_mem)

text \<open>Changing one task changes its share.\<close>

lemma refs_upd:
  assumes "t < 8" "length (g_tasks s) = 8"
  shows "refs (upd_task t f s) a + task_refs (task_at s t) a = refs s a + task_refs (f (task_at s t)) a"
proof -
  have "(\<Sum>u<8. task_refs (task_at (upd_task t f s) u) a) = task_refs (f (task_at s t)) a + (\<Sum>u\<in>{..<8} - {t}. task_refs (task_at s u) a)"
    using assms by (subst sum.remove [of _ t]) (auto simp: upd_task_at intro!: sum.cong)
  moreover have "(\<Sum>u<8. task_refs (task_at s u) a) = task_refs (task_at s t) a + (\<Sum>u\<in>{..<8} - {t}. task_refs (task_at s u) a)"
    using assms(1) by (subst sum.remove [of _ t]) auto
  ultimately show ?thesis by (simp add: refs_def)
qed

lemma refs_cong:
  assumes "g_kernel_fds s' = g_kernel_fds s" "\<forall>t<8. task_refs (task_at s' t) a = task_refs (task_at s t) a"
  shows "refs s' a = refs s a"
  using assms by (simp add: refs_def)

lemma refs_upd_same:
  assumes "task_refs (f (task_at s t)) = task_refs (task_at s t)" "length (g_tasks s) = 8"
  shows "refs (upd_task t f s) a = refs s a"
proof (cases "t < 8")
  case True
  then show ?thesis using refs_upd [OF True assms(2), of f a] assms(1) by simp
next
  case False
  then show ?thesis using assms(2) by (simp add: upd_task_def refs_def)
qed

text \<open>Setting a slot of a table in use.\<close>

definition table_live :: "nat option \<Rightarrow> ('n, 'a) ks \<Rightarrow> bool" where
  "table_live tp s \<longleftrightarrow> (case tp of None \<Rightarrow> True | Some t \<Rightarrow> t < TASK_MAX \<and> t_state (task_at s t) \<noteq> TASK_UNUSED)"

definition table :: "nat option \<Rightarrow> ('n, 'a) ks \<Rightarrow> nat list" where
  "table tp s = (case tp of None \<Rightarrow> g_kernel_fds s | Some t \<Rightarrow> fds (task_at s t))"

lemma fd_table_table: "fd_table s = table (task_current s) s"
  by (simp add: fd_table_def table_def split: option.split)

lemma table_length:
  assumes "fd_ok s" "table_live tp s"
  shows "length (table tp s) = 16"
  using assms tasks_wfD(2) [OF fd_okD(2) [OF assms(1)]] fd_okD(3) [OF assms(1)]
  by (auto simp: table_def table_live_def task_wf_def split: option.splits)

lemma current_live:
  assumes "sched_ok s"
  shows "table_live (task_current s) s"
proof (cases "g_current s")
  case (Some t)
  then have "t < 8" "t_state (task_at s t) = TASK_RUNNING" using sched_okD(3,4) [OF assms] by blast+
  then show ?thesis using Some by (simp add: table_live_def task_current_def)
qed (simp add: table_live_def task_current_def)

lemma refs_set_fd:
  assumes "fd_ok s" "table_live tp s" "i < 16"
  shows "refs (set_fd tp i f s) a + (if table tp s ! i = a then 1 else 0) = refs s a + (if f = a then 1 else 0)"
proof (cases tp)
  case None
  then show ?thesis
    using count_list_update [of i "g_kernel_fds s" f a] fd_okD(3) [OF assms(1)] assms(3) by (simp add: set_fd_def refs_def table_def)
next
  case (Some t)
  then have t: "t < 8" "t_state (task_at s t) \<noteq> TASK_UNUSED" "length (fds (task_at s t)) = 16"
    using assms(2) tasks_wfD(2) [OF fd_okD(2) [OF assms(1)]] by (simp_all add: table_live_def task_wf_def)
  have "task_refs ((task_at s t)\<lparr>fds := (fds (task_at s t))[i := f]\<rparr>) a + (if table tp s ! i = a then 1 else 0)
      = task_refs (task_at s t) a + (if f = a then 1 else 0)"
    using count_list_update [of i "fds (task_at s t)" f a] t assms(3) Some by (simp add: task_refs_def table_def)
  then show ?thesis
    using refs_upd [OF t(1) tasks_wfD(1) [OF fd_okD(2) [OF assms(1)]], of "\<lambda>tk. tk\<lparr>fds := (fds tk)[i := f]\<rparr>" a] Some by (simp add: set_fd_def)
qed

lemma set_fd_sel [simp]:
  "files (set_fd tp i f s) = files s" "g_cons (set_fd tp i f s) = g_cons s" "g_current (set_fd tp i f s) = g_current s"
  "file_at a (set_fd tp i f s) = file_at a s" "g_next_pid (set_fd tp i f s) = g_next_pid s" "knet (set_fd tp i f s) = knet s"
  "length (g_kernel_fds (set_fd tp i f s)) = length (g_kernel_fds s)"
  by (simp_all add: set_fd_def file_at_def split: option.split)

text \<open>A slot of a live table leads to a file.\<close>

lemma slot_refs:
  assumes "fd_ok s" "table_live tp s" "i < 16"
  shows "0 < refs s (table tp s ! i)"
proof -
  let ?a = "table tp s ! i"
  have c: "0 < count_list (table tp s) ?a" using count_list_nth [of i "table tp s"] table_length [OF assms(1,2)] assms(3) by simp
  show ?thesis
  proof (cases tp)
    case None
    then show ?thesis using c by (simp add: refs_def table_def)
  next
    case (Some t)
    then have "t < 8" "task_refs (task_at s t) ?a = count_list (table tp s) ?a"
      using assms(2) by (simp_all add: table_live_def task_refs_def table_def)
    moreover from this have "task_refs (task_at s t) ?a \<le> (\<Sum>u<8. task_refs (task_at s u) ?a)"
      by (intro member_le_sum) auto
    ultimately show ?thesis using c by (simp add: refs_def)
  qed
qed

lemma slot_file:
  assumes "fd_ok s" "table_live tp s" "i < 16" "table tp s ! i \<noteq> 0"
  obtains vf where "file_at (table tp s ! i) s = Some vf"
proof (cases "is_static (table tp s ! i)")
  case True
  then show ?thesis using that by (simp add: file_at_def)
next
  case False
  then obtain vf where "files s (table tp s ! i) = Some vf"
    using fd_okD(4) [OF assms(1,4) slot_refs [OF assms(1-3)]] by auto
  then show ?thesis using False that by (simp add: file_at_def)
qed

section \<open>Steps that keep the table of tasks\<close>

definition kin :: "task \<Rightarrow> int \<times> nat option" where
  "kin t = (exit_code t, t_parent t)"

definition same_sched :: "('n, 'a) ks \<Rightarrow> ('n, 'a) ks \<Rightarrow> bool" where
  "same_sched s s' \<longleftrightarrow> map view (g_tasks s') = map view (g_tasks s) \<and> map kin (g_tasks s') = map kin (g_tasks s) \<and> g_current s' = g_current s \<and> g_next_pid s' = g_next_pid s"

lemma same_sched_refl [simp]: "same_sched s s"
  by (simp add: same_sched_def)

lemma same_sched_trans: "same_sched s s1 \<Longrightarrow> same_sched s1 s2 \<Longrightarrow> same_sched s s2"
  by (simp add: same_sched_def)

lemma same_sched_ok: "same_sched s s' \<Longrightarrow> sched_ok s' = sched_ok s"
  using sched_ok_view [of s' s] by (simp add: same_sched_def)

lemma kin_upd:
  assumes "kin (f (task_at s t)) = kin (task_at s t)"
  shows "map kin (g_tasks (upd_task t f s)) = map kin (g_tasks s)"
  using assms by (simp add: upd_task_def map_update) (metis list_update_beyond list_update_id map_update not_le)

lemma map_eq_nth: "map f xs = map f ys \<Longrightarrow> i < length ys \<Longrightarrow> f (xs ! i) = f (ys ! i)"
  by (metis map_eq_imp_length_eq nth_map)

lemma same_sched_task:
  assumes "same_sched s s'"
  shows "length (g_tasks s') = length (g_tasks s)"
    "t < length (g_tasks s) \<Longrightarrow> t_state (task_at s' t) = t_state (task_at s t) \<and> pid (task_at s' t) = pid (task_at s t)
       \<and> task_wf (task_at s' t) = task_wf (task_at s t)"
    "t < length (g_tasks s) \<Longrightarrow> kin (task_at s' t) = kin (task_at s t)"
proof -
  show l: "length (g_tasks s') = length (g_tasks s)" using assms by (auto simp: same_sched_def dest: map_eq_imp_length_eq)
  show "t_state (task_at s' t) = t_state (task_at s t) \<and> pid (task_at s' t) = pid (task_at s t) \<and> task_wf (task_at s' t) = task_wf (task_at s t)"
    if q: "t < length (g_tasks s)"
  proof -
    have "view (task_at s' t) = view (task_at s t)" using assms q by (auto simp: same_sched_def intro: map_eq_nth [where f = view])
    then show ?thesis by (simp add: view_def)
  qed
  show "kin (task_at s' t) = kin (task_at s t)" if "t < length (g_tasks s)"
    using assms that by (auto simp: same_sched_def intro: map_eq_nth [where f = kin])
qed

lemma same_sched_wf: "same_sched s s' \<Longrightarrow> tasks_wf s \<Longrightarrow> tasks_wf s'"
  using same_sched_task [of s s'] by (simp add: tasks_wf_def)

lemma same_sched_live: "same_sched s s' \<Longrightarrow> tasks_wf s \<Longrightarrow> table_live tp s' = table_live tp s"
  using same_sched_task [of s s'] by (auto simp: tasks_wf_def table_live_def split: option.split)

lemma set_fd_same [simp]: "same_sched s (set_fd tp i f s)"
proof -
  have "map view (g_tasks (upd_task t (\<lambda>tk. tk\<lparr>fds := (fds tk)[i := f]\<rparr>) s)) = map view (g_tasks s)" for t
    by (rule view_upd) (simp add: view_def task_wf_def)
  moreover have "map kin (g_tasks (upd_task t (\<lambda>tk. tk\<lparr>fds := (fds tk)[i := f]\<rparr>) s)) = map kin (g_tasks s)" for t
    by (rule kin_upd) (simp add: kin_def)
  ultimately show ?thesis by (simp add: same_sched_def set_fd_def split: option.split)
qed

lemma same_sched_put [simp]: "same_sched s (put_file f vf s') = same_sched s s'"
  by (simp add: same_sched_def)

text \<open>Steps of the file layer.\<close>

lemma calm_task:
  assumes "calm s s'" "t < length (g_tasks s)"
  shows "t_state (task_at s' t) = t_state (task_at s t)" "fds (task_at s' t) = fds (task_at s t)" "view (task_at s' t) = view (task_at s t)"
    "kin (task_at s' t) = kin (task_at s t)"
proof -
  have q: "quiet (task_at s' t) = quiet (task_at s t)" using assms by (auto simp: calm_def intro: map_eq_nth [where f = quiet])
  show st: "t_state (task_at s' t) = t_state (task_at s t)" using arg_cong [OF q, of t_state] by (simp add: quiet_def)
  show fd: "fds (task_at s' t) = fds (task_at s t)" using arg_cong [OF q, of fds] by (simp add: quiet_def)
  show "view (task_at s' t) = view (task_at s t)"
    using arg_cong [OF q, of pid] arg_cong [OF q, of sighand] st fd by (simp add: quiet_def view_def task_wf_def)
  show "kin (task_at s' t) = kin (task_at s t)" using arg_cong [OF q, of exit_code] arg_cong [OF q, of t_parent] by (simp add: quiet_def kin_def)
qed

lemma calm_same:
  assumes "calm s s'"
  shows "same_sched s s'"
proof -
  have l: "length (g_tasks s') = length (g_tasks s)" using assms by (auto simp: calm_def dest: map_eq_imp_length_eq)
  have "map view (g_tasks s') = map view (g_tasks s)"
    by (rule nth_equalityI) (simp_all add: l calm_task [OF assms])
  moreover have "map kin (g_tasks s') = map kin (g_tasks s)"
    by (rule nth_equalityI) (simp_all add: l calm_task [OF assms])
  ultimately show ?thesis using assms by (simp add: same_sched_def calm_def)
qed

lemma calm_refs: "calm s s' \<Longrightarrow> tasks_wf s \<Longrightarrow> refs s' a = refs s a"
  by (rule refs_cong) (simp_all add: calm_task task_refs_def tasks_wf_def, simp add: calm_def)

lemma fd_ok_calm:
  assumes "fd_ok s" "vfs_ok s'" "calm s s'" "\<And>a. 0 < refs s a \<Longrightarrow> map_option refcount (files s' a) = map_option refcount (files s a)"
  shows "fd_ok s'"
  using fd_okD [OF assms(1)] same_sched_wf [OF calm_same [OF assms(3)]] assms(3)
  by (intro fd_ok_step [OF assms(1,2)]) (simp_all add: calm_refs assms(4), simp add: calm_def)

lemma fd_ok_same:
  assumes "fd_ok s" "vfs_ok s'" "calm s s'" "same_files (files s) (files s')"
  shows "fd_ok s'"
proof (rule fd_ok_calm [OF assms(1-3)])
  fix a
  have "map_option ident (files s' a) = map_option ident (files s a)" using assms(4) by (simp add: same_files_def)
  then show "map_option refcount (files s' a) = map_option refcount (files s a)"
    by (cases "files s a"; cases "files s' a") (auto simp: ident_def)
qed

text \<open>A file that no slot leads to may go.\<close>

lemma fd_ok_gone:
  assumes "fd_ok s" "vfs_ok s'" "calm s s'" "files s' = (files s)(f := x)" "refs s f = 0"
  shows "fd_ok s'"
  by (rule fd_ok_calm [OF assms(1-3)]) (use assms(4,5) in auto)

text \<open>Changing the reference count of a file.\<close>

lemma vfs_ok_refcount:
  assumes "vfs_ok s" "file_at f s = Some vf"
  shows "vfs_ok (put_file f (vf\<lparr>refcount := n\<rparr>) s)"
proof (cases "is_static f")
  case True
  then have "put_file f (vf\<lparr>refcount := n\<rparr>) s = s\<lparr>g_cons := (g_cons s)(f := (g_cons s f)\<lparr>refcount := n\<rparr>)\<rparr>"
    using assms(2) by (simp add: put_file_def file_at_def)
  moreover have "files_ok (s\<lparr>g_cons := c\<rparr>) = files_ok s" for c
    by (simp add: files_ok_def ramfs_ok_def pipe_sys_ok_def kobj_ok_def needs_def holds_def separate_def)
  ultimately show ?thesis using assms(1) by (auto simp: vfs_ok_def)
next
  case False
  then have v: "files s f = Some vf" using assms(2) by (simp add: file_at_def)
  define s' where "s' = s\<lparr>files := (files s)(f \<mapsto> vf\<lparr>refcount := n\<rparr>)\<rparr>"
  note ok = vfs_okD(1) [OF assms(1)]
  have d: "dom (files s') = dom (files s)" using v by (auto simp: s'_def)
  have k: "kobj_ok s'" using files_okD(3) [OF ok] d by (simp add: kobj_ok_def needs_def holds_def separate_def s'_def dom_def)
  have old: "\<exists>v0. files s g = Some v0 \<and> f_ops v0 = f_ops v' \<and> fs_priv v0 = fs_priv v' \<and> writable v0 = writable v'"
    if "files s' g = Some v'" for g v'
    using that v by (auto simp: s'_def split: if_splits)
  have new: "\<exists>v'. files s' g = Some v' \<and> f_ops v' = f_ops v0 \<and> fs_priv v' = fs_priv v0 \<and> writable v' = writable v0"
    if "files s g = Some v0" for g v0
    using that v by (auto simp: s'_def)
  have "handles_ok (files s') (rfiles s')"
    using ramfs_okD(6) [OF files_okD(1) [OF ok]] v unfolding handles_ok_def s'_def by (auto split: if_splits)
  then have r: "ramfs_ok s'" using files_okD(1) [OF ok] k by (simp add: ramfs_ok_def s'_def)
  have "pipe_sys_ok s'"
    unfolding pipe_sys_ok_def
  proof (intro conjI allI impI k)
    fix a p assume p: "pipes s' a = Some p"
    then have p': "pipes s a = Some p" by (simp add: s'_def)
    show "pipe_wf p" using files_okD(2) [OF ok] p' unfolding pipe_sys_ok_def by blast
    fix w assume "end_of w p \<noteq> 0"
    then obtain v0 where e: "files s (end_of w p) = Some v0" "f_ops v0 = PipeOps" "fs_priv v0 = a" "writable v0 = w"
      using files_okD(2) [OF ok] p' unfolding pipe_sys_ok_def by blast
    then show "\<exists>vf. files s' (end_of w p) = Some vf \<and> f_ops vf = PipeOps \<and> fs_priv vf = a \<and> writable vf = w"
      using new [OF e(1)] e by auto
  next
    fix g v' assume g: "files s' g = Some v' \<and> f_ops v' = PipeOps"
    then obtain v0 where v0: "files s g = Some v0" "f_ops v0 = PipeOps" "fs_priv v0 = fs_priv v'" "writable v0 = writable v'"
      using old [of g v'] by auto
    obtain p where "pipes s (fs_priv v0) = Some p" "end_of (writable v0) p = g" by (rule pipe_sys_okD [OF files_okD(2) [OF ok] v0(1,2)])
    then show "\<exists>p. pipes s' (fs_priv v') = Some p \<and> end_of (writable v') p = g" using v0 by (auto simp: s'_def)
  qed
  then have "files_ok s'" using r by (simp add: files_ok_def)
  moreover have "put_file f (vf\<lparr>refcount := n\<rparr>) s = s'" using False by (simp add: put_file_def s'_def)
  ultimately show ?thesis using assms(1) v by (auto simp: vfs_ok_def s'_def)
qed

lemma refs_put [simp]: "refs (put_file f vf s) a = refs s a"
  by (simp add: refs_def)

lemma files_put: "files (put_file f vf s) = (if is_static f then files s else (files s)(f \<mapsto> vf))"
  by (simp add: put_file_def)

lemma vfs_ok_frame [simp]:
  "vfs_ok (upd_task t g s) = vfs_ok s" "vfs_ok (set_fd tp i f s) = vfs_ok s" "vfs_ok (s\<lparr>knet := n\<rparr>) = vfs_ok s" "vfs_ok (s\<lparr>kpg := pg\<rparr>) = vfs_ok s"
  "vfs_ok (s\<lparr>g_current := c\<rparr>) = vfs_ok s" "vfs_ok (s\<lparr>g_next_pid := np\<rparr>) = vfs_ok s" "vfs_ok (task_activate m s) = vfs_ok s"
  "vfs_ok (s\<lparr>g_exit_all_hook := h\<rparr>) = vfs_ok s" "vfs_ok (s\<lparr>g_active_pml4 := ap\<rparr>) = vfs_ok s"
  by (simp_all add: vfs_ok_def files_ok_def ramfs_ok_def pipe_sys_ok_def kobj_ok_def needs_def holds_def separate_def upd_task_def set_fd_def
      task_activate_def Let_def split: option.split)

section \<open>Descriptors\<close>

text \<open>A slot is emptied and its reference given back.\<close>

lemma drop_slot:
  assumes "fd_ok s" "table_live tp s" "i < 16" "table tp s ! i = f" "f \<noteq> 0" "file_at f s = Some vf" "is_console vf = 0"
  defines "vf1 \<equiv> vf\<lparr>refcount := refcount vf - 1\<rparr>"
  defines "s1 \<equiv> put_file f vf1 (set_fd tp i 0 s)"
  shows "fd_ok s1" "refcount vf1 \<le> 0 \<Longrightarrow> refs s1 f = 0" "files s1 f = Some vf1" "same_sched s s1" "file_at f s1 = Some vf1" "\<not> is_static f"
proof -
  note F = fd_okD [OF assms(1)]
  have st: "\<not> is_static f" "files s f = Some vf"
    using file_at_cases [OF F(1) assms(6)] assms(7) by auto
  then show "files s1 f = Some vf1" "file_at f s1 = Some vf1" "\<not> is_static f" by (simp_all add: s1_def files_put file_at_put)
  show ss: "same_sched s s1" by (simp add: s1_def)
  have r: "refs s1 a + (if f = a then 1 else 0) = refs s a" if "a \<noteq> 0" for a
    using refs_set_fd [OF assms(1-3), of 0 a] assms(4) that by (simp add: s1_def)
  have p: "0 < refs s f" using slot_refs [OF assms(1-3)] assms(4) by simp
  have c: "int (refs s f) \<le> refcount vf" by (rule F(5) [OF st(2) p])
  then show "refcount vf1 \<le> 0 \<Longrightarrow> refs s1 f = 0" using r [OF assms(5)] by (simp add: vf1_def)
  have v: "vfs_ok s1" unfolding s1_def vf1_def by (rule vfs_ok_refcount) (use F(1) assms(6) in simp_all)
  have "is_static a \<or> (\<exists>v. files s1 a = Some v \<and> int (refs s1 a) \<le> refcount v)" if q: "a \<noteq> 0" "0 < refs s1 a" for a
  proof (cases "a = f")
    case True
    then show ?thesis using r [OF q(1)] c st by (simp add: s1_def files_put vf1_def)
  next
    case False
    then have "refs s1 a = refs s a" using r [OF q(1)] by simp
    then show ?thesis using F(4) [OF q(1)] q(2) False st(1) by (auto simp: s1_def files_put)
  qed
  then show "fd_ok s1"
    using v same_sched_wf [OF ss F(2)] F(3) by (simp add: fd_ok_def s1_def)
qed

text \<open>A slot that is empty is given a file whose count is set to one.\<close>

lemma fill_slot:
  assumes "fd_ok s" "table_live tp s" "i < 16" "table tp s ! i = 0" "files s f = Some vf" "refs s f = 0"
  defines "s1 \<equiv> put_file f (vf\<lparr>refcount := 1\<rparr>) (set_fd tp i f s)"
  shows "fd_ok s1" "same_sched s s1"
proof -
  note F = fd_okD [OF assms(1)]
  have f: "\<not> is_static f" "f \<noteq> 0" "file_at f s = Some vf"
    using heap_file [OF vfs_okD(1) [OF F(1)] assms(5)] assms(5) by (auto simp: file_at_def)
  have v: "vfs_ok s1" unfolding s1_def by (rule vfs_ok_refcount) (use F(1) f in simp_all)
  show ss: "same_sched s s1" by (simp add: s1_def)
  have r: "refs s1 a = refs s a + (if f = a then 1 else 0)" if "a \<noteq> 0" for a
    using refs_set_fd [OF assms(1-3), of f a] assms(4) that by (simp add: s1_def)
  have "is_static a \<or> (\<exists>v. files s1 a = Some v \<and> int (refs s1 a) \<le> refcount v)" if q: "a \<noteq> 0" "0 < refs s1 a" for a
    using F(4) [OF q(1)] r [OF q(1)] q(2) f assms(6) by (cases "a = f") (auto simp: s1_def files_put)
  then show "fd_ok s1" using v same_sched_wf [OF ss F(2)] F(3) by (simp add: fd_ok_def s1_def)
qed

lemma fd_install_law:
  assumes "kinv s" "files s f = Some vf" "refs s f = 0"
  shows "\<exists>r s'. fd_install f s = Some (r, s') \<and> kinv s' \<and> same_sched s s' \<and> (if 0 \<le> r then r < 16 \<and> fd_get r s' = f else r = -1 \<and> s' = s)"
proof (cases "find (\<lambda>i. fd_table s ! i = 0) [0..<16]")
  case None
  then show ?thesis using assms(1) by (simp add: fd_install_def)
next
  case (Some i)
  note F = kinvD(2) [OF assms(1)] and T = current_live [OF kinvD(1) [OF assms(1)]]
  have i: "i < 16" "table (task_current s) s ! i = 0" using find_Some_nth [OF Some] by (auto simp: fd_table_table)
  have a: "file_at f s = Some vf" using vfs_ok_file_at [OF kinvD(3) [OF assms(1)] assms(2)] .
  note S = fill_slot [OF F T i assms(2,3)]
  let ?s1 = "put_file f (vf\<lparr>refcount := 1\<rparr>) (set_fd (task_current s) i f s)"
  have "fd_table (set_fd (task_current s) i f s) ! i = f"
    using table_length [OF F T] T i(1) tasks_wfD(1) [OF fd_okD(2) [OF F]]
    by (auto simp: fd_table_def set_fd_def table_def table_live_def task_current_def upd_task_at split: option.splits)
  then have g: "fd_get (int i) ?s1 = f" using i(1) by (cases "g_current s") (simp_all add: fd_get_def fd_table_def task_current_def)
  have "kinv ?s1" using S same_sched_ok [OF S(2)] kinvD(1) [OF assms(1)] by (simp add: kinv_def)
  then show ?thesis using Some a S(2) i(1) g by (simp add: fd_install_def)
qed
text \<open>The last reference to a file is gone: it is released.\<close>

lemma free_socket_ok:
  assumes "fd_ok s" "files s f = Some vf" "f_ops vf = NoOps" "refs s f = 0"
  shows "fd_ok (free_file f s)" "calm s (free_file f s)"
proof -
  note F = fd_okD [OF assms(1)]
  note ok = vfs_okD(1) [OF F(1)]
  show c: "calm s (free_file f s)" by (simp add: calm_def free_file_def)
  have k: "kobj_ok (free_file f s)" using free_obj_ok(1) [OF files_okD(3) [OF ok]] assms(2) by (auto simp: domIff)
  have "handles_ok (files (free_file f s)) (rfiles (free_file f s))"
    using ramfs_okD(6) [OF files_okD(1) [OF ok]] unfolding handles_ok_def free_file_def by (auto split: if_splits)
  then have "ramfs_ok (free_file f s)" using files_okD(1) [OF ok] k by (simp add: ramfs_ok_def free_file_def)
  moreover have "pipe_sys_ok (free_file f s)"
    by (rule pipe_ok_other [OF files_okD(2) [OF ok] k, of f None]) (use assms(2,3) in \<open>auto simp: free_file_def\<close>)
  ultimately have "vfs_ok (free_file f s)"
    by (intro vfs_ok_del [OF F(1), of _ f]) (simp_all add: files_ok_def free_file_def)
  then show "fd_ok (free_file f s)"
    by (rule fd_ok_gone [OF assms(1) _ c, of f None]) (simp_all add: free_file_def assms(4))
qed

lemma fd_ok_frame [simp]:
  "fd_ok (s\<lparr>knet := n\<rparr>) = fd_ok s" "fd_ok (s\<lparr>kpg := pg\<rparr>) = fd_ok s" "fd_ok (s\<lparr>g_current := c\<rparr>) = fd_ok s"
  "fd_ok (s\<lparr>g_next_pid := np\<rparr>) = fd_ok s" "fd_ok (task_activate m s) = fd_ok s" "fd_ok (s\<lparr>g_exit_all_hook := h\<rparr>) = fd_ok s"
  "fd_ok (s\<lparr>g_active_pml4 := ap\<rparr>) = fd_ok s"
  by (simp_all add: fd_ok_def tasks_wf_def refs_def)

lemma same_sched_frame [simp]: "same_sched s (s'\<lparr>knet := n\<rparr>) = same_sched s s'" "same_sched s (s'\<lparr>kpg := pg\<rparr>) = same_sched s s'"
  by (simp_all add: same_sched_def)

lemma sock_free_udp_knet: "sock_free_udp vf s = s\<lparr>knet := knet (sock_free_udp vf s)\<rparr>"
  by (simp add: sock_free_udp_def split: option.split)

context disk
begin

lemma release_file:
  assumes "fd_ok s" "files s f = Some vf" "is_socket vf = 0" "refs s f = 0"
  shows "\<exists>r s'. vfs_close F f s = Some (r, s') \<and> fd_ok s' \<and> calm s s'"
proof -
  note F = fd_okD [OF assms(1)]
  have f: "\<not> is_static f" "f \<noteq> 0" "f_ops vf \<noteq> NoOps"
    using heap_file [OF vfs_okD(1) [OF F(1)] assms(2)] vfs_okD(4) [OF F(1) assms(2)] assms(3) by auto
  obtain r s' where c: "vfs_close F f s = Some (r, s')" "vfs_ok s'" "same_proc s s'" "files s' = (files s)(f := None)"
    using vfs_close_law [OF F(1) vfs_ok_file_at [OF F(1) assms(2)] f(2)] f by auto
  then show ?thesis using fd_ok_gone [OF assms(1) c(2) same_proc_calm [OF c(3)] c(4) assms(4)] same_proc_calm [OF c(3)] by blast
qed

text \<open>Giving up one slot, as closing a descriptor and ending a task do it.\<close>

lemma drop_reference:
  assumes "fd_ok s" "table_live tp s" "i < 16" "table tp s ! i = f" "f \<noteq> 0" "file_at f s = Some vf" "is_console vf = 0"
  defines "vf1 \<equiv> vf\<lparr>refcount := refcount vf - 1\<rparr>"
  defines "s1 \<equiv> put_file f vf1 (set_fd tp i 0 s)"
  shows "\<exists>r s'. (if refcount vf1 > 0 then Some (0, s1)
      else if is_socket vf1 \<noteq> 0 then Some (0, free_file f (s1\<lparr>knet := n\<rparr>)) else vfs_close F f s1) = Some (r, s') \<and> fd_ok s' \<and> same_sched s s'"
proof -
  note D = drop_slot [OF assms(1-7), folded vf1_def, folded s1_def]
  consider "refcount vf1 > 0" | "\<not> refcount vf1 > 0" "is_socket vf1 \<noteq> 0" | "\<not> refcount vf1 > 0" "is_socket vf1 = 0" by blast
  then show ?thesis
  proof cases
    case 1
    then show ?thesis using D(1,4) by simp
  next
    case 2
    have o: "f_ops vf1 = NoOps" using vfs_okD(4) [OF fd_okD(1) [OF D(1)] D(3)] 2(2) by simp
    have z: "refs (s1\<lparr>knet := n\<rparr>) f = 0" using D(2) 2(1) by (simp add: refs_def)
    have k: "fd_ok (free_file f (s1\<lparr>knet := n\<rparr>)) \<and> calm (s1\<lparr>knet := n\<rparr>) (free_file f (s1\<lparr>knet := n\<rparr>))"
      using free_socket_ok [of "s1\<lparr>knet := n\<rparr>" f vf1] D(1,3) o z by simp
    have "same_sched s (s1\<lparr>knet := n\<rparr>)" using D(4) by simp
    then have "same_sched s (free_file f (s1\<lparr>knet := n\<rparr>))" using same_sched_trans calm_same k by blast
    then show ?thesis using 2 k by simp
  next
    case 3
    have "refs s1 f = 0" using D(2) 3(1) by simp
    then obtain r s' where "vfs_close F f s1 = Some (r, s')" "fd_ok s'" "calm s1 s'" using release_file [OF D(1,3) 3(2)] by blast
    then show ?thesis using 3 same_sched_trans [OF D(4) calm_same] by simp
  qed
qed

lemma fd_close_law:
  assumes "kinv s"
  shows "\<exists>r s'. fd_close F fd s = Some (r, s') \<and> kinv s' \<and> same_sched s s'"
proof (cases "fd < 0 \<or> 16 \<le> fd \<or> fd_table s ! nat fd = 0")
  case True
  then show ?thesis using assms by (auto simp: fd_close_def)
next
  case False
  define i f where "i = nat fd" and "f = table (task_current s) s ! i"
  have i: "i < 16" "f \<noteq> 0" using False by (auto simp: i_def f_def fd_table_table)
  note F = kinvD(2) [OF assms] and T = current_live [OF kinvD(1) [OF assms]]
  obtain vf where vf: "file_at f s = Some vf" using slot_file [OF F T i(1)] i(2) by (auto simp: f_def)
  have g: "\<not> (fd < 0 \<or> 16 \<le> fd)" "fd_table s ! nat fd = f" using False by (auto simp: i_def f_def fd_table_table)
  show ?thesis
  proof (cases "is_console vf = 0")
    case False
    then show ?thesis using assms g i(2) vf by (simp add: fd_close_def)
  next
    case con: True
    define vf1 s1 where "vf1 = vf\<lparr>refcount := refcount vf - 1\<rparr>" and "s1 = put_file f vf1 (set_fd (task_current s) i 0 s)"
    have "fd_close F fd s = (if refcount vf1 > 0 then Some (0, s1)
        else if is_socket vf1 \<noteq> 0 then Some (0, free_file f (s1\<lparr>knet :=
            (if is_socket vf1 = 2 then tcp_free (sock_of vf1) (knet s1) else net_sock_free (sock_of vf1) (knet s1))\<rparr>))
        else vfs_close F f s1)"
      using g i(2) vf con by (simp add: fd_close_def vf1_def s1_def i_def Let_def)
    moreover obtain r s' where "\<dots> = Some (r, s')" "fd_ok s'" "same_sched s s'"
      using drop_reference [OF F T i(1) f_def [symmetric] i(2) vf con] unfolding vf1_def s1_def by blast
    ultimately show ?thesis using same_sched_ok kinvD(1) [OF assms] by (auto simp: kinv_def)
  qed
qed

lemma drop_fd_law:
  assumes "fd_ok s" "t < 8" "t_state (task_at s t) \<noteq> TASK_UNUSED" "i < 16"
  shows "\<exists>s'. drop_fd F t i s = Some s' \<and> fd_ok s' \<and> same_sched s s'"
proof -
  define f where "f = table (Some t) s ! i"
  have T: "table_live (Some t) s" using assms(2,3) by (simp add: table_live_def)
  show ?thesis
  proof (cases "f = 0")
    case True
    then show ?thesis using assms(1) by (simp add: drop_fd_def f_def table_def)
  next
    case nz: False
    obtain vf where vf: "file_at f s = Some vf" using slot_file [OF assms(1) T assms(4)] nz by (auto simp: f_def)
    have g: "fds (task_at s t) ! i = f" by (simp add: f_def table_def)
    show ?thesis
    proof (cases "is_console vf = 0")
      case False
      then show ?thesis using assms(1) g vf nz by (simp add: drop_fd_def)
    next
      case con: True
      define vf1 s1 where "vf1 = vf\<lparr>refcount := refcount vf - 1\<rparr>" and "s1 = put_file f vf1 (set_fd (Some t) i 0 s)"
      define n where "n = knet (sock_free_udp vf1 s1)"
      have n: "sock_free_udp vf1 s1 = s1\<lparr>knet := n\<rparr>" unfolding n_def by (rule sock_free_udp_knet)
      have "drop_fd F t i s = map_option snd (if refcount vf1 > 0 then Some (0, s1)
          else if is_socket vf1 \<noteq> 0 then Some (0, free_file f (s1\<lparr>knet := n\<rparr>)) else vfs_close F f s1)"
        using g nz vf con by (simp add: drop_fd_def vf1_def s1_def n [unfolded vf1_def s1_def] Let_def)
      moreover obtain r s' where "(if refcount vf1 > 0 then Some (0, s1)
          else if is_socket vf1 \<noteq> 0 then Some (0, free_file f (s1\<lparr>knet := n\<rparr>)) else vfs_close F f s1) = Some (r, s')" "fd_ok s'" "same_sched s s'"
        using drop_reference [OF assms(1) T assms(4) f_def [symmetric] nz vf con] unfolding vf1_def s1_def by blast
      ultimately show ?thesis by simp
    qed
  qed
qed

lemma drop_fds_law:
  assumes "fd_ok s" "t < 8" "t_state (task_at s t) \<noteq> TASK_UNUSED" "\<forall>i\<in>set is. i < 16"
  shows "\<exists>s'. drop_fds F t is s = Some s' \<and> fd_ok s' \<and> same_sched s s'"
  using assms
proof (induction "is" arbitrary: s)
  case (Cons i "is")
  obtain s1 where d: "drop_fd F t i s = Some s1" "fd_ok s1" "same_sched s s1" using drop_fd_law [OF Cons.prems(1-3), of i] Cons.prems(4) by auto
  have "t_state (task_at s1 t) \<noteq> TASK_UNUSED"
    using same_sched_task(2) [OF d(3), of t] Cons.prems(2,3) tasks_wfD(1) [OF fd_okD(2) [OF Cons.prems(1)]] by simp
  then show ?case using Cons.IH [OF d(2) Cons.prems(2)] Cons.prems(4) d(1) same_sched_trans [OF d(3)] by auto
qed simp

end

end
