(* ===== verification/Task_Inv.thy ===== *)
theory Task_Inv
  imports Fd_Props
begin

text \<open>
  Every operation on tasks keeps the invariant of \<open>Fd_Props\<close>: creating, forking, switching,
  ending and reaping tasks and delivering signals never follow a wild pointer, whatever files
  the descriptors of the tasks lead to. The disk file system is the locale \<open>disk\<close>.
\<close>

section \<open>Changing one task\<close>

lemma kinv_frame [simp]:
  "kinv (s\<lparr>knet := n\<rparr>) = kinv s" "kinv (s\<lparr>kpg := pg\<rparr>) = kinv s" "kinv (task_activate m s) = kinv s"
  "kinv (s\<lparr>g_exit_all_hook := h\<rparr>) = kinv s" "kinv (s\<lparr>g_active_pml4 := ap\<rparr>) = kinv s"
  using sched_ok_cong [of "s\<lparr>knet := n\<rparr>" s] sched_ok_cong [of "s\<lparr>kpg := pg\<rparr>" s] sched_ok_cong [of "task_activate m s" s]
    sched_ok_cong [of "s\<lparr>g_exit_all_hook := h\<rparr>" s] sched_ok_cong [of "s\<lparr>g_active_pml4 := ap\<rparr>" s]
  by (simp_all add: kinv_def)

lemma upd_task_out: "length (g_tasks s) \<le> t \<Longrightarrow> upd_task t f s = s"
  by (simp add: upd_task_def list_update_beyond)

lemma fd_ok_upd:
  assumes "fd_ok s" "task_wf (f (task_at s t))" "\<And>a. a \<noteq> 0 \<Longrightarrow> task_refs (f (task_at s t)) a \<le> task_refs (task_at s t) a"
  shows "fd_ok (upd_task t f s)"
proof (cases "t < 8")
  case True
  note F = fd_okD [OF assms(1)]
  note l = tasks_wfD(1) [OF F(2)]
  have "tasks_wf (upd_task t f s)" using F(2) assms(2) True by (simp add: tasks_wf_def upd_task_at)
  moreover have "refs (upd_task t f s) a \<le> refs s a" if "a \<noteq> 0" for a
    using refs_upd [OF True l, of f a] assms(3) [OF that] by simp
  ultimately show ?thesis using F(1,3) by (intro fd_ok_step [OF assms(1)]) simp_all
next
  case False
  then have "upd_task t f s = s" using tasks_wfD(1) [OF fd_okD(2) [OF assms(1)]] by (simp add: upd_task_out)
  then show ?thesis using assms(1) by simp
qed

lemma kinv_upd:
  assumes "kinv s" "\<And>tk. t_state (f tk) = t_state tk" "\<And>tk. pid (f tk) = pid tk" "\<And>tk. fds (f tk) = fds tk"
    "\<And>tk. length (sighand (f tk)) = length (sighand tk)"
  shows "kinv (upd_task t f s)"
proof (cases "t < 8")
  case True
  have v: "task_wf (f (task_at s t)) = task_wf (task_at s t)" using assms(4,5) by (simp add: task_wf_def)
  have "fd_ok (upd_task t f s)"
    by (rule fd_ok_upd [OF kinvD(2) [OF assms(1)]])
      (use assms(2,4) v tasks_wfD(2) [OF fd_okD(2) [OF kinvD(2) [OF assms(1)]] True] in \<open>simp_all add: task_refs_def\<close>)
  then show ?thesis using sched_ok_upd [OF kinvD(1) [OF assms(1)], of f t] v assms(2,3) by (simp add: kinv_def view_def)
next
  case False
  then have "upd_task t f s = s" using sched_okD(1) [OF kinvD(1) [OF assms(1)]] by (simp add: upd_task_out)
  then show ?thesis using assms(1) by simp
qed

lemma kinv_signal_send [simp]: "kinv s \<Longrightarrow> kinv (signal_send tp sig s)"
  by (auto simp: signal_send_def intro!: kinv_upd split: option.split)

lemma fd_ok_set_state: "fd_ok s \<Longrightarrow> t < 8 \<Longrightarrow> st = TASK_UNUSED \<or> t_state (task_at s t) \<noteq> TASK_UNUSED \<Longrightarrow> fd_ok (set_state t st s)"
  unfolding set_state_def using tasks_wfD(2) [OF fd_okD(2), of s t]
  by (intro fd_ok_upd) (auto simp: task_refs_def task_wf_def)

text \<open>The scheduler's view of a task that starts, is taken out of the table or stops.\<close>

lemma set_state_view:
  "map view (g_tasks (set_state t st s)) = (map view (g_tasks s))[t := (st, snd (view (task_at s t)))]"
  by (simp add: set_state_def upd_task_def map_update view_def task_wf_def)

lemma spawn_ok:
  assumes "sched_ok s" "t < 8" "t_state (task_at s t) = TASK_UNUSED" "t_state tk = TASK_READY" "pid tk = g_next_pid s" "task_wf tk"
  shows "sched_ok (upd_task t (\<lambda>_. tk) s\<lparr>g_next_pid := g_next_pid s + 1\<rparr>)"
proof -
  note O = sched_okD [OF assms(1)]
  define s' where "s' = upd_task t (\<lambda>_. tk) s\<lparr>g_next_pid := g_next_pid s + 1\<rparr>"
  have at: "task_at s' u = (if u = t then tk else task_at s u)" for u using O(1) assms(2) by (simp add: s'_def upd_task_at)
  have c: "g_current s' = g_current s" "g_next_pid s' = g_next_pid s + 1" "length (g_tasks s') = 8" using O(1) by (simp_all add: s'_def)
  have nc: "g_current s \<noteq> Some t" using O(3) [OF assms(2)] assms(3) by auto
  have lt: "u < 8 \<Longrightarrow> t_state (task_at s u) \<noteq> TASK_UNUSED \<Longrightarrow> pid (task_at s u) < g_next_pid s" for u using O(6) by blast
  show ?thesis unfolding s'_def [symmetric] sched_ok_def
  proof (intro conjI allI impI)
    fix u :: nat assume u: "u < 8"
    show "task_wf (task_at s' u)" using at O(2) [OF u] assms(6) by simp
    show "t_state (task_at s' u) = TASK_RUNNING \<longleftrightarrow> g_current s' = Some u" using at O(3) [OF u] assms(4) c(1) nc by auto
    show "0 < pid (task_at s' u)" "pid (task_at s' u) < g_next_pid s'" if "t_state (task_at s' u) \<noteq> TASK_UNUSED"
      using that at [of u] O(5) O(6) [OF u] assms(5) c(2) by (auto split: if_splits)
    fix v :: nat assume v: "v < 8" "t_state (task_at s' u) \<noteq> TASK_UNUSED" "t_state (task_at s' v) \<noteq> TASK_UNUSED" "pid (task_at s' u) = pid (task_at s' v)"
    show "u = v"
      using v(2-4) at [of u] at [of v] O(7) [OF u v(1)] lt [OF u] lt [OF v(1)] assms(5)
      by (cases "u = t"; cases "v = t") auto
  qed (use O c in auto)
qed

lemma retire_ok:
  assumes "sched_ok s" "t < 8" "g_current s \<noteq> Some t"
  shows "sched_ok (set_state t TASK_UNUSED s)"
proof -
  note O = sched_okD [OF assms(1)]
  have at: "task_at (set_state t TASK_UNUSED s) u = (if u = t then (task_at s t)\<lparr>t_state := TASK_UNUSED\<rparr> else task_at s u)" for u
    using O(1) assms(2) by (simp add: set_state_def upd_task_at)
  have c: "g_current (set_state t TASK_UNUSED s) = g_current s" "g_next_pid (set_state t TASK_UNUSED s) = g_next_pid s"
    "length (g_tasks (set_state t TASK_UNUSED s)) = 8" using O(1) by (simp_all add: set_state_def)
  show ?thesis unfolding sched_ok_def at c using O assms(3) by (auto simp: task_wf_def)
qed

lemma stop_ok:
  assumes "sched_ok s" "g_current s = Some t"
  shows "sched_ok (set_state t TASK_ZOMBIE s\<lparr>g_current := None\<rparr>)"
proof -
  note O = sched_okD [OF assms(1)]
  note t = O(4) [OF assms(2)]
  define s' where "s' = set_state t TASK_ZOMBIE s\<lparr>g_current := None\<rparr>"
  have at: "task_at s' u = (if u = t then (task_at s t)\<lparr>t_state := TASK_ZOMBIE\<rparr> else task_at s u)" for u
    using O(1) t by (simp add: s'_def set_state_def upd_task_at)
  have c: "g_current s' = None" "g_next_pid s' = g_next_pid s" "length (g_tasks s') = 8" using O(1) by (simp_all add: s'_def set_state_def)
  have "t_state (task_at s t) \<noteq> TASK_UNUSED" using O(3) [OF t] assms(2) by simp
  then show ?thesis unfolding s'_def [symmetric] sched_ok_def at c using O t assms(2) by (auto simp: task_wf_def)
qed
section \<open>Creating tasks\<close>

lemma alloc_slot_unused: "alloc_slot s = Some t \<Longrightarrow> t < 8 \<and> t_state (task_at s t) = TASK_UNUSED"
  by (auto simp: alloc_slot_def dest: find_Some_nth)

lemma kinv_retire:
  assumes "kinv s" "t < 8" "t_state (task_at s t) \<noteq> TASK_RUNNING"
  shows "kinv (set_state t TASK_UNUSED s)"
  using fd_ok_set_state [OF kinvD(2) [OF assms(1)] assms(2)] retire_ok [OF kinvD(1) [OF assms(1)] assms(2)]
    sched_okD(3) [OF kinvD(1) [OF assms(1)] assms(2)] assms(3) by (auto simp: kinv_def)

lemma pmm_sel [simp]:
  "g_tasks (snd (pmm_take s)) = g_tasks s" "kinv (snd (pmm_take s)) = kinv s" "g_tasks (pmm_give p s) = g_tasks s" "kinv (pmm_give p s) = kinv s"
  "g_current (snd (pmm_take s)) = g_current s" "g_current (pmm_give p s) = g_current s"
  by (simp_all add: pmm_take_def pmm_give_def split: prod.split)

text \<open>A task with no open descriptor joins the table.\<close>

lemma kinv_spawn:
  assumes "kinv s" "t < 8" "t_state (task_at s t) = TASK_UNUSED" "t_state tk = TASK_READY" "pid tk = g_next_pid s" "fds tk = replicate 16 0"
    "length (sighand tk) = 32"
  shows "kinv (upd_task t (\<lambda>_. tk) s\<lparr>g_next_pid := g_next_pid s + 1\<rparr>)"
proof -
  have w: "task_wf tk" using assms(6,7) by (simp add: task_wf_def)
  have "count_list (replicate n 0) a = 0" if "a \<noteq> 0" for a n :: nat using that by (induction n) auto
  then have "fd_ok (upd_task t (\<lambda>_. tk) s)"
    by (intro fd_ok_upd [OF kinvD(2) [OF assms(1)]]) (simp_all add: w task_refs_def assms(6))
  then show ?thesis using spawn_ok [OF kinvD(1) [OF assms(1)] assms(2-5) w] by (simp add: kinv_def)
qed

lemma task_create_law:
  assumes "kinv s"
  shows "kinv (snd (task_create name entry user_sp s))"
proof (cases "alloc_slot s")
  case None
  then show ?thesis using assms by (simp add: task_create_def)
next
  case (Some t)
  note t = alloc_slot_unused [OF Some]
  define new where "new = signal_task_init (zero_task\<lparr>pid := g_next_pid s, t_state := TASK_READY, cwd := [SLASH]\<rparr>)"
  define named where "named = (case name of None \<Rightarrow> new | Some nm \<Rightarrow> new\<lparr>t_name := take (TASK_NAME_MAX - 1) nm\<rparr>)"
  define s1 where "s1 = upd_task t (\<lambda>_. named) s\<lparr>g_next_pid := g_next_pid s + 1\<rparr>"
  obtain kphys s2 where s2: "pmm_take s1 = (kphys, s2)" by (rule prod.exhaust)
  define s3 where "s3 = upd_task t (\<lambda>tk. tk\<lparr>kernel_stack := kphys, kernel_stack_top := kphys + PAGE_SIZE\<rparr>) s2"
  obtain pml4 pg where c: "vmm_clone_kernel_pml4 (kpg s3) = (pml4, pg)" by (rule prod.exhaust)
  define s4 where "s4 = upd_task t (\<lambda>tk. tk\<lparr>t_pml4 := pml4\<rparr>) (s3\<lparr>kpg := pg\<rparr>)"
  have "t_state named = TASK_READY" "pid named = g_next_pid s" "fds named = replicate 16 0" "length (sighand named) = 32"
    by (simp_all add: named_def new_def signal_task_init_def zero_task_def split: option.split)
  then have k1: "kinv s1" unfolding s1_def by (intro kinv_spawn [OF assms]) (use t in auto)
  have k2: "kinv s2" using pmm_sel(2) [of s1] k1 s2 by simp
  have k3: "kinv s3" unfolding s3_def by (rule kinv_upd [OF k2]) simp_all
  have k4: "kinv s4" unfolding s4_def by (rule kinv_upd) (use k3 in simp_all)
  have l: "length (g_tasks s) = 8" by (rule sched_okD(1) [OF kinvD(1) [OF assms]])
  have g: "g_tasks s2 = g_tasks s1" using pmm_sel(1) [of s1] by (simp add: s2)
  have r: "t_state (task_at s2 t) = TASK_READY" "t_state (task_at s4 t) = TASK_READY" "length (g_tasks s2) = 8"
    using g t l \<open>t_state named = TASK_READY\<close> by (auto simp: s1_def s3_def s4_def upd_task_at)
  show ?thesis
  proof (cases "kphys = 0")
    case True
    then have "task_create name entry user_sp s = (None, set_state t TASK_UNUSED s2)"
      using Some s2 unfolding task_create_def Let_def named_def s1_def new_def by simp
    then show ?thesis using kinv_retire [OF k2] t r(1) by simp
  next
    case False
    then have "task_create name entry user_sp s = (if pml4 = 0 then (None, set_state t TASK_UNUSED (pmm_give kphys s4))
        else (Some t, upd_task t (\<lambda>tk. tk\<lparr>user_stack_top := user_sp,
               regs := (regs tk)\<lparr>rip := entry, rsp := user_sp, rflags := 0x200, rax := 0\<rparr>\<rparr>) s4))"
      using Some s2 c unfolding task_create_def Let_def named_def s1_def new_def s3_def s4_def by simp
    moreover have "kinv (set_state t TASK_UNUSED (pmm_give kphys s4))" by (rule kinv_retire) (use k4 t r(2) in simp_all)
    moreover have "kinv (upd_task t (\<lambda>tk. tk\<lparr>user_stack_top := user_sp,
               regs := (regs tk)\<lparr>rip := entry, rsp := user_sp, rflags := 0x200, rax := 0\<rparr>\<rparr>) s4)" by (rule kinv_upd [OF k4]) simp_all
    ultimately show ?thesis by simp
  qed
qed

section \<open>Forking\<close>

text \<open>Holding a list of files raises the count of each by the number of times it is in the list.\<close>

lemma hold_fds_law:
  assumes "vfs_ok s" "\<forall>f\<in>set fs. f = 0 \<or> file_at f s \<noteq> None"
  shows "\<exists>s'. hold_fds fs s = Some s' \<and> vfs_ok s' \<and> g_tasks s' = g_tasks s \<and> g_current s' = g_current s \<and> g_next_pid s' = g_next_pid s
    \<and> g_kernel_fds s' = g_kernel_fds s \<and> (\<forall>a. a \<noteq> 0 \<longrightarrow> map_option refcount (files s' a) = map_option (\<lambda>vf. refcount vf + int (count_list fs a)) (files s a))"
  using assms
proof (induction fs arbitrary: s)
  case Nil
  then show ?case by (simp add: option.map_comp comp_def)
next
  case (Cons f fs)
  show ?case
  proof (cases "f = 0")
    case True
    then show ?thesis using Cons by (simp add: fd_hold_def)
  next
    case False
    then obtain vf where vf: "file_at f s = Some vf" using Cons.prems(2) by auto
    define s1 where "s1 = put_file f (vf\<lparr>refcount := refcount vf + 1\<rparr>) s"
    have "vfs_ok s1" unfolding s1_def by (rule vfs_ok_refcount [OF Cons.prems(1) vf])
    moreover have "\<forall>g\<in>set fs. g = 0 \<or> file_at g s1 \<noteq> None" using Cons.prems(2) by (auto simp: s1_def file_at_put)
    ultimately obtain s' where s': "hold_fds fs s1 = Some s'" "vfs_ok s'" "g_tasks s' = g_tasks s1" "g_current s' = g_current s1"
      "g_next_pid s' = g_next_pid s1" "g_kernel_fds s' = g_kernel_fds s1"
      "\<forall>a. a \<noteq> 0 \<longrightarrow> map_option refcount (files s' a) = map_option (\<lambda>vf. refcount vf + int (count_list fs a)) (files s1 a)"
      using Cons.IH [of s1] by blast
    have "map_option (\<lambda>v. refcount v + int (count_list fs a)) (files s1 a) = map_option (\<lambda>v. refcount v + int (count_list (f # fs) a)) (files s a)" for a
    proof (cases "is_static f")
      case True
      then have "a = f \<Longrightarrow> files s a = None" using vfs_ok_static [OF Cons.prems(1)] by (cases "files s a") auto
      then show ?thesis using True by (auto simp: s1_def files_put)
    next
      case False
      then have "files s f = Some vf" using vf by (simp add: file_at_def)
      then show ?thesis using False by (auto simp: s1_def files_put)
    qed
    then show ?thesis using s' False vf by (simp add: fd_hold_def s1_def)
  qed
qed
text \<open>The copy of a live task, with its descriptors held.\<close>

lemma adopt_ok:
  assumes "kinv s" "c < 8" "t_state (task_at s c) = TASK_UNUSED" "p < 8" "t_state (task_at s p) \<noteq> TASK_UNUSED"
    "t_state tk = TASK_READY" "pid tk = g_next_pid s" "fds tk = fds (task_at s p)" "task_wf tk"
    "vfs_ok s4" "g_tasks s4 = (g_tasks s)[c := tk]" "g_current s4 = g_current s" "g_next_pid s4 = g_next_pid s + 1" "g_kernel_fds s4 = g_kernel_fds s"
    "\<forall>a. a \<noteq> 0 \<longrightarrow> map_option refcount (files s4 a) = map_option (\<lambda>vf. refcount vf + int (count_list (fds tk) a)) (files s a)"
  shows "kinv s4"
proof -
  note F = fd_okD [OF kinvD(2) [OF assms(1)]]
  note l = tasks_wfD(1) [OF F(2)]
  define s1 where "s1 = upd_task c (\<lambda>_. tk) s\<lparr>g_next_pid := g_next_pid s + 1\<rparr>"
  have "sched_ok s1" unfolding s1_def by (rule spawn_ok [OF kinvD(1) [OF assms(1)] assms(2,3,6,7,9)])
  then have so: "sched_ok s4" using sched_ok_cong [of s4 s1] assms(11-13) by (simp add: s1_def upd_task_def)
  have "refs s4 a = refs s1 a" for a using assms(11,14) by (intro refs_cong) (simp_all add: s1_def upd_task_def)
  moreover have "refs s1 a = refs s a + count_list (fds tk) a" for a
    using refs_upd [OF assms(2) l, of "\<lambda>_. tk" a] assms(3,6) by (simp add: s1_def task_refs_def refs_def)
  ultimately have r: "refs s4 a = refs s a + count_list (fds tk) a" for a by simp
  have "tasks_wf s4" using so by (simp add: sched_ok_def tasks_wf_def)
  moreover have "is_static a \<or> (\<exists>vf. files s4 a = Some vf \<and> int (refs s4 a) \<le> refcount vf)" if q: "a \<noteq> 0" "0 < refs s4 a" for a
  proof -
    have "0 < refs s a"
    proof (rule ccontr)
      assume z: "\<not> 0 < refs s a"
      then have n: "0 < count_list (fds (task_at s p)) a" using q(2) r [of a] assms(8) by simp
      have "a \<in> set (table (Some p) s)" by (rule ccontr) (use n in \<open>simp add: table_def\<close>)
      then obtain i where "i < 16" "table (Some p) s ! i = a"
        using table_length [OF kinvD(2) [OF assms(1)], of "Some p"] assms(4,5) by (auto simp: in_set_conv_nth table_live_def)
      then show False using slot_refs [OF kinvD(2) [OF assms(1)], of "Some p" i] z assms(4,5) by (simp add: table_live_def)
    qed
    from F(4) [OF q(1) this] show ?thesis using assms(15) [rule_format, OF q(1)] r [of a] by auto
  qed
  ultimately show ?thesis using so assms(10,14) F(3) by (simp add: kinv_def fd_ok_def)
qed

lemma task_fork_law:
  assumes "kinv s" "\<forall>p. parentp = Some p \<longrightarrow> p < 8 \<and> t_state (task_at s p) \<noteq> TASK_UNUSED"
  shows "\<exists>cp s'. task_fork parentp s = Some (cp, s') \<and> kinv s'"
proof (cases "parentp = None \<or> alloc_slot s = None")
  case True
  then show ?thesis using assms(1) by (auto simp: task_fork_def split: option.split)
next
  case False
  then obtain p c where pc: "parentp = Some p" "alloc_slot s = Some c" by auto
  note c = alloc_slot_unused [OF pc(2)]
  have p: "p < 8" "t_state (task_at s p) \<noteq> TASK_UNUSED" using assms(2) pc(1) by auto
  then have cp: "c \<noteq> p" using c by auto
  note F = fd_okD [OF kinvD(2) [OF assms(1)]]
  note l = tasks_wfD(1) [OF F(2)]
  define tk where "tk = (task_at s p)\<lparr>pid := g_next_pid s, t_parent := Some p, t_state := TASK_READY,
                         exit_code := 0, term_sig := 0, sig_pending := 0, user_pages := [], t_pml4 := 0\<rparr>"
  define s1 where "s1 = upd_task c (\<lambda>_. tk) s\<lparr>g_next_pid := g_next_pid s + 1\<rparr>"
  obtain kphys s2 where s2: "pmm_take s1 = (kphys, s2)" by (rule prod.exhaust)
  define s3 where "s3 = upd_task c (\<lambda>tk. tk\<lparr>kernel_stack := kphys, kernel_stack_top := kphys + PAGE_SIZE\<rparr>)
      (s2\<lparr>kpg := (kpg s2)\<lparr>pmem := copy_page kphys (kernel_stack (task_at s2 p)) (pmem (kpg s2))\<rparr>\<rparr>)"
  define tk3 where "tk3 = tk\<lparr>kernel_stack := kphys, kernel_stack_top := kphys + PAGE_SIZE\<rparr>"
  define m where "m = snd (pmm_alloc_page (pt_pmm (kpg s1)))"
  have s2': "s2 = s1\<lparr>kpg := (kpg s1)\<lparr>pt_pmm := m\<rparr>\<rparr>" using s2 by (auto simp: pmm_take_def m_def split: prod.splits)
  have w: "task_wf (task_at s p)" "task_wf tk" "task_wf tk3" using tasks_wfD(2) [OF F(2) p(1)] by (simp_all add: tk_def tk3_def task_wf_def)
  have fd: "fds tk = fds (task_at s p)" "fds tk3 = fds (task_at s p)" by (simp_all add: tk_def tk3_def)
  have g3: "g_tasks s3 = (g_tasks s)[c := tk3]" using c l by (simp add: s3_def s2' s1_def upd_task_def tk3_def)
  have live: "table_live (Some p) s" using p by (simp add: table_live_def)
  show ?thesis
  proof (cases "kphys = 0")
    case True
    have "kinv (set_state c TASK_UNUSED s2)"
    proof -
      have so: "sched_ok s1" unfolding s1_def
        by (rule spawn_ok [OF kinvD(1) [OF assms(1)]]) (use c w in \<open>simp_all add: tk_def\<close>)
      then have "sched_ok s2" using sched_ok_cong [of s2 s1] by (simp add: s2')
      moreover have "g_current s2 \<noteq> Some c" using sched_okD(3) [OF kinvD(1) [OF assms(1)], of c] c by (auto simp: s2' s1_def)
      ultimately have r: "sched_ok (set_state c TASK_UNUSED s2)" using retire_ok c by blast
      have "task_refs (task_at (set_state c TASK_UNUSED s2) t) a = task_refs (task_at s t) a" if "t < 8" for t a
        using c l that by (cases "t = c") (auto simp: set_state_def upd_task_def s2' s1_def task_refs_def)
      then have "refs (set_state c TASK_UNUSED s2) a = refs s a" for a by (intro refs_cong) (simp_all add: set_state_def s2' s1_def)
      then have "fd_ok (set_state c TASK_UNUSED s2)"
        using r F(1,3) by (intro fd_ok_step [OF kinvD(2) [OF assms(1)]]) (simp_all add: set_state_def s2' s1_def sched_ok_def tasks_wf_def)
      then show ?thesis using r by (simp add: kinv_def)
    qed
    moreover have "task_fork parentp s = Some (None, set_state c TASK_UNUSED s2)"
      using pc s2 True unfolding task_fork_def Let_def s1_def tk_def by simp
    ultimately show ?thesis by simp
  next
    case nz: False
    have v3: "vfs_ok s3" using F(1) by (simp add: s3_def s2' s1_def)
    have "\<forall>f\<in>set (fds (task_at s3 c)). f = 0 \<or> file_at f s3 \<noteq> None"
    proof
      fix f assume "f \<in> set (fds (task_at s3 c))"
      then have "f \<in> set (table (Some p) s)" using g3 c l fd by (simp add: table_def)
      then obtain i where i: "i < 16" "table (Some p) s ! i = f"
        using table_length [OF kinvD(2) [OF assms(1)] live] by (auto simp: in_set_conv_nth)
      show "f = 0 \<or> file_at f s3 \<noteq> None"
      proof (cases "f = 0")
        case False
        then obtain vf where "file_at f s = Some vf" using slot_file [OF kinvD(2) [OF assms(1)] live i(1)] i(2) by auto
        moreover have "file_at f s3 = file_at f s" by (simp add: s3_def s2' s1_def file_at_def)
        ultimately show ?thesis by simp
      qed simp
    qed
    then obtain s4 where h: "hold_fds (fds (task_at s3 c)) s3 = Some s4" "vfs_ok s4" "g_tasks s4 = g_tasks s3" "g_current s4 = g_current s3"
      "g_next_pid s4 = g_next_pid s3" "g_kernel_fds s4 = g_kernel_fds s3"
      "\<forall>a. a \<noteq> 0 \<longrightarrow> map_option refcount (files s4 a) = map_option (\<lambda>vf. refcount vf + int (count_list (fds (task_at s3 c)) a)) (files s3 a)"
      using hold_fds_law [OF v3] by blast
    have f3: "fds (task_at s3 c) = fds tk3" "files s3 = files s" using g3 c l by (simp_all add: s3_def s2' s1_def)
    have k4: "kinv s4"
      by (rule adopt_ok [OF assms(1) _ _ p, where c = c and tk = tk3])
        (use c w fd g3 f3 h in \<open>simp_all add: tk3_def tk_def\<close>, simp_all add: s3_def s2' s1_def)
    obtain child_pml4 pg pages where cp: "vmm_copy_user_page_tables (paging_cr3 (kpg s4)) (kpg s4, user_pages (task_at s4 c)) = (child_pml4, pg, pages)"
      by (metis prod_cases3)
    define s5 where "s5 = upd_task c (\<lambda>tk. tk\<lparr>user_pages := pages\<rparr>) (s4\<lparr>kpg := pg\<rparr>)"
    have k5: "kinv s5" unfolding s5_def by (rule kinv_upd) (use k4 in simp_all)
    have r5: "t_state (task_at s5 c) = TASK_READY" using h(3) g3 c l by (simp add: s5_def upd_task_def tk3_def tk_def)
    have "task_fork parentp s = (if child_pml4 = 0 then Some (None, set_state c TASK_UNUSED (pmm_give kphys s5))
        else Some (Some c, upd_task c (\<lambda>tk. tk\<lparr>t_pml4 := child_pml4\<rparr>) s5))"
      using pc s2 nz h(1) cp unfolding task_fork_def Let_def s1_def tk_def s3_def s5_def by simp
    moreover have "kinv (set_state c TASK_UNUSED (pmm_give kphys s5))" by (rule kinv_retire) (use k5 c r5 in simp_all)
    moreover have "kinv (upd_task c (\<lambda>tk. tk\<lparr>t_pml4 := child_pml4\<rparr>) s5)" by (rule kinv_upd [OF k5]) simp_all
    ultimately show ?thesis by simp
  qed
qed
section \<open>Ending, reaping, waiting\<close>

definition run_ok :: "(('n, 'a) ks \<Rightarrow> bool) \<Rightarrow> ('r, ('n, 'a) ks) run \<Rightarrow> bool" where
  "run_ok P r = (case r of Wild \<Rightarrow> False | Idle s \<Rightarrow> P s | Ret x s \<Rightarrow> P s)"

lemma run_ok_simps [simp]: "\<not> run_ok P Wild" "run_ok P (Idle s) = P s" "run_ok P (Ret x s) = P s"
  by (simp_all add: run_ok_def)

lemma destroy_space_keeps:
  assumes "fd_ok s"
  shows "fd_ok (destroy_space t s)" "same_sched s (destroy_space t s)"
proof -
  define s1 where "s1 = s\<lparr>kpg := vmm_destroy_address_space (t_pml4 (task_at s t)) (kpg s)\<rparr>"
  have d: "destroy_space t s = upd_task t (\<lambda>tk. tk\<lparr>t_pml4 := 0, user_pages := []\<rparr>) s1" by (simp add: destroy_space_def s1_def)
  have "map view (g_tasks (upd_task t (\<lambda>tk. tk\<lparr>t_pml4 := 0, user_pages := []\<rparr>) s1)) = map view (g_tasks s1)"
    by (rule view_upd) (simp add: view_def task_wf_def)
  moreover have "map kin (g_tasks (upd_task t (\<lambda>tk. tk\<lparr>t_pml4 := 0, user_pages := []\<rparr>) s1)) = map kin (g_tasks s1)"
    by (rule kin_upd) (simp add: kin_def)
  ultimately show "same_sched s (destroy_space t s)" by (simp add: d same_sched_def s1_def)
  have f: "fd_ok s1" using assms by (simp add: s1_def)
  show "fd_ok (destroy_space t s)"
  proof (cases "t < 8")
    case True
    then show ?thesis using tasks_wfD(2) [OF fd_okD(2) [OF f] True] unfolding d
      by (intro fd_ok_upd [OF f]) (simp_all add: task_wf_def task_refs_def)
  next
    case False
    then show ?thesis using f tasks_wfD(1) [OF fd_okD(2) [OF f]] by (simp add: d upd_task_out)
  qed
qed

text \<open>What the parent sees of a task that ended.\<close>

definition ended :: "int \<Rightarrow> ('n, 'a) ks \<Rightarrow> ('n, 'a) ks \<Rightarrow> bool" where
  "ended code s s' \<longleftrightarrow> (\<forall>t. g_current s = Some t \<longrightarrow> t_state (task_at s' t) = TASK_ZOMBIE \<and> pid (task_at s' t) = pid (task_at s t)
     \<and> kin (task_at s' t) = (code, t_parent (task_at s t)))"

lemma leave_for_kernel_sel [simp]: "g_tasks (leave_for_kernel s) = g_tasks s" "fd_ok (leave_for_kernel s) = fd_ok s" "g_next_pid (leave_for_kernel s) = g_next_pid s"
  by (simp_all add: leave_for_kernel_def)

lemma sched_ok_switch:
  assumes "map view (g_tasks s') = map view (g_tasks s)" "g_next_pid s' = g_next_pid s" "n < length (g_tasks s)"
  shows "sched_ok (task_activate (Some n) (set_state n TASK_RUNNING s'\<lparr>g_current := Some n\<rparr>))
    = sched_ok (task_activate (Some n) (set_state n TASK_RUNNING s\<lparr>g_current := Some n\<rparr>))"
  using assms map_eq_nth [OF assms(1,3)] set_state_view [of n TASK_RUNNING s] set_state_view [of n TASK_RUNNING s']
  by (intro sched_ok_view) (simp_all, simp add: set_state_def)

context disk
begin

lemma task_exit_ended:
  assumes "kinv s"
  shows "case task_exit_current F code s of
      Wild \<Rightarrow> False
    | Idle s' \<Rightarrow> kinv s' \<and> ended code s s' \<and> (\<forall>u<8. t_state (task_at s u) \<noteq> TASK_READY)
    | Ret x s' \<Rightarrow> kinv s' \<and> ended code s s'"
proof (cases "g_current s")
  case None
  then show ?thesis using assms by (simp add: task_exit_current_def ended_def)
next
  case (Some t)
  note O = sched_okD [OF kinvD(1) [OF assms]] and fo = kinvD(2) [OF assms]
  note t = O(4) [OF Some]
  have live: "t_state (task_at s t) \<noteq> TASK_UNUSED" using O(3) [OF t] Some by simp
  define s1 where "s1 = upd_task t (\<lambda>tk. tk\<lparr>exit_code := code, t_state := TASK_ZOMBIE\<rparr>) s"
  define s2 where "s2 = signal_on_exit t s1"
  have f1: "fd_ok s1" unfolding s1_def
    by (rule fd_ok_upd [OF fo]) (use O(2) [OF t] live in \<open>simp_all add: task_wf_def task_refs_def\<close>)
  have f2: "fd_ok s2"
  proof -
    have "fd_ok (signal_send tp sig x)" if "fd_ok x" for tp sig and x :: "('n, 'a) ks"
      using fd_ok_same [OF that _ calm_signal] fd_okD(1) [OF that] by (simp add: signal_send_def split: option.split)
    then show ?thesis using f1 by (simp add: s2_def signal_on_exit_def split: option.split)
  qed
  have v2: "map view (g_tasks s2) = map view (g_tasks (set_state t TASK_ZOMBIE s))"
    using set_state_view [of t TASK_ZOMBIE s] by (simp add: s2_def signal_on_exit_view) (simp add: s1_def upd_task_def map_update view_def task_wf_def)
  have z2: "t_state (task_at s2 t) = TASK_ZOMBIE"
  proof -
    have "view (task_at s2 t) = view (task_at (set_state t TASK_ZOMBIE s) t)" by (rule map_eq_nth [OF v2]) (use O(1) t in \<open>simp add: set_state_def\<close>)
    then show ?thesis using O(1) t by (simp add: view_def set_state_def upd_task_at)
  qed
  obtain s3 where d: "drop_fds F t [0..<16] s2 = Some s3" "fd_ok s3" "same_sched s2 s3"
    using drop_fds_law [OF f2 t, of "[0..<16]"] z2 by auto
  have v3: "map view (g_tasks s3) = map view (g_tasks (set_state t TASK_ZOMBIE s))" "g_next_pid s3 = g_next_pid s"
    using d(3) v2 by (simp_all add: same_sched_def) (simp add: s2_def s1_def)
  have k2: "map kin (g_tasks s2) = (map kin (g_tasks s))[t := (code, t_parent (task_at s t))]"
  proof -
    have "map kin (g_tasks (signal_send tp sig x)) = map kin (g_tasks x)" for tp sig and x :: "('n, 'a) ks"
      by (auto simp: signal_send_def kin_def intro!: kin_upd split: option.split)
    then have "map kin (g_tasks s2) = map kin (g_tasks s1)" by (simp add: s2_def signal_on_exit_def split: option.split)
    then show ?thesis by (simp add: s1_def upd_task_def map_update kin_def)
  qed
  have l3: "length (g_tasks s3) = 8" by (rule tasks_wfD(1) [OF fd_okD(2) [OF d(2)]])
  have e3: "t_state (task_at s3 t) = TASK_ZOMBIE" "pid (task_at s3 t) = pid (task_at s t)" "kin (task_at s3 t) = (code, t_parent (task_at s t))"
  proof -
    have "view (task_at s3 t) = view (task_at (set_state t TASK_ZOMBIE s) t)"
      by (rule map_eq_nth [OF v3(1)]) (use O(1) t in \<open>simp add: set_state_def\<close>)
    then show "t_state (task_at s3 t) = TASK_ZOMBIE" "pid (task_at s3 t) = pid (task_at s t)"
      using O(1) t by (simp_all add: view_def set_state_def upd_task_at)
    have "map kin (g_tasks s3) ! t = (code, t_parent (task_at s t))" using d(3) k2 O(1) t by (simp add: same_sched_def)
    then show "kin (task_at s3 t) = (code, t_parent (task_at s t))" using l3 t by simp
  qed
  show ?thesis
  proof (cases "pick_next (Some t) s3")
    case None
    define s4 where "s4 = leave_for_kernel s3"
    have f4: "fd_ok (s4)" using d(2) by (simp add: s4_def)
    note D = destroy_space_keeps [OF f4, of t]
    define s5 where "s5 = destroy_space t s4\<lparr>g_current := None, g_exit_all_hook := False\<rparr>"
    have "sched_ok s5 = sched_ok (set_state t TASK_ZOMBIE s\<lparr>g_current := None\<rparr>)"
      using D(2) v3 by (intro sched_ok_view) (simp_all add: same_sched_def s5_def s4_def, simp add: set_state_def)
    then have "sched_ok s5" using stop_ok [OF kinvD(1) [OF assms] Some] by blast
    moreover have "fd_ok s5" using D(1) by (simp add: s5_def)
    moreover have "task_exit_current F code s = Idle s5"
      using Some d(1) None unfolding task_exit_current_def Let_def s1_def s2_def s4_def s5_def by simp
    moreover have "ended code s s5"
      using same_sched_task(2,3) [OF D(2), of t] e3 l3 t Some by (simp add: ended_def s5_def s4_def)
    moreover have "t_state (task_at s u) \<noteq> TASK_READY" if u: "u < 8" for u
    proof
      assume r: "t_state (task_at s u) = TASK_READY"
      then have ut: "u \<noteq> t" using O(3) [OF t] Some by auto
      have "view (task_at s3 u) = view (task_at (set_state t TASK_ZOMBIE s) u)"
        by (rule map_eq_nth [OF v3(1)]) (use O(1) u in \<open>simp add: set_state_def\<close>)
      then have "t_state (task_at s3 u) = TASK_READY" using O(1) t ut r by (simp add: view_def set_state_def upd_task_at)
      then show False using pick_next_first [OF t u _ ut] None by (metis option.discI)
    qed
    ultimately show ?thesis by (simp add: kinv_def)
  next
    case n: (Some n)
    note r = pick_next_ready [OF n]
    have ln: "n < length (g_tasks (set_state t TASK_ZOMBIE s))" using r(1) O(1) by (simp add: set_state_def)
    have "view (task_at s3 n) = view (task_at (set_state t TASK_ZOMBIE s) n)" by (rule map_eq_nth [OF v3(1) ln])
    then have rn: "t_state (task_at s n) = TASK_READY" using r O(1) t by (cases "n = t") (auto simp: view_def set_state_def upd_task_at)
    define s4 where "s4 = task_activate (Some n) (set_state n TASK_RUNNING s3\<lparr>g_current := Some n\<rparr>)"
    have f4: "fd_ok s4" using fd_ok_set_state [OF d(2) r(1), of TASK_RUNNING] r(2) by (simp add: s4_def)
    note D = destroy_space_keeps [OF f4, of t]
    have np: "g_next_pid s3 = g_next_pid (set_state t TASK_ZOMBIE s)" using v3(2) by (simp add: set_state_def)
    have "sched_ok (destroy_space t s4)"
      using same_sched_ok [OF D(2)] sched_ok_switch [OF v3(1) np ln]
        switch_ok [OF kinvD(1) [OF assms] Some r(1) rn, of TASK_ZOMBIE] by (simp add: s4_def)
    moreover have "task_exit_current F code s = Ret () (destroy_space t s4)"
      using Some d(1) n unfolding task_exit_current_def Let_def s1_def s2_def s4_def by simp
    moreover have "n \<noteq> t" using r(2) e3(1) by auto
    then have "task_at s4 t = task_at s3 t" "length (g_tasks s4) = 8" using l3 r(1) t by (simp_all add: s4_def set_state_def upd_task_at)
    then have "ended code s (destroy_space t s4)"
      using same_sched_task(2,3) [OF D(2), of t] e3 t Some by (simp add: ended_def)
    ultimately show ?thesis using D(1) by (simp add: kinv_def)
  qed
qed

lemma task_exit_law: "kinv s \<Longrightarrow> run_ok kinv (task_exit_current F code s)"
  using task_exit_ended [of s code] by (simp add: run_ok_def split: run.splits)

lemma task_exit_returns:
  assumes "kinv s" "u < 8" "t_state (task_at s u) = TASK_READY"
  obtains s' where "task_exit_current F code s = Ret () s'" "kinv s'" "ended code s s'"
  using task_exit_ended [OF assms(1), of code] assms(2,3) that by (auto split: run.splits)

lemma task_reap_law:
  assumes "kinv s" "t < 8" "t_state (task_at s t) = TASK_ZOMBIE"
  shows "\<exists>s'. task_reap F (Some t) s = Some s' \<and> kinv s' \<and> t_state (task_at s' t) = TASK_UNUSED"
proof -
  define k where "k = kernel_stack (task_at s t)"
  define s1 where "s1 = upd_task t (\<lambda>tk. tk\<lparr>kernel_stack := 0\<rparr>) (if k \<noteq> 0 then pmm_give k s else s)"
  have k1: "kinv s1" unfolding s1_def by (rule kinv_upd) (use assms(1) in simp_all)
  have z: "t_state (task_at s1 t) = TASK_ZOMBIE" "length (g_tasks s1) = 8"
    using assms(2,3) sched_okD(1) [OF kinvD(1) [OF assms(1)]] by (simp_all add: s1_def upd_task_at)
  obtain s2 where d: "drop_fds F t [0..<16] s1 = Some s2" "fd_ok s2" "same_sched s1 s2"
    using drop_fds_law [OF kinvD(2) [OF k1] assms(2), of "[0..<16]"] z by auto
  have k2: "kinv s2" using d same_sched_ok [OF d(3)] kinvD(1) [OF k1] by (simp add: kinv_def)
  have "t_state (task_at s2 t) = TASK_ZOMBIE" using same_sched_task(2) [OF d(3), of t] z assms(2) by simp
  then have "kinv (set_state t TASK_UNUSED s2)" by (intro kinv_retire [OF k2 assms(2)]) simp
  moreover have "task_reap F (Some t) s = Some (set_state t TASK_UNUSED s2)"
    using d(1) unfolding task_reap_def Let_def s1_def k_def by simp
  moreover have "t_state (task_at (set_state t TASK_UNUSED s2) t) = TASK_UNUSED"
    using assms(2) sched_okD(1) [OF kinvD(1) [OF k2]] by (simp add: set_state_def upd_task_at)
  ultimately show ?thesis by simp
qed

lemma task_wait_law:
  assumes "kinv s"
  shows "\<exists>r st s'. task_wait F want s = Some (r, st, s') \<and> kinv s'"
proof (cases "task_current s")
  case None
  then show ?thesis using assms by (simp add: task_wait_def)
next
  case (Some p)
  define w where "w = (if want < -1 then - want else if want < 0 then 0 else want)"
  show ?thesis
  proof (cases "find (\<lambda>i. t_state (task_at s i) = TASK_ZOMBIE) (waited p w s)")
    case None
    then show ?thesis using assms Some by (simp add: task_wait_def w_def)
  next
    case v: (Some v)
    have "v < 8" "t_state (task_at s v) = TASK_ZOMBIE" using find_Some_nth [OF v] by (auto simp: waited_def)
    then obtain s' where "task_reap F (Some v) s = Some s'" "kinv s'" using task_reap_law [OF assms] by blast
    then show ?thesis using Some v by (simp add: task_wait_def w_def)
  qed
qed

section \<open>Delivering signals\<close>

lemma deliver_loop_law: "kinv s \<Longrightarrow> run_ok kinv (deliver_loop F t pend sigs s)"
proof (induction sigs arbitrary: s)
  case (Cons sig sigs)
  define s1 where "s1 = upd_task t (\<lambda>tk. tk\<lparr>sig_pending := sig_pending tk AND NOT (sigbit sig)\<rparr>) s"
  have k1: "kinv s1" unfolding s1_def by (rule kinv_upd [OF Cons.prems]) simp_all
  have k2: "kinv (upd_task t (\<lambda>tk. tk\<lparr>term_sig := sig\<rparr>) s1)" by (rule kinv_upd [OF k1]) simp_all
  show ?case using Cons.IH [OF Cons.prems] Cons.IH [OF k1] task_exit_law [OF k2, of sig]
    unfolding deliver_loop.simps Let_def s1_def [symmetric] by (simp only: split: if_split) blast
qed simp

lemma signal_deliver_law: "kinv s \<Longrightarrow> run_ok kinv (signal_deliver_current F s)"
  by (simp add: signal_deliver_current_def deliver_loop_law split: option.split)

end

section \<open>Switching\<close>

lemma kinv_switch:
  assumes "kinv s" "g_current s = Some t" "n < 8" "t_state (task_at s n) = TASK_READY"
  shows "kinv (task_activate (Some n) (set_state n TASK_RUNNING (set_state t TASK_READY s)\<lparr>g_current := Some n\<rparr>))"
proof -
  note O = sched_okD [OF kinvD(1) [OF assms(1)]]
  have t: "t < 8" "t_state (task_at s t) = TASK_RUNNING" using O(4) [OF assms(2)] O(3) assms(2) by blast+
  have f1: "fd_ok (set_state t TASK_READY s)" by (rule fd_ok_set_state [OF kinvD(2) [OF assms(1)] t(1)]) (simp add: t(2))
  have "t_state (task_at (set_state t TASK_READY s) n) \<noteq> TASK_UNUSED"
    using O(1) t assms(3,4) by (cases "n = t") (simp_all add: set_state_def upd_task_at)
  then have "fd_ok (set_state n TASK_RUNNING (set_state t TASK_READY s))" by (intro fd_ok_set_state [OF f1 assms(3)]) simp
  then show ?thesis using switch_ok [OF kinvD(1) [OF assms(1)] assms(2-4), of TASK_READY] by (simp add: kinv_def)
qed

lemma task_yield_law: "kinv s \<Longrightarrow> kinv (task_yield s)"
  using kinv_switch [of s] pick_next_ready [of _ s] by (simp add: task_yield_def split: option.split)

end
