(* ===== verification/Diskless.thy ===== *)
theory Diskless
  imports Task_Inv
begin

text \<open>
  The operations of \<open>src/kernel/fs/fat.c\<close> on a machine that boots without a volume (the kernel
  goes on when \<open>fs_init\<close> fails). All fields of \<open>g_fat\<close> are zero then: the directory searches
  visit no sector and find nothing, no FAT type allows writing, and the root directory is the
  only file that can be opened. These definitions are the operations specialised to that
  state; they keep the contract of the locale \<open>disk\<close>.
\<close>

definition fat_open_root :: "string \<Rightarrow> nat \<Rightarrow> ('n, 'a) ks \<Rightarrow> (int \<times> nat \<times> ('n, 'a) ks) option" where
  "fat_open_root path flags s =
    (if dropWhile (\<lambda>c. c = SLASH) path \<noteq> [] then Some (-1, 0, s)
     else
       case kmalloc sizeof_vfs_file (kheap s) of
         (p, h) \<Rightarrow>
           if p = 0 then Some (-1, 0, s\<lparr>kheap := h\<rparr>)
           else Some (0, p, s\<lparr>kheap := h, files := (files s)(p \<mapsto> zero_file\<lparr>f_ops := FatOps, is_dir := True\<rparr>)\<rparr>))"

definition fat_close_root :: "nat \<Rightarrow> ('n, 'a) ks \<Rightarrow> (int \<times> ('n, 'a) ks) option" where
  "fat_close_root f s = Some (0, free_file f s)"

definition fat_getdents_root :: "nat \<Rightarrow> nat \<Rightarrow> ('n, 'a) ks \<Rightarrow> (int \<times> (nat \<times> bytes) list \<times> ('n, 'a) ks) option" where
  "fat_getdents_root f len s =
    (case files s f of None \<Rightarrow> None | Some vf \<Rightarrow> if is_dir vf then Some (0, [], s) else Some (-20, [], s))"

text \<open>\<open>st_ino\<close> and \<open>st_nlink\<close> are 1, the mode is \<open>S_IFDIR | 0555\<close>.\<close>

definition fat_fstat_root :: "nat \<Rightarrow> ('n, 'a) ks \<Rightarrow> (int \<times> bytes \<times> ('n, 'a) ks) option" where
  "fat_fstat_root f s =
    Some (0, le_bytes 8 0 @ le_bytes 8 1 @ le_bytes 8 1 @ le_bytes 4 16749 @ le_bytes 12 0 @ le_bytes 16 0 @ le_bytes 8 512 @ le_bytes 80 0, s)"

definition diskless_table :: "('n, 'a) ks fs_ops" where
  "diskless_table = \<lparr>op_open = fat_open_root, op_read = (\<lambda>f len s. Some (-1, 0, [], s)), op_write = (\<lambda>f src s. Some (-1, 0, s)),
     op_close = fat_close_root, op_readdir_root = (\<lambda>s. (0, [])), op_getdents64 = fat_getdents_root, op_fstat = fat_fstat_root,
     op_mkdir = (\<lambda>p mode s. (-1, s)), op_unlink = (\<lambda>p s. (-1, s)), op_rmdir = (\<lambda>p s. (-1, s)), op_rename = (\<lambda>p q s. (-1, s))\<rparr>"

lemma files_ok_other:
  assumes "files_ok s" "kobj_ok s'" "pframe s s'" "pipes s' = pipes s" "files s' = (files s)(f := x)"
    "\<forall>vf. x = Some vf \<longrightarrow> f_ops vf = FatOps" "\<forall>vf. files s f = Some vf \<longrightarrow> f_ops vf = FatOps"
  shows "files_ok s'" "same_proc s s'"
proof -
  have "ramfs_ok s'"
    by (rule ramfs_ok_pipes [OF files_okD(1) [OF assms(1)] assms(2,3)]) (use assms(5,6) in \<open>auto split: if_splits\<close>)
  moreover have "pipe_sys_ok s'"
    by (rule pipe_ok_other [OF files_okD(2) [OF assms(1)] assms(2,4,5)]) (use assms(6,7) in auto)
  ultimately show "files_ok s'" by (simp add: files_ok_def)
  show "same_proc s s'" using assms(3) by (simp add: pframe_def same_proc_def)
qed

lemma fat_open_root_law:
  fixes s :: "('n, 'a) ks"
  assumes ok: "files_ok s"
  shows "\<exists>r f s'. fat_open_root path flags s = Some (r, f, s') \<and> files_ok s' \<and> same_proc s s'
    \<and> (if r = 0 then \<exists>vf. files s f = None \<and> files s' = (files s)(f \<mapsto> vf) \<and> f_ops vf = FatOps \<and> is_console vf = 0 \<and> is_socket vf = 0
       else files s' = files s)"
proof (cases "dropWhile (\<lambda>c. c = SLASH) path = []")
  case False
  then show ?thesis using ok by (simp add: fat_open_root_def)
next
  case True
  obtain p h where k: "kmalloc 56 (kheap s) = (p, h)" by (rule prod.exhaust)
  note m = kmalloc_ok [OF files_okD(3) [OF ok] _ k]
  show ?thesis
  proof (cases "p = 0")
    case zero: True
    have "files_ok (s\<lparr>kheap := h\<rparr>)" "same_proc s (s\<lparr>kheap := h\<rparr>)"
      using files_ok_same [OF ok, of "s\<lparr>kheap := h\<rparr>"] m(1) ramfs_okD(1) files_okD(1) [OF ok] by (simp_all add: ramfs_ok_def)
    then show ?thesis using True zero k by (simp add: fat_open_root_def)
  next
    case nz: False
    define vf where "vf = zero_file\<lparr>f_ops := FatOps, is_dir := True\<rparr>"
    define s' where "s' = s\<lparr>kheap := h, files := (files s)(p \<mapsto> vf)\<rparr>"
    have fresh: "p \<notin> objects s" using kmalloc_fresh [OF files_okD(3) [OF ok] _ k nz] by simp
    then have n: "files s p = None" by (auto simp: objects_def)
    have "kobj_ok ((s\<lparr>kheap := h\<rparr>)\<lparr>files := (files (s\<lparr>kheap := h\<rparr>))(p \<mapsto> vf)\<rparr>)"
      by (rule kobj_ok_add(1)) (use m nz fresh in \<open>simp_all add: objects_def\<close>)
    then have k': "kobj_ok s'" by (simp add: s'_def)
    have fr: "pframe s s'" "pipes s' = pipes s" "files s' = (files s)(p := Some vf)" by (simp_all add: s'_def)
    have v: "f_ops vf = FatOps" "is_console vf = 0" "is_socket vf = 0" by (simp_all add: vf_def zero_file_def)
    have "files_ok s'" "same_proc s s'"
      by (rule files_ok_other [OF ok k' fr]; simp add: n v)+
    moreover have "fat_open_root path flags s = Some (0, p, s')" using True nz k by (simp add: fat_open_root_def s'_def vf_def)
    ultimately show ?thesis using n v fr(3) by (simp add: exI [of _ vf])
  qed
qed

interpretation diskless: disk "diskless_table :: ('n, 'a) ks fs_ops"
proof unfold_locales
  fix s :: "('n, 'a) ks" and path flags
  assume "files_ok s"
  then show "\<exists>r f s'. op_open diskless_table path flags s = Some (r, f, s') \<and> files_ok s' \<and> same_proc s s' \<and>
      (if r = 0 then \<exists>vf. files s f = None \<and> files s' = (files s)(f \<mapsto> vf) \<and> f_ops vf = FatOps \<and> is_console vf = 0 \<and> is_socket vf = 0
       else files s' = files s)"
    using fat_open_root_law [of s path flags] by (simp add: diskless_table_def)
next
  fix s :: "('n, 'a) ks" and f vf
  assume a: "files_ok s" "files s f = Some vf" "f_ops vf = FatOps"
  have "kobj_ok (free_file f s)" using free_obj_ok(1) [OF files_okD(3) [OF a(1)]] a(2) by blast
  then have "files_ok (free_file f s)" "same_proc s (free_file f s)"
    using files_ok_other [OF a(1), of "free_file f s" f None] a by (simp_all add: free_file_def)
  then show "\<exists>r s'. op_close diskless_table f s = Some (r, s') \<and> files_ok s' \<and> same_proc s s' \<and> files s' = (files s)(f := None)"
    by (simp add: diskless_table_def fat_close_root_def free_file_def)
next
  fix s :: "('n, 'a) ks" and f vf
  have l: "length (le_bytes n x) = n" for n x by (induction n arbitrary: x) auto
  assume "files_ok s"
  then show "\<exists>r bs s'. op_fstat diskless_table f s = Some (r, bs, s') \<and> files_ok s' \<and> same_proc s s' \<and> same_files (files s) (files s') \<and> length bs \<le> 144"
    by (simp add: diskless_table_def fat_fstat_root_def l)
qed (auto simp: diskless_table_def fat_getdents_root_def)

end
