(* ===== verification/Proc_Props.thy ===== *)
theory Proc_Props
  imports Diskless
begin

text \<open>
  The process layer as a whole: its state after the start of the kernel, safety of the
  operations on tasks, the delivery of signals, and the way of an exit status to the parent.
\<close>

section \<open>The state after the start\<close>

text \<open>
  \<open>vfs_init\<close> (called by \<open>src/kernel/ke/main.c\<close>), the memory file system and its mount
  (\<open>src/kernel/fs/fs.c\<close>), \<open>task_init\<close>.
\<close>

definition kernel_boot :: "('n, 'a) ks \<Rightarrow> ('n, 'a) ks" where
  "kernel_boot s = task_init (vfs_mount_tmp RamfsOps (snd (ramfs_init (snd (vfs_init s)))))"

lemma count_kernel_fds: "count_list ((replicate 16 0)[0 := 1, 1 := 2, 2 := 3]) a > 0 \<Longrightarrow> a \<noteq> 0 \<Longrightarrow> is_static a" for a :: nat
  by (simp add: is_static_def numeral_nat split: if_splits)

lemma boot_kinv:
  assumes "kobj_ok s" "files s = Map.empty" "pipes s = Map.empty" "rfiles s = Map.empty" "g_cons s = cons_files"
  shows "kinv (kernel_boot s)"
proof -
  define s1 where "s1 = snd (ramfs_init (snd (vfs_init s)))"
  have k0: "kobj_ok (snd (vfs_init s))"
    using assms(1) by (simp add: vfs_init_def kobj_ok_def needs_def holds_def separate_def)
  have r: "ramfs_ok s1" unfolding s1_def by (rule init_ok [OF k0]) (simp add: vfs_init_def handles_ok_def assms)
  have f: "files s1 = Map.empty" "pipes s1 = Map.empty" "g_cons s1 = cons_files"
    "g_kernel_fds s1 = (replicate 16 0)[0 := 1, 1 := 2, 2 := 3]"
    using assms by (simp_all add: s1_def init_eq vfs_init_def)
  have "files_ok s1" using r f(1,2) by (simp add: files_ok_def pipe_sys_ok_def ramfs_okD(1))
  then have v1: "vfs_ok s1" using f by (simp add: vfs_ok_def cons_files_def zero_file_def)
  define s2 where "s2 = kernel_boot s"
  have s2: "s2 = s1\<lparr>g_tmp_ops := Some RamfsOps, g_tasks := replicate 8 zero_task, g_current := None, g_next_pid := 1, g_active_pml4 := paging_cr3 (kpg s1)\<rparr>"
    by (simp add: s2_def kernel_boot_def s1_def task_init_def vfs_mount_tmp_def)
  have v2: "vfs_ok s2" using v1
    by (simp add: s2 vfs_ok_def files_ok_def ramfs_ok_def pipe_sys_ok_def kobj_ok_def needs_def holds_def separate_def)
  have z: "task_at s2 t = zero_task" if "t < 8" for t using that by (simp add: s2)
  have w: "task_wf zero_task" by (simp add: task_wf_def zero_task_def)
  have so: "sched_ok s2" using w by (simp add: s2 sched_ok_def) (simp add: zero_task_def)
  have "refs s2 a = count_list ((replicate 16 0)[0 := 1, 1 := 2, 2 := 3]) a" for a
    using z by (simp add: refs_def task_refs_def) (simp add: s2 f zero_task_def)
  then have "fd_ok s2" using v2 so count_kernel_fds by (simp add: fd_ok_def tasks_wf_def sched_ok_def) (simp add: s2 f)
  then show ?thesis using so by (simp add: kinv_def s2_def)
qed

section \<open>Safety of the operations on tasks\<close>


section \<open>The delivery of signals\<close>

definition fatal :: "task \<Rightarrow> int \<Rightarrow> bool" where
  "fatal t sig \<longleftrightarrow> deliverable t sig \<and> signal_apply_one t sig"

definition clear_bits :: "int list \<Rightarrow> u64 \<Rightarrow> u64" where
  "clear_bits sigs m = fold (\<lambda>sig m. m AND NOT (sigbit sig)) sigs m"

lemma bit_clear_bits: "bit (clear_bits sigs m) k \<longleftrightarrow> bit m k \<and> \<not> (\<exists>sig\<in>set sigs. nat sig = k)"
proof (induction sigs arbitrary: m)
  case (Cons sig sigs)
  have "bit (m AND NOT (sigbit sig)) k \<longleftrightarrow> bit m k \<and> nat sig \<noteq> k"
    using bit_imp_le_length [of m k] by (auto simp: sigbit_def bit_simps)
  then show ?case using Cons [of "m AND NOT (sigbit sig)"] by (auto simp: clear_bits_def)
qed (simp add: clear_bits_def)

lemma deliver_loop_result:
  fixes pend :: u64 and sigs :: "int list"
  assumes "t < length (g_tasks s)"
  defines "ds \<equiv> filter (\<lambda>sig. pend AND sigbit sig \<noteq> 0 \<and> (sig = SIGKILL \<or> sig_blocked (task_at s t) AND sigbit sig = 0)) sigs"
  shows "deliver_loop F t pend sigs s =
    (case find (signal_apply_one (task_at s t)) ds of
       None \<Rightarrow> Ret () (upd_task t (\<lambda>tk. tk\<lparr>sig_pending := clear_bits ds (sig_pending tk)\<rparr>) s)
     | Some sig \<Rightarrow> task_exit_current F sig (upd_task t (\<lambda>tk. tk\<lparr>sig_pending := clear_bits (takeWhile (\<lambda>x. \<not> signal_apply_one (task_at s t) x) ds @ [sig])
         (sig_pending tk), term_sig := sig\<rparr>) s))"
  using assms(1) unfolding ds_def
proof (induction sigs arbitrary: s)
  case Nil
  have "upd_task t (\<lambda>tk. tk\<lparr>sig_pending := clear_bits [] (sig_pending tk)\<rparr>) s = s" by (simp add: upd_task_def clear_bits_def)
  then show ?case by simp
next
  case (Cons sig sigs)
  define s1 where "s1 = upd_task t (\<lambda>tk. tk\<lparr>sig_pending := sig_pending tk AND NOT (sigbit sig)\<rparr>) s"
  have a: "task_at s1 t = (task_at s t)\<lparr>sig_pending := sig_pending (task_at s t) AND NOT (sigbit sig)\<rparr>" "t < length (g_tasks s1)"
    using Cons.prems by (simp_all add: s1_def upd_task_at)
  have ap: "signal_apply_one (task_at s1 t) = signal_apply_one (task_at s t)" by (rule ext) (simp add: a signal_apply_one_def)
  have up: "upd_task t (\<lambda>tk. tk\<lparr>sig_pending := clear_bits xs (sig_pending tk)\<rparr>) s1
      = upd_task t (\<lambda>tk. tk\<lparr>sig_pending := clear_bits (sig # xs) (sig_pending tk)\<rparr>) s"
    "upd_task t (\<lambda>tk. tk\<lparr>sig_pending := clear_bits xs (sig_pending tk), term_sig := y\<rparr>) s1
      = upd_task t (\<lambda>tk. tk\<lparr>sig_pending := clear_bits (sig # xs) (sig_pending tk), term_sig := y\<rparr>) s" for xs y
    using Cons.prems by (simp_all add: s1_def upd_task_def clear_bits_def)
  have tm: "upd_task t (\<lambda>tk. tk\<lparr>term_sig := sig\<rparr>) s1 = upd_task t (\<lambda>tk. tk\<lparr>sig_pending := clear_bits [sig] (sig_pending tk), term_sig := sig\<rparr>) s"
    using Cons.prems by (simp add: s1_def upd_task_def clear_bits_def)
  define P where "P = (\<lambda>sig. pend AND sigbit sig \<noteq> 0 \<and> (sig = SIGKILL \<or> sig_blocked (task_at s t) AND sigbit sig = 0))"
  note IH = Cons.IH [OF Cons.prems, folded P_def]
  have IH1: "deliver_loop F t pend sigs s1 = (case find (signal_apply_one (task_at s t)) (filter P sigs) of
       None \<Rightarrow> Ret () (upd_task t (\<lambda>tk. tk\<lparr>sig_pending := clear_bits (sig # filter P sigs) (sig_pending tk)\<rparr>) s)
     | Some x \<Rightarrow> task_exit_current F x (upd_task t (\<lambda>tk. tk\<lparr>sig_pending := clear_bits (sig # takeWhile (\<lambda>x. \<not> signal_apply_one (task_at s t) x) (filter P sigs) @ [x])
         (sig_pending tk), term_sig := x\<rparr>) s))"
  proof -
    have b: "sig_blocked (task_at s1 t) = sig_blocked (task_at s t)" by (simp add: a)
    show ?thesis using Cons.IH [OF a(2)] unfolding b ap up P_def .
  qed
  show ?case unfolding P_def [symmetric]
  proof (cases "P sig")
    case False
    then have "deliver_loop F t pend (sig # sigs) s = deliver_loop F t pend sigs s" by (auto simp: P_def)
    moreover have "filter P (sig # sigs) = filter P sigs" using False by simp
    ultimately show "deliver_loop F t pend (sig # sigs) s = (case find (signal_apply_one (task_at s t)) (filter P (sig # sigs)) of
       None \<Rightarrow> Ret () (upd_task t (\<lambda>tk. tk\<lparr>sig_pending := clear_bits (filter P (sig # sigs)) (sig_pending tk)\<rparr>) s)
     | Some x \<Rightarrow> task_exit_current F x (upd_task t (\<lambda>tk. tk\<lparr>sig_pending := clear_bits (takeWhile (\<lambda>x. \<not> signal_apply_one (task_at s t) x) (filter P (sig # sigs)) @ [x])
         (sig_pending tk), term_sig := x\<rparr>) s))" using IH by (simp only:)
  next
    case True
    then have e: "deliver_loop F t pend (sig # sigs) s = (if signal_apply_one (task_at s t) sig
        then task_exit_current F sig (upd_task t (\<lambda>tk. tk\<lparr>term_sig := sig\<rparr>) s1) else deliver_loop F t pend sigs s1)"
      unfolding deliver_loop.simps Let_def s1_def [symmetric] ap P_def by auto
    have f: "filter P (sig # sigs) = sig # filter P sigs" using True by simp
    show "deliver_loop F t pend (sig # sigs) s = (case find (signal_apply_one (task_at s t)) (filter P (sig # sigs)) of
       None \<Rightarrow> Ret () (upd_task t (\<lambda>tk. tk\<lparr>sig_pending := clear_bits (filter P (sig # sigs)) (sig_pending tk)\<rparr>) s)
     | Some x \<Rightarrow> task_exit_current F x (upd_task t (\<lambda>tk. tk\<lparr>sig_pending := clear_bits (takeWhile (\<lambda>x. \<not> signal_apply_one (task_at s t) x) (filter P (sig # sigs)) @ [x])
         (sig_pending tk), term_sig := x\<rparr>) s))"
      unfolding e f tm IH1 by (simp split: option.split)
  qed
qed

lemma find_filter: "find P (filter Q xs) = find (\<lambda>x. Q x \<and> P x) xs"
  by (induction xs) auto

lemma set_until_found:
  fixes x :: int
  assumes "find P xs = Some x" "sorted_wrt (<) xs"
  shows "set (takeWhile (\<lambda>y. \<not> P y) xs @ [x]) = {y \<in> set xs. y \<le> x}"
  using assms
proof (induction xs)
  case (Cons d xs)
  show ?case
  proof (cases "P d")
    case True
    then show ?thesis using Cons.prems by auto
  next
    case False
    then have f: "find P xs = Some x" using Cons.prems by simp
    then have "x \<in> set xs" by (rule find_Some_nth)
    then have "d < x" using Cons.prems(2) by simp
    then show ?thesis using Cons.IH [OF f] Cons.prems(2) False by auto
  qed
qed simp

text \<open>
  C8. Delivery of signals, before the running task goes back to user mode. The pending
  signals that are not blocked are taken in the order of their numbers; blocking never
  applies to \<open>SIGKILL\<close>. If none of them ends the task, all of them are consumed, the blocked
  ones stay pending, and nothing else changes. Otherwise the task ends with the first that
  does, its number is the exit code, and exactly the signals up to it are consumed.
\<close>

theorem signal_delivery:
  assumes "sched_ok s" "task_current s = Some t"
  shows "case find (fatal (task_at s t)) (map int [1..<HELIX_NSIG]) of
      None \<Rightarrow> \<exists>p. signal_deliver_current F s = Ret () (upd_task t (\<lambda>tk. tk\<lparr>sig_pending := p\<rparr>) s)
        \<and> (\<forall>k. bit p k \<longleftrightarrow> bit (sig_pending (task_at s t)) k \<and> \<not> (1 \<le> k \<and> k < HELIX_NSIG \<and> deliverable (task_at s t) (int k)))
    | Some sig \<Rightarrow> \<exists>p. signal_deliver_current F s = task_exit_current F sig (upd_task t (\<lambda>tk. tk\<lparr>sig_pending := p, term_sig := sig\<rparr>) s)
        \<and> (\<forall>k. bit p k \<longleftrightarrow> bit (sig_pending (task_at s t)) k \<and> \<not> (1 \<le> k \<and> int k \<le> sig \<and> deliverable (task_at s t) (int k)))"
proof -
  define tk where "tk = task_at s t"
  define L where "L = map int [1..<32]"
  define ds where "ds = filter (deliverable tk) L"
  note O = sched_okD [OF assms(1)]
  have t: "t < 8" using assms(2) O(4) by (simp add: task_current_def)
  have run: "t_state tk = TASK_RUNNING" using O(3) [OF t] assms(2) by (simp add: task_current_def tk_def)
  have ds': "ds = filter (\<lambda>sig. sig_pending tk AND sigbit sig \<noteq> 0 \<and> (sig = 9 \<or> sig_blocked (task_at s t) AND sigbit sig = 0)) L"
    unfolding ds_def by (rule filter_cong) (simp_all add: deliverable_def tk_def)
  have tl: "t < length (g_tasks s)" using t O(1) by simp
  have loop: "deliver_loop F t (sig_pending tk) L s =
    (case find (signal_apply_one (task_at s t)) ds of
       None \<Rightarrow> Ret () (upd_task t (\<lambda>tk. tk\<lparr>sig_pending := clear_bits ds (sig_pending tk)\<rparr>) s)
     | Some sig \<Rightarrow> task_exit_current F sig (upd_task t (\<lambda>tk. tk\<lparr>sig_pending := clear_bits (takeWhile (\<lambda>x. \<not> signal_apply_one (task_at s t) x) ds @ [sig])
         (sig_pending tk), term_sig := sig\<rparr>) s))"
    unfolding ds' by (rule deliver_loop_result [OF tl])
  have zero: "deliverable tk sig \<Longrightarrow> sig_pending tk \<noteq> 0" for sig by (auto simp: deliverable_def)
  have del: "signal_deliver_current F s = deliver_loop F t (sig_pending tk) L s"
  proof (cases "sig_pending tk = 0")
    case True
    then have "ds = []" using zero by (auto simp: ds_def filter_empty_conv)
    moreover have "upd_task t (\<lambda>tk. tk\<lparr>sig_pending := clear_bits [] (sig_pending tk)\<rparr>) s = s" by (simp add: upd_task_def clear_bits_def)
    ultimately show ?thesis using loop True assms(2) run by (simp add: signal_deliver_current_def tk_def)
  next
    case False
    then show ?thesis using assms(2) run by (simp add: signal_deliver_current_def tk_def L_def)
  qed
  have ff: "find (signal_apply_one (task_at s t)) ds = find (fatal (task_at s t)) L"
    by (simp add: ds_def find_filter fatal_def [abs_def] tk_def)
  have up: "upd_task t (\<lambda>k. k\<lparr>sig_pending := clear_bits xs (sig_pending k)\<rparr>) s = upd_task t (\<lambda>k. k\<lparr>sig_pending := clear_bits xs (sig_pending tk)\<rparr>) s"
    "upd_task t (\<lambda>k. k\<lparr>sig_pending := clear_bits xs (sig_pending k), term_sig := x\<rparr>) s
      = upd_task t (\<lambda>k. k\<lparr>sig_pending := clear_bits xs (sig_pending tk), term_sig := x\<rparr>) s" for xs x
    by (simp_all add: upd_task_def tk_def)
  have mem: "(\<exists>sig\<in>set ds. nat sig = k) \<longleftrightarrow> 1 \<le> k \<and> k < 32 \<and> deliverable tk (int k)" for k
    by (auto simp: ds_def L_def intro!: bexI [of _ "int k"])
  show ?thesis
  proof (cases "find (fatal (task_at s t)) L")
    case None
    then show ?thesis
      unfolding L_def [symmetric] del loop ff up using mem
      by (auto simp: bit_clear_bits tk_def intro!: exI [of _ "clear_bits ds (sig_pending tk)"])
  next
    case (Some sig)
    define us where "us = takeWhile (\<lambda>x. \<not> signal_apply_one (task_at s t) x) ds @ [sig]"
    have "sorted_wrt (<) L" unfolding L_def by (simp add: sorted_wrt_map sorted_wrt_upt)
    then have srt: "sorted_wrt (<) ds" unfolding ds_def by (rule sorted_wrt_filter)
    have us: "set us = {y \<in> set ds. y \<le> sig}" unfolding us_def by (rule set_until_found [OF _ srt]) (simp add: ff Some)
    have s32: "sig < 32" using find_Some_nth [OF Some] by (auto simp: L_def)
    have "(\<exists>x\<in>set us. nat x = k) \<longleftrightarrow> 1 \<le> k \<and> int k \<le> sig \<and> deliverable tk (int k)" for k
      unfolding us using s32 by (auto simp: ds_def L_def intro!: bexI [of _ "int k"])
    then have bits: "bit (clear_bits us (sig_pending tk)) k \<longleftrightarrow> bit (sig_pending tk) k \<and> \<not> (1 \<le> k \<and> int k \<le> sig \<and> deliverable tk (int k))" for k
      by (simp add: bit_clear_bits)
    have "signal_deliver_current F s = task_exit_current F sig (upd_task t (\<lambda>k. k\<lparr>sig_pending := clear_bits us (sig_pending tk), term_sig := sig\<rparr>) s)"
      unfolding del loop ff up us_def Some by simp
    then show ?thesis unfolding L_def [symmetric] tk_def [symmetric] Some [folded tk_def] using bits by (auto intro!: exI [of _ "clear_bits us (sig_pending tk)"])
  qed
qed
section \<open>From exit to wait\<close>

lemma wait_finds:
  assumes "sched_ok s" "c < 8" "t_state (task_at s c) = TASK_ZOMBIE" "t_parent (task_at s c) = Some p"
  shows "find (\<lambda>i. t_state (task_at s i) = TASK_ZOMBIE) (waited p (pid (task_at s c)) s) = Some c"
proof -
  note O = sched_okD [OF assms(1)]
  have pos: "0 < pid (task_at s c)" using O(6) [OF assms(2)] assms(3) by simp
  have "waited p (pid (task_at s c)) s = [c]"
  proof -
    have "v = c" if "v < 8" "t_state (task_at s v) \<noteq> TASK_UNUSED" "pid (task_at s v) = pid (task_at s c)" for v
      using O(7) [OF that(1) assms(2) that(2)] assms(3) that(3) by simp
    then have "waited p (pid (task_at s c)) s = filter (\<lambda>i. i = c) [0..<8]"
      unfolding waited_def using assms pos by (intro filter_cong) auto
    also have "\<dots> = [c]" using assms(2) by (simp add: upt_conv_Cons)
    finally show ?thesis .
  qed
  then show ?thesis using assms(3) by simp
qed


section \<open>A state to run the model on\<close>

definition raw_kernel :: "unit kst" where
  "raw_kernel = \<lparr>kheap = fs_pool, files = Map.empty, pipes = Map.empty, rfiles = Map.empty, bufs = Map.empty, garbage = (\<lambda>_. 0),
     g_nodes = replicate 64 zero_node, g_tmp_root = -1, knet = boot_tcp,
     kpg = \<lparr>pt_pmm = demo_pmm, pmem = (\<lambda>_. 0), g_mapped_ceiling = 0, g_cr3 = 0, g_pml4 = 0, g_kernel_pml4 = 0\<rparr>,
     ktimer = \<lparr>g_ticks = 0, g_heartbeat_due = 0, g_hz = 100, g_preempt_pending = 0\<rparr>, kps2 = demo_ps2, serial_in = [], serial_out = [],
     g_tasks = [], g_current = None, g_next_pid = 0, g_active_pml4 = 0, g_syscall_kstack = 0, tss_rsp0 = 0, g_exit_all_hook = False,
     g_root_ops = None, g_tmp_ops = None, g_kernel_fds = [], g_cons = cons_files, g_user_line = [], fb_bump = 0x41000000,
     anon_bump = 0x42000000, anon_bump2 = 0x42800000, g_lfsr_state = 0xA5B9D1E3C7F20486, fs_base = 0\<rparr>"

lemma raw_ok: "kobj_ok raw_kernel"
  using fs_pool_live(1) by (simp add: raw_kernel_def kobj_ok_def needs_def separate_def)

text \<open>Two tasks, the second running, the first its parent.\<close>

definition demo_task :: "int \<Rightarrow> task_state \<Rightarrow> task" where
  "demo_task n st = zero_task\<lparr>pid := n, t_state := st, fds := (replicate 16 0)[0 := g_cons_in, 1 := g_cons_out, 2 := g_cons_err]\<rparr>"

definition demo_procs :: "unit kst" where
  "demo_procs = kernel_boot raw_kernel\<lparr>g_tasks := (replicate 8 zero_task)[0 := demo_task 1 TASK_READY,
     1 := (demo_task 2 TASK_RUNNING)\<lparr>t_parent := Some 0\<rparr>], g_current := Some 1, g_next_pid := 3\<rparr>"

lemma demo_procs_at:
  "task_at demo_procs 0 = demo_task 1 TASK_READY" "task_at demo_procs 1 = (demo_task 2 TASK_RUNNING)\<lparr>t_parent := Some 0\<rparr>"
  "1 < t \<Longrightarrow> t < 8 \<Longrightarrow> task_at demo_procs t = zero_task" "g_current demo_procs = Some 1" "length (g_tasks demo_procs) = 8"
  "g_next_pid demo_procs = 3"
  by (simp_all add: demo_procs_def)

lemma demo_procs_live:
  assumes "t < 8" "t_state (task_at demo_procs t) \<noteq> TASK_UNUSED"
  shows "t = 0 \<or> t = 1"
proof (rule ccontr)
  assume "\<not> (t = 0 \<or> t = 1)"
  then have "1 < t" by auto
  then show False using demo_procs_at(3) [OF _ assms(1)] assms(2) by (simp add: zero_task_def)
qed
lemma demo_fds: "a \<notin> {0, 1, 2, 3} \<Longrightarrow> count_list ((replicate 16 0)[0 := 1, 1 := 2, 2 := 3]) a = 0" for a :: nat
  by (simp add: numeral_nat)

lemma demo_procs_ok: "kinv demo_procs"
proof -
  have b: "kinv (kernel_boot raw_kernel)" by (rule boot_kinv [OF raw_ok]) (simp_all add: raw_kernel_def)
  have v: "vfs_ok demo_procs" using kinvD(3) [OF b]
    by (simp add: demo_procs_def vfs_ok_def files_ok_def ramfs_ok_def pipe_sys_ok_def kobj_ok_def needs_def holds_def separate_def)
  have w: "task_wf (task_at demo_procs t)" if "t < 8" for t
    using that demo_procs_at by (cases "t = 0"; cases "t = 1") (simp_all add: task_wf_def demo_task_def zero_task_def)
  have k: "g_kernel_fds demo_procs = (replicate 16 0)[0 := 1, 1 := 2, 2 := 3]"
    by (simp add: demo_procs_def kernel_boot_def task_init_def vfs_mount_tmp_def init_eq vfs_init_def)
  have so: "sched_ok demo_procs"
    unfolding sched_ok_def
  proof (intro conjI allI impI)
    fix t :: nat assume t: "t < 8"
    show "(t_state (task_at demo_procs t) = TASK_RUNNING) = (g_current demo_procs = Some t)"
      using t demo_procs_at by (cases "t = 0"; cases "t = 1") (simp_all add: demo_task_def zero_task_def)
    show "0 < pid (task_at demo_procs t)" "pid (task_at demo_procs t) < g_next_pid demo_procs" if "t_state (task_at demo_procs t) \<noteq> TASK_UNUSED"
      using demo_procs_live [OF t that] demo_procs_at(1,2,6) by (elim disjE; simp add: demo_task_def)+
    fix u :: nat assume u: "u < 8" "t_state (task_at demo_procs t) \<noteq> TASK_UNUSED" "t_state (task_at demo_procs u) \<noteq> TASK_UNUSED"
      "pid (task_at demo_procs t) = pid (task_at demo_procs u)"
    have "pid (task_at demo_procs 0) \<noteq> pid (task_at demo_procs 1)" unfolding demo_procs_at(1,2) by (simp add: demo_task_def)
    then show "t = u" using demo_procs_live [OF t u(2)] demo_procs_live [OF u(1,3)] u(4) by metis
  qed (use w in \<open>simp_all add: demo_procs_at\<close>)
  have "task_refs (task_at demo_procs t) a = 0" if "t < 8" "a \<notin> {0, 1, 2, 3}" for t a
    using that demo_fds [OF that(2)] demo_procs_at by (cases "t = 0"; cases "t = 1") (simp_all add: task_refs_def demo_task_def zero_task_def)
  then have "refs demo_procs a = 0" if "a \<notin> {0, 1, 2, 3}" for a using that demo_fds [OF that] by (simp add: refs_def k)
  then have "is_static a" if "a \<noteq> 0" "0 < refs demo_procs a" for a using that by (fastforce simp: is_static_def)
  then have "fd_ok demo_procs" using v w k by (simp add: fd_ok_def tasks_wf_def demo_procs_at)
  then show ?thesis using so by (simp add: kinv_def)
qed

theorem ready_task_runs_witness: "\<exists>k\<le>ahead 1 0. g_current ((task_yield ^^ k) demo_procs) = Some 0"
  using ready_task_runs [OF kinvD(1) [OF demo_procs_ok], of 1 0] demo_procs_at by (auto simp: demo_task_def)


definition demo_signals :: "unit kst" where
  "demo_signals = upd_task 1 (\<lambda>tk. tk\<lparr>sig_pending := 0x20004\<rparr>) demo_procs"

text \<open>\<open>SIGINT\<close> and \<open>SIGCHLD\<close> are pending.\<close>

theorem signal_delivery_witness:
  "\<exists>p. signal_deliver_current diskless_table demo_signals =
     task_exit_current diskless_table SIGINT (upd_task 1 (\<lambda>tk. tk\<lparr>sig_pending := p, term_sig := SIGINT\<rparr>) demo_signals)"
proof -
  have k: "kinv demo_signals" unfolding demo_signals_def by (rule kinv_upd [OF demo_procs_ok]) simp_all
  have c: "task_current demo_signals = Some 1" by (simp add: demo_signals_def task_current_def demo_procs_at)
  have tk: "task_at demo_signals 1 = (demo_task 2 TASK_RUNNING)\<lparr>t_parent := Some 0, sig_pending := 0x20004\<rparr>"
    using demo_procs_at by (simp add: demo_signals_def upd_task_at)
  have "fatal (task_at demo_signals 1) 2" "\<not> fatal (task_at demo_signals 1) 1"
    unfolding tk by (simp_all add: fatal_def deliverable_def signal_apply_one_def sigbit_def demo_task_def zero_task_def default_action_def
        sig_default_terminate_def Let_def)
  then have "find (fatal (task_at demo_signals 1)) (map int [1..<32]) = Some 2" by (simp add: upt_conv_Cons)
  then show ?thesis using signal_delivery [OF kinvD(1) [OF k] c, of diskless_table] by auto
qed


end
