(* ===== verification/Spec2Isabelle.thy ===== *)
theory Spec2Isabelle
  imports LibK KHeap Pipe Ps2 NetStack Ramfs_Data Paging_Maps Vmm_Spaces Proc_Props
begin

text \<open>
  HelixOS is a small x86-64 kernel in C: it boots under UEFI, manages physical and virtual
  memory, runs user tasks under a cooperative scheduler, and offers files, pipes and sockets
  through a subset of the Linux system calls. This library models its core and proves the
  properties that make each part correct. All paths below are relative to \<open>src/\<close>.

  \<^bold>\<open>How the code is modelled.\<close> The static variables of a C file form a record, and a function
  of the file is a definition that takes and returns that record; error returns are the
  values of the C function. Words are used where bits matter, \<open>nat\<close> with \<open>wrap64\<close> for sizes
  and addresses, lists of bytes for buffers. Devices are parameters: a network card is a
  record of functions, the contents of a port an argument. A wild memory access and a loop
  that does not end give \<open>None\<close>, and the theorems say where this cannot happen. Output on
  the log is left out.

  \<^bold>\<open>The parts and their theories.\<close>

  \<^item> \<open>Helix_Prelude\<close>: integer types, alignment, error numbers, generic lemmas
    (\<open>include/helix/types.h\<close>).

  \<^item> \<open>Pmm\<close>: the physical page allocator (\<open>kernel/mm/pmm.c\<close>). Bitmap, reference counts and
    counter agree; contiguous allocation is first fit; reference counting frees a page with
    its last owner; initialisation leaves exactly the usable pages free.

  \<^item> \<open>KHeap\<close>: the kernel heap (\<open>kernel/mm/heap.c\<close>), refined to a partition of the heap into
    free and live blocks. First fit, coalescing, round trip of allocation and release, and
    safety of every sequence of calls. The locale \<open>allocator\<close> is what clients rely on; it is
    interpreted on \<open>kmalloc\<close> and \<open>kfree\<close>. The walks over the free list carry fuel, one more
    than the number of blocks that fit in the heap, which is enough for every well-formed list.

  \<^item> \<open>LibK\<close>: \<open>libk/string.c\<close> and the number formatting of \<open>libk/kprintf.c\<close>. Copying is correct
    for overlapping buffers; printed numbers read back.

  \<^item> \<open>Ring\<close>, \<open>Kobj\<close>, \<open>Pipe\<close>: ring buffers as queues (locale and interpretations), the objects
    the file layer keeps on the heap, and pipes (\<open>kernel/fs/pipe.c\<close>): a pipe is a bounded
    FIFO, and closing both ends releases everything.

  \<^item> \<open>Hw\<close>, \<open>Ps2\<close>: interrupt controller, timers, calendar (\<open>kernel/arch/x86_64/pic.c\<close>,
    \<open>pit.c\<close>, \<open>timer.c\<close>), keyboard and mouse (\<open>kernel/drv/ps2.c\<close>) and the interrupt dispatch
    (\<open>irq.c\<close>).

  \<^item> \<open>Wire\<close>, \<open>Net\<close>, \<open>Udp\<close>, \<open>Tcp\<close>, \<open>Tcp_Props\<close>, \<open>NetStack\<close>: byte order and checksums, Ethernet,
    ARP, IPv4 and ICMP (\<open>kernel/net/net.c\<close>, \<open>nic.c\<close>), UDP (\<open>udp.c\<close>), TCP (\<open>tcp.c\<close>), and the
    whole receive path. Datagrams and TCP data arrive from one host's socket in another's;
    the tables stay well-typed; retransmission gives up; the state machine moves only along
    the listed transitions.

  \<^item> \<open>Ramfs\<close>, \<open>Ramfs_Props\<close>, \<open>Ramfs_Data\<close>: the memory file system (\<open>kernel/fs/ramfs.c\<close>). The
    nodes form a tree under every call, every call returns, and what is written is read back.

  \<^item> \<open>Paging\<close>, \<open>Paging_Props\<close>, \<open>Paging_Maps\<close>: four-level page tables
    (\<open>kernel/arch/x86_64/paging.c\<close>). Mapping and unmapping change the translation of one page
    only, also when a large page is split or tables are released; the boot map is the identity.

  \<^item> \<open>Vmm\<close>, \<open>Vmm_Props\<close>, \<open>Vmm_Fork\<close>, \<open>Vmm_Spaces\<close>: address spaces (\<open>kernel/mm/vmm.c\<close>). A cloned
    kernel space translates like the kernel's; after a fork parent and child share no user page.

  \<^item> \<open>Vfs_Path\<close>: path resolution (\<open>kernel/fs/vfs.c\<close>), equal to a lexical reference.

  \<^item> \<open>Kstate\<close>: the state of the process layer, one record over the states of the parts below,
    and the serial line (\<open>libk/serial.c\<close>).

  \<^item> \<open>Signals\<close>, \<open>Task\<close>: signals (\<open>kernel/proc/signal.c\<close>), tasks and the scheduler
    (\<open>kernel/proc/task.c\<close>). \<open>Task_Props\<close>: the invariant of the task table; round robin lets
    every ready task run.

  \<^item> \<open>Vfs\<close>: the file layer (\<open>kernel/fs/vfs.c\<close>): console, mounts, dispatch, descriptors.
    \<open>Vfs_Laws\<close>: the contract of a file system (locale \<open>file_system\<close>), kept by the memory file
    system. \<open>Vfs_Props\<close>: what the layer makes of it (locale \<open>disk\<close>, the contract of the disk
    file system). \<open>Diskless\<close>: the disk operations on a machine without a volume keep it.

  \<^item> \<open>Fd_Props\<close>, \<open>Task_Inv\<close>: every descriptor of every task leads to a file, and the reference
    count of a file is at least the number of its descriptors; every operation on descriptors
    and tasks keeps this. \<open>Proc_Props\<close>: the resulting safety theorem, the delivery of
    signals, and the way of an exit status to the parent.

  \<^bold>\<open>How they interact.\<close> \<open>Paging\<close> and \<open>Vmm\<close> take pages from \<open>Pmm\<close>, \<open>KHeap\<close> takes its arena from it
  once; \<open>Kobj\<close>, \<open>Pipe\<close> and \<open>Ramfs\<close> keep their objects on \<open>KHeap\<close> and use it only through the
  interface \<open>allocator\<close>; TCP extends the state of UDP, which extends that of the lower layers.

  \<open>Vfs\<close> dispatches to \<open>Ramfs\<close>, \<open>Pipe\<close> and the disk, \<open>Task\<close> uses \<open>Vfs\<close> for the descriptors of a
  task and \<open>Vmm\<close> for its address space.

  \<^bold>\<open>Not modelled.\<close> The sectors of the FAT file system (a parameter with a contract), the
  system call handlers and the program loader. Drivers that program device registers and DMA rings, the descriptor tables
  of the processor, the boot loader and the user programs: their effect is that of hardware,
  firmware or of code outside the kernel. The manifest lists every part with its reason.
\<close>

end
